(* ===== verification/Lax_Prelude.thy ===== *)
theory Lax_Prelude
  imports Main "HOL-Library.Word"
begin

text \<open>
  Shared vocabulary of the development: machine types, faults, the byte level of the C++
  code (\<open>memcpy\<close> into a block, little endian words) and the collections of hints the
  component theories fill.

  \<^item> \<open>lax_inv\<close> collects the preservation lemmas of the component invariants;
  \<^item> \<open>lax_abs\<close> collects the equations that describe an operation on the abstract value
    of its component (contents of a buffer, live ids of a sequence, ...).

  The code is read as its release build reads it: \<open>VERIFY\<close>, \<open>EXPECT\<close> and \<open>ENSURE\<close>
  (\<open>include/lax/util/macros.hpp\<close>) expand to nothing there, because \<open>config.hpp\<close> sets
  \<open>LAX_ENABLE_RELEASE_CHECK\<close> to 0, so a violated check does not stop the code. What the
  code would then do outside the C++ rules (an access out of bounds, an exception that
  leaves the handler) is a value of \<open>fault\<close>.
\<close>

named_theorems lax_inv "preservation of component invariants"
named_theorems lax_abs "operations on abstract values"

section \<open>Machine types and faults\<close>

type_synonym byte = "8 word"
type_synonym u16 = "16 word"
type_synonym u32 = "32 word"

datatype fault =
    Out_of_bounds            \<comment> \<open>an access outside an allocated block or a container\<close>
  | Thrown string            \<comment> \<open>a C++ exception leaves the function\<close>

lemma not_isl_Inr: "\<not> isl x \<Longrightarrow> \<exists>y. x = Inr y"
  by (cases x) auto

section \<open>Lists as memory blocks\<close>

text \<open>\<open>blit i xs ys\<close> is \<open>memcpy (ys + i, xs, length xs)\<close> on a block \<open>ys\<close>.\<close>

definition blit :: "nat \<Rightarrow> 'a list \<Rightarrow> 'a list \<Rightarrow> 'a list" where
  "blit i xs ys = take i ys @ xs @ drop (i + length xs) ys"

lemma length_blit [simp]: "i + length xs \<le> length ys \<Longrightarrow> length (blit i xs ys) = length ys"
  by (simp add: blit_def)

lemma blit_Nil [simp]: "blit i [] ys = ys"
  by (simp add: blit_def)

lemma take_blit_end:
  "i + length xs \<le> length ys \<Longrightarrow> take (i + length xs) (blit i xs ys) = take i ys @ xs"
  by (simp add: blit_def)

lemma take_blit_before: "n \<le> i \<Longrightarrow> i \<le> length ys \<Longrightarrow> take n (blit i xs ys) = take n ys"
  by (simp add: blit_def min_absorb1)

lemma drop_blit_after:
  "i + length xs \<le> n \<Longrightarrow> i + length xs \<le> length ys \<Longrightarrow> drop n (blit i xs ys) = drop n ys"
  by (simp add: blit_def)

lemma take_blit_after:
  assumes "i + length xs \<le> n" "n \<le> length ys"
  shows "take n (blit i xs ys) = blit i xs (take n ys)"
  using assms by (simp add: blit_def take_drop min_absorb1)

lemma blit_nth:
  "i + length xs \<le> length ys \<Longrightarrow> k < length ys \<Longrightarrow>
    blit i xs ys ! k = (if i \<le> k \<and> k < i + length xs then xs ! (k - i) else ys ! k)"
  by (auto simp: blit_def nth_append min_def)

lemma blit_single: "i < length ys \<Longrightarrow> blit i [x] ys = ys[i := x]"
  by (rule nth_equalityI) (auto simp: blit_nth nth_list_update)

lemma blit_append_left:
  "i + length xs \<le> length ys \<Longrightarrow> blit i xs (ys @ zs) = blit i xs ys @ zs"
  by (simp add: blit_def)

lemma blit_take_id: "blit 0 (take n ys) ys = ys"
  by (cases "n \<le> length ys") (simp_all add: blit_def min_absorb2)

section \<open>Little endian words\<close>

definition le32 :: "u32 \<Rightarrow> byte list" where
  "le32 w = [ucast w, ucast (drop_bit 8 w), ucast (drop_bit 16 w), ucast (drop_bit 24 w)]"

fun of_le32 :: "byte list \<Rightarrow> u32" where
  "of_le32 (a # b # c # d # _) =
     or (or (or (ucast a) (push_bit 8 (ucast b))) (push_bit 16 (ucast c))) (push_bit 24 (ucast d))"
| "of_le32 _ = 0"

lemma length_le32 [simp]: "length (le32 w) = 4"
  by (simp add: le32_def)

lemma le32_bytes:
  "or (or (or (ucast (ucast w :: byte)) (push_bit 8 (ucast (ucast (drop_bit 8 w) :: byte))))
     (push_bit 16 (ucast (ucast (drop_bit 16 w) :: byte))))
     (push_bit 24 (ucast (ucast (drop_bit 24 w) :: byte))) = (w :: u32)"
proof (rule bit_word_eqI)
  fix n assume "n < LENGTH(32)"
  then have n: "n < 32" by simp
  consider "n < 8" | "8 \<le> n" "n < 16" | "16 \<le> n" "n < 24" | "24 \<le> n" by linarith
  then show "bit (or (or (or (ucast (ucast w :: byte) :: u32) (push_bit 8 (ucast (ucast (drop_bit 8 w) :: byte))))
     (push_bit 16 (ucast (ucast (drop_bit 16 w) :: byte))))
     (push_bit 24 (ucast (ucast (drop_bit 24 w) :: byte)))) n = bit w n"
    using n by cases (auto simp: bit_simps)
qed

lemma of_le32_le32 [simp]: "of_le32 (le32 w @ xs) = w"
  by (simp add: le32_def le32_bytes)

lemma of_le32_take: "4 \<le> n \<Longrightarrow> of_le32 (take n xs) = of_le32 xs"
proof -
  assume n: "4 \<le> n"
  then obtain m where m: "n = Suc (Suc (Suc (Suc m)))"
    by (auto simp: numeral_eq_Suc Suc_le_eq dest!: less_imp_Suc_add)
  show ?thesis
    by (cases xs rule: of_le32.cases) (simp_all add: m)
qed

section \<open>Counting on unsigned words\<close>

lemma unat_plus1: "(x::'w::len word) < y \<Longrightarrow> unat (x + 1) = Suc (unat x)"
proof -
  assume "x < y"
  then have "unat x < unat y" by (simp add: word_less_nat_alt)
  moreover have "unat y < 2 ^ LENGTH('w)" by (rule unsigned_less)
  ultimately have "unat x + 1 < 2 ^ LENGTH('w)" by linarith
  then show ?thesis by (simp add: unat_word_ariths unat_eq_0)
qed

lemma word_less_plus1_iff: "(x::'w::len word) < y \<Longrightarrow> z < x + 1 \<longleftrightarrow> z \<le> x"
  by (simp add: word_less_nat_alt word_le_nat_alt unat_plus1 less_Suc_eq_le)

lemma word_le_plus1: "(x::'w::len word) < y \<Longrightarrow> b \<le> x \<Longrightarrow> b \<le> x + 1"
  by (simp add: word_less_nat_alt word_le_nat_alt unat_plus1)

lemma word_plus1_le: "(x::'w::len word) < y \<Longrightarrow> x + 1 \<le> y"
  by (simp add: word_less_nat_alt word_le_nat_alt unat_plus1)

lemma word_interval_plus1:
  "(x::'w::len word) < y \<Longrightarrow> b \<le> x \<Longrightarrow> {b..<x + 1} = insert x {b..<x}"
  by (auto simp: word_less_plus1_iff)

section \<open>Searches and logs\<close>

lemma length_filter_upd:
  "i < length xs \<Longrightarrow> P (f (xs ! i)) = P (xs ! i) \<Longrightarrow>
    length (filter P (xs[i := f (xs ! i)])) = length (filter P xs)"
proof (induction xs arbitrary: i)
  case Nil
  then show ?case by simp
next
  case (Cons x xs)
  then show ?case by (cases i) auto
qed

lemma fold_append_log: "fold (\<lambda>x w. w @ [f x]) xs w = w @ map f xs"
  by (induction xs arbitrary: w) auto

end
