(* ===== verification/Bitsery.thy ===== *)
theory Bitsery
  imports Lax_Prelude "HOL-Library.Sublist"
begin

text \<open>
  The part of bitsery the messages are written and read with
  (\<open>ext/bitsery/include/bitsery\<close>): sizes (\<open>details/adapter_utils.h\<close>), the input adapter over
  a buffer (\<open>adapter/buffer.h\<close>, \<open>adapter_reader.h\<close>), the serializer and the deserializer with
  their containers (\<open>serializer.h\<close>, \<open>deserializer.h\<close>), maps and sets (\<open>ext/std_map.h\<close>,
  \<open>ext/std_set.h\<close>) and what \<open>flexible.h\<close> makes of \<open>archive\<close>. A type of the C++ program is a
  \<open>btype\<close>; a value of it is a \<open>bval\<close>.

  The writer is the list of the writes it makes on the output adapter, which \<open>Bits_Message\<close>
  models. Bit packing, sessions and the pointer and stream extensions, which lax does not use,
  are left out.
\<close>

section \<open>Numbers as bytes\<close>

text \<open>The bytes of an integral value of \<open>n\<close> bytes; the machine and the wire are little endian.\<close>

fun le_bytes :: "nat \<Rightarrow> nat \<Rightarrow> byte list" where
  "le_bytes 0 v = []"
| "le_bytes (Suc n) v = word_of_nat v # le_bytes n (v div 256)"

fun of_le :: "byte list \<Rightarrow> nat" where
  "of_le [] = 0"
| "of_le (b # bs) = unat b + 256 * of_le bs"

lemma length_le_bytes [simp]: "length (le_bytes n v) = n"
  by (induction n arbitrary: v) auto

lemma of_le_bytes: "of_le (le_bytes n v) = v mod 256 ^ n"
proof (induction n arbitrary: v)
  case (Suc n)
  have "v mod 256 ^ Suc n = v mod 256 + 256 * (v div 256 mod 256 ^ n)"
    by (simp add: mod_mult2_eq)
  then show ?case using Suc by (simp add: unat_of_nat)
qed simp

declare le_bytes.simps [simp del]

lemma of_le_zeros [simp]: "of_le (replicate n 0) = 0"
  by (induction n) auto

section \<open>InputBufferAdapter and AdapterReader\<close>

text \<open>
  The iterators of the adapter are offsets into the buffer. An error is where \<open>posIt\<close> stands
  behind \<open>endIt\<close>: the distance is the value of the \<open>ReaderError\<close>.
\<close>

record reader =
  rd_data :: "byte list"
  rd_pos :: nat
  rd_end :: nat

definition NoError :: nat where "NoError = 0"
definition DataOverflow :: nat where "DataOverflow = 2"
definition InvalidData :: nat where "InvalidData = 3"

definition reader_new :: "byte list \<Rightarrow> reader" where
  "reader_new bs = \<lparr>rd_data = bs, rd_pos = 0, rd_end = length bs\<rparr>"

definition rd_error :: "reader \<Rightarrow> nat" where
  "rd_error r = (if rd_end r < rd_pos r then rd_pos r - rd_end r else NoError)"

definition adapter_set_error :: "nat \<Rightarrow> reader \<Rightarrow> reader" where
  "adapter_set_error e r = r\<lparr>rd_end := rd_pos r, rd_pos := rd_pos r + e\<rparr>"

definition adapter_read :: "nat \<Rightarrow> reader \<Rightarrow> byte list \<times> reader" where
  "adapter_read n r =
     (if rd_pos r + n \<le> rd_end r
      then (take n (drop (rd_pos r) (rd_data r)), r\<lparr>rd_pos := rd_pos r + n\<rparr>)
      else (replicate n 0, if rd_error r = NoError then adapter_set_error DataOverflow r else r))"

definition rd_completed :: "reader \<Rightarrow> bool" where
  "rd_completed r \<longleftrightarrow> rd_pos r = rd_end r"

text \<open>\<open>AdapterReader::setError\<close> keeps the first error.\<close>

definition rd_set_error :: "nat \<Rightarrow> reader \<Rightarrow> reader" where
  "rd_set_error e r = (if rd_error r = NoError then adapter_set_error e r else r)"

section \<open>Sizes\<close>

text \<open>The masks and shifts of the source on sizes that are natural numbers.\<close>

definition write_size :: "nat \<Rightarrow> byte list list" where
  "write_size sz =
     (if sz < 0x80 then [le_bytes 1 sz]
      else if sz < 0x4000 then [le_bytes 1 (or (sz div 2 ^ 8) 0x80), le_bytes 1 sz]
      else [le_bytes 1 (or (sz div 2 ^ 24) 0xC0), le_bytes 1 (sz div 2 ^ 16), le_bytes 2 sz])"

definition read_size :: "nat \<Rightarrow> reader \<Rightarrow> nat \<times> reader" where
  "read_size maxSize r =
     (let (h, r1) = adapter_read 1 r;
          hb = of_le h;
          (sz, r') =
            (if hb < 0x80 then (hb, r1)
             else (let (l, r2) = adapter_read 1 r1
                   in if and hb 0x40 \<noteq> 0
                      then (let (lw, r3) = adapter_read 2 r2
                            in ((and hb 0x3F * 2 ^ 8 + of_le l) * 2 ^ 16 + of_le lw, r3))
                      else (and hb 0x7F * 2 ^ 8 + of_le l, r2)))
      in if maxSize < sz then (0, rd_set_error InvalidData r') else (sz, r'))"

text \<open>The bound \<open>flexible\<close> passes for a container: the largest \<open>size_t\<close>.\<close>

definition size_max :: nat where "size_max = 2 ^ 64 - 1"

section \<open>Types and values\<close>

text \<open>
  \<^item> \<open>TBool\<close>: a member of type \<open>bool\<close>; \<open>TValue n\<close>: an integer, an enum or a float of \<open>n\<close> bytes,
    and an element of type \<open>bool\<close> of a container, which is fundamental there;
  \<^item> \<open>TSeq c t\<close>: a container that can be resized, \<open>c\<close> when it is contiguous (\<open>vector\<close>, \<open>string\<close>;
    not \<open>list\<close>, \<open>deque\<close>); \<open>TArray n t\<close>: \<open>std::array\<close> of \<open>n\<close>;
  \<^item> \<open>TSet o t\<close> and \<open>TMap o k t\<close>: \<open>std::set\<close> and \<open>std::map\<close> with the comparison number \<open>o\<close>;
  \<^item> \<open>TObject ts\<close>: a class whose \<open>serialize\<close> archives members of the types \<open>ts\<close>.
\<close>

datatype btype =
    TBool
  | TValue nat
  | TSeq bool btype
  | TArray nat btype
  | TSet nat btype
  | TMap nat btype btype
  | TObject "btype list"

datatype bval =
    BBool bool
  | BValue nat                    \<comment> \<open>the bits of the value\<close>
  | BSeq "bval list"
  | BMap "(bval \<times> bval) list"    \<comment> \<open>in the order of the iterators\<close>

fun value_size :: "btype \<Rightarrow> nat option" where
  "value_size (TValue n) = Some n"
| "value_size _ = None"

text \<open>\<open>procContainer\<close> of the serializer: one write for the whole of a contiguous container of values.\<close>

definition one_write :: "byte list \<Rightarrow> byte list list" where
  "one_write bs = (if bs = [] then [] else [bs])"

fun ser :: "btype \<Rightarrow> bval \<Rightarrow> byte list list"
  and ser_fields :: "btype list \<Rightarrow> bval list \<Rightarrow> byte list list" where
  "ser TBool (BBool b) = [[if b then 1 else 0]]"
| "ser (TValue n) (BValue v) = [le_bytes n v]"
| "ser (TSeq c t) (BSeq vs) = write_size (length vs) @
     (if c \<and> value_size t \<noteq> None then one_write (concat (concat (map (\<lambda>v. ser t v) vs)))
      else concat (map (\<lambda>v. ser t v) vs))"
| "ser (TArray n t) (BSeq vs) =
     (if value_size t \<noteq> None then one_write (concat (concat (map (\<lambda>v. ser t v) vs)))
      else concat (map (\<lambda>v. ser t v) vs))"
| "ser (TSet o' t) (BSeq vs) = write_size (length vs) @ concat (map (\<lambda>v. ser t v) vs)"
| "ser (TMap o' k t) (BMap kvs) = write_size (length kvs) @ concat (map (\<lambda>kv. ser k (fst kv) @ ser t (snd kv)) kvs)"
| "ser (TObject ts) (BSeq vs) = ser_fields ts vs"
| "ser _ _ = []"
| "ser_fields (t # ts) (v # vs) = ser t v @ ser_fields ts vs"
| "ser_fields _ _ = []"

section \<open>The deserializer\<close>

text \<open>The loops over the elements of a container.\<close>

fun read_n :: "nat \<Rightarrow> (reader \<Rightarrow> 'a \<times> reader) \<Rightarrow> reader \<Rightarrow> 'a list \<times> reader" where
  "read_n 0 d r = ([], r)"
| "read_n (Suc n) d r = (let (x, r1) = d r; (xs, r2) = read_n n d r1 in (x # xs, r2))"

text \<open>\<open>readBuffer\<close> of \<open>count\<close> values of \<open>n\<close> bytes.\<close>

fun split_values :: "nat \<Rightarrow> nat \<Rightarrow> byte list \<Rightarrow> bval list" where
  "split_values n 0 bs = []"
| "split_values n (Suc k) bs = BValue (of_le (take n bs)) # split_values n k (drop n bs)"

definition read_values :: "nat \<Rightarrow> nat \<Rightarrow> reader \<Rightarrow> bval list \<times> reader" where
  "read_values n count r =
     (if count = 0 then ([], r)
      else (let (bs, r') = adapter_read (count * n) r in (split_values n count bs, r')))"

text \<open>
  \<open>emplace_hint\<close> of an ordered container: before the first element that is greater, and nothing
  when an equivalent one is there. The hint only saves comparisons.
\<close>

fun hint_emplace :: "('k \<Rightarrow> 'k \<Rightarrow> bool) \<Rightarrow> ('a \<Rightarrow> 'k) \<Rightarrow> 'a \<Rightarrow> 'a list \<Rightarrow> 'a list" where
  "hint_emplace cmp key x [] = [x]"
| "hint_emplace cmp key x (y # ys) =
     (if cmp (key x) (key y) then x # y # ys
      else if cmp (key y) (key x) then y # hint_emplace cmp key x ys
      else y # ys)"

definition bool_value :: "reader \<Rightarrow> bval \<times> reader" where
  "bool_value r =
     (let (bs, r1) = adapter_read 1 r; tmp = of_le bs
      in (BBool (tmp = 1), if 1 < tmp then rd_set_error InvalidData r1 else r1))"

definition value_n :: "nat \<Rightarrow> reader \<Rightarrow> bval \<times> reader" where
  "value_n n r = (let (bs, r1) = adapter_read n r in (BValue (of_le bs), r1))"

text \<open>
  Reading a value of a type. \<open>cmp\<close> is what the comparisons of the maps and sets decide; the
  maps and sets read into are empty.
\<close>

fun deser :: "(nat \<Rightarrow> bval \<Rightarrow> bval \<Rightarrow> bool) \<Rightarrow> btype \<Rightarrow> reader \<Rightarrow> bval \<times> reader"
  and deser_fields :: "(nat \<Rightarrow> bval \<Rightarrow> bval \<Rightarrow> bool) \<Rightarrow> btype list \<Rightarrow> reader \<Rightarrow> bval list \<times> reader" where
  "deser cmp TBool r = bool_value r"
| "deser cmp (TValue n) r = value_n n r"
| "deser cmp (TSeq c t) r =
     (let (sz, r1) = read_size size_max r;
          (vs, r2) = (case value_size t of
              Some n \<Rightarrow> if c then read_values n sz r1 else read_n sz (\<lambda>r. deser cmp t r) r1
            | None \<Rightarrow> read_n sz (\<lambda>r. deser cmp t r) r1)
      in (BSeq vs, r2))"
| "deser cmp (TArray k t) r =
     (let (vs, r2) = (case value_size t of
              Some n \<Rightarrow> read_values n k r
            | None \<Rightarrow> read_n k (\<lambda>r. deser cmp t r) r)
      in (BSeq vs, r2))"
| "deser cmp (TSet o' t) r =
     (let (sz, r1) = read_size size_max r; (vs, r2) = read_n sz (\<lambda>r. deser cmp t r) r1
      in (BSeq (fold (hint_emplace (cmp o') id) vs []), r2))"
| "deser cmp (TMap o' k t) r =
     (let (sz, r1) = read_size size_max r;
          (kvs, r2) = read_n sz (\<lambda>r. let (x, ra) = deser cmp k r; (y, rb) = deser cmp t ra in ((x, y), rb)) r1
      in (BMap (fold (hint_emplace (cmp o') fst) kvs []), r2))"
| "deser cmp (TObject ts) r = (let (vs, r1) = deser_fields cmp ts r in (BSeq vs, r1))"
| "deser_fields cmp [] r = ([], r)"
| "deser_fields cmp (t # ts) r = (let (v, r1) = deser cmp t r; (vs, r2) = deser_fields cmp ts r1 in (v # vs, r2))"

text \<open>Values of a type: sizes below \<open>2 ^ 30\<close>, which \<open>writeSize\<close> asserts; maps and sets in order.\<close>

fun typed :: "(nat \<Rightarrow> bval \<Rightarrow> bval \<Rightarrow> bool) \<Rightarrow> btype \<Rightarrow> bval \<Rightarrow> bool"
  and typed_fields :: "(nat \<Rightarrow> bval \<Rightarrow> bval \<Rightarrow> bool) \<Rightarrow> btype list \<Rightarrow> bval list \<Rightarrow> bool" where
  "typed cmp TBool (BBool b) = True"
| "typed cmp (TValue n) (BValue v) = (v < 256 ^ n)"
| "typed cmp (TSeq c t) (BSeq vs) = (length vs < 2 ^ 30 \<and> list_all (\<lambda>v. typed cmp t v) vs)"
| "typed cmp (TArray n t) (BSeq vs) = (length vs = n \<and> list_all (\<lambda>v. typed cmp t v) vs)"
| "typed cmp (TSet o' t) (BSeq vs) =
     (length vs < 2 ^ 30 \<and> list_all (\<lambda>v. typed cmp t v) vs \<and> sorted_wrt (\<lambda>x y. cmp o' x y \<and> \<not> cmp o' y x) vs)"
| "typed cmp (TMap o' k t) (BMap kvs) =
     (length kvs < 2 ^ 30 \<and> list_all (\<lambda>kv. typed cmp k (fst kv) \<and> typed cmp t (snd kv)) kvs \<and>
      sorted_wrt (\<lambda>x y. cmp o' (fst x) (fst y) \<and> \<not> cmp o' (fst y) (fst x)) kvs)"
| "typed cmp (TObject ts) (BSeq vs) = typed_fields cmp ts vs"
| "typed cmp _ _ = False"
| "typed_fields cmp [] [] = True"
| "typed_fields cmp (t # ts) (v # vs) = (typed cmp t v \<and> typed_fields cmp ts vs)"
| "typed_fields cmp _ _ = False"

section \<open>What a decoder reads\<close>

text \<open>The bytes the iterators leave, and readers whose iterators are in order.\<close>

definition rd_left :: "reader \<Rightarrow> byte list" where
  "rd_left r = take (rd_end r - rd_pos r) (drop (rd_pos r) (rd_data r))"

definition rd_good :: "reader \<Rightarrow> bool" where
  "rd_good r \<longleftrightarrow> rd_pos r \<le> rd_end r \<and> rd_end r \<le> length (rd_data r)"

definition rd_advance :: "nat \<Rightarrow> reader \<Rightarrow> reader" where
  "rd_advance n r = r\<lparr>rd_pos := rd_pos r + n\<rparr>"

lemma rd_advance_0 [simp]: "rd_advance 0 r = r"
  by (simp add: rd_advance_def)

lemma rd_advance_add [simp]: "rd_advance m (rd_advance n r) = rd_advance (n + m) r"
  by (simp add: rd_advance_def)

lemma rd_left_length: "rd_good r \<Longrightarrow> length (rd_left r) = rd_end r - rd_pos r"
  by (auto simp: rd_left_def rd_good_def min_def)

lemma good_no_error: "rd_good r \<Longrightarrow> rd_error r = NoError"
  by (simp add: rd_good_def rd_error_def)

lemma good_advance:
  assumes "rd_good r" "rd_left r = bs @ rest"
  shows "rd_good (rd_advance (length bs) r)" "rd_left (rd_advance (length bs) r) = rest"
proof -
  have len: "length bs + length rest = rd_end r - rd_pos r" using rd_left_length [OF assms(1)] assms(2) by simp
  then show "rd_good (rd_advance (length bs) r)"
    using assms(1) by (auto simp: rd_good_def rd_advance_def)
  have "rd_left (rd_advance (length bs) r) = drop (length bs) (rd_left r)"
    by (simp add: rd_left_def rd_advance_def drop_take add.commute)
  then show "rd_left (rd_advance (length bs) r) = rest" by (simp add: assms(2))
qed

text \<open>A decoder that an error stops: it leaves the reader as it is.\<close>

definition sticky :: "(reader \<Rightarrow> 'a \<times> reader) \<Rightarrow> bool" where
  "sticky d \<longleftrightarrow> (\<forall>r. rd_error r \<noteq> NoError \<longrightarrow> snd (d r) = r)"

text \<open>
  A decoder that reads the value \<open>v\<close> where the bytes \<open>bs\<close> are left, and overflows where only a
  part of them is.
\<close>

definition decodes :: "(reader \<Rightarrow> 'a \<times> reader) \<Rightarrow> byte list \<Rightarrow> 'a \<Rightarrow> bool" where
  "decodes d bs v \<longleftrightarrow>
     (\<forall>r rest. rd_good r \<longrightarrow> rd_left r = bs @ rest \<longrightarrow> d r = (v, rd_advance (length bs) r)) \<and>
     (\<forall>r. rd_good r \<longrightarrow> strict_prefix (rd_left r) bs \<longrightarrow> rd_error (snd (d r)) = DataOverflow)"

lemma decodesD:
  "decodes d bs v \<Longrightarrow> rd_good r \<Longrightarrow> rd_left r = bs @ rest \<Longrightarrow> d r = (v, rd_advance (length bs) r)"
  "decodes d bs v \<Longrightarrow> rd_good r \<Longrightarrow> strict_prefix (rd_left r) bs \<Longrightarrow> rd_error (snd (d r)) = DataOverflow"
  by (auto simp: decodes_def)

lemma stickyD: "sticky d \<Longrightarrow> rd_error r \<noteq> NoError \<Longrightarrow> snd (d r) = r"
  by (simp add: sticky_def)

lemma sticky_return [simp]: "sticky (\<lambda>r. (x, r))"
  by (simp add: sticky_def)

lemma sticky_bind [intro]:
  "sticky d \<Longrightarrow> (\<And>x. sticky (k x)) \<Longrightarrow> sticky (\<lambda>r. case d r of (x, r1) \<Rightarrow> k x r1)"
  by (simp add: sticky_def case_prod_unfold)

lemma decodes_return [simp]: "decodes (\<lambda>r. (v, r)) [] v"
  by (simp add: decodes_def)

lemma decodes_bind:
  assumes d: "decodes d bs v" and k: "decodes (k v) cs w" and st: "\<And>x. sticky (k x)"
  shows "decodes (\<lambda>r. case d r of (x, r1) \<Rightarrow> k x r1) (bs @ cs) w"
  unfolding decodes_def
proof (intro conjI allI impI)
  fix r rest assume r: "rd_good r" "rd_left r = (bs @ cs) @ rest"
  then have l: "rd_left r = bs @ cs @ rest" by simp
  note a = good_advance [OF r(1) l]
  show "(case d r of (x, r1) \<Rightarrow> k x r1) = (w, rd_advance (length (bs @ cs)) r)"
    using decodesD(1) [OF d r(1) l] decodesD(1) [OF k a] by simp
next
  fix r assume r: "rd_good r" "strict_prefix (rd_left r) (bs @ cs)"
  show "rd_error (snd (case d r of (x, r1) \<Rightarrow> k x r1)) = DataOverflow"
  proof (cases "strict_prefix (rd_left r) bs")
    case True
    then have e: "rd_error (snd (d r)) = DataOverflow" by (rule decodesD(2) [OF d r(1)])
    then have "rd_error (snd (d r)) \<noteq> NoError" by (simp add: DataOverflow_def NoError_def)
    then show ?thesis using stickyD [OF st, of "snd (d r)"] e by (simp add: case_prod_unfold)
  next
    case False
    then have "prefix (rd_left r) bs \<Longrightarrow> rd_left r = bs" by (auto simp: strict_prefix_def)
    moreover have "prefix (rd_left r) (bs @ cs)" "rd_left r \<noteq> bs @ cs" using r(2) by (auto simp: strict_prefix_def)
    ultimately obtain p where p: "rd_left r = bs @ p" "strict_prefix p cs"
      unfolding prefix_append strict_prefix_def by (auto intro: that)
    note a = good_advance [OF r(1) p(1)]
    show ?thesis using decodesD(1) [OF d r(1) p(1)] decodesD(2) [OF k a(1)] a(2) p(2) by simp
  qed
qed

lemma decodes_map: "decodes d bs v \<Longrightarrow> decodes (\<lambda>r. case d r of (x, r1) \<Rightarrow> (f x, r1)) bs (f v)"
  using decodes_bind [of d bs v "\<lambda>x r. (f x, r)" "[]" "f v"] by simp

section \<open>The decoders of the deserializer\<close>

lemma error_set [simp]: "0 < e \<Longrightarrow> rd_error (adapter_set_error e r) = e"
  by (simp add: rd_error_def adapter_set_error_def)

lemma read_past: "rd_pos r + n > rd_end r \<Longrightarrow> rd_error r = NoError \<Longrightarrow>
    adapter_read n r = (replicate n 0, adapter_set_error DataOverflow r)"
  by (simp add: adapter_read_def)

lemma read_error: "rd_error r \<noteq> NoError \<Longrightarrow> adapter_read n r = (replicate n 0, r)"
  by (auto simp: adapter_read_def rd_error_def NoError_def split: if_splits)

lemma sticky_read [simp]: "sticky (adapter_read n)"
  by (simp add: sticky_def read_error)

lemma decodes_read: "decodes (adapter_read (length bs)) bs bs"
  unfolding decodes_def
proof (intro conjI allI impI)
  fix r rest assume r: "rd_good r" "rd_left r = bs @ rest"
  then have "length bs + length rest = rd_end r - rd_pos r" using rd_left_length [OF r(1)] by simp
  then have n: "rd_pos r + length bs \<le> rd_end r" using r(1) by (auto simp: rd_good_def)
  then have "take (length bs) (drop (rd_pos r) (rd_data r)) = take (length bs) (rd_left r)"
    by (simp add: rd_left_def min_absorb1)
  then show "adapter_read (length bs) r = (bs, rd_advance (length bs) r)"
    using n r(2) by (simp add: adapter_read_def rd_advance_def)
next
  fix r assume r: "rd_good r" "strict_prefix (rd_left r) bs"
  then have "rd_pos r + length bs > rd_end r"
    using prefix_length_less [OF r(2)] rd_left_length [OF r(1)] by linarith
  then show "rd_error (snd (adapter_read (length bs) r)) = DataOverflow"
    using read_past good_no_error [OF r(1)] by (simp add: DataOverflow_def)
qed

lemma decodes_read_le: "n = m \<Longrightarrow> decodes (adapter_read n) (le_bytes m v) (le_bytes m v)"
  using decodes_read [of "le_bytes m v"] by simp

lemma value_n_read: "value_n n = (\<lambda>r. case adapter_read n r of (bs, r1) \<Rightarrow> (BValue (of_le bs), r1))"
  by (simp add: value_n_def fun_eq_iff)

lemma bool_value_read: "bool_value = (\<lambda>r. case adapter_read 1 r of (bs, r1) \<Rightarrow>
    (BBool (of_le bs = 1), if 1 < of_le bs then rd_set_error InvalidData r1 else r1))"
  by (simp add: bool_value_def fun_eq_iff Let_def)

lemma sticky_set_error: "sticky (\<lambda>r. (x, if c then rd_set_error e r else r))"
  by (simp add: sticky_def rd_set_error_def)

lemma sticky_value [simp]: "sticky (value_n n)"
  unfolding value_n_read by (intro sticky_bind sticky_read) simp

lemma decodes_value: "v < 256 ^ n \<Longrightarrow> decodes (value_n n) (le_bytes n v) (BValue v)"
  using decodes_map [OF decodes_read_le [OF refl, of n v], of "BValue \<circ> of_le"]
  by (simp add: value_n_read of_le_bytes)

lemma sticky_bool [simp]: "sticky bool_value"
  unfolding bool_value_read by (intro sticky_bind sticky_read sticky_set_error)

lemma decodes_bool: "decodes bool_value [if b then 1 else 0] (BBool b)"
proof -
  let ?bs = "[if b then 1 else 0] :: byte list"
  have "decodes (adapter_read 1) ?bs ?bs" using decodes_read [of ?bs] by simp
  from decodes_bind [where k = "\<lambda>bs r1. (BBool (of_le bs = 1), if 1 < of_le bs then rd_set_error InvalidData r1 else r1)",
      OF this _ sticky_set_error, where cs = "[]" and w = "BBool b"]
  show ?thesis by (simp add: bool_value_read)
qed

section \<open>Sizes read back\<close>

text \<open>The first byte of a size: the prefix in its high bits, and the rest below.\<close>

lemma or_high:
  fixes x y :: nat
  assumes "x < 2 ^ n" "take_bit n y = 0"
  shows "or x y = x + y"
proof -
  have x: "take_bit n x = x" using assms(1) by (simp add: take_bit_nat_eq_self_iff)
  have "\<not> (bit x i \<and> bit y i)" for i
  proof (cases "i < n")
    case True
    then show ?thesis using assms(2) bit_take_bit_iff [of n y i] by simp
  next
    case False
    then show ?thesis using x bit_take_bit_iff [of n x i] by simp
  qed
  then have "and x y = 0" by (intro bit_eqI) (simp add: bit_and_iff)
  then show ?thesis by (simp add: disjunctive_add_eq_or)
qed

lemma and_low: "and y (mask n) = y mod 2 ^ n" for y :: nat
  by (simp only: take_bit_eq_mask [symmetric] take_bit_eq_mod)

lemma size_prefix:
  fixes x :: nat
  assumes "x < 64"
  shows "or x 0x80 = x + 0x80" "and (x + 0x80) 0x40 = 0" "and (x + 0x80) 0x7F = x"
    "or x 0xC0 = x + 0xC0" "and (x + 0xC0) 0x40 \<noteq> 0" "and (x + 0xC0) 0x3F = x"
proof -
  show "or x 0x80 = x + 0x80" "or x 0xC0 = x + 0xC0"
    using assms by (auto intro!: or_high [of x 6] simp: take_bit_eq_mod)
  show "and (x + 0x80) 0x40 = 0" "and (x + 0xC0) 0x40 \<noteq> 0"
    using assms and_exp_eq_0_iff_not_bit [of "x + 0x80" 6] and_exp_eq_0_iff_not_bit [of "x + 0xC0" 6]
    by (simp_all add: bit_iff_odd div_add1_eq)
  show "and (x + 0x80) 0x7F = x" "and (x + 0xC0) 0x3F = x"
    using assms and_low [of "x + 0x80" 7] and_low [of "x + 0xC0" 6] by (simp_all add: mask_eq_exp_minus_1 mod_add_eq [symmetric])
qed

text \<open>\<open>readSize\<close> as decoders that follow one another.\<close>

definition check_size :: "nat \<Rightarrow> nat \<Rightarrow> reader \<Rightarrow> nat \<times> reader" where
  "check_size maxSize sz r = (if maxSize < sz then (0, rd_set_error InvalidData r) else (sz, r))"

lemma read_size_read:
  "read_size m = (\<lambda>r. case adapter_read 1 r of (h, r1) \<Rightarrow>
     (if of_le h < 0x80 then check_size m (of_le h) r1
      else (case adapter_read 1 r1 of (l, r2) \<Rightarrow>
        (if and (of_le h) 0x40 \<noteq> 0
         then (case adapter_read 2 r2 of (lw, r3) \<Rightarrow>
           check_size m ((and (of_le h) 0x3F * 2 ^ 8 + of_le l) * 2 ^ 16 + of_le lw) r3)
         else check_size m (and (of_le h) 0x7F * 2 ^ 8 + of_le l) r2))))"
  by (auto simp: fun_eq_iff read_size_def check_size_def Let_def split: prod.splits)

lemma sticky_check [simp]: "sticky (check_size m sz)"
  by (simp add: sticky_def check_size_def rd_set_error_def)

lemma sticky_if [intro]: "sticky d \<Longrightarrow> sticky e \<Longrightarrow> sticky (\<lambda>r. if c then d r else e r)"
  by (simp add: sticky_def)

lemma sticky_size [simp]: "sticky (read_size m)"
  unfolding read_size_read by (intro sticky_bind sticky_if sticky_read sticky_check)

lemma decodes_check: "sz \<le> m \<Longrightarrow> decodes (check_size m sz) [] sz"
  by (simp add: decodes_def check_size_def)

lemma decodes_if: "(if c then decodes d bs v else decodes e bs v) \<Longrightarrow> decodes (\<lambda>r. if c then d r else e r) bs v"
  by (auto split: if_splits)

lemma decodes_size:
  assumes "sz < 2 ^ 30" "sz \<le> m"
  shows "decodes (read_size m) (concat (write_size sz)) sz"
proof -
  note st = sticky_bind sticky_if sticky_read sticky_check
  consider "sz < 0x80" | "0x80 \<le> sz" "sz < 0x4000" | "0x4000 \<le> sz" by linarith
  then show ?thesis
  proof cases
    case 1
    then have "decodes (read_size m) (le_bytes 1 sz @ []) sz"
      unfolding read_size_read using assms(2)
      by (intro decodes_bind [OF decodes_read_le] decodes_if st) (simp_all add: of_le_bytes decodes_check)
    then show ?thesis using 1 by (simp add: write_size_def)
  next
    case 2
    then have x: "sz div 2 ^ 8 < 64" by (simp add: less_mult_imp_div_less)
    have b: "or (sz div 2 ^ 8) 0x80 = sz div 2 ^ 8 + 0x80" by (rule size_prefix [OF x])
    have e: "sz div 2 ^ 8 * 2 ^ 8 + sz mod 256 = sz" by simp
    have l: "of_le (le_bytes 1 (sz div 2 ^ 8 + 0x80)) = sz div 2 ^ 8 + 0x80" using x by (simp add: of_le_bytes)
    have "decodes (read_size m) (le_bytes 1 (sz div 2 ^ 8 + 0x80) @ le_bytes 1 sz @ []) sz"
      unfolding read_size_read
    proof (intro decodes_bind [OF decodes_read_le] decodes_if st refl, unfold l)
      have "decodes (\<lambda>r1. case adapter_read 1 r1 of (y, r2) \<Rightarrow> check_size m (sz div 2 ^ 8 * 2 ^ 8 + of_le y) r2)
          (le_bytes 1 sz @ []) sz"
        by (intro decodes_bind [OF decodes_read_le] st refl) (simp add: of_le_bytes e decodes_check [OF assms(2)])
      then show "if sz div 2 ^ 8 + 0x80 < 0x80 then decodes (check_size m (sz div 2 ^ 8 + 0x80)) (le_bytes 1 sz @ []) sz
          else decodes (\<lambda>r1. case adapter_read 1 r1 of (y, r2) \<Rightarrow>
            (if and (sz div 2 ^ 8 + 0x80) 0x40 \<noteq> 0
             then (case adapter_read 2 r2 of (lw, r3) \<Rightarrow>
               check_size m ((and (sz div 2 ^ 8 + 0x80) 0x3F * 2 ^ 8 + of_le y) * 2 ^ 16 + of_le lw) r3)
             else check_size m (and (sz div 2 ^ 8 + 0x80) 0x7F * 2 ^ 8 + of_le y) r2)) (le_bytes 1 sz @ []) sz"
        using size_prefix [OF x] by simp
    qed
    then show ?thesis using 2 b by (simp add: write_size_def)
  next
    case 3
    have x: "sz div 2 ^ 24 < 64" using assms(1) by (simp add: less_mult_imp_div_less)
    have b: "or (sz div 2 ^ 24) 0xC0 = sz div 2 ^ 24 + 0xC0" by (rule size_prefix [OF x])
    have "sz div 2 ^ 24 = sz div 2 ^ 16 div 256" by (simp add: div_mult2_eq [symmetric])
    then have e: "(sz div 2 ^ 24 * 2 ^ 8 + sz div 2 ^ 16 mod 256) * 2 ^ 16 + sz mod 2 ^ 16 = sz" by simp
    have l: "of_le (le_bytes 1 (sz div 2 ^ 24 + 0xC0)) = sz div 2 ^ 24 + 0xC0"
      "of_le (le_bytes 1 (sz div 2 ^ 16)) = sz div 2 ^ 16 mod 256" "of_le (le_bytes 2 sz) = sz mod 2 ^ 16"
      using x by (simp_all add: of_le_bytes)
    have "decodes (read_size m) (le_bytes 1 (sz div 2 ^ 24 + 0xC0) @ le_bytes 1 (sz div 2 ^ 16) @ le_bytes 2 sz @ []) sz"
      unfolding read_size_read
    proof (intro decodes_bind [OF decodes_read_le] decodes_if st refl, unfold l)
      have "decodes (\<lambda>r1. case adapter_read 1 r1 of (y, r2) \<Rightarrow> (case adapter_read 2 r2 of (lw, r3) \<Rightarrow>
          check_size m ((sz div 2 ^ 24 * 2 ^ 8 + of_le y) * 2 ^ 16 + of_le lw) r3))
          (le_bytes 1 (sz div 2 ^ 16) @ le_bytes 2 sz @ []) sz"
        by (intro decodes_bind [OF decodes_read_le] st refl) (simp only: l e decodes_check [OF assms(2)])
      then show "if sz div 2 ^ 24 + 0xC0 < 0x80
          then decodes (check_size m (sz div 2 ^ 24 + 0xC0)) (le_bytes 1 (sz div 2 ^ 16) @ le_bytes 2 sz @ []) sz
          else decodes (\<lambda>r1. case adapter_read 1 r1 of (y, r2) \<Rightarrow>
            (if and (sz div 2 ^ 24 + 0xC0) 0x40 \<noteq> 0
             then (case adapter_read 2 r2 of (lw, r3) \<Rightarrow>
               check_size m ((and (sz div 2 ^ 24 + 0xC0) 0x3F * 2 ^ 8 + of_le y) * 2 ^ 16 + of_le lw) r3)
             else check_size m (and (sz div 2 ^ 24 + 0xC0) 0x7F * 2 ^ 8 + of_le y) r2))
            (le_bytes 1 (sz div 2 ^ 16) @ le_bytes 2 sz @ []) sz"
        using size_prefix [OF x] by simp
    qed
    then show ?thesis using 3 b by (simp add: write_size_def)
  qed
qed

section \<open>Containers read back\<close>

lemma read_n_Suc: "read_n (Suc n) d = (\<lambda>r. case d r of (x, r1) \<Rightarrow> (case read_n n d r1 of (xs, r2) \<Rightarrow> (x # xs, r2)))"
  by (simp add: fun_eq_iff)

lemma sticky_n [simp]: "sticky d \<Longrightarrow> sticky (read_n n d)"
proof (induction n)
  case 0
  then show ?case by (simp add: sticky_def)
next
  case (Suc n)
  then show ?case unfolding read_n_Suc by (intro sticky_bind) simp_all
qed

lemma decodes_n:
  assumes "sticky d"
  shows "(\<And>v. v \<in> set vs \<Longrightarrow> decodes d (f v) v) \<Longrightarrow> decodes (read_n (length vs) d) (concat (map f vs)) vs"
proof (induction vs)
  case Nil
  then show ?case by (simp add: decodes_def)
next
  case (Cons v vs)
  have "decodes (\<lambda>r1. case read_n (length vs) d r1 of (xs, r2) \<Rightarrow> (v # xs, r2)) (concat (map f vs)) (v # vs)"
    using Cons by (intro decodes_map) simp
  then have "decodes (read_n (Suc (length vs)) d) (f v @ concat (map f vs)) (v # vs)"
    unfolding read_n_Suc using Cons.prems assms by (intro decodes_bind) (auto intro!: sticky_bind)
  then show ?case by (simp del: read_n.simps)
qed

lemma read_values_read:
  "read_values n k = (if k = 0 then (\<lambda>r. ([], r))
     else (\<lambda>r. case adapter_read (k * n) r of (bs, r') \<Rightarrow> (split_values n k bs, r')))"
  by (simp add: fun_eq_iff read_values_def)

lemma sticky_values [simp]: "sticky (read_values n k)"
  by (simp add: read_values_read sticky_bind)

lemma split_values_bytes:
  "(\<And>x. x \<in> set xs \<Longrightarrow> x < 256 ^ n) \<Longrightarrow>
    split_values n (length xs) (concat (map (le_bytes n) xs)) = map BValue xs"
  by (induction xs) (simp_all add: of_le_bytes)

lemma length_values: "length (concat (map (le_bytes n) xs)) = length xs * n"
  by (induction xs) simp_all

lemma decodes_values:
  assumes "\<And>x. x \<in> set xs \<Longrightarrow> x < 256 ^ n"
  shows "decodes (read_values n (length xs)) (concat (map (le_bytes n) xs)) (map BValue xs)"
proof (cases "xs = []")
  case True
  then show ?thesis by (simp add: read_values_read)
next
  case False
  have "decodes (adapter_read (length xs * n)) (concat (map (le_bytes n) xs)) (concat (map (le_bytes n) xs))"
    using decodes_read [of "concat (map (le_bytes n) xs)"] by (simp add: length_values)
  then show ?thesis
    using decodes_map [of _ _ "concat (map (le_bytes n) xs)" "split_values n (length xs)"] False
    by (simp add: read_values_read split_values_bytes assms)
qed

lemma typed_values: "list_all (typed cmp (TValue n)) vs \<Longrightarrow> \<exists>xs. vs = map BValue xs \<and> (\<forall>x \<in> set xs. x < 256 ^ n)"
proof (induction vs)
  case (Cons v vs)
  then obtain xs x where "vs = map BValue xs" "\<forall>x \<in> set xs. x < 256 ^ n" "v = BValue x" "x < 256 ^ n"
    by (cases v) auto
  then show ?case by (intro exI [of _ "x # xs"]) simp
qed simp

lemma emplace_last:
  "\<forall>y \<in> set ys. cmp (key y) (key x) \<and> \<not> cmp (key x) (key y) \<Longrightarrow> hint_emplace cmp key x ys = ys @ [x]"
  by (induction ys) auto

lemma emplace_sorted:
  "sorted_wrt (\<lambda>x y. cmp (key x) (key y) \<and> \<not> cmp (key y) (key x)) (ys @ xs) \<Longrightarrow>
    fold (hint_emplace cmp key) xs ys = ys @ xs"
proof (induction xs arbitrary: ys)
  case (Cons x xs)
  have "hint_emplace cmp key x ys = ys @ [x]"
    using Cons.prems by (intro emplace_last) (auto simp: sorted_wrt_append)
  then show ?case using Cons.IH [of "ys @ [x]"] Cons.prems by simp
qed simp

lemma concat_one_write [simp]: "concat (one_write bs) = bs"
  by (simp add: one_write_def)

lemma concat_concat_map: "concat (concat (map f xs)) = concat (map (\<lambda>x. concat (f x)) xs)"
  by (induction xs) simp_all

lemma value_size_Some: "value_size t = Some n \<longleftrightarrow> t = TValue n"
  by (cases t) auto

text \<open>The deserializer as decoders.\<close>

definition read_elems :: "btype \<Rightarrow> (reader \<Rightarrow> bval \<times> reader) \<Rightarrow> bool \<Rightarrow> nat \<Rightarrow> reader \<Rightarrow> bval list \<times> reader" where
  "read_elems t d c k r =
     (case value_size t of Some n \<Rightarrow> if c then read_values n k r else read_n k d r | None \<Rightarrow> read_n k d r)"

lemma deser_read:
  "deser cmp TBool = bool_value"
  "deser cmp (TValue n) = value_n n"
  "deser cmp (TSeq c t) = (\<lambda>r. case read_size size_max r of (sz, r1) \<Rightarrow>
     (case read_elems t (deser cmp t) c sz r1 of (vs, r2) \<Rightarrow> (BSeq vs, r2)))"
  "deser cmp (TArray n t) = (\<lambda>r. case read_elems t (deser cmp t) True n r of (vs, r2) \<Rightarrow> (BSeq vs, r2))"
  "deser cmp (TSet o' t) = (\<lambda>r. case read_size size_max r of (sz, r1) \<Rightarrow>
     (case read_n sz (deser cmp t) r1 of (vs, r2) \<Rightarrow> (BSeq (fold (hint_emplace (cmp o') id) vs []), r2)))"
  "deser cmp (TMap o' k t) = (\<lambda>r. case read_size size_max r of (sz, r1) \<Rightarrow>
     (case read_n sz (\<lambda>r. case deser cmp k r of (x, ra) \<Rightarrow> (case deser cmp t ra of (y, rb) \<Rightarrow> ((x, y), rb))) r1
      of (kvs, r2) \<Rightarrow> (BMap (fold (hint_emplace (cmp o') fst) kvs []), r2)))"
  "deser cmp (TObject ts) = (\<lambda>r. case deser_fields cmp ts r of (vs, r1) \<Rightarrow> (BSeq vs, r1))"
  by (auto simp: fun_eq_iff read_elems_def Let_def split: prod.splits option.splits)

lemma deser_fields_read:
  "deser_fields cmp [] = (\<lambda>r. ([], r))"
  "deser_fields cmp (t # ts) = (\<lambda>r. case deser cmp t r of (v, r1) \<Rightarrow>
     (case deser_fields cmp ts r1 of (vs, r2) \<Rightarrow> (v # vs, r2)))"
  by (simp_all add: fun_eq_iff)

lemma sticky_elems [simp]: "sticky d \<Longrightarrow> sticky (read_elems t d c k)"
  by (auto simp: sticky_def read_elems_def stickyD [OF sticky_values] stickyD [OF sticky_n] split: option.splits)

lemma sticky_fields: "(\<And>t. t \<in> set ts \<Longrightarrow> sticky (deser cmp t)) \<Longrightarrow> sticky (deser_fields cmp ts)"
  by (induction ts) (auto simp: deser_fields_read intro!: sticky_bind)

lemma sticky_deser [simp]: "sticky (deser cmp t)"
  by (induction t) (auto simp: deser_read sticky_fields intro!: sticky_bind sticky_n)

lemma size_max_le: "k < 2 ^ 30 \<Longrightarrow> k \<le> size_max"
  by (simp add: size_max_def)

lemma decodes_elems:
  assumes d: "\<And>v. v \<in> set vs \<Longrightarrow> decodes (deser cmp t) (concat (ser t v)) v" and ty: "list_all (typed cmp t) vs"
  shows "decodes (read_elems t (deser cmp t) c (length vs)) (concat (map (\<lambda>v. concat (ser t v)) vs)) vs"
proof -
  note all = decodes_n [OF sticky_deser, of vs cmp t "\<lambda>v. concat (ser t v)", OF d]
  show ?thesis
  proof (cases "value_size t")
    case None
    then show ?thesis using all by (simp add: read_elems_def [abs_def])
  next
    case (Some n)
    then have t: "t = TValue n" by (simp add: value_size_Some)
    show ?thesis
    proof (cases c)
      case False
      then show ?thesis using all Some by (simp add: read_elems_def [abs_def])
    next
      case True
      obtain xs where xs: "vs = map BValue xs" "\<forall>x \<in> set xs. x < 256 ^ n"
        using typed_values ty t by blast
      have "concat (map (\<lambda>v. concat (ser t v)) vs) = concat (map (le_bytes n) xs)"
        by (simp add: xs(1) t comp_def)
      then show ?thesis using decodes_values [of xs n] xs True Some by (simp add: read_elems_def [abs_def])
    qed
  qed
qed

text \<open>The bytes of a container, whichever writes make them.\<close>

lemma ser_bytes:
  "concat (ser (TSeq c t) (BSeq vs)) = concat (write_size (length vs)) @ concat (map (\<lambda>v. concat (ser t v)) vs)"
  "concat (ser (TArray n t) (BSeq vs)) = concat (map (\<lambda>v. concat (ser t v)) vs)"
  "concat (ser (TSet o' t) (BSeq vs)) = concat (write_size (length vs)) @ concat (map (\<lambda>v. concat (ser t v)) vs)"
  "concat (ser (TMap o' k t) (BMap kvs)) = concat (write_size (length kvs)) @
     concat (map (\<lambda>kv. concat (ser k (fst kv)) @ concat (ser t (snd kv))) kvs)"
  by (simp_all add: concat_concat_map)

lemma decodes_fields:
  assumes "\<And>t v. t \<in> set ts \<Longrightarrow> typed cmp t v \<Longrightarrow> decodes (deser cmp t) (concat (ser t v)) v"
  shows "typed_fields cmp ts vs \<Longrightarrow> decodes (deser_fields cmp ts) (concat (ser_fields ts vs)) vs"
  using assms
proof (induction ts arbitrary: vs)
  case Nil
  then show ?case by (cases vs) (simp_all add: deser_fields_read)
next
  case (Cons t ts)
  obtain v vs' where vs: "vs = v # vs'" "typed cmp t v" "typed_fields cmp ts vs'"
    using Cons.prems(1) by (cases vs) simp_all
  have "decodes (deser_fields cmp ts) (concat (ser_fields ts vs')) vs'" using Cons vs(3) by simp
  then show ?case
    using Cons.prems(2) [of t v] vs(2) sticky_fields [of ts cmp]
    by (auto simp: deser_fields_read vs(1) intro!: decodes_bind decodes_map sticky_bind)
qed

lemma decodes_deser: "typed cmp t v \<Longrightarrow> decodes (deser cmp t) (concat (ser t v)) v"
proof (induction t arbitrary: v)
  case TBool
  then obtain b where "v = BBool b" by (cases v) simp_all
  then show ?case using decodes_bool [of b] by (simp add: deser_read)
next
  case (TValue n)
  then show ?case by (cases v) (simp_all add: deser_read decodes_value)
next
  case (TSeq c t)
  then obtain vs where v: "v = BSeq vs" "length vs < 2 ^ 30" "list_all (typed cmp t) vs" by (cases v) auto
  have "decodes (deser cmp t) (concat (ser t x)) x" if "x \<in> set vs" for x
    using TSeq.IH v(3) that by (auto simp: list_all_iff)
  from decodes_elems [OF this v(3), of c] show ?case
    using decodes_size [OF v(2) size_max_le [OF v(2)]]
    by (simp only: deser_read v(1) ser_bytes) (intro decodes_bind decodes_map sticky_bind; simp)
next
  case (TArray n t)
  then obtain vs where v: "v = BSeq vs" "length vs = n" "list_all (typed cmp t) vs" by (cases v) auto
  have "decodes (deser cmp t) (concat (ser t x)) x" if "x \<in> set vs" for x
    using TArray.IH v(3) that by (auto simp: list_all_iff)
  from decodes_elems [OF this v(3), of True] show ?case
    by (simp only: deser_read v(1) ser_bytes v(2)) (intro decodes_map; simp)
next
  case (TSet o' t)
  then obtain vs where v: "v = BSeq vs" "length vs < 2 ^ 30" "list_all (typed cmp t) vs"
    "sorted_wrt (\<lambda>x y. cmp o' x y \<and> \<not> cmp o' y x) vs" by (cases v) auto
  have d: "decodes (deser cmp t) (concat (ser t x)) x" if "x \<in> set vs" for x
    using TSet.IH v(3) that by (auto simp: list_all_iff)
  have e: "fold (hint_emplace (cmp o') id) vs [] = vs" using emplace_sorted [of "cmp o'" id "[]" vs] v(4) by simp
  have "decodes (\<lambda>r. case read_n (length vs) (deser cmp t) r of (vs, r2) \<Rightarrow> (BSeq (fold (hint_emplace (cmp o') id) vs []), r2))
      (concat (map (\<lambda>v. concat (ser t v)) vs)) v"
    using decodes_map [OF decodes_n [OF sticky_deser, of vs cmp t "\<lambda>v. concat (ser t v)", OF d],
        of "\<lambda>vs. BSeq (fold (hint_emplace (cmp o') id) vs [])"] by (simp add: e v(1))
  then show ?case
    using decodes_size [OF v(2) size_max_le [OF v(2)]]
    by (simp only: deser_read v(1) ser_bytes) (intro decodes_bind sticky_bind sticky_n; simp)
next
  case (TMap o' k t)
  then obtain kvs where v: "v = BMap kvs" "length kvs < 2 ^ 30"
    "list_all (\<lambda>kv. typed cmp k (fst kv) \<and> typed cmp t (snd kv)) kvs"
    "sorted_wrt (\<lambda>x y. cmp o' (fst x) (fst y) \<and> \<not> cmp o' (fst y) (fst x)) kvs" by (cases v) auto
  let ?d = "\<lambda>r. case deser cmp k r of (x, ra) \<Rightarrow> (case deser cmp t ra of (y, rb) \<Rightarrow> ((x, y), rb))"
  have st: "sticky ?d" by (intro sticky_bind) simp_all
  have d: "decodes ?d (concat (ser k (fst x)) @ concat (ser t (snd x))) x" if "x \<in> set kvs" for x
    using TMap.IH(1) [of "fst x"] TMap.IH(2) [of "snd x"] v(3) that
      decodes_map [of "deser cmp t" "concat (ser t (snd x))" "snd x" "\<lambda>y. (fst x, y)"]
    by (intro decodes_bind sticky_bind) (auto simp: list_all_iff)
  have e: "fold (hint_emplace (cmp o') fst) kvs [] = kvs" using emplace_sorted [of "cmp o'" fst "[]" kvs] v(4) by simp
  have "decodes (\<lambda>r. case read_n (length kvs) ?d r of (kvs, r2) \<Rightarrow> (BMap (fold (hint_emplace (cmp o') fst) kvs []), r2))
      (concat (map (\<lambda>kv. concat (ser k (fst kv)) @ concat (ser t (snd kv))) kvs)) v"
    using decodes_map [OF decodes_n [OF st, of kvs "\<lambda>kv. concat (ser k (fst kv)) @ concat (ser t (snd kv))", OF d],
        of "\<lambda>kvs. BMap (fold (hint_emplace (cmp o') fst) kvs [])"] by (simp add: e v(1))
  then show ?case
    using decodes_size [OF v(2) size_max_le [OF v(2)]] st
    by (simp only: deser_read v(1) ser_bytes) (intro decodes_bind sticky_bind sticky_n; simp)
next
  case (TObject ts)
  then obtain vs where v: "v = BSeq vs" "typed_fields cmp ts vs" by (cases v) auto
  have "decodes (deser_fields cmp ts) (concat (ser_fields ts vs)) vs"
    by (rule decodes_fields [OF _ v(2)]) (rule TObject.IH)
  then show ?case using decodes_map by (simp add: deser_read v(1))
qed

section \<open>Whatever the bytes are\<close>

definition strict_order :: "('k \<Rightarrow> 'k \<Rightarrow> bool) \<Rightarrow> bool" where
  "strict_order cmp \<longleftrightarrow> (\<forall>x. \<not> cmp x x) \<and> (\<forall>x y z. cmp x y \<longrightarrow> cmp y z \<longrightarrow> cmp x z)"

lemma set_hint_emplace: "set (hint_emplace cmp key x ys) \<subseteq> insert x (set ys)"
  by (induction ys) auto

lemma length_hint_emplace: "length (hint_emplace cmp key x ys) \<le> Suc (length ys)"
  by (induction ys) auto

lemma sorted_hint_emplace:
  assumes "strict_order cmp"
  shows "sorted_wrt (\<lambda>x y. cmp (key x) (key y) \<and> \<not> cmp (key y) (key x)) ys \<Longrightarrow>
    sorted_wrt (\<lambda>x y. cmp (key x) (key y) \<and> \<not> cmp (key y) (key x)) (hint_emplace cmp key x ys)"
proof (induction ys)
  case (Cons y ys)
  have asym: "\<not> cmp b a" if "cmp a b" for a b using assms that by (auto simp: strict_order_def)
  have tr: "cmp a c" if "cmp a b" "cmp b c" for a b c using assms that by (auto simp: strict_order_def)
  show ?case
  proof (cases "cmp (key x) (key y)")
    case True
    then show ?thesis using Cons.prems asym by (auto intro: tr)
  next
    case False
    then show ?thesis using Cons asym set_hint_emplace [of cmp key x ys] by auto
  qed
qed simp

lemma fold_hint_emplace:
  "strict_order cmp \<Longrightarrow> sorted_wrt (\<lambda>x y. cmp (key x) (key y) \<and> \<not> cmp (key y) (key x)) ys \<Longrightarrow>
    sorted_wrt (\<lambda>x y. cmp (key x) (key y) \<and> \<not> cmp (key y) (key x)) (fold (hint_emplace cmp key) xs ys) \<and>
    set (fold (hint_emplace cmp key) xs ys) \<subseteq> set xs \<union> set ys \<and> length (fold (hint_emplace cmp key) xs ys) \<le> length xs + length ys"
proof (induction xs arbitrary: ys)
  case (Cons x xs)
  show ?case
    using Cons.IH [OF Cons.prems(1) sorted_hint_emplace [OF Cons.prems], of x] set_hint_emplace [of cmp key x ys]
      length_hint_emplace [of cmp key x ys] by auto
qed simp

lemma of_le_bound: "of_le bs < 256 ^ length bs"
proof (induction bs)
  case (Cons b bs)
  have "unat b < 256" using unsigned_less [of b] by simp
  then show ?case using Cons by simp
qed simp

lemma of_le_less: "length bs \<le> n \<Longrightarrow> of_le bs < 256 ^ n"
  using of_le_bound [of bs] power_increasing [of "length bs" n "256 :: nat"] by linarith

lemma length_read: "length (fst (adapter_read n r)) \<le> n"
  by (simp add: adapter_read_def)

lemma size_bound: "fst (read_size m r) < 2 ^ 30"
proof -
  obtain h r1 where h: "adapter_read 1 r = (h, r1)" by force
  obtain l r2 where l: "adapter_read 1 r1 = (l, r2)" by force
  obtain w r3 where w: "adapter_read 2 r2 = (w, r3)" by force
  have hb: "of_le h < 256" using of_le_less [of h 1] length_read [of 1 r] h by simp
  have lb: "of_le l < 256" using of_le_less [of l 1] length_read [of 1 r1] l by simp
  have lw: "of_le w < 65536" using of_le_less [of w 2] length_read [of 2 r2] w by simp
  have m: "and (of_le h) 0x3F < 64" "and (of_le h) 0x7F < 128"
    using and_low [of "of_le h" 6] and_low [of "of_le h" 7] by (simp_all add: mask_eq_exp_minus_1)
  define x where "x = and (of_le h) 0x3F * 256 + of_le l"
  have "x < 16384" using m(1) lb unfolding x_def by linarith
  then have "(and (of_le h) 0x3F * 256 + of_le l) * 65536 + of_le w < 64 * 256 * 65536"
    using lw unfolding x_def [symmetric] by simp
  moreover have "and (of_le h) 0x7F * 256 + of_le l < 128 * 256" using m(2) lb by linarith
  ultimately show ?thesis using hb by (auto simp: read_size_read check_size_def h l w simp del: One_nat_def)
qed

lemma length_n: "length (fst (read_n n d r)) = n"
  by (induction n d r rule: read_n.induct) (auto split: prod.splits simp: Let_def)

lemma all_n: "(\<And>r. P (fst (d r))) \<Longrightarrow> list_all P (fst (read_n n d r))"
  by (induction n arbitrary: r) (auto simp: case_prod_unfold Let_def)

lemma typed_split: "list_all (typed cmp (TValue n)) (split_values n k bs) \<and> length (split_values n k bs) = k"
  by (induction n k bs rule: split_values.induct) (simp_all add: of_le_less)

lemma typed_elems:
  assumes "\<And>r. typed cmp t (fst (deser cmp t r))"
  shows "list_all (typed cmp t) (fst (read_elems t (deser cmp t) c k r))"
    "length (fst (read_elems t (deser cmp t) c k r)) = k"
  using all_n [of "typed cmp t" "deser cmp t", OF assms] typed_split
  by (auto simp: read_elems_def read_values_def length_n value_size_Some case_prod_unfold Let_def split: option.splits)

lemma typed_deser_fields:
  "(\<And>t r. t \<in> set ts \<Longrightarrow> typed cmp t (fst (deser cmp t r))) \<Longrightarrow> typed_fields cmp ts (fst (deser_fields cmp ts r))"
  by (induction ts arbitrary: r) (auto simp: case_prod_unfold Let_def)

text \<open>
  A decoder that stays within its bytes: without an error the iterators are in order and the
  end is where it was, and an error is one of the two the adapters set.
\<close>

definition tidy :: "(reader \<Rightarrow> 'a \<times> reader) \<Rightarrow> bool" where
  "tidy d \<longleftrightarrow> sticky d \<and> (\<forall>r. rd_good r \<longrightarrow> rd_data (snd (d r)) = rd_data r \<and>
     (rd_good (snd (d r)) \<and> rd_end (snd (d r)) = rd_end r \<or>
      rd_end (snd (d r)) \<le> rd_end r \<and> rd_error (snd (d r)) \<in> {DataOverflow, InvalidData}))"

lemma tidy_sticky: "tidy d \<Longrightarrow> sticky d"
  by (simp add: tidy_def)

lemma tidyD:
  assumes "tidy d" "rd_good r"
  shows "rd_data (snd (d r)) = rd_data r \<and>
     (rd_good (snd (d r)) \<and> rd_end (snd (d r)) = rd_end r \<or>
      rd_end (snd (d r)) \<le> rd_end r \<and> rd_error (snd (d r)) \<in> {DataOverflow, InvalidData})"
  using assms by (simp add: tidy_def)

lemma tidy_return [simp]: "tidy (\<lambda>r. (x, r))"
  by (simp add: tidy_def)

lemma tidy_bind [intro]:
  assumes d: "tidy d" and k: "\<And>x. tidy (k x)"
  shows "tidy (\<lambda>r. case d r of (x, r1) \<Rightarrow> k x r1)"
  unfolding tidy_def
proof (intro conjI allI impI)
  show "sticky (\<lambda>r. case d r of (x, r1) \<Rightarrow> k x r1)" using tidy_sticky [OF d] tidy_sticky [OF k] by (rule sticky_bind)
  fix r assume r: "rd_good r"
  obtain x r1 where x: "d r = (x, r1)" by force
  note t = tidyD [OF d r, unfolded x snd_conv]
  have e: "snd (k x r1) = r1" if "rd_error r1 \<noteq> NoError" by (rule stickyD [OF tidy_sticky [OF k] that])
  have er: "rd_error r1 \<noteq> NoError" if "rd_error r1 \<in> {DataOverflow, InvalidData}"
    using that by (auto simp: DataOverflow_def InvalidData_def NoError_def)
  let ?r' = "snd (case d r of (x, r1) \<Rightarrow> k x r1)"
  have r': "?r' = snd (k x r1)" by (simp add: x)
  show "rd_data ?r' = rd_data r" unfolding r' using t e er tidyD [OF k, of r1 x] by auto
  show "rd_good ?r' \<and> rd_end ?r' = rd_end r \<or> rd_end ?r' \<le> rd_end r \<and> rd_error ?r' \<in> {DataOverflow, InvalidData}"
    unfolding r' using t e er tidyD [OF k, of r1 x] by auto
qed

lemma tidy_if [intro]: "tidy d \<Longrightarrow> tidy e \<Longrightarrow> tidy (\<lambda>r. if c then d r else e r)"
  by (cases c) simp_all

lemma good_set_error:
  assumes "rd_good r" "e \<in> {DataOverflow, InvalidData}"
  shows "rd_data (adapter_set_error e r) = rd_data r" "rd_end (adapter_set_error e r) \<le> rd_end r"
    "rd_error (adapter_set_error e r) \<in> {DataOverflow, InvalidData}"
  using assms by (auto simp: adapter_set_error_def rd_good_def rd_error_def DataOverflow_def InvalidData_def)

lemma tidy_read [simp]: "tidy (adapter_read n)"
  unfolding tidy_def
proof (intro conjI sticky_read allI impI)
  fix r assume r: "rd_good r"
  show "rd_data (snd (adapter_read n r)) = rd_data r"
    by (simp add: adapter_read_def adapter_set_error_def)
  show "rd_good (snd (adapter_read n r)) \<and> rd_end (snd (adapter_read n r)) = rd_end r \<or>
      rd_end (snd (adapter_read n r)) \<le> rd_end r \<and> rd_error (snd (adapter_read n r)) \<in> {DataOverflow, InvalidData}"
    using r good_set_error [OF r, of DataOverflow] good_no_error [OF r] by (auto simp: adapter_read_def rd_good_def)
qed

lemma tidy_set_error: "tidy (\<lambda>r. (x, if c then rd_set_error InvalidData r else r))"
  unfolding tidy_def
proof (intro conjI sticky_set_error allI impI)
  fix r assume r: "rd_good r"
  let ?r = "snd (x, if c then rd_set_error InvalidData r else r)"
  show "rd_data ?r = rd_data r" by (simp add: rd_set_error_def adapter_set_error_def)
  show "rd_good ?r \<and> rd_end ?r = rd_end r \<or> rd_end ?r \<le> rd_end r \<and> rd_error ?r \<in> {DataOverflow, InvalidData}"
    using r good_set_error [OF r, of InvalidData] good_no_error [OF r] by (auto simp: rd_set_error_def)
qed

lemma tidy_size [simp]: "tidy (read_size m)"
proof -
  have "tidy (check_size m sz)" for sz
  proof -
    have "check_size m sz = (\<lambda>r. (if m < sz then 0 else sz, if m < sz then rd_set_error InvalidData r else r))"
      by (auto simp: check_size_def fun_eq_iff)
    then show ?thesis by (simp only: tidy_set_error)
  qed
  then show ?thesis unfolding read_size_read by (intro tidy_bind tidy_if tidy_read)
qed

lemma tidy_n: "tidy d \<Longrightarrow> tidy (read_n n d)"
proof (induction n)
  case (Suc n)
  then show ?case unfolding read_n_Suc by (intro tidy_bind) simp_all
qed (simp add: tidy_def sticky_def)

lemma tidy_elems: "tidy d \<Longrightarrow> tidy (read_elems t d c k)"
proof -
  assume d: "tidy d"
  have v: "tidy (read_values n k)" for n
    unfolding read_values_read by (simp add: tidy_bind)
  show ?thesis
  proof (cases "value_size t")
    case None
    then show ?thesis using tidy_n [OF d, of k] by (simp add: read_elems_def [abs_def])
  next
    case (Some n)
    then show ?thesis using tidy_n [OF d, of k] v by (cases c) (simp_all add: read_elems_def [abs_def])
  qed
qed

lemma tidy_fields: "(\<And>t. t \<in> set ts \<Longrightarrow> tidy (deser cmp t)) \<Longrightarrow> tidy (deser_fields cmp ts)"
  by (induction ts) (auto simp: deser_fields_read intro!: tidy_bind)

lemma tidy_deser: "tidy (deser cmp t)"
proof (induction t)
  case TBool
  then show ?case unfolding deser_read bool_value_read by (intro tidy_bind tidy_read tidy_set_error)
next
  case (TValue n)
  then show ?case unfolding deser_read value_n_read by (intro tidy_bind tidy_read) simp
qed (auto simp: deser_read intro!: tidy_bind tidy_n tidy_elems tidy_fields)

section \<open>Properties\<close>


text \<open>A comparison of numbers, and one of the members a game message could have.\<close>

definition number_less :: "nat \<Rightarrow> bval \<Rightarrow> bval \<Rightarrow> bool" where
  "number_less n x y = (case (x, y) of (BValue a, BValue b) \<Rightarrow> a < b | _ \<Rightarrow> False)"

definition example_type :: btype where
  "example_type = TObject [TBool, TValue 4, TSeq True (TValue 1), TMap 0 (TValue 1) (TSeq False TBool), TArray 2 (TValue 2)]"

definition example_value :: bval where
  "example_value = BSeq [BBool True, BValue 7, BSeq [BValue 104, BValue 105],
     BMap [(BValue 1, BSeq [BBool False]), (BValue 5, BSeq [])], BSeq [BValue 258, BValue 3]]"

lemma unroll_numerals:
  "read_n (numeral k) d r = (let (x, r1) = d r; (xs, r2) = read_n (pred_numeral k) d r1 in (x # xs, r2))"
  "split_values n (numeral k) bs = BValue (of_le (take n bs)) # split_values n (pred_numeral k) (drop n bs)"
  "le_bytes (numeral k) v = word_of_nat v # le_bytes (pred_numeral k) (v div 256)"
  by (simp_all only: numeral_eq_Suc [of k] read_n.simps split_values.simps le_bytes.simps)

lemmas bitsery_eval = reader_new_def adapter_read_def read_size_def size_max_def value_n_def bool_value_def
  number_less_def Let_def unroll_numerals

lemma number_less_order: "strict_order (number_less n)"
  by (auto simp: strict_order_def number_less_def split: bval.splits)


text \<open>
  C13. What is written is read back. From the bytes the serializer wrote for a value of the type,
  with anything behind them, the deserializer makes the value, sets no error and has completed
  only when nothing is behind; from any proper part of them it ends in \<open>DataOverflow\<close>.
\<close>

theorem archive_roundtrip:
  assumes "typed cmp t v"
  shows "deser cmp t (reader_new (concat (ser t v) @ rest)) =
      (v, rd_advance (length (concat (ser t v))) (reader_new (concat (ser t v) @ rest))) \<and>
    rd_error (rd_advance (length (concat (ser t v))) (reader_new (concat (ser t v) @ rest))) = NoError \<and>
    (rd_completed (snd (deser cmp t (reader_new (concat (ser t v) @ rest)))) \<longleftrightarrow> rest = []) \<and>
    (strict_prefix part (concat (ser t v)) \<longrightarrow> rd_error (snd (deser cmp t (reader_new part))) = DataOverflow)"
proof -
  have good: "rd_good (reader_new bs)" and left: "rd_left (reader_new bs) = bs" for bs
    by (simp_all add: rd_good_def reader_new_def rd_left_def)
  note d = decodes_deser [OF assms]
  note r = decodesD(1) [OF d good left]
  moreover have "rd_error (snd (deser cmp t (reader_new part))) = DataOverflow" if "strict_prefix part (concat (ser t v))"
    using decodesD(2) [OF d good] that by (simp add: left)
  ultimately show ?thesis
    by (simp add: rd_advance_def rd_error_def reader_new_def rd_completed_def)
qed

theorem archive_roundtrip_witness:
  "concat (ser example_type example_value) = [1, 7, 0, 0, 0, 2, 104, 105, 2, 1, 1, 0, 5, 0, 2, 1, 3, 0] \<and>
    fst (deser number_less example_type (reader_new [1, 7, 0, 0, 0, 2, 104, 105, 2, 1, 1, 0, 5, 0, 2, 1, 3, 0])) = example_value \<and>
    rd_error (snd (deser number_less example_type (reader_new [1, 7, 0, 0, 0, 2, 104, 105, 2, 1]))) = DataOverflow"
proof -
  have t: "typed number_less example_type example_value"
    by (simp add: example_type_def example_value_def number_less_def)
  have b: "concat (ser example_type example_value) = [1, 7, 0, 0, 0, 2, 104, 105, 2, 1, 1, 0, 5, 0, 2, 1, 3, 0]"
    by (simp add: example_type_def example_value_def write_size_def one_write_def le_bytes.simps unroll_numerals)
  from archive_roundtrip [OF t, of "[]" "[1, 7, 0, 0, 0, 2, 104, 105, 2, 1]"] show ?thesis by (simp add: b)
qed

text \<open>
  Four bytes ask for \<open>2 ^ 30 - 1\<close> elements. The size of a container is not compared with the
  bytes that are left: a reader of four bytes \<open>0xFF\<close> resizes any container of numbers to the
  largest size there is, fills it with zeros and only then reports \<open>DataOverflow\<close>.
\<close>

theorem size_is_not_checked:
  "deser cmp (TSeq c (TValue (Suc n))) (reader_new [255, 255, 255, 255]) =
    (BSeq (replicate (2 ^ 30 - 1) (BValue 0)), \<lparr>rd_data = [255, 255, 255, 255], rd_pos = 6, rd_end = 4\<rparr>)"
proof -
  let ?r = "\<lparr>rd_data = [255, 255, 255, 255 :: byte], rd_pos = 4, rd_end = 4\<rparr>"
  let ?e = "\<lparr>rd_data = [255, 255, 255, 255 :: byte], rd_pos = 6, rd_end = 4\<rparr>"
  have sz: "read_size size_max (reader_new [255, 255, 255, 255]) = (2 ^ 30 - 1, ?r)"
    by (simp add: read_size_def reader_new_def adapter_read_def Let_def size_max_def)
  have e: "adapter_read m ?r = (replicate m 0, ?e)" if "0 < m" for m
    using that by (simp add: adapter_read_def rd_error_def NoError_def DataOverflow_def adapter_set_error_def)
  have z: "split_values m k (replicate (k * m) 0) = replicate k (BValue 0)" for m k
    by (induction k) (simp_all add: replicate_add)
  have st: "read_n k (value_n (Suc n)) ?e = (replicate k (BValue 0), ?e)" for k
    by (induction k) (simp_all add: value_n_def read_error rd_error_def NoError_def del: replicate_Suc, simp)
  have n: "read_n (Suc k) (value_n (Suc n)) ?r = (replicate (Suc k) (BValue 0), ?e)" for k
    using st [of k] of_le_zeros [of "Suc n"] by (simp add: value_n_def e del: replicate_Suc of_le_zeros) simp
  have k: "2 ^ 30 - 1 = Suc (2 ^ 30 - 2 :: nat)" by simp
  have "read_elems (TValue (Suc n)) (deser cmp (TValue (Suc n))) c (2 ^ 30 - 1) ?r = (replicate (2 ^ 30 - 1) (BValue 0), ?e)"
  proof (cases c)
    case True
    then show ?thesis using e [of "(2 ^ 30 - 1) * Suc n"] z [of "Suc n" "2 ^ 30 - 1"]
      by (simp add: read_elems_def read_values_def del: replicate.simps)
  next
    case False
    then show ?thesis using n [of "2 ^ 30 - 2"] unfolding k
      by (simp only: read_elems_def value_size.simps option.case if_False deser_read)
  qed
  then show ?thesis unfolding deser_read sz by (simp only: prod.case)
qed

text \<open>
  C15. No byte sequence makes the deserializer leave its bytes: the iterators stay in order, or the
  error is \<open>DataOverflow\<close> or \<open>InvalidData\<close>, the buffer is unchanged and whatever is read
  afterwards is zero and changes nothing.
\<close>

theorem deser_in_bounds:
  "let r = snd (deser cmp t (reader_new bs)) in
    rd_data r = bs \<and> rd_end r \<le> length bs \<and>
    (if rd_error r = NoError then rd_pos r \<le> rd_end r \<and> rd_end r = length bs
     else rd_error r \<in> {DataOverflow, InvalidData} \<and> adapter_read n r = (replicate n 0, r) \<and>
       snd (deser cmp u r) = r)"
proof -
  have g: "rd_good (reader_new bs)" by (simp add: rd_good_def reader_new_def)
  let ?r = "snd (deser cmp t (reader_new bs))"
  note t = tidyD [OF tidy_deser g, of cmp t]
  then have "rd_data ?r = bs" "rd_end ?r \<le> length bs" by (auto simp: reader_new_def)
  moreover have "rd_pos ?r \<le> rd_end ?r \<and> rd_end ?r = length bs" if "rd_error ?r = NoError"
    using t that by (auto simp: rd_good_def reader_new_def DataOverflow_def InvalidData_def NoError_def)
  moreover have "rd_error ?r \<in> {DataOverflow, InvalidData}" if "rd_error ?r \<noteq> NoError"
    using t that good_no_error by blast
  ultimately show ?thesis using read_error [of ?r n] stickyD [OF sticky_deser, of ?r cmp u] by (auto simp: Let_def)
qed

end
