(* ===== verification/Concurrent_Queue.thy ===== *)
theory Concurrent_Queue
  imports Lax_Prelude
begin

text \<open>
  \<open>util::concurrent_queue\<close> (\<open>include/lax/util/concurrent_queue.inl\<close>, the \<open>std::deque\<close>
  version, which holds its mutex for the whole of every operation) and the loop
  \<open>while (q.pop(m)) ...\<close> its clients write. The locale \<open>fifo\<close> is what they rely on.
\<close>

section \<open>The model\<close>

type_synonym 'a cqueue = "'a list"

definition cq_push :: "'a cqueue \<Rightarrow> 'a \<Rightarrow> 'a cqueue" where
  "cq_push q v = q @ [v]"

definition cq_pop :: "'a cqueue \<Rightarrow> ('a \<times> 'a cqueue) option" where
  "cq_pop q = (case q of [] \<Rightarrow> None | v # vs \<Rightarrow> Some (v, vs))"

definition cq_unsafe_size :: "'a cqueue \<Rightarrow> nat" where
  "cq_unsafe_size q = length q"

section \<open>The interface\<close>

locale fifo =
  fixes push :: "'q \<Rightarrow> 'a \<Rightarrow> 'q"
    and pop :: "'q \<Rightarrow> ('a \<times> 'q) option"
    and count :: "'q \<Rightarrow> nat"
    and elems :: "'q \<Rightarrow> 'a list"
  assumes elems_push: "elems (push q v) = elems q @ [v]"
    and pop_None: "pop q = None \<longleftrightarrow> elems q = []"
    and pop_Some: "pop q = Some (v, q') \<Longrightarrow> elems q = v # elems q'"
    and count_elems: "count q = length (elems q)"
begin

lemma pop_count: "pop q = Some (v, q') \<Longrightarrow> count q = Suc (count q')"
  by (simp add: count_elems pop_Some)

lemma pop_push_empty: "elems q = [] \<Longrightarrow> \<exists>q'. pop (push q v) = Some (v, q') \<and> elems q' = []"
  by (metis append_Nil elems_push list.inject list.distinct(1) option.exhaust pop_None pop_Some surj_pair)

text \<open>Popping as long as there is something takes the elements out in the order they went in.\<close>

fun pop_n :: "nat \<Rightarrow> 'q \<Rightarrow> 'a list \<times> 'q" where
  "pop_n 0 q = ([], q)"
| "pop_n (Suc n) q =
     (case pop q of None \<Rightarrow> ([], q)
      | Some (v, q') \<Rightarrow> (let (vs, q'') = pop_n n q' in (v # vs, q'')))"

lemma pop_n_elems: "pop_n n q = (vs, q') \<Longrightarrow> vs = take n (elems q) \<and> elems q' = drop n (elems q)"
proof (induction n arbitrary: q vs q')
  case 0
  then show ?case by simp
next
  case (Suc n)
  show ?case
  proof (cases "pop q")
    case None
    then have "elems q = []" by (simp only: pop_None)
    with Suc.prems None show ?thesis by simp
  next
    case (Some p)
    obtain v q1 where p: "p = (v, q1)" by force
    obtain ws q2 where r: "pop_n n q1 = (ws, q2)" by force
    have "elems q = v # elems q1" using pop_Some [of q v q1] Some p by simp
    then show ?thesis using Suc.prems Suc.IH [OF r] Some p r by auto
  qed
qed

end

interpretation cq: fifo cq_push cq_pop cq_unsafe_size "\<lambda>q. q"
  by unfold_locales (auto simp: cq_push_def cq_pop_def cq_unsafe_size_def split: list.splits)

section \<open>The pop loop\<close>

text \<open>
  \<open>while (q.pop(m)) { body }\<close> for a body that does not push to the same queue: the queue
  loses one element in every round.
\<close>

function drain :: "('a \<Rightarrow> 's \<Rightarrow> 's) \<Rightarrow> 'a cqueue \<Rightarrow> 's \<Rightarrow> 's" where
  "drain f q s = (case cq_pop q of None \<Rightarrow> s | Some (v, q') \<Rightarrow> drain f q' (f v s))"
  by pat_completeness auto
termination
  by (relation "measure (\<lambda>(f, q, s). cq_unsafe_size q)") (auto dest: cq.pop_count)

declare drain.simps [simp del]

lemma drain_fold [lax_abs]: "drain f q s = fold f q s"
proof (induction q arbitrary: s)
  case Nil
  then show ?case by (subst drain.simps) (simp add: cq_pop_def)
next
  case (Cons v q)
  then show ?case by (subst drain.simps) (simp add: cq_pop_def)
qed

end
