(* ===== verification/Buffer_Pool.thy ===== *)
theory Buffer_Pool
  imports Concurrent_Queue "HOL-Library.Multiset"
begin

text \<open>
  Memory blocks of the network layer: \<open>fixed_size_buffer_pool\<close> and
  \<open>multiple_size_buffer_pool\<close> (\<open>include/lax/net/detail/buffer\<close>). A block is its bytes
  together with the number \<open>new\<close> gave it, so that the model can tell two blocks apart; the
  bytes of a new block are whatever the memory holds (\<open>junk\<close>), and a block that comes back
  from a pool holds what its last user left in it.
\<close>

section \<open>Blocks\<close>

record mem =
  next_block :: nat
  junk :: "nat \<Rightarrow> byte"

text \<open>\<open>b_pool\<close> is \<open>pool_\<close>, the place of the pool in \<open>pools_\<close>, or null for a block of the OS.\<close>

record buffer =
  b_id :: nat
  b_pool :: "nat option"
  b_data :: "byte list"

definition b_capacity :: "buffer \<Rightarrow> nat" where
  "b_capacity b = length (b_data b)"

definition is_allocated_from_os :: "buffer \<Rightarrow> bool" where
  "is_allocated_from_os b = (b_pool b = None)"

definition new_buffer :: "nat option \<Rightarrow> nat \<Rightarrow> mem \<Rightarrow> buffer \<times> mem" where
  "new_buffer pool len m =
     (\<lparr>b_id = next_block m, b_pool = pool, b_data = map (junk m) [0..<len]\<rparr>,
      m\<lparr>next_block := Suc (next_block m)\<rparr>)"

section \<open>fixed\_size\_buffer\_pool\<close>

record fixed_pool =
  fp_blocks :: "buffer cqueue"
  fp_length :: nat
  fp_alloc_count :: u32
  fp_total_alloc_count :: u32
  fp_total_release_count :: u32

definition fixed_pool_new :: "nat \<Rightarrow> fixed_pool" where
  "fixed_pool_new len =
     \<lparr>fp_blocks = [], fp_length = len, fp_alloc_count = 0, fp_total_alloc_count = 0,
      fp_total_release_count = 0\<rparr>"

text \<open>\<open>i\<close> is \<open>this\<close>, the place of the pool.\<close>

definition fp_alloc :: "nat \<Rightarrow> fixed_pool \<Rightarrow> mem \<Rightarrow> buffer \<times> fixed_pool \<times> mem" where
  "fp_alloc i fp m =
     (let fp1 = fp\<lparr>fp_alloc_count := fp_alloc_count fp + 1,
                   fp_total_alloc_count := fp_total_alloc_count fp + 1\<rparr>
      in case cq_pop (fp_blocks fp1) of
           Some (b, q) \<Rightarrow> (b, fp1\<lparr>fp_blocks := q\<rparr>, m)
         | None \<Rightarrow> (case new_buffer (Some i) (fp_length fp1) m of (b, m') \<Rightarrow> (b, fp1, m')))"

definition fp_release :: "fixed_pool \<Rightarrow> buffer \<Rightarrow> fixed_pool" where
  "fp_release fp b =
     (if b_capacity b \<noteq> fp_length fp then fp
      else fp\<lparr>fp_alloc_count := fp_alloc_count fp - 1,
              fp_total_release_count := fp_total_release_count fp + 1,
              fp_blocks := cq_push (fp_blocks fp) b\<rparr>)"

section \<open>multiple\_size\_buffer\_pool\<close>

record buffer_pool =
  mp_pools :: "fixed_pool list"
  os_alloc_count :: u32
  os_alloc_bytes :: u32
  total_os_alloc_bytes :: u32
  total_os_release_bytes :: u32
  mp_mem :: mem

fun init_pools :: "nat \<Rightarrow> nat \<Rightarrow> fixed_pool list" where
  "init_pools sz 0 = []"
| "init_pools sz (Suc steps) = fixed_pool_new sz # init_pools (2 * sz) steps"

definition start_power_of_2 :: nat where "start_power_of_2 = 6"

definition pool_steps :: nat where "pool_steps = 16"

definition buffer_pool_new :: "mem \<Rightarrow> buffer_pool" where
  "buffer_pool_new m =
     \<lparr>mp_pools = init_pools (2 ^ start_power_of_2) pool_steps, os_alloc_count = 0, os_alloc_bytes = 0,
      total_os_alloc_bytes = 0, total_os_release_bytes = 0, mp_mem = m\<rparr>"

text \<open>The loop over \<open>pools_\<close>: the first pool whose blocks are long enough.\<close>

fun first_pool :: "nat \<Rightarrow> fixed_pool list \<Rightarrow> nat option" where
  "first_pool n [] = None"
| "first_pool n (fp # fps) =
     (if fp_length fp \<ge> n then Some 0 else map_option Suc (first_pool n fps))"

definition mp_alloc :: "buffer_pool \<Rightarrow> nat \<Rightarrow> buffer \<times> buffer_pool" where
  "mp_alloc p n =
     (case first_pool n (mp_pools p) of
        Some i \<Rightarrow>
          (case fp_alloc i (mp_pools p ! i) (mp_mem p) of
             (b, fp, m) \<Rightarrow> (b, p\<lparr>mp_pools := (mp_pools p)[i := fp], mp_mem := m\<rparr>))
      | None \<Rightarrow>
          (let bytes = os_alloc_bytes p + word_of_nat n
           in case new_buffer None n (mp_mem p) of
                (b, m) \<Rightarrow>
                  (b, p\<lparr>os_alloc_count := os_alloc_count p + 1, os_alloc_bytes := bytes,
                        total_os_alloc_bytes := total_os_alloc_bytes p + bytes, mp_mem := m\<rparr>)))"

definition mp_release :: "buffer_pool \<Rightarrow> buffer \<Rightarrow> buffer_pool" where
  "mp_release p b =
     (if is_allocated_from_os b
      then p\<lparr>os_alloc_count := os_alloc_count p - 1,
             os_alloc_bytes := os_alloc_bytes p - word_of_nat (b_capacity b),
             total_os_release_bytes := total_os_release_bytes p + word_of_nat (b_capacity b)\<rparr>
      else (let i = the (b_pool b)
            in p\<lparr>mp_pools := (mp_pools p)[i := fp_release (mp_pools p ! i) b]\<rparr>))"

section \<open>Sizes\<close>

lemma length_init_pools [simp]: "length (init_pools s n) = n"
  by (induction n arbitrary: s) simp_all

lemma init_pools_nth: "i < n \<Longrightarrow> init_pools s n ! i = fixed_pool_new (s * 2 ^ i)"
proof (induction n arbitrary: s i)
  case 0
  then show ?case by simp
next
  case (Suc n)
  then show ?case by (cases i) (simp_all add: mult.assoc [symmetric] mult.commute)
qed

lemma first_pool_Some:
  "first_pool n fps = Some i \<longleftrightarrow>
     i < length fps \<and> n \<le> fp_length (fps ! i) \<and> (\<forall>j<i. fp_length (fps ! j) < n)"
proof (induction fps arbitrary: i)
  case Nil
  then show ?case by simp
next
  case (Cons fp fps)
  then show ?case
    by (cases i) (auto simp: less_Suc_eq_0_disj not_le)
qed

lemma first_pool_None: "first_pool n fps = None \<longleftrightarrow> (\<forall>fp \<in> set fps. fp_length fp < n)"
  by (induction fps) (auto simp: not_le)

definition pool_sizes_ok :: "buffer_pool \<Rightarrow> bool" where
  "pool_sizes_ok p \<longleftrightarrow> length (mp_pools p) = 16 \<and> (\<forall>i < 16. fp_length (mp_pools p ! i) = 64 * 2 ^ i)"

lemma first_pool_sizes:
  assumes "pool_sizes_ok p"
  shows "first_pool n (mp_pools p) = Some i \<longleftrightarrow> i < 16 \<and> n \<le> 64 * 2 ^ i \<and> (\<forall>j<i. 64 * 2 ^ j < n)"
  using assms by (auto simp: first_pool_Some pool_sizes_ok_def)

section \<open>Who owns a block\<close>

text \<open>
  \<open>all_blocks p held\<close>: the blocks in the hands of the clients and the blocks waiting in the
  pools, each as often as it occurs. \<open>pool_inv\<close>: they are all different, and every block has
  the size of the pool it goes back to.
\<close>

definition waiting :: "buffer_pool \<Rightarrow> nat \<Rightarrow> buffer list" where
  "waiting p i = fp_blocks (mp_pools p ! i)"

definition all_blocks :: "buffer_pool \<Rightarrow> buffer list \<Rightarrow> nat multiset" where
  "all_blocks p held = mset (map b_id held) + (\<Sum>i<16. mset (map b_id (waiting p i)))"

definition sized :: "buffer_pool \<Rightarrow> buffer \<Rightarrow> bool" where
  "sized p b \<longleftrightarrow>
     (case b_pool b of None \<Rightarrow> True | Some i \<Rightarrow> i < 16 \<and> b_capacity b = fp_length (mp_pools p ! i))"

definition pool_inv :: "buffer_pool \<Rightarrow> buffer list \<Rightarrow> bool" where
  "pool_inv p held \<longleftrightarrow>
     pool_sizes_ok p \<and> (\<forall>x. count (all_blocks p held) x \<le> 1) \<and>
     (\<forall>x \<in># all_blocks p held. x < next_block (mp_mem p)) \<and> (\<forall>b \<in> set held. sized p b) \<and>
     (\<forall>i < 16. \<forall>b \<in> set (waiting p i). sized p b \<and> b_pool b = Some i)"

lemma sum_change_one:
  fixes f g :: "nat \<Rightarrow> 'a::comm_monoid_add"
  assumes "i < n" "g i = f i + d" "\<And>j. j < n \<Longrightarrow> j \<noteq> i \<Longrightarrow> g j = f j"
  shows "(\<Sum>j<n. g j) = (\<Sum>j<n. f j) + d"
proof -
  have "(\<Sum>j<n. g j) = g i + (\<Sum>j \<in> {..<n} - {i}. g j)" using assms(1) by (intro sum.remove) auto
  also have "(\<Sum>j \<in> {..<n} - {i}. g j) = (\<Sum>j \<in> {..<n} - {i}. f j)" using assms(3) by (intro sum.cong) auto
  also have "g i + \<dots> = (f i + (\<Sum>j \<in> {..<n} - {i}. f j)) + d" using assms(2) by (simp add: ac_simps)
  also have "f i + (\<Sum>j \<in> {..<n} - {i}. f j) = (\<Sum>j<n. f j)"
    using assms(1) by (intro sum.remove [symmetric]) auto
  finally show ?thesis .
qed

lemma pool_sizes_new: "pool_sizes_ok (buffer_pool_new m)"
  by (simp add: pool_sizes_ok_def buffer_pool_new_def pool_steps_def start_power_of_2_def
    init_pools_nth fixed_pool_new_def)

lemma waiting_new [simp]: "i < 16 \<Longrightarrow> waiting (buffer_pool_new m) i = []"
  by (simp add: waiting_def buffer_pool_new_def pool_steps_def start_power_of_2_def init_pools_nth
    fixed_pool_new_def)

lemma pool_inv_new [lax_inv]: "pool_inv (buffer_pool_new m) []"
proof -
  have "all_blocks (buffer_pool_new m) [] = {#}" by (simp add: all_blocks_def)
  then show ?thesis using pool_sizes_new [of m] by (simp add: pool_inv_def)
qed

lemma b_capacity_new [simp]: "b_capacity (fst (new_buffer q n m)) = n"
  by (simp add: new_buffer_def b_capacity_def)

text \<open>The three ways an allocation can go.\<close>

lemma mp_alloc_cases:
  assumes "pool_sizes_ok p" "mp_alloc p n = (b, p')"
  obtains (reuse) i q where "first_pool n (mp_pools p) = Some i" "waiting p i = b # q"
      "mp_mem p' = mp_mem p" "i < 16" "pool_sizes_ok p'"
      "\<And>j. j < 16 \<Longrightarrow> waiting p' j = (if j = i then q else waiting p j)"
      "\<And>j. fp_length (mp_pools p' ! j) = fp_length (mp_pools p ! j)"
  | (fresh) i where "first_pool n (mp_pools p) = Some i" "i < 16" "pool_sizes_ok p'"
      "b = fst (new_buffer (Some i) (fp_length (mp_pools p ! i)) (mp_mem p))"
      "mp_mem p' = (mp_mem p)\<lparr>next_block := Suc (next_block (mp_mem p))\<rparr>"
      "\<And>j. j < 16 \<Longrightarrow> waiting p' j = waiting p j"
      "\<And>j. fp_length (mp_pools p' ! j) = fp_length (mp_pools p ! j)"
  | (os) "first_pool n (mp_pools p) = None" "pool_sizes_ok p'"
      "b = fst (new_buffer None n (mp_mem p))"
      "mp_mem p' = (mp_mem p)\<lparr>next_block := Suc (next_block (mp_mem p))\<rparr>"
      "mp_pools p' = mp_pools p"
proof (cases "first_pool n (mp_pools p)")
  case None
  show thesis
    by (rule os [OF None])
      (use assms None in \<open>auto simp: mp_alloc_def new_buffer_def Let_def pool_sizes_ok_def\<close>)
next
  case (Some i)
  then have i: "i < 16" using first_pool_sizes [OF assms(1)] by simp
  have len: "i < length (mp_pools p)" using i assms(1) by (simp add: pool_sizes_ok_def)
  obtain b1 fp m where al: "fp_alloc i (mp_pools p ! i) (mp_mem p) = (b1, fp, m)" by (metis surj_pair)
  have p': "b1 = b" "p' = p\<lparr>mp_pools := (mp_pools p)[i := fp], mp_mem := m\<rparr>"
    using assms(2) Some al by (simp_all add: mp_alloc_def)
  have fpl: "fp_length fp = fp_length (mp_pools p ! i)"
    using al by (auto simp: fp_alloc_def Let_def split: option.splits prod.splits)
  have fl: "fp_length (mp_pools p' ! j) = fp_length (mp_pools p ! j)" for j
    using fpl len by (simp add: p' nth_list_update)
  have ok: "pool_sizes_ok p'" using assms(1) fl by (simp add: pool_sizes_ok_def p')
  have wt: "waiting p' j = (if j = i then fp_blocks fp else waiting p j)" for j
    using len by (simp add: waiting_def p' nth_list_update)
  show thesis
  proof (cases "waiting p i")
    case Nil
    then have "fp_blocks fp = [] \<and> b = fst (new_buffer (Some i) (fp_length (mp_pools p ! i)) (mp_mem p)) \<and>
        m = (mp_mem p)\<lparr>next_block := Suc (next_block (mp_mem p))\<rparr>"
      using al p'(1) by (auto simp: fp_alloc_def waiting_def cq_pop_def Let_def new_buffer_def)
    then show thesis using fresh [OF Some i ok _ _ _ fl] wt Nil by (auto simp: p')
  next
    case (Cons b2 q)
    then have "fp_blocks fp = q \<and> b2 = b \<and> m = mp_mem p"
      using al p'(1) by (auto simp: fp_alloc_def waiting_def cq_pop_def Let_def)
    then show thesis using reuse [OF Some _ _ i ok _ fl] wt Cons by (auto simp: p')
  qed
qed

lemma all_blocks_snoc: "all_blocks p (held @ [b]) = add_mset (b_id b) (all_blocks p held)"
  by (simp add: all_blocks_def)

lemma sized_new: "i < 16 \<Longrightarrow> sized p (fst (new_buffer (Some i) (fp_length (mp_pools p ! i)) m))"
  by (simp add: sized_def new_buffer_def b_capacity_def)

lemma count_add_fresh:
  fixes M :: "nat multiset"
  assumes "\<forall>x. count M x \<le> 1" "\<forall>x \<in># M. x < n"
  shows "count (add_mset n M) x \<le> 1"
proof -
  have "n \<notin># M" using assms(2) by blast
  then have n: "count M n = 0" by (simp only: not_in_iff)
  have "count M x \<le> 1" using assms(1) by blast
  then show ?thesis using n by (cases "x = n") simp_all
qed

lemma alloc_inv [lax_inv]:
  assumes inv: "pool_inv p held" and al: "mp_alloc p n = (b, p')"
  shows "pool_inv p' (held @ [b])"
proof -
  have ok: "pool_sizes_ok p" using inv by (simp add: pool_inv_def)
  show ?thesis
    using ok al
  proof (cases rule: mp_alloc_cases)
    case (reuse i q)
    have sz: "sized p' c = sized p c" for c by (simp add: sized_def reuse(7) split: option.split)
    have "(\<Sum>j<16. mset (map b_id (waiting p j))) =
        (\<Sum>j<16. mset (map b_id (waiting p' j))) + {#b_id b#}"
      using reuse(2,4,6) by (intro sum_change_one [of i]) auto
    then have "all_blocks p' (held @ [b]) = all_blocks p held" by (simp add: all_blocks_def)
    moreover have "set q \<subseteq> set (waiting p i)" "b \<in> set (waiting p i)" using reuse(2) by auto
    ultimately show ?thesis
      using inv reuse(3,4,5,6) sz by (auto simp: pool_inv_def)
  next
    case (fresh i)
    have sz: "sized p' c = sized p c" for c by (simp add: sized_def fresh(7) split: option.split)
    have id: "b_id b = next_block (mp_mem p)" by (simp add: fresh(4) new_buffer_def)
    have "all_blocks p' (held @ [b]) = add_mset (b_id b) (all_blocks p held)"
      using fresh(6) by (simp add: all_blocks_def)
    moreover have "sized p b" using sized_new [OF fresh(2)] by (simp add: fresh(4))
    moreover have "count (add_mset (b_id b) (all_blocks p held)) x \<le> 1" for x
      using inv unfolding pool_inv_def id by (intro count_add_fresh) blast+
    ultimately show ?thesis
      using inv fresh(3,5,6) sz id by (auto simp: pool_inv_def less_Suc_eq)
  next
    case os
    have wt: "waiting p' j = waiting p j" for j by (simp add: waiting_def os(5))
    have sz: "sized p' c = sized p c" for c by (simp add: sized_def os(5) split: option.split)
    have id: "b_id b = next_block (mp_mem p)" by (simp add: os(3) new_buffer_def)
    have "all_blocks p' (held @ [b]) = add_mset (b_id b) (all_blocks p held)"
      using wt by (simp add: all_blocks_def)
    moreover have "sized p b" by (simp add: sized_def os(3) new_buffer_def)
    moreover have "count (add_mset (b_id b) (all_blocks p held)) x \<le> 1" for x
      using inv unfolding pool_inv_def id by (intro count_add_fresh) blast+
    ultimately show ?thesis
      using inv os(2,4) sz wt id by (auto simp: pool_inv_def less_Suc_eq)
  qed
qed


lemma all_blocks_perm: "mset held = mset held' \<Longrightarrow> all_blocks p held = all_blocks p held'"
  by (simp add: all_blocks_def)

text \<open>Giving a block back, whoever holds the others.\<close>

lemma release_inv [lax_inv]:
  assumes inv: "pool_inv p held" and held: "mset held = add_mset b (mset held')"
  shows "pool_inv (mp_release p b) held'"
proof -
  have ok: "pool_sizes_ok p" and b: "sized p b" "set held' \<subseteq> set held"
    using inv mset_eq_setD [OF held [folded mset.simps(2)]] by (auto simp: pool_inv_def)
  have blocks: "all_blocks p held = add_mset (b_id b) (all_blocks p held')"
    using held by (simp add: all_blocks_def)
  show ?thesis
  proof (cases "b_pool b")
    case None
    have wt: "waiting (mp_release p b) i = waiting p i" and sz: "sized (mp_release p b) c = sized p c" for i c
      using None by (simp_all add: mp_release_def is_allocated_from_os_def waiting_def sized_def split: option.split)
    have "all_blocks (mp_release p b) held' = all_blocks p held'" by (simp add: all_blocks_def wt)
    moreover have "count (all_blocks p held') x \<le> 1" for x
      using inv blocks by (metis (no_types, lifting) count_add_mset le_SucI not_less_eq_eq pool_inv_def)
    moreover have "pool_sizes_ok (mp_release p b)" "mp_mem (mp_release p b) = mp_mem p"
      using ok None by (simp_all add: mp_release_def is_allocated_from_os_def pool_sizes_ok_def)
    ultimately show ?thesis
      using inv b(2) blocks by (auto simp: pool_inv_def wt sz)
  next
    case (Some i)
    then have i: "i < 16" "b_capacity b = fp_length (mp_pools p ! i)" using b(1) by (simp_all add: sized_def)
    have len: "i < length (mp_pools p)" using ok i(1) by (simp add: pool_sizes_ok_def)
    have p': "mp_release p b = p\<lparr>mp_pools := (mp_pools p)[i := fp_release (mp_pools p ! i) b]\<rparr>"
      using Some by (simp add: mp_release_def is_allocated_from_os_def)
    have fl: "fp_length (mp_pools (mp_release p b) ! j) = fp_length (mp_pools p ! j)" for j
      using len by (simp add: p' nth_list_update fp_release_def)
    have wt: "waiting (mp_release p b) j = (if j = i then waiting p i @ [b] else waiting p j)" for j
      using len i(2) by (simp add: p' nth_list_update fp_release_def waiting_def cq_push_def)
    have sz: "sized (mp_release p b) c = sized p c" for c by (simp add: sized_def fl split: option.split)
    have "(\<Sum>j<16. mset (map b_id (waiting (mp_release p b) j))) =
        (\<Sum>j<16. mset (map b_id (waiting p j))) + {#b_id b#}"
      using i(1) by (intro sum_change_one [of i]) (auto simp: wt)
    then have "all_blocks (mp_release p b) held' = all_blocks p held"
      using held by (simp add: all_blocks_def)
    moreover have "pool_sizes_ok (mp_release p b)" using ok fl by (simp add: pool_sizes_ok_def p')
    moreover have "mp_mem (mp_release p b) = mp_mem p" by (simp add: p')
    ultimately show ?thesis
      using inv b Some by (auto simp: pool_inv_def sz wt)
  qed
qed

section \<open>A client of the pool\<close>

text \<open>The client takes blocks, gives back the \<open>k\<close>-th it holds, or writes to it.\<close>

datatype pool_op = Alloc nat | Release nat | Write nat "byte list"

fun pool_run :: "pool_op list \<Rightarrow> buffer_pool \<times> buffer list \<Rightarrow> buffer_pool \<times> buffer list" where
  "pool_run [] st = st"
| "pool_run (Alloc n # ops) (p, held) = (case mp_alloc p n of (b, p') \<Rightarrow> pool_run ops (p', held @ [b]))"
| "pool_run (Release k # ops) (p, held) =
     (if k < length held
      then pool_run ops (mp_release p (held ! k), take k held @ drop (Suc k) held)
      else pool_run ops (p, held))"
| "pool_run (Write k xs # ops) (p, held) =
     (if k < length held \<and> length xs = b_capacity (held ! k)
      then pool_run ops (p, held[k := (held ! k)\<lparr>b_data := xs\<rparr>])
      else pool_run ops (p, held))"

lemma mset_remove_nth: "k < length xs \<Longrightarrow> mset xs = add_mset (xs ! k) (mset (take k xs @ drop (Suc k) xs))"
proof -
  assume "k < length xs"
  then have "xs = take k xs @ xs ! k # drop (Suc k) xs" by (rule id_take_nth_drop)
  then show ?thesis by (metis mset.simps(2) mset_append union_mset_add_mset_right)
qed

lemma write_inv [lax_inv]:
  assumes inv: "pool_inv p held" and k: "k < length held" "length xs = b_capacity (held ! k)"
  shows "pool_inv p (held[k := (held ! k)\<lparr>b_data := xs\<rparr>])"
proof -
  have "map b_id (held[k := (held ! k)\<lparr>b_data := xs\<rparr>]) = map b_id held"
    using k(1) by (simp add: map_update) (metis list_update_id map_update)
  then have "all_blocks p (held[k := (held ! k)\<lparr>b_data := xs\<rparr>]) = all_blocks p held"
    by (simp only: all_blocks_def)
  moreover have "sized p ((held ! k)\<lparr>b_data := xs\<rparr>)"
  proof -
    have "sized p (held ! k)" using inv k(1) by (simp add: pool_inv_def)
    then show ?thesis using k(2) by (simp add: sized_def b_capacity_def split: option.splits)
  qed
  then have "\<forall>b \<in> set (held[k := (held ! k)\<lparr>b_data := xs\<rparr>]). sized p b"
    using inv set_update_subset_insert [of held k "(held ! k)\<lparr>b_data := xs\<rparr>"] by (auto simp: pool_inv_def)
  ultimately show ?thesis using inv by (simp add: pool_inv_def)
qed

lemma pool_run_inv: "pool_inv p held \<Longrightarrow> pool_run ops (p, held) = (p', held') \<Longrightarrow> pool_inv p' held'"
proof (induction ops "(p, held)" arbitrary: p held rule: pool_run.induct)
  case (1 p held)
  then show ?case by simp
next
  case (2 n ops p held)
  obtain b q where "mp_alloc p n = (b, q)" by force
  then show ?case using 2 alloc_inv [OF 2(2)] by simp
next
  case (3 k ops p held)
  then show ?case
    using release_inv [OF 3(3) mset_remove_nth [of k held]] by (cases "k < length held") simp_all
next
  case (4 k xs ops p held)
  then show ?case using write_inv [OF 4(3), of k xs] by (simp split: if_splits)
qed

lemma pool_inv_distinct: "pool_inv p held \<Longrightarrow> distinct (map b_id held)"
proof -
  assume inv: "pool_inv p held"
  have le: "count (mset xs) x \<le> count (all_blocks p held) x" if "xs = map b_id held" for xs x
    using that by (simp add: all_blocks_def)
  have one: "count (mset (map b_id held)) x \<le> 1" for x
    using le_trans [OF le [OF refl]] inv unfolding pool_inv_def by blast
  have "count (mset (map b_id held)) x = (if x \<in> set (map b_id held) then 1 else 0)" for x
  proof (cases "x \<in> set (map b_id held)")
    case True
    then have "0 < count (mset (map b_id held)) x" by (simp only: count_greater_zero_iff set_mset_mset)
    then have "count (mset (map b_id held)) x = 1" using one [of x] by linarith
    then show ?thesis using True by (simp only: if_True)
  next
    case False
    then have "count (mset (map b_id held)) x = 0" by (simp only: count_mset_0_iff not_False_eq_True)
    then show ?thesis using False by (simp only: if_False)
  qed
  then show ?thesis unfolding distinct_count_atmost_1 by blast
qed


text \<open>The size of a block, for any pool with the sixteen sizes.\<close>

lemma alloc_capacity:
  assumes "pool_inv p held" "mp_alloc p n = (b, p')"
  shows "if n \<le> 2 ^ 21 then \<exists>i < 16. b_capacity b = 64 * 2 ^ i \<and> n \<le> 64 * 2 ^ i \<and> (\<forall>j < i. 64 * 2 ^ j < n)
    else b_capacity b = n"
proof -
  have ok: "pool_sizes_ok p" and w: "\<And>i c. i < 16 \<Longrightarrow> c \<in> set (waiting p i) \<Longrightarrow> sized p c \<and> b_pool c = Some i"
    using assms(1) by (auto simp: pool_inv_def)
  have len: "fp_length (mp_pools p ! i) = 64 * 2 ^ i" if "i < 16" for i
    using ok that by (simp add: pool_sizes_ok_def)
  have some: "n \<le> 2 ^ 21 \<and> i < 16 \<and> n \<le> 64 * 2 ^ i \<and> (\<forall>j < i. 64 * 2 ^ j < n)"
    if "first_pool n (mp_pools p) = Some i" for i
  proof -
    have *: "i < 16 \<and> n \<le> 64 * 2 ^ i \<and> (\<forall>j < i. 64 * 2 ^ j < n)"
      using that first_pool_sizes [OF ok] by blast
    have "(2::nat) ^ i \<le> 2 ^ 15" using * by (intro power_increasing) auto
    then have "64 * 2 ^ i \<le> (2::nat) ^ 21" by simp
    with * have "n \<le> 2 ^ 21" by (meson le_trans)
    with * show ?thesis by blast
  qed
  show ?thesis
    using ok assms(2)
  proof (cases rule: mp_alloc_cases)
    case (reuse i q)
    have "b_capacity b = 64 * 2 ^ i" using w [of i b] reuse(2,4) len by (auto simp: sized_def)
    then show ?thesis using some [OF reuse(1)] by auto
  next
    case (fresh i)
    have "b_capacity b = 64 * 2 ^ i" using len fresh(2) by (simp add: fresh(4) b_capacity_new del: fst_conv)
    then show ?thesis using some [OF fresh(1)] by auto
  next
    case os
    have "mp_pools p ! 15 \<in> set (mp_pools p)" using ok by (intro nth_mem) (simp add: pool_sizes_ok_def)
    then have "fp_length (mp_pools p ! 15) < n" using os(1) unfolding first_pool_None by blast
    then have "2 ^ 21 < n" using len [of 15] by simp
    then show ?thesis using os(3) by simp
  qed
qed

text \<open>Allocations that go to the OS one after the other.\<close>

fun alloc_all :: "nat list \<Rightarrow> buffer_pool \<Rightarrow> buffer_pool" where
  "alloc_all [] p = p"
| "alloc_all (n # ns) p = alloc_all ns (snd (mp_alloc p n))"

fun running_sums :: "u32 \<Rightarrow> nat list \<Rightarrow> u32 list" where
  "running_sums a [] = []"
| "running_sums a (n # ns) = (a + word_of_nat n) # running_sums (a + word_of_nat n) ns"

lemma alloc_all_os:
  "pool_sizes_ok p \<Longrightarrow> \<forall>n \<in> set ns. 2 ^ 21 < n \<Longrightarrow>
    os_alloc_bytes (alloc_all ns p) = os_alloc_bytes p + sum_list (map word_of_nat ns) \<and>
    total_os_alloc_bytes (alloc_all ns p) = total_os_alloc_bytes p + sum_list (running_sums (os_alloc_bytes p) ns)"
proof (induction ns arbitrary: p)
  case Nil
  then show ?case by simp
next
  case (Cons n ns)
  have "first_pool n (mp_pools p) = None"
  proof (rule ccontr)
    assume "first_pool n (mp_pools p) \<noteq> None"
    then obtain i where "first_pool n (mp_pools p) = Some i" by blast
    then have i: "i < 16" "n \<le> 64 * 2 ^ i" using first_pool_sizes [OF Cons.prems(1)] by auto
    have "(2::nat) ^ i \<le> 2 ^ 15" using i by (intro power_increasing) auto
    with i Cons.prems(2) show False by simp
  qed
  then have al: "os_alloc_bytes (snd (mp_alloc p n)) = os_alloc_bytes p + word_of_nat n"
    "total_os_alloc_bytes (snd (mp_alloc p n)) = total_os_alloc_bytes p + (os_alloc_bytes p + word_of_nat n)"
    "mp_pools (snd (mp_alloc p n)) = mp_pools p"
    by (simp_all add: mp_alloc_def Let_def new_buffer_def)
  then have "pool_sizes_ok (snd (mp_alloc p n))" using Cons.prems(1) by (simp add: pool_sizes_ok_def)
  from Cons.IH [OF this] Cons.prems(2) al show ?case by (simp add: add.assoc)
qed

section \<open>Properties\<close>

text \<open>
  Whatever the clients of a new pool did, a block it hands out is none of the blocks
  they hold, all of which are different, and it is long enough: the smallest of the sixteen
  power of two sizes from 64 bytes that fits, or exactly the size asked for when that is
  above two megabytes.
\<close>

theorem pool_alloc_exclusive:
  assumes "pool_run ops (buffer_pool_new m, []) = (p, held)" and "mp_alloc p n = (b, p')"
  shows "distinct (map b_id (held @ [b])) \<and> n \<le> b_capacity b \<and>
    (if n \<le> 2 ^ 21 then \<exists>i < 16. b_capacity b = 64 * 2 ^ i \<and> (\<forall>j < i. 64 * 2 ^ j < n) else b_capacity b = n)"
proof -
  have inv: "pool_inv p held" by (rule pool_run_inv [OF pool_inv_new assms(1)])
  have "distinct (map b_id (held @ [b]))" by (rule pool_inv_distinct [OF alloc_inv [OF inv assms(2)]])
  then show ?thesis using alloc_capacity [OF inv assms(2)] by (auto split: if_splits)
qed

theorem pool_alloc_exclusive_witness:
  "\<exists>p held b p'. pool_run [Alloc 100, Alloc 70, Release 0, Alloc 3000000] (buffer_pool_new \<lparr>next_block = 0, junk = (\<lambda>_. 0)\<rparr>, [])
      = (p, held) \<and> mp_alloc p 65 = (b, p') \<and> distinct (map b_id (held @ [b])) \<and> 65 \<le> b_capacity b"
proof -
  obtain p held where run: "pool_run [Alloc 100, Alloc 70, Release 0, Alloc 3000000]
      (buffer_pool_new \<lparr>next_block = 0, junk = (\<lambda>_. 0)\<rparr>, []) = (p, held)" by (metis surj_pair)
  obtain b p' where al: "mp_alloc p 65 = (b, p')" by (metis surj_pair)
  from pool_alloc_exclusive [OF run al] run al show ?thesis by blast
qed

text \<open>
  \<open>total_os_alloc_bytes\<close> does not count the bytes allocated: every allocation above two
  megabytes adds the bytes in use so far once more, so after the sizes \<open>ns\<close> it holds the sum
  of their running sums (modulo \<open>2^32\<close>), while \<open>os_alloc_bytes\<close> holds their sum.
\<close>

theorem total_os_alloc_bytes_overcounts:
  assumes "\<forall>n \<in> set ns. 2 ^ 21 < n"
  shows "os_alloc_bytes (alloc_all ns (buffer_pool_new m)) = sum_list (map word_of_nat ns) \<and>
    total_os_alloc_bytes (alloc_all ns (buffer_pool_new m)) = sum_list (running_sums 0 ns)"
  using alloc_all_os [OF pool_sizes_new assms, of m] by (simp add: buffer_pool_new_def)

theorem total_os_alloc_bytes_overcounts_witness:
  "\<forall>m. total_os_alloc_bytes (alloc_all [3000000, 4000000] (buffer_pool_new m)) = 10000000"
proof -
  have "\<forall>n \<in> set [3000000, 4000000 :: nat]. 2 ^ 21 < n" by simp
  from total_os_alloc_bytes_overcounts [OF this] show ?thesis by simp
qed

end
