(* ===== verification/Resize_Buffer.thy ===== *)
theory Resize_Buffer
  imports Buffer_Pool
begin

text \<open>
  \<open>net::resize_buffer\<close> (\<open>include/lax/net/detail/buffer/resize_buffer.hpp\<close>), the growing
  buffer of the network layer. Its interface to the protocols is the locale
  \<open>byte_buffer\<close>, an extension of \<open>byte_sink\<close>, which the send buffer shares. The static
  member \<open>pool_\<close> is the field \<open>rb_pool\<close> of the buffer that is being used; \<open>held\<close> in the
  invariant are the blocks of all other buffers.
\<close>

section \<open>The interfaces\<close>

locale byte_sink =
  fixes append_bytes :: "'b \<Rightarrow> byte list \<Rightarrow> fault + 'b"
    and bytes :: "'b \<Rightarrow> byte list"
    and ok :: "'b \<Rightarrow> bool"
  assumes append_total: "ok b \<Longrightarrow> \<exists>b'. append_bytes b xs = Inr b' \<and> ok b' \<and> bytes b' = bytes b @ xs"
begin

lemma append_ok: "ok b \<Longrightarrow> append_bytes b xs = Inr b' \<Longrightarrow> ok b' \<and> bytes b' = bytes b @ xs"
  using append_total [of b xs] by auto

fun append_all :: "'b \<Rightarrow> byte list list \<Rightarrow> fault + 'b" where
  "append_all b [] = Inr b"
| "append_all b (xs # xss) = (case append_bytes b xs of Inl f \<Rightarrow> Inl f | Inr b' \<Rightarrow> append_all b' xss)"

lemma append_all_ok: "ok b \<Longrightarrow> \<exists>b'. append_all b xss = Inr b' \<and> ok b' \<and> bytes b' = bytes b @ concat xss"
proof (induction xss arbitrary: b)
  case Nil
  then show ?case by simp
next
  case (Cons xs xss)
  obtain b1 where "append_bytes b xs = Inr b1" "ok b1" "bytes b1 = bytes b @ xs"
    using append_total [OF Cons.prems] by blast
  then show ?case using Cons.IH [of b1] by simp
qed

end

locale byte_buffer = byte_sink append_bytes bytes ok
  for append_bytes :: "'b \<Rightarrow> byte list \<Rightarrow> fault + 'b" and bytes :: "'b \<Rightarrow> byte list" and ok :: "'b \<Rightarrow> bool" +
  fixes pop_bytes :: "'b \<Rightarrow> nat \<Rightarrow> fault + 'b"
  assumes pop_total: "ok b \<Longrightarrow> \<exists>b'. pop_bytes b n = Inr b' \<and> ok b' \<and> bytes b' = drop n (bytes b)"
begin

lemma pop_ok: "ok b \<Longrightarrow> pop_bytes b n = Inr b' \<Longrightarrow> ok b' \<and> bytes b' = drop n (bytes b)"
  using pop_total [of b n] by auto

lemma append_pop:
  "ok b \<Longrightarrow> append_bytes b xs = Inr b1 \<Longrightarrow> \<exists>b2. pop_bytes b1 (length (bytes b)) = Inr b2 \<and> bytes b2 = xs"
  using append_ok [of b xs b1] pop_total [of b1 "length (bytes b)"] by auto

end

text \<open>Reading and writing in the middle, through the pointer the buffer gives away.\<close>

locale buffer_access = byte_buffer append_bytes bytes ok pop_bytes
  for append_bytes :: "'b \<Rightarrow> byte list \<Rightarrow> fault + 'b" and bytes :: "'b \<Rightarrow> byte list" and ok :: "'b \<Rightarrow> bool"
    and pop_bytes :: "'b \<Rightarrow> nat \<Rightarrow> fault + 'b" +
  fixes poke :: "'b \<Rightarrow> nat \<Rightarrow> byte list \<Rightarrow> fault + 'b"
    and peek :: "'b \<Rightarrow> nat \<Rightarrow> nat \<Rightarrow> fault + byte list"
  assumes poke_total: "ok b \<Longrightarrow> i + length xs \<le> length (bytes b) \<Longrightarrow>
      \<exists>b'. poke b i xs = Inr b' \<and> ok b' \<and> bytes b' = blit i xs (bytes b)"
    and peek_eq: "ok b \<Longrightarrow> i + n \<le> length (bytes b) \<Longrightarrow> peek b i n = Inr (take n (drop i (bytes b)))"
begin

lemma peek_poked:
  "ok b \<Longrightarrow> poke b i xs = Inr b' \<Longrightarrow> i + length xs \<le> length (bytes b) \<Longrightarrow> peek b' i (length xs) = Inr xs"
  using poke_total [of b i xs] peek_eq [of b' i "length xs"] by (auto simp: blit_def)

end

section \<open>The model\<close>

record rbuf =
  rb_pool :: buffer_pool
  rb_initial_size :: nat
  rb_buf :: "buffer option"
  rb_pos :: nat

definition rbuf_new :: "buffer_pool \<Rightarrow> nat \<Rightarrow> rbuf" where
  "rbuf_new p initial_size = \<lparr>rb_pool = p, rb_initial_size = initial_size, rb_buf = None, rb_pos = 0\<rparr>"

definition rb_size :: "rbuf \<Rightarrow> nat" where
  "rb_size rb = rb_pos rb"

definition rb_capacity :: "rbuf \<Rightarrow> nat" where
  "rb_capacity rb = (case rb_buf rb of None \<Rightarrow> 0 | Some b \<Rightarrow> b_capacity b)"

text \<open>
  \<open>memcpy_s\<close> and \<open>memmove_s\<close> are checked against the destination; reading past the end of
  the source block is \<open>Out_of_bounds\<close>.
\<close>

definition rb_reserve :: "rbuf \<Rightarrow> nat \<Rightarrow> fault + rbuf" where
  "rb_reserve rb len =
     (case rb_buf rb of
        None \<Rightarrow>
          (case mp_alloc (rb_pool rb) (max len (rb_initial_size rb)) of
             (b, p) \<Rightarrow> Inr (rb\<lparr>rb_pool := p, rb_buf := Some b\<rparr>))
      | Some b \<Rightarrow>
          (if b_capacity b < rb_pos rb + len
           then (case mp_alloc (rb_pool rb) (rb_pos rb + len) of
                   (nb, p) \<Rightarrow>
                     (if rb_pos rb \<le> b_capacity b \<and> rb_pos rb \<le> b_capacity nb
                      then Inr (rb\<lparr>rb_pool := mp_release p b,
                                   rb_buf := Some (nb\<lparr>b_data := blit 0 (take (rb_pos rb) (b_data b)) (b_data nb)\<rparr>)\<rparr>)
                      else Inl Out_of_bounds))
           else Inr rb))"

definition rb_append :: "rbuf \<Rightarrow> byte list \<Rightarrow> fault + rbuf" where
  "rb_append rb p =
     (case rb_reserve rb (length p) of
        Inl f \<Rightarrow> Inl f
      | Inr rb1 \<Rightarrow>
          (case rb_buf rb1 of
             None \<Rightarrow> Inl Out_of_bounds
           | Some b \<Rightarrow>
               (if rb_pos rb1 + length p \<le> b_capacity b
                then Inr (rb1\<lparr>rb_buf := Some (b\<lparr>b_data := blit (rb_pos rb1) p (b_data b)\<rparr>),
                              rb_pos := rb_pos rb1 + length p\<rparr>)
                else Inl Out_of_bounds)))"

definition rb_resize :: "rbuf \<Rightarrow> nat \<Rightarrow> fault + rbuf" where
  "rb_resize rb new_size =
     (if new_size \<le> rb_capacity rb then Inr (rb\<lparr>rb_pos := new_size\<rparr>)
      else (case rb_reserve rb (new_size - rb_capacity rb) of
              Inl f \<Rightarrow> Inl f
            | Inr rb1 \<Rightarrow> Inr (rb1\<lparr>rb_pos := new_size\<rparr>)))"

definition rb_at :: "rbuf \<Rightarrow> nat \<Rightarrow> fault + byte" where
  "rb_at rb pos =
     (case rb_buf rb of
        None \<Rightarrow> Inr 0
      | Some b \<Rightarrow>
          (if pos \<ge> rb_size rb then Inr 0
           else if pos < b_capacity b then Inr (b_data b ! pos) else Inl Out_of_bounds))"

definition rb_rewind :: "rbuf \<Rightarrow> nat \<Rightarrow> rbuf" where
  "rb_rewind rb pos = (if pos \<ge> rb_size rb then rb else rb\<lparr>rb_pos := pos\<rparr>)"

definition rb_pop_front :: "rbuf \<Rightarrow> nat \<Rightarrow> fault + rbuf" where
  "rb_pop_front rb cnt =
     (case rb_buf rb of
        None \<Rightarrow> Inr rb
      | Some b \<Rightarrow>
          (if cnt = 0 then Inr rb
           else (let n = min cnt (rb_size rb)
                 in if rb_pos rb \<le> b_capacity b
                    then Inr (rb\<lparr>rb_buf := Some (b\<lparr>b_data := blit 0 (drop n (take (rb_pos rb) (b_data b))) (b_data b)\<rparr>),
                                 rb_pos := rb_pos rb - n\<rparr>)
                    else Inl Out_of_bounds)))"

definition rb_destroy :: "rbuf \<Rightarrow> rbuf" where
  "rb_destroy rb =
     (case rb_buf rb of None \<Rightarrow> rb | Some b \<Rightarrow> rb\<lparr>rb_pool := mp_release (rb_pool rb) b, rb_buf := None\<rparr>)"

text \<open>Writing through the pointer \<open>data()\<close> gives, at offset \<open>i\<close>.\<close>

definition rb_poke :: "rbuf \<Rightarrow> nat \<Rightarrow> byte list \<Rightarrow> fault + rbuf" where
  "rb_poke rb i xs =
     (case rb_buf rb of
        None \<Rightarrow> Inl Out_of_bounds
      | Some b \<Rightarrow>
          (if i + length xs \<le> b_capacity b
           then Inr (rb\<lparr>rb_buf := Some (b\<lparr>b_data := blit i xs (b_data b)\<rparr>)\<rparr>)
           else Inl Out_of_bounds))"

text \<open>Reading \<open>n\<close> bytes through that pointer.\<close>

definition rb_peek :: "rbuf \<Rightarrow> nat \<Rightarrow> nat \<Rightarrow> fault + byte list" where
  "rb_peek rb i n =
     (case rb_buf rb of
        None \<Rightarrow> Inl Out_of_bounds
      | Some b \<Rightarrow> (if i + n \<le> b_capacity b then Inr (take n (drop i (b_data b))) else Inl Out_of_bounds))"

text \<open>The bytes between \<open>cbegin()\<close> and \<open>cend()\<close>.\<close>

definition rb_bytes :: "rbuf \<Rightarrow> byte list" where
  "rb_bytes rb = (case rb_buf rb of None \<Rightarrow> [] | Some b \<Rightarrow> take (rb_pos rb) (b_data b))"

section \<open>Invariant and contents\<close>

definition blocks_of :: "buffer option \<Rightarrow> buffer list" where
  "blocks_of ob = (case ob of None \<Rightarrow> [] | Some b \<Rightarrow> [b])"

lemma blocks_of_simps [simp]: "blocks_of None = []" "blocks_of (Some b) = [b]"
  by (simp_all add: blocks_of_def)

definition rb_inv_with :: "buffer list \<Rightarrow> rbuf \<Rightarrow> bool" where
  "rb_inv_with held rb \<longleftrightarrow>
     pool_inv (rb_pool rb) (held @ blocks_of (rb_buf rb)) \<and> rb_pos rb \<le> rb_capacity rb"

definition rb_inv :: "rbuf \<Rightarrow> bool" where
  "rb_inv rb \<longleftrightarrow> (\<exists>held. rb_inv_with held rb)"

lemma rbuf_new_inv [lax_inv]: "rb_inv (rbuf_new (buffer_pool_new m) n)"
  using pool_inv_new [of m] by (auto simp: rb_inv_def rb_inv_with_def rbuf_new_def intro!: exI [of _ "[]"])

lemma rbuf_new_bytes [simp]: "rb_bytes (rbuf_new p n) = []" "rb_pos (rbuf_new p n) = 0"
  by (simp_all add: rb_bytes_def rbuf_new_def)

lemma length_rb_bytes: "rb_inv_with held rb \<Longrightarrow> length (rb_bytes rb) = rb_pos rb"
  by (auto simp: rb_inv_with_def rb_bytes_def rb_capacity_def b_capacity_def split: option.splits)

lemma alloc_enough: "pool_inv p held \<Longrightarrow> mp_alloc p n = (b, p') \<Longrightarrow> n \<le> b_capacity b"
  using alloc_capacity [of p held n b p'] by (auto split: if_splits)

text \<open>Overwriting the bytes of the last block held keeps the pool in order.\<close>

lemma pool_inv_write_last:
  "pool_inv p (held @ [b]) \<Longrightarrow> length xs = b_capacity b \<Longrightarrow> pool_inv p (held @ [b\<lparr>b_data := xs\<rparr>])"
  using write_inv [of p "held @ [b]" "length held" xs] by (simp add: list_update_append)

lemma reserve_ok:
  assumes inv: "rb_inv_with held rb"
  shows "\<exists>rb'. rb_reserve rb len = Inr rb' \<and> rb_inv_with held rb' \<and> rb_bytes rb' = rb_bytes rb \<and>
    rb_pos rb' = rb_pos rb \<and> rb_buf rb' \<noteq> None \<and> rb_pos rb + len \<le> rb_capacity rb'"
proof (cases "rb_buf rb")
  case None
  then have pos: "rb_pos rb = 0" and pool: "pool_inv (rb_pool rb) held"
    using inv by (simp_all add: rb_inv_with_def rb_capacity_def)
  obtain b p where al: "mp_alloc (rb_pool rb) (max len (rb_initial_size rb)) = (b, p)" by force
  have "pool_inv p (held @ [b])" "max len (rb_initial_size rb) \<le> b_capacity b"
    using alloc_inv [OF pool al] alloc_enough [OF pool al] by simp_all
  then show ?thesis using None al pos
    by (simp add: rb_reserve_def rb_inv_with_def rb_capacity_def rb_bytes_def)
next
  case (Some b)
  then have pos: "rb_pos rb \<le> b_capacity b" and pool: "pool_inv (rb_pool rb) (held @ [b])"
    using inv by (simp_all add: rb_inv_with_def rb_capacity_def)
  show ?thesis
  proof (cases "b_capacity b < rb_pos rb + len")
    case False
    then show ?thesis using inv Some by (simp add: rb_reserve_def rb_capacity_def)
  next
    case True
    obtain nb p where al: "mp_alloc (rb_pool rb) (rb_pos rb + len) = (nb, p)" by force
    define d where "d = blit 0 (take (rb_pos rb) (b_data b)) (b_data nb)"
    have big: "rb_pos rb + len \<le> b_capacity nb" by (rule alloc_enough [OF pool al])
    have pos': "rb_pos rb \<le> length (b_data b)" using pos by (simp add: b_capacity_def)
    have len_d: "length d = b_capacity nb"
      using big pos' by (simp add: d_def b_capacity_def)
    have "pool_inv p ((held @ [b]) @ [nb])" by (rule alloc_inv [OF pool al])
    then have "pool_inv (mp_release p b) (held @ [nb])" by (rule release_inv) simp
    then have "pool_inv (mp_release p b) (held @ [nb\<lparr>b_data := d\<rparr>])"
      using len_d by (intro pool_inv_write_last)
    moreover have "take (rb_pos rb) d = take (rb_pos rb) (b_data b)"
      using take_blit_end [of 0 "take (rb_pos rb) (b_data b)" "b_data nb"] pos' big
      by (simp add: d_def b_capacity_def)
    ultimately show ?thesis
      using Some True al pos big len_d
      by (simp add: rb_reserve_def rb_inv_with_def rb_capacity_def rb_bytes_def d_def [symmetric] b_capacity_def)
  qed
qed

lemma append_ok_with:
  assumes inv: "rb_inv_with held rb"
  shows "\<exists>rb'. rb_append rb xs = Inr rb' \<and> rb_inv_with held rb' \<and> rb_bytes rb' = rb_bytes rb @ xs"
proof -
  obtain rb1 b where r: "rb_reserve rb (length xs) = Inr rb1" "rb_inv_with held rb1" "rb_bytes rb1 = rb_bytes rb"
    "rb_pos rb1 = rb_pos rb" "rb_buf rb1 = Some b" "rb_pos rb + length xs \<le> b_capacity b"
    using reserve_ok [OF inv, of "length xs"] by (auto simp: rb_capacity_def)
  have fits: "rb_pos rb + length xs \<le> length (b_data b)" using r(6) by (simp add: b_capacity_def)
  define d where "d = blit (rb_pos rb) xs (b_data b)"
  have len_d: "length d = b_capacity b" using fits by (simp add: d_def b_capacity_def)
  have run: "rb_append rb xs = Inr (rb1\<lparr>rb_buf := Some (b\<lparr>b_data := d\<rparr>), rb_pos := rb_pos rb + length xs\<rparr>)"
    using r(1,4,5,6) by (simp add: rb_append_def d_def)
  have "pool_inv (rb_pool rb1) (held @ [b\<lparr>b_data := d\<rparr>])"
    using r(2,5) len_d by (intro pool_inv_write_last) (simp_all add: rb_inv_with_def)
  moreover have "take (rb_pos rb + length xs) d = take (rb_pos rb) (b_data b) @ xs"
    using take_blit_end [OF fits] by (simp add: d_def)
  moreover have "take (rb_pos rb) (b_data b) = rb_bytes rb" using r(3,4,5) by (simp add: rb_bytes_def)
  ultimately show ?thesis
    using r(4) fits len_d unfolding run
    by (simp add: rb_inv_with_def rb_capacity_def rb_bytes_def b_capacity_def)
qed

lemma pop_front_ok_with:
  assumes inv: "rb_inv_with held rb"
  shows "\<exists>rb'. rb_pop_front rb n = Inr rb' \<and> rb_inv_with held rb' \<and> rb_bytes rb' = drop n (rb_bytes rb)"
proof (cases "rb_buf rb")
  case None
  then show ?thesis using inv by (simp add: rb_pop_front_def rb_bytes_def)
next
  case (Some b)
  then have pos: "rb_pos rb \<le> length (b_data b)"
    using inv by (simp add: rb_inv_with_def rb_capacity_def b_capacity_def)
  show ?thesis
  proof (cases "n = 0")
    case True
    then show ?thesis using inv Some by (simp add: rb_pop_front_def)
  next
    case False
    define k where "k = min n (rb_pos rb)"
    define xs where "xs = drop k (take (rb_pos rb) (b_data b))"
    define d where "d = blit 0 xs (b_data b)"
    have len: "length xs = rb_pos rb - k" "length d = b_capacity b"
      using pos by (simp_all add: xs_def d_def b_capacity_def)
    have run: "rb_pop_front rb n = Inr (rb\<lparr>rb_buf := Some (b\<lparr>b_data := d\<rparr>), rb_pos := rb_pos rb - k\<rparr>)"
      using Some False pos by (simp add: rb_pop_front_def rb_size_def Let_def k_def xs_def d_def b_capacity_def)
    have "pool_inv (rb_pool rb) (held @ [b\<lparr>b_data := d\<rparr>])"
      using inv Some len(2) by (intro pool_inv_write_last) (simp_all add: rb_inv_with_def)
    moreover have "take (rb_pos rb - k) d = xs"
      using take_blit_end [of 0 xs "b_data b"] len pos by (simp add: d_def b_capacity_def)
    moreover have "xs = drop n (rb_bytes rb)"
      using pos Some by (simp add: xs_def k_def min_def rb_bytes_def)
    ultimately show ?thesis
      using pos len unfolding run
      by (simp add: rb_inv_with_def rb_capacity_def rb_bytes_def b_capacity_def)
  qed
qed

lemma rewind_ok_with:
  assumes "rb_inv_with held rb"
  shows "rb_inv_with held (rb_rewind rb n)"
    "rb_bytes (rb_rewind rb n) = (if n < length (rb_bytes rb) then take n (rb_bytes rb) else rb_bytes rb)"
  using assms length_rb_bytes [OF assms]
  by (auto simp: rb_rewind_def rb_inv_with_def rb_bytes_def rb_capacity_def rb_size_def min_def
    split: option.splits)

lemma poke_ok_with:
  assumes inv: "rb_inv_with held rb" and i: "i + length xs \<le> length (rb_bytes rb)" and ne: "rb_buf rb \<noteq> None"
  shows "\<exists>rb'. rb_poke rb i xs = Inr rb' \<and> rb_inv_with held rb' \<and> rb_bytes rb' = blit i xs (rb_bytes rb)"
proof -
  obtain b where b: "rb_buf rb = Some b" using ne by blast
  have pos: "rb_pos rb \<le> length (b_data b)" and fits: "i + length xs \<le> rb_pos rb"
    using inv i length_rb_bytes [OF inv] b by (simp_all add: rb_inv_with_def rb_capacity_def b_capacity_def)
  define d where "d = blit i xs (b_data b)"
  have len: "length d = b_capacity b" using pos fits by (simp add: d_def b_capacity_def)
  have "pool_inv (rb_pool rb) (held @ [b\<lparr>b_data := d\<rparr>])"
    using inv b len by (intro pool_inv_write_last) (simp_all add: rb_inv_with_def)
  moreover have "take (rb_pos rb) d = blit i xs (take (rb_pos rb) (b_data b))"
    using fits pos by (simp add: d_def take_blit_after)
  moreover have "rb_poke rb i xs = Inr (rb\<lparr>rb_buf := Some (b\<lparr>b_data := d\<rparr>)\<rparr>)"
    using b fits pos by (simp add: rb_poke_def d_def b_capacity_def)
  ultimately show ?thesis
    using b len pos by (simp add: rb_inv_with_def rb_capacity_def rb_bytes_def b_capacity_def)
qed

lemma peek_ok_with:
  assumes inv: "rb_inv_with held rb" and i: "i + n \<le> length (rb_bytes rb)" and ne: "rb_buf rb \<noteq> None"
  shows "rb_peek rb i n = Inr (take n (drop i (rb_bytes rb)))"
proof -
  obtain b where b: "rb_buf rb = Some b" using ne by blast
  have "i + n \<le> rb_pos rb" "rb_pos rb \<le> b_capacity b"
    using inv i length_rb_bytes [OF inv] b by (simp_all add: rb_inv_with_def rb_capacity_def)
  then show ?thesis using b by (simp add: rb_peek_def rb_bytes_def drop_take min_def)
qed

text \<open>A buffer with a block, as every buffer is after its first append.\<close>

definition rb_ok :: "rbuf \<Rightarrow> bool" where
  "rb_ok rb \<longleftrightarrow> rb_inv rb \<and> rb_buf rb \<noteq> None"

lemma append_keeps_block: "rb_append rb xs = Inr rb' \<Longrightarrow> rb_buf rb' \<noteq> None"
  by (auto simp: rb_append_def split: sum.splits option.splits if_splits)

lemma pop_keeps_block: "rb_pop_front rb n = Inr rb' \<Longrightarrow> rb_buf rb \<noteq> None \<Longrightarrow> rb_buf rb' \<noteq> None"
  by (auto simp: rb_pop_front_def Let_def split: option.splits if_splits)

lemma poke_keeps_block: "rb_poke rb i xs = Inr rb' \<Longrightarrow> rb_buf rb' \<noteq> None"
  by (auto simp: rb_poke_def split: option.splits if_splits)

interpretation rbn: byte_buffer rb_append rb_bytes rb_inv rb_pop_front
proof unfold_locales
  fix b xs assume "rb_inv b"
  then show "\<exists>b'. rb_append b xs = Inr b' \<and> rb_inv b' \<and> rb_bytes b' = rb_bytes b @ xs"
    using append_ok_with by (metis rb_inv_def)
next
  fix b n assume "rb_inv b"
  then show "\<exists>b'. rb_pop_front b n = Inr b' \<and> rb_inv b' \<and> rb_bytes b' = drop n (rb_bytes b)"
    using pop_front_ok_with by (metis rb_inv_def)
qed

interpretation rb: buffer_access rb_append rb_bytes rb_ok rb_pop_front rb_poke rb_peek
proof (unfold_locales, goal_cases)
  case (1 b xs)
  then show ?case
    using rbn.append_total [of b xs] append_keeps_block [of b xs] by (auto simp: rb_ok_def)
next
  case (2 b n)
  then show ?case
    using rbn.pop_total [of b n] pop_keeps_block [of b n] by (auto simp: rb_ok_def)
next
  case (3 b i xs)
  then show ?case
    using poke_ok_with [of _ b i xs] poke_keeps_block [of b i xs] unfolding rb_ok_def rb_inv_def by meson
next
  case (4 b i n)
  then show ?case using peek_ok_with [of _ b i n] by (auto simp: rb_ok_def rb_inv_def)
qed

text \<open>Every byte list is the contents of some buffer in order.\<close>

lemma rb_ok_of_bytes: "\<exists>buf. rb_ok buf \<and> rb_bytes buf = xs"
proof -
  obtain b where "rb_append (rbuf_new (buffer_pool_new \<lparr>next_block = 0, junk = (\<lambda>_. 0)\<rparr>) 8192) xs = Inr b"
    "rb_inv b" "rb_bytes b = xs"
    using rbn.append_total [OF rbuf_new_inv, of "\<lparr>next_block = 0, junk = (\<lambda>_. 0)\<rparr>" 8192 xs] by auto
  then show ?thesis using append_keeps_block by (auto simp: rb_ok_def)
qed

text \<open>
  \<open>resize\<close> to no more than the capacity, of an empty buffer, or of a full one (the way the
  packer grows its output) keeps the invariant and the bytes that stay within the new size.
\<close>

lemma resize_ok_with:
  assumes inv: "rb_inv_with held rb"
    and n: "n \<le> rb_capacity rb \<or> rb_buf rb = None \<or> rb_pos rb = rb_capacity rb"
  shows "\<exists>rb'. rb_resize rb n = Inr rb' \<and> rb_inv_with held rb' \<and> rb_pos rb' = n \<and>
    take (min n (rb_pos rb)) (rb_bytes rb') = take n (rb_bytes rb)"
proof (cases "n \<le> rb_capacity rb")
  case True
  have "take (min n (rb_pos rb)) (rb_bytes (rb\<lparr>rb_pos := n\<rparr>)) = take n (rb_bytes rb)"
    by (auto simp: rb_bytes_def min_def split: option.split)
  then show ?thesis using True inv by (auto simp: rb_resize_def rb_inv_with_def rb_capacity_def)
next
  case False
  obtain rb1 where r: "rb_reserve rb (n - rb_capacity rb) = Inr rb1" "rb_inv_with held rb1"
    "rb_bytes rb1 = rb_bytes rb" "rb_pos rb1 = rb_pos rb" "rb_pos rb + (n - rb_capacity rb) \<le> rb_capacity rb1"
    using reserve_ok [OF inv] by blast
  have fits: "n \<le> rb_capacity rb1" and pos: "rb_pos rb \<le> n"
    using n False r(5) inv by (auto simp: rb_inv_with_def rb_capacity_def)
  have "take (rb_pos rb) (rb_bytes (rb1\<lparr>rb_pos := n\<rparr>)) = take (rb_pos rb) (rb_bytes rb1)"
    using r(4) pos by (auto simp: rb_bytes_def split: option.split)
  then have "take (min n (rb_pos rb)) (rb_bytes (rb1\<lparr>rb_pos := n\<rparr>)) = take n (rb_bytes rb)"
    using pos r(3) length_rb_bytes [OF inv] by (simp add: min_absorb2)
  then show ?thesis using False r fits by (auto simp: rb_resize_def rb_inv_with_def rb_capacity_def)
qed

section \<open>A client of the buffer\<close>

datatype buf_op = Append "byte list" | Pop_front nat | Rewind nat | Resize nat

fun rb_run :: "buf_op list \<Rightarrow> rbuf \<Rightarrow> fault + rbuf" where
  "rb_run [] rb = Inr rb"
| "rb_run (oper # ops) rb =
     (case (case oper of
              Append xs \<Rightarrow> rb_append rb xs | Pop_front n \<Rightarrow> rb_pop_front rb n
            | Rewind n \<Rightarrow> Inr (rb_rewind rb n) | Resize n \<Rightarrow> rb_resize rb n) of
        Inl f \<Rightarrow> Inl f | Inr rb' \<Rightarrow> rb_run ops rb')"

text \<open>The same operations on the contents, defined when \<open>resize\<close> does not grow the buffer.\<close>

fun buf_spec :: "buf_op list \<Rightarrow> byte list \<Rightarrow> byte list option" where
  "buf_spec [] l = Some l"
| "buf_spec (Append xs # ops) l = buf_spec ops (l @ xs)"
| "buf_spec (Pop_front n # ops) l = buf_spec ops (drop n l)"
| "buf_spec (Rewind n # ops) l = buf_spec ops (if n < length l then take n l else l)"
| "buf_spec (Resize n # ops) l = (if n \<le> length l then buf_spec ops (take n l) else None)"

lemma rb_run_spec:
  "rb_inv_with held rb \<Longrightarrow> buf_spec ops (rb_bytes rb) = Some l \<Longrightarrow>
    \<exists>rb'. rb_run ops rb = Inr rb' \<and> rb_inv_with held rb' \<and> rb_bytes rb' = l"
proof (induction ops arbitrary: rb)
  case Nil
  then show ?case by simp
next
  case (Cons oper ops)
  show ?case
  proof (cases oper)
    case (Append xs)
    obtain rb1 where "rb_append rb xs = Inr rb1" "rb_inv_with held rb1" "rb_bytes rb1 = rb_bytes rb @ xs"
      using append_ok_with [OF Cons.prems(1)] by blast
    then show ?thesis using Cons.IH [of rb1] Cons.prems(2) Append by simp
  next
    case (Pop_front n)
    obtain rb1 where "rb_pop_front rb n = Inr rb1" "rb_inv_with held rb1" "rb_bytes rb1 = drop n (rb_bytes rb)"
      using pop_front_ok_with [OF Cons.prems(1)] by blast
    then show ?thesis using Cons.IH [of rb1] Cons.prems(2) Pop_front by simp
  next
    case (Rewind n)
    then show ?thesis
      using Cons.IH [of "rb_rewind rb n"] Cons.prems(2) rewind_ok_with [OF Cons.prems(1)] by simp
  next
    case (Resize n)
    then have n: "n \<le> length (rb_bytes rb)" and spec: "buf_spec ops (take n (rb_bytes rb)) = Some l"
      using Cons.prems(2) by (simp_all split: if_splits)
    then have pos: "n \<le> rb_pos rb" and cap: "n \<le> rb_capacity rb"
      using Cons.prems(1) length_rb_bytes [OF Cons.prems(1)] by (simp_all add: rb_inv_with_def)
    obtain rb1 where r: "rb_resize rb n = Inr rb1" "rb_inv_with held rb1" "rb_pos rb1 = n"
      "take (min n (rb_pos rb)) (rb_bytes rb1) = take n (rb_bytes rb)"
      using resize_ok_with [OF Cons.prems(1), of n] cap by blast
    have "rb_bytes rb1 = take n (rb_bytes rb)"
      using r(3,4) pos length_rb_bytes [OF r(2)] by (simp add: min_def)
    then show ?thesis using Cons.IH [OF r(2)] spec r(1) Resize by simp
  qed
qed

section \<open>Properties\<close>



text \<open>
  \<open>resize\<close> can leave a buffer longer than its block: when the block in use is not full
  and its free space covers the growth asked for beyond the capacity, \<open>reserve\<close> allocates
  nothing, \<open>size()\<close> becomes larger than \<open>capacity()\<close>, and every later append faults.
\<close>

theorem resize_overruns_block:
  assumes "rb_buf rb = Some b" and "b_capacity b < n" and "rb_pos rb + (n - b_capacity b) \<le> b_capacity b"
  shows "\<exists>rb'. rb_resize rb n = Inr rb' \<and> rb_capacity rb' < rb_size rb' \<and>
    rb_append rb' xs = Inl Out_of_bounds"
  using assms
  by (auto simp: rb_resize_def rb_capacity_def rb_reserve_def rb_size_def rb_append_def split: prod.split)

theorem resize_overruns_block_witness:
  "\<forall>m. \<exists>b rb'. b_capacity b = 64 \<and>
    rb_resize (rbuf_new (buffer_pool_new m) 64\<lparr>rb_buf := Some b, rb_pos := 5\<rparr>) 100 = Inr rb' \<and>
    rb_capacity rb' < rb_size rb' \<and> rb_append rb' [1] = Inl Out_of_bounds"
proof
  fix m
  define b where "b = \<lparr>b_id = 0, b_pool = Some 0, b_data = replicate 64 (0 :: byte)\<rparr>"
  define rb where "rb = rbuf_new (buffer_pool_new m) 64\<lparr>rb_buf := Some b, rb_pos := 5\<rparr>"
  have c: "b_capacity b = 64" by (simp add: b_def b_capacity_def)
  have h: "rb_buf rb = Some b" "b_capacity b < 100" "rb_pos rb + (100 - b_capacity b) \<le> b_capacity b"
    by (simp_all add: c rb_def)
  from resize_overruns_block [OF h, of "[1]"]
  show "\<exists>b rb'. b_capacity b = 64 \<and>
      rb_resize (rbuf_new (buffer_pool_new m) 64\<lparr>rb_buf := Some b, rb_pos := 5\<rparr>) 100 = Inr rb' \<and>
      rb_capacity rb' < rb_size rb' \<and> rb_append rb' [1] = Inl Out_of_bounds"
    using c unfolding rb_def by blast
qed

end
