(* ===== verification/Botan_Words.thy ===== *)
theory Botan_Words
  imports Lax_Prelude
begin

unbundle bit_operations_syntax

text \<open>
  The word helpers of the bundled Botan library (\<open>include/lax/util/botan/botan_all.h\<close>): the
  bytes of a 32 bit word in big endian order and rotations by a constant.
\<close>

definition get_byte :: "nat \<Rightarrow> u32 \<Rightarrow> byte" where
  "get_byte n w = ucast (drop_bit ((3 - n) * 8) w)"

definition make_uint32 :: "byte \<Rightarrow> byte \<Rightarrow> byte \<Rightarrow> byte \<Rightarrow> u32" where
  "make_uint32 i0 i1 i2 i3 =
     ((push_bit 24 (ucast i0) OR push_bit 16 (ucast i1)) OR push_bit 8 (ucast i2)) OR ucast i3"

definition rotl :: "nat \<Rightarrow> u32 \<Rightarrow> u32" where
  "rotl n w = push_bit n w OR drop_bit (32 - n) w"

definition rotr :: "nat \<Rightarrow> u32 \<Rightarrow> u32" where
  "rotr n w = drop_bit n w OR push_bit (32 - n) w"

text \<open>\<open>store_be\<close>, and \<open>load_be\<close> of the \<open>i\<close>-th word.\<close>

definition store_be :: "u32 \<Rightarrow> byte list" where
  "store_be w = [get_byte 0 w, get_byte 1 w, get_byte 2 w, get_byte 3 w]"

definition load_be :: "byte list \<Rightarrow> nat \<Rightarrow> u32" where
  "load_be p i = make_uint32 (p ! (4 * i)) (p ! (4 * i + 1)) (p ! (4 * i + 2)) (p ! (4 * i + 3))"

lemma length_store_be [simp]: "length (store_be w) = 4"
  by (simp add: store_be_def)

section \<open>Words as four bytes\<close>

lemma bit_make_uint32:
  "bit (make_uint32 a b c d) n =
     (if n < 8 then bit d n else if n < 16 then bit c (n - 8) else if n < 24 then bit b (n - 16)
      else n < 32 \<and> bit a (n - 24))"
  by (auto simp: make_uint32_def bit_simps dest: bit_imp_le_length)

lemma get_byte_make [simp]:
  "get_byte 0 (make_uint32 a b c d) = a" "get_byte 1 (make_uint32 a b c d) = b"
  "get_byte (Suc 0) (make_uint32 a b c d) = b"
  "get_byte 2 (make_uint32 a b c d) = c" "get_byte 3 (make_uint32 a b c d) = d"
  by (rule bit_word_eqI; auto simp: get_byte_def bit_make_uint32 bit_simps)+

lemma make_get_byte [simp]:
  "make_uint32 (get_byte 0 w) (get_byte 1 w) (get_byte 2 w) (get_byte 3 w) = w"
  "make_uint32 (get_byte 0 w) (get_byte (Suc 0) w) (get_byte 2 w) (get_byte 3 w) = w"
  by (rule bit_word_eqI; auto simp: get_byte_def bit_make_uint32 bit_simps)+

lemma word_cases_bytes: "\<exists>a b c d. w = make_uint32 a b c d"
  by (metis make_get_byte)

lemma make_xor [simp]:
  "make_uint32 a b c d XOR make_uint32 e f g h = make_uint32 (a XOR e) (b XOR f) (c XOR g) (d XOR h)"
  by (rule bit_word_eqI) (auto simp: bit_make_uint32 bit_simps)

lemma make_zero [simp]: "make_uint32 0 0 0 0 = 0"
  by (simp add: make_uint32_def)

lemma rotr_make [simp]:
  "rotr 8 (make_uint32 a b c d) = make_uint32 d a b c"
  "rotr 16 (make_uint32 a b c d) = make_uint32 c d a b"
  "rotr 24 (make_uint32 a b c d) = make_uint32 b c d a"
  by (rule bit_word_eqI; auto simp: rotr_def bit_make_uint32 bit_simps dest: bit_imp_le_length)+

lemma load_be_store_be: "load_be (store_be w) 0 = w"
  by (simp add: load_be_def store_be_def)

end
