(* ===== verification/Crc32.thy ===== *)
theory Crc32
  imports Botan_Words
begin

unbundle bit_operations_syntax

text \<open>
  The CRC-32 hash of the bundled Botan library (\<open>class CRC32\<close> in
  \<open>src/util/botan/botan_all.cpp\<close>) that \<open>net::checksum\<close> uses: a table of 256 entries and a
  loop unrolled sixteen times. The theory shows that both are an optimisation of the division
  of the bits of the message by the reflected polynomial.
\<close>

section \<open>The model\<close>

definition crc_table :: "u32 list" where
  "crc_table =
     [
      0x00000000, 0x77073096, 0xEE0E612C, 0x990951BA, 0x076DC419, 0x706AF48F, 0xE963A535, 0x9E6495A3,
      0x0EDB8832, 0x79DCB8A4, 0xE0D5E91E, 0x97D2D988, 0x09B64C2B, 0x7EB17CBD, 0xE7B82D07, 0x90BF1D91,
      0x1DB71064, 0x6AB020F2, 0xF3B97148, 0x84BE41DE, 0x1ADAD47D, 0x6DDDE4EB, 0xF4D4B551, 0x83D385C7,
      0x136C9856, 0x646BA8C0, 0xFD62F97A, 0x8A65C9EC, 0x14015C4F, 0x63066CD9, 0xFA0F3D63, 0x8D080DF5,
      0x3B6E20C8, 0x4C69105E, 0xD56041E4, 0xA2677172, 0x3C03E4D1, 0x4B04D447, 0xD20D85FD, 0xA50AB56B,
      0x35B5A8FA, 0x42B2986C, 0xDBBBC9D6, 0xACBCF940, 0x32D86CE3, 0x45DF5C75, 0xDCD60DCF, 0xABD13D59,
      0x26D930AC, 0x51DE003A, 0xC8D75180, 0xBFD06116, 0x21B4F4B5, 0x56B3C423, 0xCFBA9599, 0xB8BDA50F,
      0x2802B89E, 0x5F058808, 0xC60CD9B2, 0xB10BE924, 0x2F6F7C87, 0x58684C11, 0xC1611DAB, 0xB6662D3D,
      0x76DC4190, 0x01DB7106, 0x98D220BC, 0xEFD5102A, 0x71B18589, 0x06B6B51F, 0x9FBFE4A5, 0xE8B8D433,
      0x7807C9A2, 0x0F00F934, 0x9609A88E, 0xE10E9818, 0x7F6A0DBB, 0x086D3D2D, 0x91646C97, 0xE6635C01,
      0x6B6B51F4, 0x1C6C6162, 0x856530D8, 0xF262004E, 0x6C0695ED, 0x1B01A57B, 0x8208F4C1, 0xF50FC457,
      0x65B0D9C6, 0x12B7E950, 0x8BBEB8EA, 0xFCB9887C, 0x62DD1DDF, 0x15DA2D49, 0x8CD37CF3, 0xFBD44C65,
      0x4DB26158, 0x3AB551CE, 0xA3BC0074, 0xD4BB30E2, 0x4ADFA541, 0x3DD895D7, 0xA4D1C46D, 0xD3D6F4FB,
      0x4369E96A, 0x346ED9FC, 0xAD678846, 0xDA60B8D0, 0x44042D73, 0x33031DE5, 0xAA0A4C5F, 0xDD0D7CC9,
      0x5005713C, 0x270241AA, 0xBE0B1010, 0xC90C2086, 0x5768B525, 0x206F85B3, 0xB966D409, 0xCE61E49F,
      0x5EDEF90E, 0x29D9C998, 0xB0D09822, 0xC7D7A8B4, 0x59B33D17, 0x2EB40D81, 0xB7BD5C3B, 0xC0BA6CAD,
      0xEDB88320, 0x9ABFB3B6, 0x03B6E20C, 0x74B1D29A, 0xEAD54739, 0x9DD277AF, 0x04DB2615, 0x73DC1683,
      0xE3630B12, 0x94643B84, 0x0D6D6A3E, 0x7A6A5AA8, 0xE40ECF0B, 0x9309FF9D, 0x0A00AE27, 0x7D079EB1,
      0xF00F9344, 0x8708A3D2, 0x1E01F268, 0x6906C2FE, 0xF762575D, 0x806567CB, 0x196C3671, 0x6E6B06E7,
      0xFED41B76, 0x89D32BE0, 0x10DA7A5A, 0x67DD4ACC, 0xF9B9DF6F, 0x8EBEEFF9, 0x17B7BE43, 0x60B08ED5,
      0xD6D6A3E8, 0xA1D1937E, 0x38D8C2C4, 0x4FDFF252, 0xD1BB67F1, 0xA6BC5767, 0x3FB506DD, 0x48B2364B,
      0xD80D2BDA, 0xAF0A1B4C, 0x36034AF6, 0x41047A60, 0xDF60EFC3, 0xA867DF55, 0x316E8EEF, 0x4669BE79,
      0xCB61B38C, 0xBC66831A, 0x256FD2A0, 0x5268E236, 0xCC0C7795, 0xBB0B4703, 0x220216B9, 0x5505262F,
      0xC5BA3BBE, 0xB2BD0B28, 0x2BB45A92, 0x5CB36A04, 0xC2D7FFA7, 0xB5D0CF31, 0x2CD99E8B, 0x5BDEAE1D,
      0x9B64C2B0, 0xEC63F226, 0x756AA39C, 0x026D930A, 0x9C0906A9, 0xEB0E363F, 0x72076785, 0x05005713,
      0x95BF4A82, 0xE2B87A14, 0x7BB12BAE, 0x0CB61B38, 0x92D28E9B, 0xE5D5BE0D, 0x7CDCEFB7, 0x0BDBDF21,
      0x86D3D2D4, 0xF1D4E242, 0x68DDB3F8, 0x1FDA836E, 0x81BE16CD, 0xF6B9265B, 0x6FB077E1, 0x18B74777,
      0x88085AE6, 0xFF0F6A70, 0x66063BCA, 0x11010B5C, 0x8F659EFF, 0xF862AE69, 0x616BFFD3, 0x166CCF45,
      0xA00AE278, 0xD70DD2EE, 0x4E048354, 0x3903B3C2, 0xA7672661, 0xD06016F7, 0x4969474D, 0x3E6E77DB,
      0xAED16A4A, 0xD9D65ADC, 0x40DF0B66, 0x37D83BF0, 0xA9BCAE53, 0xDEBB9EC5, 0x47B2CF7F, 0x30B5FFE9,
      0xBDBDF21C, 0xCABAC28A, 0x53B39330, 0x24B4A3A6, 0xBAD03605, 0xCDD70693, 0x54DE5729, 0x23D967BF,
      0xB3667A2E, 0xC4614AB8, 0x5D681B02, 0x2A6F2B94, 0xB40BBE37, 0xC30C8EA1, 0x5A05DF1B, 0x2D02EF8D]"

definition crc_step :: "u32 \<Rightarrow> byte \<Rightarrow> u32" where
  "crc_step tmp b = (crc_table ! unat ((tmp XOR ucast b) AND 0xFF)) XOR drop_bit 8 tmp"

text \<open>The sixteen statements of the unrolled loop.\<close>

definition crc_step16 :: "u32 \<Rightarrow> byte list \<Rightarrow> u32" where
  "crc_step16 tmp p =
     (let t0 = crc_step tmp (p ! 0); t1 = crc_step t0 (p ! 1); t2 = crc_step t1 (p ! 2);
          t3 = crc_step t2 (p ! 3); t4 = crc_step t3 (p ! 4); t5 = crc_step t4 (p ! 5);
          t6 = crc_step t5 (p ! 6); t7 = crc_step t6 (p ! 7); t8 = crc_step t7 (p ! 8);
          t9 = crc_step t8 (p ! 9); t10 = crc_step t9 (p ! 10); t11 = crc_step t10 (p ! 11);
          t12 = crc_step t11 (p ! 12); t13 = crc_step t12 (p ! 13); t14 = crc_step t13 (p ! 14)
      in crc_step t14 (p ! 15))"

function crc_add_data :: "u32 \<Rightarrow> byte list \<Rightarrow> u32" where
  "crc_add_data crc p =
     (if 16 \<le> length p then crc_add_data (crc_step16 crc p) (drop 16 p)
      else fold (\<lambda>b tmp. crc_step tmp b) p crc)"
  by pat_completeness auto
termination
  by (relation "measure (\<lambda>(crc, p). length p)") auto

declare crc_add_data.simps [simp del]

definition crc_clear :: u32 where
  "crc_clear = 0xFFFFFFFF"

text \<open>\<open>final_result\<close>: the digest and the state after it.\<close>

definition crc_final_result :: "u32 \<Rightarrow> byte list \<times> u32" where
  "crc_final_result crc = (store_be (crc XOR 0xFFFFFFFF), crc_clear)"

text \<open>\<open>clear()\<close>, one \<open>update\<close> and \<open>final\<close>, as the modifiers call them.\<close>

definition crc32 :: "byte list \<Rightarrow> byte list" where
  "crc32 p = fst (crc_final_result (crc_add_data crc_clear p))"

lemma length_crc32 [simp]: "length (crc32 p) = 4"
  by (simp add: crc32_def crc_final_result_def)

section \<open>The reference: division bit by bit\<close>

definition crc_bit :: "u32 \<Rightarrow> u32" where
  "crc_bit c = (if bit c 0 then drop_bit 1 c XOR 0xEDB88320 else drop_bit 1 c)"

definition crc_byte :: "u32 \<Rightarrow> byte \<Rightarrow> u32" where
  "crc_byte c b = (crc_bit ^^ 8) (c XOR ucast b)"

definition crc32_reference :: "byte list \<Rightarrow> byte list" where
  "crc32_reference p = store_be (fold (\<lambda>b c. crc_byte c b) p 0xFFFFFFFF XOR 0xFFFFFFFF)"

lemma crc_bit_xor: "crc_bit (x XOR y) = crc_bit x XOR crc_bit y"
  by (auto simp: crc_bit_def bit_xor_iff drop_bit_xor ac_simps)

lemma crc_bits_xor: "(crc_bit ^^ n) (x XOR y) = (crc_bit ^^ n) x XOR (crc_bit ^^ n) y"
  by (induction n) (simp_all add: crc_bit_xor)

lemma crc_bits_shift: "(\<And>i. i < n \<Longrightarrow> \<not> bit y i) \<Longrightarrow> (crc_bit ^^ n) y = drop_bit n y"
proof (induction n arbitrary: y)
  case 0
  then show ?case by simp
next
  case (Suc n)
  have "crc_bit y = drop_bit 1 y" using Suc.prems [of 0] by (simp add: crc_bit_def)
  moreover have "(crc_bit ^^ n) (drop_bit 1 y) = drop_bit n (drop_bit 1 y)"
    using Suc.prems by (intro Suc.IH) (simp add: bit_drop_bit_eq)
  ultimately show ?case by (simp add: funpow_swap1 [symmetric] funpow_Suc_right del: funpow.simps)
qed

lemma eight_times: "(f ^^ 8) x = f (f (f (f (f (f (f (f x)))))))"
  by (simp add: numeral_eq_Suc)

text \<open>The entries from \<open>i\<close> on, checked one after the other.\<close>

fun entries_from :: "u32 \<Rightarrow> u32 list \<Rightarrow> bool" where
  "entries_from i [] = True"
| "entries_from i (t # ts) = ((crc_bit ^^ 8) i = t \<and> entries_from (i + 1) ts)"

lemma entries_from_nth:
  "entries_from i ts \<Longrightarrow> k < length ts \<Longrightarrow> ts ! k = (crc_bit ^^ 8) (i + word_of_nat k)"
proof (induction ts arbitrary: i k)
  case Nil
  then show ?case by simp
next
  case (Cons t ts)
  then show ?case using Cons.IH [of "i + 1" "k - 1"] by (cases k) (auto simp: add.assoc)
qed

lemma crc_table_entries: "entries_from 0 crc_table"
  by (simp add: crc_table_def eight_times crc_bit_def)

lemma length_crc_table: "length crc_table = 256"
  by (simp add: crc_table_def)

lemma crc_step_byte: "crc_step c b = crc_byte c b"
proof -
  define x where "x = c XOR ucast b"
  define lo where "lo = x AND 0xFF"
  define hi where "hi = x AND NOT 0xFF"
  have m: "(0xFF :: u32) = mask 8" by (simp add: mask_eq_exp_minus_1)
  have x: "x = lo XOR hi"
    by (rule bit_word_eqI) (auto simp: lo_def hi_def bit_simps)
  have "unat lo < 256"
  proof -
    have "lo \<le> 0xFF" unfolding lo_def by (rule word_and_le1)
    then show ?thesis by (simp add: word_le_nat_alt)
  qed
  then have "crc_table ! unat lo = (crc_bit ^^ 8) (word_of_nat (unat lo))"
    using entries_from_nth [OF crc_table_entries, of "unat lo"] by (simp add: length_crc_table)
  then have t: "crc_table ! unat lo = (crc_bit ^^ 8) lo" by simp
  have "\<not> bit hi i" if "i < 8" for i using that by (simp add: hi_def m bit_simps)
  then have "(crc_bit ^^ 8) hi = drop_bit 8 hi" by (rule crc_bits_shift)
  also have "drop_bit 8 hi = drop_bit 8 c"
    by (rule bit_word_eqI) (auto simp: hi_def x_def m bit_simps dest: bit_imp_le_length)
  finally have "(crc_bit ^^ 8) hi = drop_bit 8 c" .
  then have "(crc_bit ^^ 8) x = crc_table ! unat lo XOR drop_bit 8 c"
    unfolding x crc_bits_xor t by simp
  then show ?thesis by (simp only: crc_step_def crc_byte_def x_def [symmetric] lo_def [symmetric])
qed

lemma crc_step16_fold:
  "16 \<le> length p \<Longrightarrow> crc_step16 c p = fold (\<lambda>b tmp. crc_step tmp b) (take 16 p) c"
proof -
  assume "16 \<le> length p"
  then have "take 16 p = map (\<lambda>i. p ! i) [0..<16]" by (intro nth_equalityI) auto
  also have "[0..<16] = [0, 1, 2, 3, 4, 5, 6, 7, 8, 9, 10, 11, 12, 13, 14, 15 :: nat]" by (simp add: upt_rec)
  finally show ?thesis by (simp add: crc_step16_def Let_def)
qed

lemma crc_add_data_fold: "crc_add_data c p = fold (\<lambda>b tmp. crc_step tmp b) p c"
proof (induction c p rule: crc_add_data.induct)
  case (1 crc p)
  show ?case
  proof (cases "16 \<le> length p")
    case True
    then have "crc_add_data crc p =
        fold (\<lambda>b tmp. crc_step tmp b) (drop 16 p) (fold (\<lambda>b tmp. crc_step tmp b) (take 16 p) crc)"
      using 1 by (subst crc_add_data.simps) (simp add: crc_step16_fold)
    also have "\<dots> = fold (\<lambda>b tmp. crc_step tmp b) (take 16 p @ drop 16 p) crc" by (simp only: fold_append o_apply)
    finally show ?thesis by simp
  next
    case False
    then show ?thesis by (subst crc_add_data.simps) simp
  qed
qed

section \<open>Properties\<close>

text \<open>
  C28. The table driven, unrolled CRC-32 computes the remainder of the bit by bit division by
  the polynomial \<open>0xEDB88320\<close> for every input, and hashing a message in two parts is hashing
  it in one.
\<close>

theorem crc32_correct:
  "crc32 p = crc32_reference p \<and> crc_add_data (crc_add_data c p) q = crc_add_data c (p @ q)"
proof -
  have "fold (\<lambda>b tmp. crc_step tmp b) p c = fold (\<lambda>b c. crc_byte c b) p c" for c
    by (simp add: crc_step_byte)
  then show ?thesis
    by (simp add: crc32_def crc_final_result_def crc_clear_def crc32_reference_def crc_add_data_fold)
qed

end
