(* ===== verification/Modifier.thy ===== *)
theory Modifier
  imports Resize_Buffer Crc32
begin

text \<open>
  Reasons and results of the network layer (\<open>include/lax/net/reason.hpp\<close>), the message
  modifiers (\<open>include/lax/net/protocol/util/modifier.hpp\<close>) and the two simple ones, the
  sequence byte and the checksum (\<open>src/net/protocol/util/sequencer.cpp\<close>, \<open>checksum.cpp\<close>).
  A modifier changes a message in its buffer before it is sent and undoes the change after
  it was received; the contract is the locale \<open>modifier\<close>.
\<close>

section \<open>Reasons\<close>

datatype reason =
    success
  | fail_null_pointer | fail_zero_size_data | fail_invalid_parameter | fail_not_implemented
  | fail_invalid_session_index | fail_invalid_address | fail_acceptor_open | fail_acceptor_bind
  | fail_acceptor_listen
  | fail_session_already_recving | success_session_already_sending | success_session_no_data_to_send
  | fail_invalid_session | fail_socket_closed
  | fail_null_message_pointer | fail_invalid_message_header | fail_protocol_not_added
  | fail_invalid_bits_message | fail_bits_message_not_registered | fail_bits_pack_error
  | fail_bits_unpack_error | fail_invalid_message_sequence | fail_null_hash_function
  | fail_incorrect_checksum | fail_incorrect_checksum_length

text \<open>The enumerators with their values, in the order of the declaration.\<close>

definition reason_value :: "reason \<Rightarrow> nat" where
  "reason_value r =
     (case r of
        success \<Rightarrow> 0 | fail_null_pointer \<Rightarrow> 1 | fail_zero_size_data \<Rightarrow> 2 | fail_invalid_parameter \<Rightarrow> 3
      | fail_not_implemented \<Rightarrow> 4
      | fail_invalid_session_index \<Rightarrow> 100 | fail_invalid_address \<Rightarrow> 101 | fail_acceptor_open \<Rightarrow> 102
      | fail_acceptor_bind \<Rightarrow> 103 | fail_acceptor_listen \<Rightarrow> 104
      | fail_session_already_recving \<Rightarrow> 200 | success_session_already_sending \<Rightarrow> 201
      | success_session_no_data_to_send \<Rightarrow> 202 | fail_invalid_session \<Rightarrow> 203 | fail_socket_closed \<Rightarrow> 204
      | fail_null_message_pointer \<Rightarrow> 300 | fail_invalid_message_header \<Rightarrow> 301 | fail_protocol_not_added \<Rightarrow> 302
      | fail_invalid_bits_message \<Rightarrow> 303 | fail_bits_message_not_registered \<Rightarrow> 304 | fail_bits_pack_error \<Rightarrow> 305
      | fail_bits_unpack_error \<Rightarrow> 306 | fail_invalid_message_sequence \<Rightarrow> 307 | fail_null_hash_function \<Rightarrow> 308
      | fail_incorrect_checksum \<Rightarrow> 309 | fail_incorrect_checksum_length \<Rightarrow> 310)"

text \<open>\<open>util::result<bool, reason>\<close>: the code and the reason.\<close>

type_synonym net_result = "bool \<times> reason"

section \<open>modifier\<close>

definition header_length :: nat where
  "header_length = 8"

text \<open>
  \<open>update_length_field\<close>. The second, third and fourth byte are all \<open>new_len >> 8 & 0xFF\<close>.
\<close>

definition length_field :: "nat \<Rightarrow> byte list" where
  "length_field n =
     [word_of_nat n, word_of_nat (n div 256), word_of_nat (n div 256), word_of_nat (n div 256)]"

definition update_length_field :: "rbuf \<Rightarrow> nat \<Rightarrow> nat \<Rightarrow> fault + rbuf" where
  "update_length_field buf msg_pos new_len = rb_poke buf msg_pos (length_field new_len)"

text \<open>Handlers return the result, the new length (of a receive), the buffer and the state.\<close>

type_synonym 's send_handler = "'s \<Rightarrow> rbuf \<Rightarrow> nat \<Rightarrow> nat \<Rightarrow> fault + (net_result \<times> rbuf \<times> 's)"
type_synonym 's recv_handler = "'s \<Rightarrow> rbuf \<Rightarrow> nat \<Rightarrow> nat \<Rightarrow> fault + (net_result \<times> nat \<times> rbuf \<times> 's)"

section \<open>sequencer\<close>

record sequencer =
  send_seq :: byte
  recv_seq :: byte

definition sequence_size :: nat where
  "sequence_size = 1"

definition sequencer_on_bind :: "sequencer \<Rightarrow> net_result \<times> sequencer" where
  "sequencer_on_bind s = ((True, success), s\<lparr>send_seq := 1, recv_seq := 1\<rparr>)"

text \<open>
  \<open>recv_seq_++\<close> takes place whether the bytes agree or not. A length below zero, which would
  wrap round to one no buffer has, is a fault here and in the other handlers.
\<close>

definition sequencer_on_recv :: "sequencer recv_handler" where
  "sequencer_on_recv s buf msg_pos msg_len =
     (if msg_pos + msg_len < sequence_size then Inl Out_of_bounds
      else case rb_peek buf (msg_pos + msg_len - sequence_size) 1 of
        Inl f \<Rightarrow> Inl f
      | Inr bs \<Rightarrow>
          (let s' = s\<lparr>recv_seq := recv_seq s + 1\<rparr>
           in if hd bs = recv_seq s
              then (if msg_len < sequence_size then Inl Out_of_bounds
                    else Inr ((True, success), msg_len - sequence_size, buf, s'))
              else Inr ((False, fail_invalid_message_sequence), msg_len, buf, s')))"

definition sequencer_on_send :: "sequencer send_handler" where
  "sequencer_on_send s buf msg_pos msg_len =
     (case rb_append buf [97] of
        Inl f \<Rightarrow> Inl f
      | Inr buf1 \<Rightarrow>
          (case rb_poke buf1 (msg_pos + msg_len) [send_seq s] of
             Inl f \<Rightarrow> Inl f
           | Inr buf2 \<Rightarrow>
               (case update_length_field buf2 msg_pos (msg_len + sequence_size) of
                  Inl f \<Rightarrow> Inl f
                | Inr buf3 \<Rightarrow> Inr ((True, success), buf3, s\<lparr>send_seq := send_seq s + 1\<rparr>))))"

section \<open>checksum\<close>

definition checksum_size :: nat where
  "checksum_size = 4"

text \<open>
  The length \<open>msg_len - checksum_size - header_length\<close> is a \<open>size_t\<close>: when it is negative the
  hash runs over nearly the whole address space.
\<close>

definition checksum_on_recv :: "unit recv_handler" where
  "checksum_on_recv s buf msg_pos msg_len =
     (if msg_len = header_length then Inr ((True, success), msg_len, buf, s)
      else if msg_len < checksum_size + header_length then Inl Out_of_bounds
      else case rb_peek buf (msg_pos + header_length) (msg_len - checksum_size - header_length) of
             Inl f \<Rightarrow> Inl f
           | Inr payload \<Rightarrow>
               (case rb_peek buf (msg_pos + msg_len - checksum_size) checksum_size of
                  Inl f \<Rightarrow> Inl f
                | Inr received \<Rightarrow>
                    (if received \<noteq> crc32 payload
                     then Inr ((False, fail_incorrect_checksum), msg_len, buf, s)
                     else Inr ((True, success), msg_len - checksum_size, buf, s))))"

definition checksum_on_send :: "unit send_handler" where
  "checksum_on_send s buf msg_pos msg_len =
     (if msg_len = header_length then Inr ((True, success), buf, s)
      else if msg_len < header_length then Inl Out_of_bounds
      else case rb_peek buf (msg_pos + header_length) (msg_len - header_length) of
             Inl f \<Rightarrow> Inl f
           | Inr payload \<Rightarrow>
               (case rb_append buf [97, 98, 99, 100] of
                  Inl f \<Rightarrow> Inl f
                | Inr buf1 \<Rightarrow>
                    (case rb_poke buf1 (msg_pos + msg_len) (crc32 payload) of
                       Inl f \<Rightarrow> Inl f
                     | Inr buf2 \<Rightarrow>
                         (case update_length_field buf2 msg_pos (msg_len + checksum_size) of
                            Inl f \<Rightarrow> Inl f
                          | Inr buf3 \<Rightarrow> Inr ((True, success), buf3, s)))))"

section \<open>The contract\<close>

text \<open>
  \<open>sync s r\<close>: the sender in state \<open>s\<close> and the receiver in state \<open>r\<close> have handled the same
  messages. A message is at least a header; its first four bytes, the length field, are not
  compared. What \<open>on_send\<close> makes of a message alone in its buffer, \<open>on_recv\<close> turns back into
  the message at any place of any buffer, touching nothing around it, and both stay in
  step.
\<close>

definition same_message :: "byte list \<Rightarrow> byte list \<Rightarrow> bool" where
  "same_message x y \<longleftrightarrow> length x = length y \<and> drop 4 x = drop 4 y"

locale modifier =
  fixes on_send :: "'s send_handler" and on_recv :: "'r recv_handler" and sync :: "'s \<Rightarrow> 'r \<Rightarrow> bool"
  assumes send_total:
      "sync s r \<Longrightarrow> rb_ok buf \<Longrightarrow> header_length \<le> length (rb_bytes buf) \<Longrightarrow>
        \<exists>buf' s'. on_send s buf 0 (length (rb_bytes buf)) = Inr ((True, success), buf', s') \<and> rb_ok buf' \<and>
          length (rb_bytes buf) \<le> length (rb_bytes buf') \<and> take 4 (drop 4 (rb_bytes buf')) = take 4 (drop 4 (rb_bytes buf)) \<and>
          (take 4 (rb_bytes buf') = length_field (length (rb_bytes buf')) \<or>
           rb_bytes buf' = rb_bytes buf)"
    and recv_sent:
      "sync s r \<Longrightarrow> rb_ok buf \<Longrightarrow> header_length \<le> length (rb_bytes buf) \<Longrightarrow>
        on_send s buf 0 (length (rb_bytes buf)) = Inr ((True, success), buf', s') \<Longrightarrow>
        same_message y (rb_bytes buf') \<Longrightarrow> rb_ok rbuf \<Longrightarrow> rb_bytes rbuf = pre @ y @ post \<Longrightarrow>
        \<exists>rbuf' x n r'. on_recv r rbuf (length pre) (length y) = Inr ((True, success), n, rbuf', r') \<and>
          rb_ok rbuf' \<and> rb_bytes rbuf' = pre @ x @ post \<and> length x = length y \<and>
          n = length (rb_bytes buf) \<and> same_message (take n x) (rb_bytes buf) \<and> take 4 x = take 4 y \<and> sync s' r'"
begin

lemma recv_sent_len:
  "sync s r \<Longrightarrow> rb_ok buf \<Longrightarrow> header_length \<le> length (rb_bytes buf) \<Longrightarrow>
    on_send s buf 0 (length (rb_bytes buf)) = Inr ((True, success), buf', s') \<Longrightarrow> rb_ok buf' \<and>
    length (rb_bytes buf) \<le> length (rb_bytes buf')"
  using send_total [of s r buf] by auto

text \<open>The sender can always be followed: some receiver is in step with the state after a send.\<close>

lemma sync_after_send:
  assumes "sync s r" "rb_ok buf" "header_length \<le> length (rb_bytes buf)"
    and "on_send s buf 0 (length (rb_bytes buf)) = Inr ((True, success), buf', s')"
  shows "\<exists>r'. sync s' r'"
proof -
  have "rb_ok buf'" using send_total [OF assms(1-3)] assms(4) by auto
  then show ?thesis
    using recv_sent [OF assms, of "rb_bytes buf'" buf' "[]" "[]"] by (auto simp: same_message_def)
qed

end


section \<open>Trailers\<close>

text \<open>Both simple modifiers append a trailer and update the length field.\<close>

lemma length_length_field [simp]: "length (length_field n) = 4"
  by (simp add: length_field_def)

lemma append_trailer:
  assumes "rb_ok buf" "4 \<le> length (rb_bytes buf)" "length xs = length ys"
  obtains b1 b2 b3 where "rb_append buf xs = Inr b1" "rb_poke b1 (length (rb_bytes buf)) ys = Inr b2"
    "update_length_field b2 0 (length (rb_bytes buf) + length ys) = Inr b3" "rb_ok b3"
    "rb_bytes b3 = length_field (length (rb_bytes buf) + length ys) @ drop 4 (rb_bytes buf) @ ys"
proof -
  obtain b1 where b1: "rb_append buf xs = Inr b1" "rb_ok b1" "rb_bytes b1 = rb_bytes buf @ xs"
    using rb.append_total [OF assms(1)] by blast
  obtain b2 where b2: "rb_poke b1 (length (rb_bytes buf)) ys = Inr b2" "rb_ok b2" "rb_bytes b2 = rb_bytes buf @ ys"
    using rb.poke_total [OF b1(2), of "length (rb_bytes buf)" ys] b1(3) assms(3) by (auto simp: blit_def)
  obtain b3 where b3: "rb_poke b2 0 (length_field (length (rb_bytes buf) + length ys)) = Inr b3" "rb_ok b3"
    "rb_bytes b3 = blit 0 (length_field (length (rb_bytes buf) + length ys)) (rb_bytes buf @ ys)"
    using rb.poke_total [OF b2(2), of 0 "length_field (length (rb_bytes buf) + length ys)"] b2(3) assms(2) by auto
  show thesis
    using b1(1) b2(1) b3 assms(2)
    by (intro that [of b1 b2 b3]) (simp_all add: update_length_field_def blit_def)
qed

lemma same_message_trailer:
  assumes "same_message y (l @ drop 4 m @ t)" "length l = 4" "4 \<le> length m"
  shows "\<exists>l'. length l' = 4 \<and> y = l' @ drop 4 m @ t"
proof -
  have "y = take 4 y @ drop 4 m @ t" using assms by (metis append_take_drop_id append_eq_conv_conj same_message_def)
  moreover have "length (take 4 y) = 4" using assms by (simp add: same_message_def)
  ultimately show ?thesis by blast
qed

lemma header_length_ge4 [simp]: "header_length \<le> n \<Longrightarrow> 4 \<le> n"
  by (simp add: header_length_def)

interpretation sequencer: modifier sequencer_on_send sequencer_on_recv "\<lambda>s r. send_seq s = recv_seq r"
proof (unfold_locales, goal_cases)
  case (1 s r buf)
  let ?n = "length (rb_bytes buf)"
  obtain b1 b2 b3 where b: "rb_append buf [97] = Inr b1" "rb_poke b1 ?n [send_seq s] = Inr b2"
    "update_length_field b2 0 (?n + length [send_seq s]) = Inr b3" "rb_ok b3"
    "rb_bytes b3 = length_field (?n + length [send_seq s]) @ drop 4 (rb_bytes buf) @ [send_seq s]"
    using 1(2,3) by (auto elim!: append_trailer [of buf "[97]" "[send_seq s]"])
  then show ?case using 1(3) by (simp add: sequencer_on_send_def sequence_size_def header_length_def)
next
  case (2 s r buf buf' s' y rbuf pre post)
  let ?n = "length (rb_bytes buf)"
  obtain b1 b2 b3 where b: "rb_append buf [97] = Inr b1" "rb_poke b1 ?n [send_seq s] = Inr b2"
    "update_length_field b2 0 (?n + length [send_seq s]) = Inr b3" "rb_ok b3"
    "rb_bytes b3 = length_field (?n + length [send_seq s]) @ drop 4 (rb_bytes buf) @ [send_seq s]"
    using 2(2,3) by (auto elim!: append_trailer [of buf "[97]" "[send_seq s]"])
  have sent: "buf' = b3" "s' = s\<lparr>send_seq := send_seq s + 1\<rparr>"
    using 2(4) b by (simp_all add: sequencer_on_send_def sequence_size_def)
  obtain l where l: "length l = 4" "y = l @ drop 4 (rb_bytes buf) @ [send_seq s]"
    using same_message_trailer [of y "length_field (?n + length [send_seq s])" "rb_bytes buf"] 2(3,5) b(5) sent
    by auto
  define core where "core = drop 4 (rb_bytes buf)"
  have y: "y = l @ core @ [send_seq s]" and n: "?n = 4 + length core"
    using l 2(3) by (simp_all add: core_def header_length_def)
  have "rb_peek rbuf (length pre + ?n) 1 = Inr [send_seq s]"
    using rb.peek_eq [OF 2(6), of "length pre + ?n" 1] 2(7) l(1) by (simp add: y n)
  then have run: "sequencer_on_recv r rbuf (length pre) (length y) =
      Inr ((True, success), ?n, rbuf, r\<lparr>recv_seq := recv_seq r + 1\<rparr>)"
    using 2(1) l(1) by (simp add: sequencer_on_recv_def sequence_size_def Let_def y n ac_simps)
  have "same_message (take ?n y) (rb_bytes buf)"
    using l(1) by (simp add: same_message_def y n core_def [symmetric])
  then show ?case using run 2(1,6,7) sent by (intro exI [of _ rbuf] exI [of _ y]) simp
qed

interpretation checksum: modifier checksum_on_send checksum_on_recv "\<lambda>s r. True"
proof (unfold_locales, goal_cases)
  case (1 s r buf)
  let ?n = "length (rb_bytes buf)"
  show ?case
  proof (cases "?n = header_length")
    case True
    then show ?thesis using 1 by (simp add: checksum_on_send_def)
  next
    case False
    define crc where "crc = crc32 (drop header_length (rb_bytes buf))"
    have "rb_peek buf header_length (?n - header_length) = Inr (drop header_length (rb_bytes buf))"
      using rb.peek_eq [OF 1(2), of header_length "?n - header_length"] 1(3) by simp
    moreover obtain b1 b2 b3 where b: "rb_append buf [97, 98, 99, 100] = Inr b1" "rb_poke b1 ?n crc = Inr b2"
      "update_length_field b2 0 (?n + length crc) = Inr b3" "rb_ok b3"
      "rb_bytes b3 = length_field (?n + length crc) @ drop 4 (rb_bytes buf) @ crc"
      using 1 by (auto simp: crc_def elim!: append_trailer [of buf "[97, 98, 99, 100]" crc])
    ultimately show ?thesis using 1 False
      by (simp add: checksum_on_send_def checksum_size_def header_length_def crc_def add.commute)
  qed
next
  case (2 s r buf buf' s' y rbuf pre post)
  let ?n = "length (rb_bytes buf)"
  show ?case
  proof (cases "?n = header_length")
    case True
    then have sent: "buf' = buf" using 2(4) by (simp add: checksum_on_send_def)
    then have "length y = header_length" using 2(5) True by (simp add: same_message_def)
    then show ?thesis using 2(5,6,7) sent True
      by (intro exI [of _ rbuf] exI [of _ y]) (simp add: checksum_on_recv_def same_message_def)
  next
    case False
    define payload where "payload = drop header_length (rb_bytes buf)"
    define crc where "crc = crc32 payload"
    have peek: "rb_peek buf header_length (?n - header_length) = Inr payload"
      using rb.peek_eq [OF 2(2), of header_length "?n - header_length"] 2(3) by (simp add: payload_def)
    obtain b1 b2 b3 where b: "rb_append buf [97, 98, 99, 100] = Inr b1" "rb_poke b1 ?n crc = Inr b2"
      "update_length_field b2 0 (?n + length crc) = Inr b3" "rb_ok b3"
      "rb_bytes b3 = length_field (?n + length crc) @ drop 4 (rb_bytes buf) @ crc"
      using 2(2,3) by (auto simp: crc_def elim!: append_trailer [of buf "[97, 98, 99, 100]" crc])
    have sent: "buf' = b3"
      using 2(3,4) b peek False by (simp add: checksum_on_send_def checksum_size_def crc_def)
    obtain l where l: "length l = 4" "y = l @ drop 4 (rb_bytes buf) @ crc"
      using same_message_trailer [of y "length_field (?n + length crc)" "rb_bytes buf"] 2(3,5) b(5) sent by auto
    define hdr where "hdr = l @ take 4 (drop 4 (rb_bytes buf))"
    have hdr: "length hdr = header_length" "y = hdr @ payload @ crc" "length payload = ?n - header_length"
    proof -
      have "drop 4 (rb_bytes buf) = take 4 (drop 4 (rb_bytes buf)) @ payload"
        by (simp add: payload_def header_length_def) (metis append_take_drop_id drop_drop add_numeral_left numeral_Bit0 semiring_norm(2))
      then show "y = hdr @ payload @ crc" using l by (simp add: hdr_def)
    qed (use l(1) 2(3) in \<open>simp_all add: hdr_def header_length_def payload_def\<close>)
    have len: "length y = ?n + 4" using hdr 2(3) by (simp add: crc_def)
    have "rb_peek rbuf (length pre + header_length) (length payload) = Inr payload"
      "rb_peek rbuf (length pre + ?n) 4 = Inr crc"
      using rb.peek_eq [OF 2(6), of "length pre + header_length" "length payload"]
        rb.peek_eq [OF 2(6), of "length pre + ?n" 4] 2(3,7) hdr by (simp_all add: crc_def)
    then have run: "checksum_on_recv r rbuf (length pre) (length y) = Inr ((True, success), ?n, rbuf, r)"
      using len False 2(3) hdr(3)
      by (simp add: checksum_on_recv_def checksum_size_def crc_def header_length_def)
    have "same_message (take ?n y) (rb_bytes buf)"
      using l 2(3) by (simp add: same_message_def)
    then show ?thesis using run 2(6,7) len by (intro exI [of _ rbuf] exI [of _ y]) simp
  qed
qed


section \<open>Modifiers one after the other\<close>

text \<open>
  The protocol calls a modifier when it is enabled, sending in one order and receiving in the
  opposite one, and returns at the first failure. On the sending side every modifier gets the
  whole buffer.
\<close>

definition when_send :: "bool \<Rightarrow> 's send_handler \<Rightarrow> 's send_handler" where
  "when_send on f s buf pos len = (if on then f s buf pos len else Inr ((True, success), buf, s))"

definition when_recv :: "bool \<Rightarrow> 's recv_handler \<Rightarrow> 's recv_handler" where
  "when_recv on f s buf pos len = (if on then f s buf pos len else Inr ((True, success), len, buf, s))"

definition then_send :: "'s send_handler \<Rightarrow> 't send_handler \<Rightarrow> ('s \<times> 't) send_handler" where
  "then_send f g st buf pos len =
     (case f (fst st) buf pos len of
        Inl e \<Rightarrow> Inl e
      | Inr (rc, buf1, s') \<Rightarrow>
          (if \<not> fst rc then Inr (rc, buf1, (s', snd st))
           else (case g (snd st) buf1 0 (rb_size buf1) of
                   Inl e \<Rightarrow> Inl e
                 | Inr (rc2, buf2, t') \<Rightarrow> Inr (rc2, buf2, (s', t')))))"

definition then_recv :: "'t recv_handler \<Rightarrow> 's recv_handler \<Rightarrow> ('s \<times> 't) recv_handler" where
  "then_recv g f st buf pos len =
     (case g (snd st) buf pos len of
        Inl e \<Rightarrow> Inl e
      | Inr (rc, n, buf1, t') \<Rightarrow>
          (if \<not> fst rc then Inr (rc, n, buf1, (fst st, t'))
           else (case f (fst st) buf1 pos n of
                   Inl e \<Rightarrow> Inl e
                 | Inr (rc2, n2, buf2, s') \<Rightarrow> Inr (rc2, n2, buf2, (s', t')))))"

lemma rb_size_bytes: "rb_ok buf \<Longrightarrow> rb_size buf = length (rb_bytes buf)"
  using length_rb_bytes by (auto simp: rb_ok_def rb_inv_def rb_size_def)

locale optional_modifier = modifier on_send on_recv sync
  for on_send :: "'s send_handler" and on_recv :: "'r recv_handler" and sync :: "'s \<Rightarrow> 'r \<Rightarrow> bool" +
  fixes enabled :: bool

sublocale optional_modifier \<subseteq> opt: modifier "when_send enabled on_send" "when_recv enabled on_recv" sync
proof (unfold_locales, goal_cases)
  case (1 s r buf)
  then show ?case using send_total [of s r buf] by (simp add: when_send_def)
next
  case (2 s r buf buf' s' y rbuf pre post)
  show ?case
  proof (cases enabled)
    case True
    then show ?thesis using recv_sent [of s r buf buf' s' y rbuf pre post] 2 by (simp add: when_send_def when_recv_def)
  next
    case False
    then have sent: "buf' = buf" "s' = s" using 2(4) by (simp_all add: when_send_def)
    then show ?thesis using 2 False
      by (intro exI [of _ rbuf] exI [of _ y]) (auto simp: when_recv_def same_message_def)
  qed
qed

locale modifier_pair =
  a: modifier send_a recv_a sync_a + b: modifier send_b recv_b sync_b
  for send_a :: "'s send_handler" and recv_a :: "'r recv_handler" and sync_a :: "'s \<Rightarrow> 'r \<Rightarrow> bool"
    and send_b :: "'t send_handler" and recv_b :: "'q recv_handler" and sync_b :: "'t \<Rightarrow> 'q \<Rightarrow> bool"

sublocale modifier_pair \<subseteq> pair: modifier "then_send send_a send_b" "then_recv recv_b recv_a"
  "\<lambda>st rq. sync_a (fst st) (fst rq) \<and> sync_b (snd st) (snd rq)"
proof (unfold_locales, goal_cases)
  case (1 st rq buf)
  have sb: "sync_b (snd st) (snd rq)" and sa: "sync_a (fst st) (fst rq)" using 1(1) by simp_all
  obtain b1 s1 where a: "send_a (fst st) buf 0 (length (rb_bytes buf)) = Inr ((True, success), b1, s1)" "rb_ok b1"
    "length (rb_bytes buf) \<le> length (rb_bytes b1)" "take 4 (drop 4 (rb_bytes b1)) = take 4 (drop 4 (rb_bytes buf))"
    "take 4 (rb_bytes b1) = length_field (length (rb_bytes b1)) \<or> rb_bytes b1 = rb_bytes buf"
    using a.send_total [OF sa 1(2,3)] by blast
  have "header_length \<le> length (rb_bytes b1)" using 1(3) a(3) by simp
  from b.send_total [OF sb a(2) this]
  show ?case using a rb_size_bytes [OF a(2)] by (auto simp: then_send_def)
next
  case (2 st rq buf buf' st' y rbuf pre post)
  have sb: "sync_b (snd st) (snd rq)" and sa: "sync_a (fst st) (fst rq)" using 2(1) by simp_all
  obtain b1 s1 where a: "send_a (fst st) buf 0 (length (rb_bytes buf)) = Inr ((True, success), b1, s1)" "rb_ok b1"
    "length (rb_bytes buf) \<le> length (rb_bytes b1)"
    using a.send_total [OF sa 2(2,3)] by blast
  have h1: "header_length \<le> length (rb_bytes b1)" using 2(3) a(3) by simp
  obtain t1 where b: "send_b (snd st) b1 0 (length (rb_bytes b1)) = Inr ((True, success), buf', t1)" "st' = (s1, t1)"
    using 2(4) a rb_size_bytes [OF a(2)] b.send_total [OF sb a(2) h1] by (auto simp: then_send_def)
  obtain r1 x n q1 where rb: "recv_b (snd rq) rbuf (length pre) (length y) = Inr ((True, success), n, r1, q1)"
    "rb_ok r1" "rb_bytes r1 = pre @ x @ post" "length x = length y" "n = length (rb_bytes b1)"
    "same_message (take n x) (rb_bytes b1)" "take 4 x = take 4 y" "sync_b t1 q1"
    using b.recv_sent [OF sb a(2) h1 b(1) 2(5,6,7)] by blast
  have bytes: "rb_bytes r1 = pre @ take n x @ (drop n x @ post)" using rb(3) by simp
  have len: "length (take n x) = n" using rb(5,6) by (simp add: same_message_def)
  then have n_x: "n \<le> length x" by simp
  obtain r2 x2 m r3 where ra: "recv_a (fst rq) r1 (length pre) (length (take n x)) = Inr ((True, success), m, r2, r3)"
    "rb_ok r2" "rb_bytes r2 = pre @ x2 @ (drop n x @ post)" "length x2 = length (take n x)"
    "m = length (rb_bytes buf)" "same_message (take m x2) (rb_bytes buf)" "take 4 x2 = take 4 (take n x)"
    "sync_a s1 r3"
    using a.recv_sent [OF sa 2(2,3) a(1) rb(6) rb(2) bytes] by blast
  have m: "m \<le> n" using a(3) ra(5) rb(5) by simp
  define z where "z = x2 @ drop n x"
  have run: "then_recv recv_b recv_a rq rbuf (length pre) (length y) = Inr ((True, success), m, r2, (r3, q1))"
    using rb(1) ra(1) len by (simp add: then_recv_def)
  have "take m z = take m x2" using m ra(4) len by (simp add: z_def)
  then have same: "same_message (take m z) (rb_bytes buf)" using ra(6) by simp
  have lz: "length z = length y" using ra(4) len rb(4) n_x by (simp add: z_def)
  have "4 \<le> n" using h1 rb(5) by simp
  then have hz: "take 4 z = take 4 y" using ra(4,7) rb(7) len by (simp add: z_def min_def)
  have "rb_bytes r2 = pre @ z @ post" using ra(3) by (simp add: z_def)
  then show ?case using run same lz hz ra(2,5,8) b(2) rb(8)
    by (intro exI [of _ r2] exI [of _ z] exI [of _ m] exI [of _ "(r3, q1)"]) simp
qed

end
