(* ===== verification/Bits_Message.thy ===== *)
theory Bits_Message
  imports Modifier
begin

text \<open>
  Messages of the bits protocol: \<open>bits_message\<close> with the code of its macros
  (\<open>include/lax/net/protocol/bits/bits_message.hpp\<close>), the adapters of bitsery that write into
  and read from a \<open>resize_buffer\<close> (\<open>ext/bitsery/include/bitsery/adapter/buffer.h\<close>,
  \<open>traits/core/std_defaults.h\<close>) and \<open>bits_message_factory\<close>. What \<open>BITS_SERIALIZE\<close> makes of
  the members of a message is the user's: \<open>ser\<close> gives the writes of a body and \<open>de\<close> reads one.
\<close>

section \<open>bits\_message\<close>

record 'a bits_message =
  bm_key :: u32
  bm_length :: u32
  bm_topic :: u32
  bm_sequence :: bool
  bm_checksum :: bool
  bm_cipher :: bool
  bm_body :: 'a

text \<open>The constructor \<open>BITS_MSG_CLASS_FULL\<close> defines; \<open>enc\<close> switches everything on.\<close>

definition bits_msg_class :: "u32 \<Rightarrow> bool \<Rightarrow> bool \<Rightarrow> bool \<Rightarrow> 'a \<Rightarrow> 'a bits_message" where
  "bits_msg_class topic_key enc crc seq body =
     (let m = \<lparr>bm_key = topic_key, bm_length = 0, bm_topic = 0, bm_sequence = seq, bm_checksum = crc,
               bm_cipher = enc, bm_body = body\<rparr>
      in if enc then m\<lparr>bm_cipher := True, bm_checksum := True, bm_sequence := True\<rparr> else m)"

section \<open>OutputBufferAdapter\<close>

text \<open>\<open>increaseBufferSize\<close>: half as much again and 128, cut to a cache line of 64.\<close>

definition increase_buffer_size :: "rbuf \<Rightarrow> fault + rbuf" where
  "increase_buffer_size container =
     (let newSize = rb_size container * 3 div 2 + 128;
          newSize' = newSize - newSize mod 64
      in rb_resize container (max newSize' (rb_capacity container)))"

text \<open>
  The adapter is the buffer and \<open>_outIt\<close>, an offset; \<open>_end\<close> is \<open>std::end\<close> of the buffer whenever
  it is read.
\<close>

definition out_init :: "rbuf \<Rightarrow> fault + (rbuf \<times> nat)" where
  "out_init buf =
     (if rb_size buf = 0
      then (case increase_buffer_size buf of Inl f \<Rightarrow> Inl f | Inr buf' \<Rightarrow> Inr (buf', 0))
      else Inr (buf, 0))"

lemma resize_size: "rb_resize rb n = Inr rb' \<Longrightarrow> rb_size rb' = n"
  by (auto simp: rb_resize_def rb_size_def split: if_splits sum.splits)

lemma increase_grows: "increase_buffer_size rb = Inr rb' \<Longrightarrow> rb_size rb < rb_size rb'"
proof -
  assume "increase_buffer_size rb = Inr rb'"
  then have "rb_size rb' = max (rb_size rb * 3 div 2 + 128 - (rb_size rb * 3 div 2 + 128) mod 64) (rb_capacity rb)"
    using resize_size by (auto simp: increase_buffer_size_def Let_def)
  moreover have "(rb_size rb * 3 div 2 + 128) mod 64 < 64" by simp
  ultimately show ?thesis by linarith
qed

function out_write :: "byte list \<Rightarrow> rbuf \<Rightarrow> nat \<Rightarrow> fault + (rbuf \<times> nat)" where
  "out_write data buf pos =
     (if pos + length data \<le> rb_size buf
      then (case rb_poke buf pos data of Inl f \<Rightarrow> Inl f | Inr buf' \<Rightarrow> Inr (buf', pos + length data))
      else (case increase_buffer_size buf of Inl f \<Rightarrow> Inl f | Inr buf' \<Rightarrow> out_write data buf' pos))"
  by pat_completeness auto
termination
  by (relation "measure (\<lambda>(data, buf, pos). pos + length data - rb_size buf)")
    (auto dest!: increase_grows)

declare out_write.simps [simp del]

fun out_writes :: "byte list list \<Rightarrow> rbuf \<Rightarrow> nat \<Rightarrow> fault + (rbuf \<times> nat)" where
  "out_writes [] buf pos = Inr (buf, pos)"
| "out_writes (w # ws) buf pos =
     (case out_write w buf pos of Inl f \<Rightarrow> Inl f | Inr (buf', pos') \<Rightarrow> out_writes ws buf' pos')"

text \<open>\<open>pack\<close>: the bytes written, the buffer and the message, whose \<open>topic\<close> it sets.\<close>

definition bits_pack ::
  "('a \<Rightarrow> byte list list) \<Rightarrow> 'a bits_message \<Rightarrow> rbuf \<Rightarrow> fault + (nat \<times> rbuf \<times> 'a bits_message)" where
  "bits_pack ser m buf =
     (let m1 = m\<lparr>bm_topic := bm_key m\<rparr>
      in case out_init buf of
           Inl f \<Rightarrow> Inl f
         | Inr (buf1, pos) \<Rightarrow>
             (case out_writes (le32 (bm_length m1) # le32 (bm_topic m1) # ser (bm_body m1)) buf1 pos of
                Inl f \<Rightarrow> Inl f
              | Inr (buf2, pos2) \<Rightarrow> Inr (pos2, buf2, m1)))"

section \<open>InputBufferAdapter\<close>

text \<open>
  The adapter is the bytes left to read. A read past the end sets the error
  \<open>DataOverflow\<close>, which no later read clears: \<open>None\<close>.
\<close>

definition in_read :: "nat \<Rightarrow> byte list \<Rightarrow> (byte list \<times> byte list) option" where
  "in_read n rest = (if n \<le> length rest then Some (take n rest, drop n rest) else None)"

text \<open>
  \<open>unpack\<close> of the \<open>len\<close> bytes from \<open>iter\<close>: the message when all bytes were read without an
  error, and \<open>None\<close> when it returns false. \<open>de\<close> reads the members over those the message has.
\<close>

definition bits_unpack ::
  "('a \<Rightarrow> byte list \<Rightarrow> ('a \<times> byte list) option) \<Rightarrow> 'a bits_message \<Rightarrow> rbuf \<Rightarrow> nat \<Rightarrow> nat \<Rightarrow>
    fault + 'a bits_message option" where
  "bits_unpack de m buf iter len =
     (case rb_peek buf iter len of
        Inl f \<Rightarrow> Inl f
      | Inr bytes \<Rightarrow>
          Inr (case in_read 4 bytes of
                 None \<Rightarrow> None
               | Some (l, r1) \<Rightarrow>
              (case in_read 4 r1 of
                 None \<Rightarrow> None
               | Some (t, r2) \<Rightarrow>
              (case de (bm_body m) r2 of
                 None \<Rightarrow> None
               | Some (body, r3) \<Rightarrow>
                   (if r3 = []
                    then Some (m\<lparr>bm_length := of_le32 l, bm_topic := of_le32 t, bm_body := body,
                                 bm_key := of_le32 t\<rparr>)
                    else None)))))"

section \<open>bits\_message\_factory\<close>

text \<open>A creator makes the same message each time.\<close>

type_synonym 'a factory = "u32 \<rightharpoonup> 'a bits_message"

definition factory_add :: "u32 \<Rightarrow> 'a bits_message \<Rightarrow> 'a factory \<Rightarrow> 'a factory" where
  "factory_add topic c f = (if f topic \<noteq> None then f else f(topic \<mapsto> c))"

definition factory_create :: "u32 \<Rightarrow> 'a factory \<Rightarrow> 'a bits_message option" where
  "factory_create topic f = f topic"

section \<open>Packing into a fresh buffer\<close>

lemma alloc_exact:
  assumes "pool_inv p held" "mp_alloc p n = (b, p')" "64 * 2 ^ k < n" "n \<le> 64 * 2 ^ Suc k" "k < 15"
  shows "b_capacity b = 64 * 2 ^ Suc k"
proof -
  have "(2::nat) ^ Suc k \<le> 2 ^ 15" using assms(5) by (intro power_increasing) auto
  then have "n \<le> 2 ^ 21" using assms(4) by simp
  then obtain i where i: "b_capacity b = 64 * 2 ^ i" "n \<le> 64 * 2 ^ i" "\<forall>j<i. 64 * 2 ^ j < n"
    using alloc_capacity [OF assms(1,2)] by auto
  have "\<not> i \<le> k"
  proof
    assume "i \<le> k"
    then have "64 * (2::nat) ^ i \<le> 64 * 2 ^ k" by simp
    then show False using i(2) assms(3) by linarith
  qed
  moreover have "\<not> Suc k < i" using i(3) assms(4) by (auto dest: spec [of _ "Suc k"])
  ultimately have "i = Suc k" by simp
  then show ?thesis using i(1) by simp
qed

text \<open>The sizes the adapter takes a fresh buffer through, with the capacities of its block.\<close>

definition pack_stages :: "(nat \<times> nat) set" where
  "pack_stages = {(128, 8192), (8192, 8192), (12416, 16384), (18752, 16384)}"

definition packing :: "buffer list \<Rightarrow> rbuf \<Rightarrow> byte list \<Rightarrow> bool" where
  "packing held buf written \<longleftrightarrow>
     (\<exists>b. rb_buf buf = Some b \<and> pool_inv (rb_pool buf) (held @ [b]) \<and>
       (rb_size buf, b_capacity b) \<in> pack_stages \<and> length written \<le> min (rb_size buf) (b_capacity b) \<and>
       take (length written) (b_data b) = written)"

lemma packing_init:
  assumes "pool_inv p held"
  obtains buf where "out_init (rbuf_new p 8192) = Inr (buf, 0)" "packing held buf []"
proof -
  obtain b p' where al: "mp_alloc p 8192 = (b, p')" by force
  have cap: "b_capacity b = 8192" using alloc_exact [OF assms al, of 6] by simp
  define buf where "buf = (rbuf_new p 8192)\<lparr>rb_pool := p', rb_buf := Some b, rb_pos := 128\<rparr>"
  have "rb_resize (rbuf_new p 8192) 128 = Inr buf"
    using al by (simp add: rb_resize_def rb_reserve_def rb_capacity_def rbuf_new_def buf_def)
  then have "out_init (rbuf_new p 8192) = Inr (buf, 0)"
    by (simp add: out_init_def increase_buffer_size_def rb_size_def rb_capacity_def rbuf_new_def)
  moreover have "packing held buf []"
    using cap alloc_inv [OF assms al] by (simp add: packing_def buf_def rb_size_def pack_stages_def)
  ultimately show thesis by (rule that)
qed

text \<open>From each size to the next; the last step is a fault, because the size ran past the block.\<close>

lemma packing_increase:
  assumes "packing held buf w"
  shows "rb_size buf < 18752 \<Longrightarrow> \<exists>buf'. increase_buffer_size buf = Inr buf' \<and> packing held buf' w"
    and "rb_size buf = 18752 \<Longrightarrow> increase_buffer_size buf = Inl Out_of_bounds"
proof -
  obtain b where b: "rb_buf buf = Some b" "pool_inv (rb_pool buf) (held @ [b])"
    "(rb_size buf, b_capacity b) \<in> pack_stages" "length w \<le> min (rb_size buf) (b_capacity b)"
    "take (length w) (b_data b) = w"
    using assms by (auto simp: packing_def)
  have cap: "rb_capacity buf = b_capacity b" by (simp add: rb_capacity_def b(1))
  { assume "rb_size buf = 18752"
    then have "rb_pos buf = 18752" "b_capacity b = 16384" using b(3) by (auto simp: pack_stages_def rb_size_def)
    then show "increase_buffer_size buf = Inl Out_of_bounds"
      by (simp add: increase_buffer_size_def rb_size_def cap rb_resize_def rb_reserve_def b(1) split: prod.split) }
  assume "rb_size buf < 18752"
  then consider "rb_pos buf = 128" "b_capacity b = 8192" | "rb_pos buf = 8192" "b_capacity b = 8192"
    | "rb_pos buf = 12416" "b_capacity b = 16384"
    using b(3) by (auto simp: pack_stages_def rb_size_def)
  then show "\<exists>buf'. increase_buffer_size buf = Inr buf' \<and> packing held buf' w"
  proof cases
    case 1
    then have "increase_buffer_size buf = Inr (buf\<lparr>rb_pos := 8192\<rparr>)"
      by (simp add: increase_buffer_size_def rb_size_def cap rb_resize_def)
    then show ?thesis using 1 b by (simp add: packing_def rb_size_def pack_stages_def)
  next
    case 2
    obtain nb p where al: "mp_alloc (rb_pool buf) 12416 = (nb, p)" by force
    have nb: "b_capacity nb = 16384" using alloc_exact [OF b(2) al, of 7] by simp
    define d where "d = blit 0 (take 8192 (b_data b)) (b_data nb)"
    have len: "length (take 8192 (b_data b)) = 8192" "length (b_data nb) = 16384"
      using 2 nb by (simp_all add: b_capacity_def)
    then have ld: "length d = b_capacity nb" using nb by (simp add: d_def)
    have "pool_inv p ((held @ [b]) @ [nb])" by (rule alloc_inv [OF b(2) al])
    then have "pool_inv (mp_release p b) (held @ [nb])" by (rule release_inv) simp
    then have inv: "pool_inv (mp_release p b) (held @ [nb\<lparr>b_data := d\<rparr>])" using ld by (rule pool_inv_write_last)
    have wl: "length w \<le> 8192" using b(4) 2 by simp
    have "take 8192 d = take 8192 (b_data b)"
      using take_blit_end [of 0 "take 8192 (b_data b)" "b_data nb"] by (simp only: d_def len) simp
    then have "take (length w) (take 8192 d) = take (length w) (take 8192 (b_data b))" by simp
    then have tk: "take (length w) d = w" using b(5) wl by (simp add: min_absorb1)
    have "increase_buffer_size buf = rb_resize buf 12416"
      using 2 by (simp add: increase_buffer_size_def rb_size_def cap)
    also have "\<dots> = Inr (buf\<lparr>rb_pool := mp_release p b, rb_buf := Some (nb\<lparr>b_data := d\<rparr>), rb_pos := 12416\<rparr>)"
      unfolding rb_resize_def rb_reserve_def cap b(1) 2 option.case d_def using al nb 2 by simp
    finally have "increase_buffer_size buf =
        Inr (buf\<lparr>rb_pool := mp_release p b, rb_buf := Some (nb\<lparr>b_data := d\<rparr>), rb_pos := 12416\<rparr>)" .
    then show ?thesis using inv wl tk ld nb by (simp add: packing_def rb_size_def pack_stages_def b_capacity_def)
  next
    case 3
    then have "increase_buffer_size buf = Inr (buf\<lparr>rb_pos := 18752\<rparr>)"
      by (simp add: increase_buffer_size_def rb_size_def cap rb_resize_def rb_reserve_def b(1))
    then show ?thesis using 3 b by (simp add: packing_def rb_size_def pack_stages_def)
  qed
qed

lemma packing_sizes: "packing held buf w \<Longrightarrow> rb_size buf \<le> 18752"
  by (auto simp: packing_def pack_stages_def)

lemma packing_poke:
  assumes "packing held buf w" "length w + length data \<le> rb_size buf"
  shows "length w + length data \<le> 16384 \<Longrightarrow>
      \<exists>buf'. rb_poke buf (length w) data = Inr buf' \<and> packing held buf' (w @ data)"
    and "16384 < length w + length data \<Longrightarrow> rb_poke buf (length w) data = Inl Out_of_bounds"
proof -
  obtain b where b: "rb_buf buf = Some b" "pool_inv (rb_pool buf) (held @ [b])"
    "(rb_size buf, b_capacity b) \<in> pack_stages" "length w \<le> min (rb_size buf) (b_capacity b)"
    "take (length w) (b_data b) = w"
    using assms(1) by (auto simp: packing_def)
  { assume "16384 < length w + length data"
    then show "rb_poke buf (length w) data = Inl Out_of_bounds"
      using b(1,3) by (auto simp: rb_poke_def pack_stages_def) }
  assume "length w + length data \<le> 16384"
  then have fits: "length w + length data \<le> b_capacity b" using assms(2) b(3) by (auto simp: pack_stages_def)
  define d where "d = blit (length w) data (b_data b)"
  have ld: "length d = b_capacity b" using fits by (simp add: d_def b_capacity_def)
  have "take (length (w @ data)) d = w @ data"
    using take_blit_end [of "length w" data "b_data b"] fits b(5) by (simp add: d_def b_capacity_def)
  moreover have "pool_inv (rb_pool buf) (held @ [b\<lparr>b_data := d\<rparr>])" using b(2) ld by (rule pool_inv_write_last)
  moreover have "rb_poke buf (length w) data = Inr (buf\<lparr>rb_buf := Some (b\<lparr>b_data := d\<rparr>)\<rparr>)"
    using fits b(1) by (simp add: rb_poke_def d_def)
  ultimately show "\<exists>buf'. rb_poke buf (length w) data = Inr buf' \<and> packing held buf' (w @ data)"
    using b(3) fits ld assms(2) by (auto simp: packing_def rb_size_def b_capacity_def)
qed

lemma packing_write:
  "packing held buf w \<Longrightarrow>
    (if length w + length data \<le> 16384
     then \<exists>buf'. out_write data buf (length w) = Inr (buf', length w + length data) \<and> packing held buf' (w @ data)
     else out_write data buf (length w) = Inl Out_of_bounds)"
proof (induction data buf "length w" rule: out_write.induct)
  case (1 data buf)
  show ?case
  proof (cases "length w + length data \<le> rb_size buf")
    case True
    then show ?thesis using packing_poke [OF 1(2) True] by (subst (1 2) out_write.simps) auto
  next
    case False
    show ?thesis
    proof (cases "rb_size buf < 18752")
      case True
      then obtain buf' where "increase_buffer_size buf = Inr buf'" "packing held buf' w"
        using packing_increase(1) [OF 1(2)] by blast
      then show ?thesis using 1(1) [OF False, of buf'] False by (subst (1 2) out_write.simps) simp
    next
      case False2: False
      then have "rb_size buf = 18752" using packing_sizes [OF 1(2)] by simp
      then show ?thesis using packing_increase(2) [OF 1(2)] False by (subst (1 2) out_write.simps) simp
    qed
  qed
qed

lemma packing_writes:
  "packing held buf w \<Longrightarrow>
    (if length w + length (concat ws) \<le> 16384
     then \<exists>buf'. out_writes ws buf (length w) = Inr (buf', length w + length (concat ws)) \<and>
       packing held buf' (w @ concat ws)
     else out_writes ws buf (length w) = Inl Out_of_bounds)"
proof (induction ws arbitrary: buf w)
  case Nil
  moreover have "length w \<le> 16384" using Nil by (auto simp: packing_def pack_stages_def)
  ultimately show ?case by simp
next
  case (Cons x ws)
  show ?case
  proof (cases "length w + length x \<le> 16384")
    case True
    then obtain buf' where b: "out_write x buf (length w) = Inr (buf', length w + length x)" "packing held buf' (w @ x)"
      using packing_write [OF Cons.prems, of x] by auto
    show ?thesis using Cons.IH [OF b(2)] b(1)
      by (cases "length w + (length x + length (concat ws)) \<le> 16384") (auto simp: add.assoc)
  next
    case False
    then show ?thesis using packing_write [OF Cons.prems, of x] by simp
  qed
qed

text \<open>The image of a message.\<close>

definition packed :: "('a \<Rightarrow> byte list list) \<Rightarrow> 'a bits_message \<Rightarrow> byte list" where
  "packed ser m = le32 (bm_length m) @ le32 (bm_key m) @ concat (ser (bm_body m))"

lemma packing_rewind:
  assumes "packing held buf w" "w \<noteq> []"
  shows "rb_inv_with held (rb_rewind buf (length w))" "rb_bytes (rb_rewind buf (length w)) = w"
    "rb_buf (rb_rewind buf (length w)) \<noteq> None"
  using assms by (auto simp: packing_def rb_rewind_def rb_inv_with_def rb_bytes_def rb_size_def rb_capacity_def)

lemma pack_ok:
  assumes "pool_inv p held" "length (packed ser m) \<le> 16384"
  obtains buf where "bits_pack ser m (rbuf_new p 8192) = Inr (length (packed ser m), buf, m\<lparr>bm_topic := bm_key m\<rparr>)"
    "packing held buf (packed ser m)"
proof -
  obtain b0 where b0: "out_init (rbuf_new p 8192) = Inr (b0, 0)" "packing held b0 []"
    using packing_init [OF assms(1)] by blast
  have "concat (le32 (bm_length m) # le32 (bm_key m) # ser (bm_body m)) = packed ser m" by (simp add: packed_def)
  then obtain b1 where "out_writes (le32 (bm_length m) # le32 (bm_key m) # ser (bm_body m)) b0 0 =
      Inr (b1, length (packed ser m))" "packing held b1 (packed ser m)"
    using packing_writes [OF b0(2), of "le32 (bm_length m) # le32 (bm_key m) # ser (bm_body m)"] assms(2) by auto
  then show thesis using b0(1) by (intro that [of b1]) (simp_all add: bits_pack_def Let_def del: out_writes.simps)
qed

lemma unpack_image:
  assumes "rb_peek buf pos n = Inr (l @ le32 t @ x)" "length l = 4" "de (bm_body m) x = Some (body, [])"
  shows "bits_unpack de m buf pos n =
    Inr (Some (m\<lparr>bm_length := of_le32 l, bm_topic := t, bm_body := body, bm_key := t\<rparr>))"
  using assms of_le32_le32 [of t "[]"] by (simp add: bits_unpack_def in_read_def)

lemma unpack_long_enough:
  "bits_unpack de m buf pos n = Inr (Some m') \<Longrightarrow> 8 \<le> n"
  by (auto simp: bits_unpack_def in_read_def rb_peek_def split: sum.splits option.splits if_splits prod.splits)

section \<open>Properties\<close>

text \<open>
  C12. Packing is exact up to 16384 bytes and a fault beyond. Into a fresh buffer over any
  pool in order, \<open>pack\<close> of a message whose image (length, topic key and the writes of its
  body) has at most 16384 bytes returns the size of the image, sets \<open>topic\<close>, and leaves a
  buffer that \<open>rewind\<close> to that size makes exactly the image; a longer message always ends
  outside the block, because \<open>resize\<close> stops growing it at 16384.
\<close>

theorem bits_pack_exact:
  assumes "pool_inv p held"
  shows "if length (packed ser m) \<le> 16384
    then \<exists>buf. bits_pack ser m (rbuf_new p 8192) = Inr (length (packed ser m), buf, m\<lparr>bm_topic := bm_key m\<rparr>) \<and>
      rb_bytes (rb_rewind buf (length (packed ser m))) = packed ser m
    else bits_pack ser m (rbuf_new p 8192) = Inl Out_of_bounds"
proof (cases "length (packed ser m) \<le> 16384")
  case True
  have ne: "packed ser m \<noteq> []" by (simp add: packed_def le32_def)
  obtain buf where "bits_pack ser m (rbuf_new p 8192) = Inr (length (packed ser m), buf, m\<lparr>bm_topic := bm_key m\<rparr>)"
    "packing held buf (packed ser m)"
    using pack_ok [OF assms True] by blast
  then show ?thesis using packing_rewind(2) [OF _ ne] True by auto
next
  case False
  obtain b0 where b0: "out_init (rbuf_new p 8192) = Inr (b0, 0)" "packing held b0 []"
    using packing_init [OF assms] by blast
  have "concat (le32 (bm_length m) # le32 (bm_key m) # ser (bm_body m)) = packed ser m" by (simp add: packed_def)
  then have "out_writes (le32 (bm_length m) # le32 (bm_key m) # ser (bm_body m)) b0 0 = Inl Out_of_bounds"
    using packing_writes [OF b0(2), of "le32 (bm_length m) # le32 (bm_key m) # ser (bm_body m)"] False by auto
  then show ?thesis using b0(1) False by (simp add: bits_pack_def Let_def del: out_writes.simps)
qed

theorem bits_pack_exact_witness:
  "\<forall>mem. (\<exists>buf. bits_pack (\<lambda>b. [[b]]) (bits_msg_class 7 False False False (9 :: byte)) (rbuf_new (buffer_pool_new mem) 8192) =
      Inr (9, buf, (bits_msg_class 7 False False False (9 :: byte))\<lparr>bm_topic := 7\<rparr>) \<and>
      rb_bytes (rb_rewind buf 9) = [0, 0, 0, 0, 7, 0, 0, 0, 9]) \<and>
    bits_pack (\<lambda>b. [replicate 16377 b]) (bits_msg_class 7 False False False (9 :: byte)) (rbuf_new (buffer_pool_new mem) 8192) =
      Inl Out_of_bounds"
proof (intro allI conjI)
  fix mem
  let ?m = "bits_msg_class 7 False False False (9 :: byte)"
  have packed: "packed (\<lambda>b. [[b]]) ?m = [0, 0, 0, 0, 7, 0, 0, 0, 9]"
    by (simp add: packed_def bits_msg_class_def le32_def Let_def)
  have len: "length (packed (\<lambda>b. [[b]]) ?m) = 9" by (simp add: packed_def bits_msg_class_def)
  from bits_pack_exact [OF pool_inv_new [of mem], of "\<lambda>b. [[b]]" ?m]
  show "\<exists>buf. bits_pack (\<lambda>b. [[b]]) ?m (rbuf_new (buffer_pool_new mem) 8192) =
      Inr (9, buf, ?m\<lparr>bm_topic := 7\<rparr>) \<and> rb_bytes (rb_rewind buf 9) = [0, 0, 0, 0, 7, 0, 0, 0, 9]"
    unfolding len by (simp add: packed) (simp add: bits_msg_class_def)
  from bits_pack_exact [OF pool_inv_new [of mem], of "\<lambda>b. [replicate 16377 b]" ?m]
  show "bits_pack (\<lambda>b. [replicate 16377 b]) ?m (rbuf_new (buffer_pool_new mem) 8192) = Inl Out_of_bounds"
    by (simp add: packed_def bits_msg_class_def)
qed

text \<open>
  C18. A message unpacked from the image it was packed to is the message: when reading its
  members undoes their writing, \<open>unpack\<close> of the packed bytes into a fresh message of the
  class succeeds and gives the topic, the length field and the body that were packed.
\<close>

theorem bits_pack_unpack:
  assumes "de (bm_body fresh) (concat (ser (bm_body m))) = Some (bm_body m, [])"
    and "pool_inv p held" and "length (packed ser m) \<le> 16384"
  shows "\<exists>n buf m'. bits_pack ser m (rbuf_new p 8192) = Inr (n, buf, m') \<and>
    bits_unpack de fresh (rb_rewind buf n) 0 n =
      Inr (Some (fresh\<lparr>bm_length := bm_length m, bm_topic := bm_key m, bm_body := bm_body m, bm_key := bm_key m\<rparr>))"
proof -
  obtain buf where buf: "bits_pack ser m (rbuf_new p 8192) = Inr (length (packed ser m), buf, m\<lparr>bm_topic := bm_key m\<rparr>)"
    "packing held buf (packed ser m)"
    using pack_ok [OF assms(2,3)] by blast
  have ne: "packed ser m \<noteq> []" by (simp add: packed_def le32_def)
  note rw = packing_rewind [OF buf(2) ne]
  then have "rb_ok (rb_rewind buf (length (packed ser m)))" by (auto simp: rb_ok_def rb_inv_def)
  from rb.peek_eq [OF this, of 0 "length (packed ser m)"]
  have "rb_peek (rb_rewind buf (length (packed ser m))) 0 (length (packed ser m)) =
      Inr (le32 (bm_length m) @ le32 (bm_key m) @ concat (ser (bm_body m)))"
    by (simp add: rw(2)) (simp add: packed_def)
  from unpack_image [where de = de and m = fresh, OF this length_le32 assms(1)] show ?thesis
    using buf(1) of_le32_le32 [of "bm_length m" "[]"] by simp
qed

theorem bits_pack_unpack_witness:
  "\<forall>mem. \<exists>n buf m'. bits_pack (\<lambda>b. [b]) (bits_msg_class 7 True True True [1, 2, 3]) (rbuf_new (buffer_pool_new mem) 8192) =
      Inr (n, buf, m') \<and>
    bits_unpack (\<lambda>_ bs. Some (bs, [])) (bits_msg_class 7 True True True []) (rb_rewind buf n) 0 n =
      Inr (Some ((bits_msg_class 7 True True True [1, 2, 3])\<lparr>bm_topic := 7\<rparr>))"
proof
  fix mem
  have "length (packed (\<lambda>b. [b]) (bits_msg_class 7 True True True [1, 2, 3])) \<le> 16384"
    by (simp add: packed_def bits_msg_class_def Let_def)
  from bits_pack_unpack [OF _ pool_inv_new [of mem] this, of "\<lambda>_ bs. Some (bs, [])" "bits_msg_class 7 True True True []"]
  show "\<exists>n buf m'. bits_pack (\<lambda>b. [b]) (bits_msg_class 7 True True True [1, 2, 3]) (rbuf_new (buffer_pool_new mem) 8192) =
      Inr (n, buf, m') \<and>
    bits_unpack (\<lambda>_ bs. Some (bs, [])) (bits_msg_class 7 True True True []) (rb_rewind buf n) 0 n =
      Inr (Some ((bits_msg_class 7 True True True [1, 2, 3])\<lparr>bm_topic := 7\<rparr>))"
    by (simp add: bits_msg_class_def Let_def)
qed

end
