(* ===== verification/Botan_CBC.thy ===== *)
theory Botan_CBC
  imports Lax_Prelude
begin

text \<open>
  The block cipher mode of the bundled Botan library that \<open>net::cipher\<close> uses: CBC with PKCS7
  padding (\<open>CBC_Encryption\<close>, \<open>CBC_Decryption\<close>, \<open>PKCS7_Padding\<close> in
  \<open>src/util/botan/botan_all.cpp\<close>). The block cipher under the mode, AES-128 with its key, is
  a pair of functions \<open>E\<close> and \<open>D\<close> on blocks of sixteen bytes; the mode relies on \<open>D\<close> undoing
  \<open>E\<close>, which is the locale \<open>block_cipher\<close>.
\<close>

section \<open>The model\<close>

definition BS :: nat where
  "BS = 16"

lemma BS_pos [simp]: "0 < BS" "BS \<noteq> 0"
  by (simp_all add: BS_def)

text \<open>\<open>xor_buf(out, in, length)\<close> on lists of the same length.\<close>

definition xor_bytes :: "byte list \<Rightarrow> byte list \<Rightarrow> byte list" where
  "xor_bytes xs ys = map2 xor xs ys"

lemma length_xor_bytes [simp]: "length (xor_bytes xs ys) = min (length xs) (length ys)"
  by (simp add: xor_bytes_def)

text \<open>
  \<open>CBC_Encryption::process\<close> on whole blocks: the result and the new \<open>m_state\<close>. Every block is
  xored with the ciphertext of the block before it, the first one with the state.
\<close>

function cbc_encrypt_blocks ::
  "(byte list \<Rightarrow> byte list) \<Rightarrow> byte list \<Rightarrow> byte list \<Rightarrow> byte list \<times> byte list" where
  "cbc_encrypt_blocks E st buf =
     (if buf = [] then ([], st)
      else let c = E (xor_bytes (take BS buf) st);
               r = cbc_encrypt_blocks E c (drop BS buf)
           in (c @ fst r, snd r))"
  by pat_completeness auto
termination
  by (relation "measure (\<lambda>(E, st, buf). length buf)") auto

declare cbc_encrypt_blocks.simps [simp del]

definition cbc_encrypt_process ::
  "(byte list \<Rightarrow> byte list) \<Rightarrow> byte list \<Rightarrow> byte list \<Rightarrow> fault + (byte list \<times> byte list)" where
  "cbc_encrypt_process E st buf =
     (if length buf mod BS \<noteq> 0 then Inl (Thrown ''CBC input is full blocks'')
      else Inr (cbc_encrypt_blocks E st buf))"

definition add_padding :: "byte list \<Rightarrow> nat \<Rightarrow> nat \<Rightarrow> byte list" where
  "add_padding buffer last_byte_pos block_size =
     (let pad_value = block_size - last_byte_pos in buffer @ replicate pad_value (word_of_nat pad_value))"

definition cbc_encrypt_finish ::
  "(byte list \<Rightarrow> byte list) \<Rightarrow> byte list \<Rightarrow> byte list \<Rightarrow> fault + (byte list \<times> byte list)" where
  "cbc_encrypt_finish E st buffer =
     cbc_encrypt_process E st (add_padding buffer (length buffer mod BS) BS)"

text \<open>\<open>decrypt_n\<close>: every block on its own.\<close>

function decrypt_n :: "(byte list \<Rightarrow> byte list) \<Rightarrow> byte list \<Rightarrow> byte list" where
  "decrypt_n D buf = (if buf = [] then [] else D (take BS buf) @ decrypt_n D (drop BS buf))"
  by pat_completeness auto
termination
  by (relation "measure (\<lambda>(D, buf). length buf)") auto

declare decrypt_n.simps [simp del]

text \<open>
  The loop of \<open>CBC_Decryption::process\<close>: \<open>tempbuf\<close> is the size of \<open>m_tempbuf\<close>, some blocks
  long, that many bytes are decrypted at a time.
\<close>

function cbc_decrypt_loop ::
  "nat \<Rightarrow> (byte list \<Rightarrow> byte list) \<Rightarrow> byte list \<Rightarrow> byte list \<Rightarrow> byte list \<times> byte list" where
  "cbc_decrypt_loop tempbuf D st buf =
     (if buf = [] \<or> tempbuf = 0 then ([], st)
      else let to_proc = min (length buf) tempbuf;
               chunk = take to_proc buf;
               p = xor_bytes (decrypt_n D chunk) (st @ take (to_proc - BS) chunk);
               r = cbc_decrypt_loop tempbuf D (drop (to_proc - BS) chunk) (drop to_proc buf)
           in (p @ fst r, snd r))"
  by pat_completeness auto
termination
  by (relation "measure (\<lambda>(n, D, st, buf). length buf)") auto

declare cbc_decrypt_loop.simps [simp del]

text \<open>\<open>AES-128\<close>: \<open>parallelism() * block_size() * BOTAN_BLOCK_CIPHER_PAR_MULT\<close>.\<close>

definition update_granularity :: nat where
  "update_granularity = 1 * BS * 4"

definition cbc_decrypt_process ::
  "(byte list \<Rightarrow> byte list) \<Rightarrow> byte list \<Rightarrow> byte list \<Rightarrow> fault + (byte list \<times> byte list)" where
  "cbc_decrypt_process D st buf =
     (if length buf mod BS \<noteq> 0 then Inl (Thrown ''Input is full blocks'')
      else Inr (cbc_decrypt_loop update_granularity D st buf))"

text \<open>
  \<open>PKCS7_Padding::unpad\<close>: the position of the padding, or \<open>size\<close> when the padding is bad. The
  loop runs from \<open>size - 2\<close> down to 1, so byte 0 is never compared.
\<close>

definition unpad :: "byte list \<Rightarrow> nat \<Rightarrow> nat" where
  "unpad block sz =
     (let last_byte = block ! (sz - 1);
          too_big = unat last_byte > sz;
          pad_pos = sz - unat last_byte;
          differs = list_ex (\<lambda>i. i \<ge> pad_pos \<and> \<not> too_big \<and> block ! i \<noteq> last_byte) [1..<sz - 1]
      in if too_big \<or> differs then sz else pad_pos)"

definition cbc_decrypt_finish ::
  "(byte list \<Rightarrow> byte list) \<Rightarrow> byte list \<Rightarrow> byte list \<Rightarrow> fault + byte list" where
  "cbc_decrypt_finish D st buffer =
     (if buffer = [] \<or> length buffer mod BS \<noteq> 0
      then Inl (Thrown ''Ciphertext not a multiple of block size'')
      else case cbc_decrypt_process D st buffer of
             Inl f \<Rightarrow> Inl f
           | Inr (p, _) \<Rightarrow>
               (let pad_bytes = BS - unpad (drop (length p - BS) p) BS
                in if pad_bytes = 0 then Inl (Thrown ''Decoding_Error'')
                   else Inr (take (length p - pad_bytes) p)))"

section \<open>Whole blocks\<close>

definition blocks :: "byte list \<Rightarrow> bool" where
  "blocks buf \<longleftrightarrow> length buf mod BS = 0"

lemma blocks_drop: "blocks buf \<Longrightarrow> blocks (drop (k * BS) buf)"
  by (metis blocks_def length_drop mod_mult_self3 mod_0_imp_dvd dvd_diff_nat dvd_imp_mod_0 dvd_triv_right)

lemma blocks_take: "blocks buf \<Longrightarrow> k * BS \<le> length buf \<Longrightarrow> blocks (take (k * BS) buf)"
  by (simp add: blocks_def min_absorb2)

lemma blocks_induct [consumes 1, case_names Nil Block]:
  assumes "blocks buf" "P []" "\<And>b buf. length b = BS \<Longrightarrow> blocks buf \<Longrightarrow> P buf \<Longrightarrow> P (b @ buf)"
  shows "P buf"
  using assms(1)
proof (induction "length buf" arbitrary: buf rule: less_induct)
  case less
  show ?case
  proof (cases "buf = []")
    case True
    then show ?thesis using assms(2) by simp
  next
    case False
    have len: "BS \<le> length buf"
      using less.prems False by (metis blocks_def length_0_conv mod_less not_less)
    have "blocks (drop BS buf)" using blocks_drop [OF less.prems, of 1] by simp
    moreover have "length (drop BS buf) < length buf" using False by simp
    ultimately have "P (drop BS buf)" using less.hyps by blast
    then have "P (take BS buf @ drop BS buf)"
      using len \<open>blocks (drop BS buf)\<close> by (intro assms(3)) simp_all
    then show ?thesis by simp
  qed
qed

section \<open>The reference mode and the contract of the cipher\<close>

text \<open>CBC decryption one block at a time.\<close>

function cbc_decrypt_ref :: "(byte list \<Rightarrow> byte list) \<Rightarrow> byte list \<Rightarrow> byte list \<Rightarrow> byte list" where
  "cbc_decrypt_ref D st buf =
     (if buf = [] then []
      else xor_bytes (D (take BS buf)) st @ cbc_decrypt_ref D (take BS buf) (drop BS buf))"
  by pat_completeness auto
termination
  by (relation "measure (\<lambda>(D, st, buf). length buf)") auto

declare cbc_decrypt_ref.simps [simp del]

lemma cbc_simps:
  "cbc_encrypt_blocks E st [] = ([], st)"
  "length b = BS \<Longrightarrow> cbc_encrypt_blocks E st (b @ buf) =
     (E (xor_bytes b st) @ fst (cbc_encrypt_blocks E (E (xor_bytes b st)) buf),
      snd (cbc_encrypt_blocks E (E (xor_bytes b st)) buf))"
  "decrypt_n D [] = []"
  "length b = BS \<Longrightarrow> decrypt_n D (b @ buf) = D b @ decrypt_n D buf"
  "cbc_decrypt_ref D st [] = []"
  "length b = BS \<Longrightarrow> cbc_decrypt_ref D st (b @ buf) = xor_bytes (D b) st @ cbc_decrypt_ref D b buf"
proof -
  assume b: "length b = BS"
  then have ne: "b \<noteq> []" by auto
  show "cbc_encrypt_blocks E st (b @ buf) =
     (E (xor_bytes b st) @ fst (cbc_encrypt_blocks E (E (xor_bytes b st)) buf),
      snd (cbc_encrypt_blocks E (E (xor_bytes b st)) buf))"
    using b ne by (subst cbc_encrypt_blocks.simps) (simp add: Let_def)
  show "decrypt_n D (b @ buf) = D b @ decrypt_n D buf" using b ne by (subst decrypt_n.simps) simp
  show "cbc_decrypt_ref D st (b @ buf) = xor_bytes (D b) st @ cbc_decrypt_ref D b buf"
    using b ne by (subst cbc_decrypt_ref.simps) simp
qed (subst cbc_encrypt_blocks.simps decrypt_n.simps cbc_decrypt_ref.simps, simp)+

lemma xor_bytes_append: "length a = length c \<Longrightarrow> xor_bytes (a @ b) (c @ d) = xor_bytes a c @ xor_bytes b d"
  by (simp add: xor_bytes_def)

lemma xor_bytes_cancel: "length xs = length ys \<Longrightarrow> xor_bytes (xor_bytes xs ys) ys = xs"
  by (induction xs ys rule: list_induct2) (simp_all add: xor_bytes_def xor.assoc)

locale block_cipher =
  fixes E D :: "byte list \<Rightarrow> byte list"
  assumes encrypt_length: "length b = BS \<Longrightarrow> length (E b) = BS"
    and decrypt_length: "length b = BS \<Longrightarrow> length (D b) = BS"
    and decrypt_encrypt: "length b = BS \<Longrightarrow> D (E b) = b"
begin

lemma encrypt_blocks_length:
  "blocks buf \<Longrightarrow> length st = BS \<Longrightarrow>
    length (fst (cbc_encrypt_blocks E st buf)) = length buf \<and> blocks (fst (cbc_encrypt_blocks E st buf)) \<and>
    length (snd (cbc_encrypt_blocks E st buf)) = BS"
proof (induction buf arbitrary: st rule: blocks_induct)
  case Nil
  then show ?case by (simp add: cbc_simps blocks_def)
next
  case (Block b buf)
  have "length (E (xor_bytes b st)) = BS" using Block by (intro encrypt_length) simp
  from Block.IH [OF this] Block.hyps \<open>length (E (xor_bytes b st)) = BS\<close> show ?case
    by (simp add: cbc_simps blocks_def)
qed

lemma encrypt_blocks_append:
  "blocks x \<Longrightarrow> cbc_encrypt_blocks E st (x @ y) =
    (fst (cbc_encrypt_blocks E st x) @ fst (cbc_encrypt_blocks E (snd (cbc_encrypt_blocks E st x)) y),
     snd (cbc_encrypt_blocks E (snd (cbc_encrypt_blocks E st x)) y))"
proof (induction x arbitrary: st rule: blocks_induct)
  case Nil
  then show ?case by (simp add: cbc_simps)
next
  case (Block b buf)
  then show ?case by (simp add: cbc_simps)
qed

lemma encrypt_state:
  "blocks buf \<Longrightarrow> length st = BS \<Longrightarrow>
    (let c = fst (cbc_encrypt_blocks E st buf) in if c = [] then st else drop (length c - BS) c) =
      snd (cbc_encrypt_blocks E st buf)"
proof (induction buf arbitrary: st rule: blocks_induct)
  case Nil
  then show ?case by (simp add: cbc_simps)
next
  case (Block b buf)
  have len: "length (E (xor_bytes b st)) = BS" using Block encrypt_length by simp
  then have ne: "E (xor_bytes b st) \<noteq> []" by auto
  define c where "c = fst (cbc_encrypt_blocks E (E (xor_bytes b st)) buf)"
  have "length c = length buf" using encrypt_blocks_length [OF Block.hyps(2) len] by (simp add: c_def)
  moreover have "BS \<le> length buf" if "buf \<noteq> []"
    using that Block.hyps(2) by (metis blocks_def length_0_conv mod_less not_less)
  ultimately have "drop (length c) (E (xor_bytes b st) @ c) = (if c = [] then E (xor_bytes b st) else drop (length c - BS) c)"
    using len by (cases "buf = []") auto
  moreover have "(if c = [] then E (xor_bytes b st) else drop (length c - BS) c) =
      snd (cbc_encrypt_blocks E (E (xor_bytes b st)) buf)"
    using Block.IH [OF len] unfolding c_def Let_def .
  ultimately show ?case using Block.hyps(1) len ne
    by (simp add: cbc_simps Let_def c_def [symmetric])
qed

lemma decrypt_ref_encrypt:
  "blocks buf \<Longrightarrow> length st = BS \<Longrightarrow> cbc_decrypt_ref D st (fst (cbc_encrypt_blocks E st buf)) = buf"
proof (induction buf arbitrary: st rule: blocks_induct)
  case Nil
  then show ?case by (simp add: cbc_simps)
next
  case (Block b buf)
  have "length (xor_bytes b st) = BS" using Block by simp
  then have len: "length (E (xor_bytes b st)) = BS" and dec: "D (E (xor_bytes b st)) = xor_bytes b st"
    using encrypt_length decrypt_encrypt by simp_all
  show ?case using Block.IH [OF len] Block.hyps(1) Block.prems
    by (simp add: cbc_simps(2) cbc_simps(6) len dec xor_bytes_cancel)
qed

text \<open>Decrypting several blocks at a time is decrypting one at a time.\<close>

lemma chunk_is_ref:
  "blocks chunk \<Longrightarrow> chunk \<noteq> [] \<Longrightarrow> length st = BS \<Longrightarrow>
    xor_bytes (decrypt_n D chunk) (st @ take (length chunk - BS) chunk) = cbc_decrypt_ref D st chunk"
proof (induction chunk arbitrary: st rule: blocks_induct)
  case Nil
  then show ?case by simp
next
  case (Block b buf)
  have d: "length (D b) = length st" using Block decrypt_length by simp
  show ?case
  proof (cases "buf = []")
    case True
    have "decrypt_n D b = D b" "cbc_decrypt_ref D st b = xor_bytes (D b) st"
      using cbc_simps(4,6) [OF Block.hyps(1), where buf = "[]"] by (simp_all add: cbc_simps(3,5))
    then show ?thesis using Block True d by simp
  next
    case False
    have "take (length (b @ buf) - BS) (b @ buf) = b @ take (length buf - BS) buf"
      using Block False by simp (metis BS_pos(2) blocks_def diff_is_0_eq length_0_conv mod_less nat_le_linear not_less take_all)
    then show ?thesis using Block.IH [OF False] Block.hyps(1) d
      by (simp add: cbc_simps(4,6) xor_bytes_append)
  qed
qed


lemma decrypt_ref_append:
  "blocks x \<Longrightarrow> x \<noteq> [] \<Longrightarrow>
    cbc_decrypt_ref D st (x @ y) = cbc_decrypt_ref D st x @ cbc_decrypt_ref D (drop (length x - BS) x) y"
proof (induction x arbitrary: st rule: blocks_induct)
  case Nil
  then show ?case by simp
next
  case (Block b buf)
  show ?case
  proof (cases "buf = []")
    case True
    have "cbc_decrypt_ref D st b = xor_bytes (D b) st"
      using cbc_simps(6) [OF Block.hyps(1), where buf = "[]"] by (simp add: cbc_simps(5))
    then show ?thesis using True Block.hyps(1) by (simp add: cbc_simps(6))
  next
    case False
    then have "drop (length (b @ buf) - BS) (b @ buf) = drop (length buf - BS) buf"
      using Block.hyps by simp (metis blocks_def diff_diff_cancel diff_is_0_eq drop_all length_0_conv mod_less nat_le_linear not_less)
    then show ?thesis using Block.IH [OF False] Block.hyps(1) by (simp add: cbc_simps(6))
  qed
qed

lemma decrypt_loop_ref:
  assumes "0 < k"
  shows "blocks buf \<Longrightarrow> length st = BS \<Longrightarrow>
    cbc_decrypt_loop (k * BS) D st buf =
      (cbc_decrypt_ref D st buf, if buf = [] then st else drop (length buf - BS) buf)"
proof (induction "length buf" arbitrary: st buf rule: less_induct)
  case less
  show ?case
  proof (cases "buf = []")
    case True
    then show ?thesis by (subst cbc_decrypt_loop.simps) (simp add: cbc_simps)
  next
    case False
    define to_proc where "to_proc = min (length buf) (k * BS)"
    define chunk where "chunk = take to_proc buf"
    define rest where "rest = drop to_proc buf"
    have buf: "buf = chunk @ rest" by (simp add: chunk_def rest_def)
    have bc: "blocks chunk"
      using less.prems(1) blocks_take [of buf k] by (auto simp: chunk_def to_proc_def min_def)
    have br: "blocks rest"
      using less.prems(1) blocks_drop [of buf k] by (auto simp: rest_def to_proc_def min_def blocks_def)
    have ne: "chunk \<noteq> []" using False assms by (simp add: chunk_def to_proc_def)
    have lc: "length chunk = to_proc" by (simp add: chunk_def to_proc_def)
    have big: "BS \<le> length chunk" using bc ne by (metis blocks_def length_0_conv mod_less not_less)
    have st': "length (drop (to_proc - BS) chunk) = BS" using big lc by simp
    have "length rest < length buf" using ne buf by (metis length_append length_greater_0_conv less_add_same_cancel2)
    from less.hyps [OF this br st'] have IH: "cbc_decrypt_loop (k * BS) D (drop (to_proc - BS) chunk) rest =
      (cbc_decrypt_ref D (drop (to_proc - BS) chunk) rest,
       if rest = [] then drop (to_proc - BS) chunk else drop (length rest - BS) rest)" .
    have ct: "take (to_proc - BS) chunk = take (to_proc - BS) buf" by (simp add: chunk_def)
    have "cbc_decrypt_loop (k * BS) D st buf =
        (cbc_decrypt_ref D st chunk @ fst (cbc_decrypt_loop (k * BS) D (drop (to_proc - BS) chunk) rest),
         snd (cbc_decrypt_loop (k * BS) D (drop (to_proc - BS) chunk) rest))"
      using False assms chunk_is_ref [OF bc ne less.prems(2)] lc
      by (subst cbc_decrypt_loop.simps)
        (simp add: Let_def to_proc_def [symmetric] chunk_def [symmetric] rest_def [symmetric] ct)
    also have "\<dots> = (cbc_decrypt_ref D st buf, drop (length buf - BS) buf)"
    proof (cases "rest = []")
      case True
      then show ?thesis using IH lc buf by (simp add: cbc_simps)
    next
      case False
      then have "BS \<le> length rest" using br by (metis blocks_def length_0_conv mod_less not_less)
      then have "drop (length buf - BS) buf = drop (length rest - BS) rest"
        by (simp add: buf)
      then show ?thesis using IH False decrypt_ref_append [OF bc ne, of st rest] lc by (simp add: buf)
    qed
    finally show ?thesis using False by simp
  qed
qed


text \<open>Padding.\<close>

lemma unpad_padding:
  assumes "length tail < BS"
  shows "unpad (tail @ replicate (BS - length tail) (word_of_nat (BS - length tail))) BS = length tail"
proof -
  define p where "p = BS - length tail"
  have p: "0 < p" "p \<le> 16" "length tail = 16 - p" using assms by (simp_all add: p_def BS_def)
  have u: "unat (word_of_nat p :: byte) = p" using p(2) by (simp add: unat_of_nat)
  have last: "(tail @ replicate p (word_of_nat p :: byte)) ! 15 = word_of_nat p"
    using p by (auto simp: nth_append)
  have "\<not> list_ex (\<lambda>i. 16 - p \<le> i \<and> (tail @ replicate p (word_of_nat p :: byte)) ! i \<noteq> word_of_nat p) [1..<15]"
    using p by (auto simp: list_ex_iff nth_append)
  then show ?thesis
    using p last u by (simp add: unpad_def Let_def BS_def p_def [symmetric, unfolded BS_def])
qed

lemma finish_roundtrip:
  assumes "length tail < BS" "length st = BS"
  obtains c where "cbc_encrypt_finish E st tail = Inr (c, c)" "length c = BS"
    "cbc_decrypt_finish D st c = Inr tail"
proof -
  define p where "p = add_padding tail (length tail mod BS) BS"
  have p: "p = tail @ replicate (BS - length tail) (word_of_nat (BS - length tail))"
    using assms(1) by (simp add: p_def add_padding_def Let_def)
  have len: "length p = BS" using assms(1) by (simp add: p)
  have bl: "blocks p" by (simp add: blocks_def len)
  define c where "c = E (xor_bytes p st)"
  have c: "length c = BS" "cbc_encrypt_blocks E st p = (c, c)"
    using encrypt_length [of "xor_bytes p st"] len assms(2) cbc_simps(2) [OF len, of E st "[]"]
    by (simp_all add: c_def cbc_simps(1))
  have enc: "cbc_encrypt_finish E st tail = Inr (c, c)"
    using c len by (simp add: cbc_encrypt_finish_def cbc_encrypt_process_def p_def [symmetric])
  have ref: "cbc_decrypt_ref D st c = p" using decrypt_ref_encrypt [OF bl assms(2)] c(2) by simp
  have bc: "blocks c" by (simp add: blocks_def c(1))
  have g: "update_granularity = 4 * BS" by (simp add: update_granularity_def)
  have "fst (cbc_decrypt_loop update_granularity D st c) = p"
    unfolding g using decrypt_loop_ref [of 4 c st, OF _ bc assms(2)] ref by simp
  moreover have "unpad (drop (length p - BS) p) BS = length tail"
    using unpad_padding [OF assms(1)] len by (simp add: p)
  ultimately have "cbc_decrypt_finish D st c = Inr (take (length p - (BS - length tail)) p)"
    using c(1) len assms(1)
    by (auto simp: cbc_decrypt_finish_def cbc_decrypt_process_def Let_def split: prod.split)
  moreover have "take (length p - (BS - length tail)) p = tail" using len assms(1) by (simp add: p)
  ultimately show thesis using that [OF enc c(1)] by simp
qed

text \<open>A message cut into its whole blocks and the rest, as the two sides of \<open>cipher\<close> cut it.\<close>

lemma message_roundtrip:
  assumes "length st = BS" and n_def: "n = length x div BS * BS"
  obtains c1 st1 c2 where "cbc_encrypt_process E st (take n x) = Inr (c1, st1)" "length c1 = n"
    "cbc_encrypt_finish E st1 (drop n x) = Inr (c2, c2)" "length c2 = BS"
    "cbc_decrypt_process D st c1 = Inr (take n x, st1)" "cbc_decrypt_finish D st1 c2 = Inr (drop n x)"
    "n = 0 \<Longrightarrow> st1 = st"
proof -
  have n: "n \<le> length x" by (simp add: n_def div_times_less_eq_dividend)
  have bx: "blocks (take n x)" using n by (simp add: blocks_def n_def min_absorb2)
  obtain c1 st1 where c1: "cbc_encrypt_blocks E st (take n x) = (c1, st1)" by force
  note el = encrypt_blocks_length [OF bx assms(1)]
  have l1: "length c1 = n" "blocks c1" "length st1 = BS" using el c1 n by simp_all
  have tail: "length (drop n x) < BS"
    by (simp add: n_def) (metis BS_pos(1) minus_div_mult_eq_mod mod_less_divisor)
  obtain c2 where c2: "cbc_encrypt_finish E st1 (drop n x) = Inr (c2, c2)" "length c2 = BS"
    "cbc_decrypt_finish D st1 c2 = Inr (drop n x)"
    by (rule finish_roundtrip [OF tail l1(3)])
  have ref: "cbc_decrypt_ref D st c1 = take n x" using decrypt_ref_encrypt [OF bx assms(1)] c1 by simp
  have g: "update_granularity = 4 * BS" by (simp add: update_granularity_def)
  have state: "(if c1 = [] then st else drop (length c1 - BS) c1) = st1"
    using encrypt_state [OF bx assms(1)] c1 by simp
  have dec: "cbc_decrypt_process D st c1 = Inr (take n x, st1)"
    using decrypt_loop_ref [of 4 c1 st, OF _ l1(2) assms(1)] ref state l1(1)
    by (simp add: cbc_decrypt_process_def g n_def)
  have "n = 0 \<Longrightarrow> st1 = st" using c1 by (simp add: cbc_simps)
  then show thesis
    using that [of c1 st1 c2] c1 c2 l1 dec bx by (simp add: cbc_encrypt_process_def blocks_def)
qed

end

section \<open>Properties\<close>

text \<open>
  C29. CBC with PKCS7 padding round-trips under every block cipher whose \<open>D\<close> undoes its \<open>E\<close>:
  for a message of any length, encrypting its whole blocks with \<open>process\<close> and the rest with
  \<open>finish\<close>, then decrypting the same two parts, four blocks at a time, gives the message back
  without an exception, and the ciphertext is 1 to 16 bytes longer.
\<close>

theorem cbc_pkcs7_roundtrip:
  assumes "\<And>b. length b = BS \<Longrightarrow> length (E b) = BS \<and> length (D b) = BS \<and> D (E b) = b"
    and "length nonce = BS"
  shows "\<exists>n c1 st c2. n = length x div BS * BS \<and>
    cbc_encrypt_process E nonce (take n x) = Inr (c1, st) \<and> cbc_encrypt_finish E st (drop n x) = Inr (c2, c2) \<and>
    cbc_decrypt_process D nonce c1 = Inr (take n x, st) \<and> cbc_decrypt_finish D st c2 = Inr (drop n x) \<and>
    length (c1 @ c2) = (length x div BS + 1) * BS"
proof -
  have bc: "block_cipher E D" using assms(1) by unfold_locales blast+
  show ?thesis
    by (rule block_cipher.message_roundtrip [OF bc assms(2) refl, of x]) auto
qed

theorem cbc_pkcs7_roundtrip_witness:
  "\<exists>c1 st c2. cbc_encrypt_process rev (replicate 16 7) (take 16 (replicate 20 1)) = Inr (c1, st) \<and>
    cbc_encrypt_finish rev st (drop 16 (replicate 20 1)) = Inr (c2, c2) \<and>
    cbc_decrypt_finish rev st c2 = Inr (drop 16 (replicate 20 1)) \<and> length (c1 @ c2) = 32"
proof -
  have "length (replicate 16 (7 :: byte)) = BS" by (simp add: BS_def)
  from cbc_pkcs7_roundtrip [of rev rev, OF _ this, of "replicate 20 1"] show ?thesis by (auto simp: BS_def)
qed

end
