(* ===== verification/Botan_AES.thy ===== *)
theory Botan_AES
  imports Botan_Words Botan_CBC
begin

unbundle bit_operations_syntax

text \<open>
  AES-128 of the bundled Botan library, the portable version with one lookup table for each
  direction (\<open>src/util/botan/botan_all.cpp\<close>, lines 54 to 410): the tables, the key schedule
  and the two block functions, and the proof that decryption undoes encryption under every
  key. It is the block cipher the interpretation at the end gives to CBC.
\<close>

section \<open>Tables\<close>

definition SE :: "byte list" where
  "SE =
     [
      0x63, 0x7C, 0x77, 0x7B, 0xF2, 0x6B, 0x6F, 0xC5, 0x30, 0x01, 0x67, 0x2B, 0xFE, 0xD7, 0xAB, 0x76,
      0xCA, 0x82, 0xC9, 0x7D, 0xFA, 0x59, 0x47, 0xF0, 0xAD, 0xD4, 0xA2, 0xAF, 0x9C, 0xA4, 0x72, 0xC0,
      0xB7, 0xFD, 0x93, 0x26, 0x36, 0x3F, 0xF7, 0xCC, 0x34, 0xA5, 0xE5, 0xF1, 0x71, 0xD8, 0x31, 0x15,
      0x04, 0xC7, 0x23, 0xC3, 0x18, 0x96, 0x05, 0x9A, 0x07, 0x12, 0x80, 0xE2, 0xEB, 0x27, 0xB2, 0x75,
      0x09, 0x83, 0x2C, 0x1A, 0x1B, 0x6E, 0x5A, 0xA0, 0x52, 0x3B, 0xD6, 0xB3, 0x29, 0xE3, 0x2F, 0x84,
      0x53, 0xD1, 0x00, 0xED, 0x20, 0xFC, 0xB1, 0x5B, 0x6A, 0xCB, 0xBE, 0x39, 0x4A, 0x4C, 0x58, 0xCF,
      0xD0, 0xEF, 0xAA, 0xFB, 0x43, 0x4D, 0x33, 0x85, 0x45, 0xF9, 0x02, 0x7F, 0x50, 0x3C, 0x9F, 0xA8,
      0x51, 0xA3, 0x40, 0x8F, 0x92, 0x9D, 0x38, 0xF5, 0xBC, 0xB6, 0xDA, 0x21, 0x10, 0xFF, 0xF3, 0xD2,
      0xCD, 0x0C, 0x13, 0xEC, 0x5F, 0x97, 0x44, 0x17, 0xC4, 0xA7, 0x7E, 0x3D, 0x64, 0x5D, 0x19, 0x73,
      0x60, 0x81, 0x4F, 0xDC, 0x22, 0x2A, 0x90, 0x88, 0x46, 0xEE, 0xB8, 0x14, 0xDE, 0x5E, 0x0B, 0xDB,
      0xE0, 0x32, 0x3A, 0x0A, 0x49, 0x06, 0x24, 0x5C, 0xC2, 0xD3, 0xAC, 0x62, 0x91, 0x95, 0xE4, 0x79,
      0xE7, 0xC8, 0x37, 0x6D, 0x8D, 0xD5, 0x4E, 0xA9, 0x6C, 0x56, 0xF4, 0xEA, 0x65, 0x7A, 0xAE, 0x08,
      0xBA, 0x78, 0x25, 0x2E, 0x1C, 0xA6, 0xB4, 0xC6, 0xE8, 0xDD, 0x74, 0x1F, 0x4B, 0xBD, 0x8B, 0x8A,
      0x70, 0x3E, 0xB5, 0x66, 0x48, 0x03, 0xF6, 0x0E, 0x61, 0x35, 0x57, 0xB9, 0x86, 0xC1, 0x1D, 0x9E,
      0xE1, 0xF8, 0x98, 0x11, 0x69, 0xD9, 0x8E, 0x94, 0x9B, 0x1E, 0x87, 0xE9, 0xCE, 0x55, 0x28, 0xDF,
      0x8C, 0xA1, 0x89, 0x0D, 0xBF, 0xE6, 0x42, 0x68, 0x41, 0x99, 0x2D, 0x0F, 0xB0, 0x54, 0xBB, 0x16]"

definition SD :: "byte list" where
  "SD =
     [
      0x52, 0x09, 0x6A, 0xD5, 0x30, 0x36, 0xA5, 0x38, 0xBF, 0x40, 0xA3, 0x9E, 0x81, 0xF3, 0xD7, 0xFB,
      0x7C, 0xE3, 0x39, 0x82, 0x9B, 0x2F, 0xFF, 0x87, 0x34, 0x8E, 0x43, 0x44, 0xC4, 0xDE, 0xE9, 0xCB,
      0x54, 0x7B, 0x94, 0x32, 0xA6, 0xC2, 0x23, 0x3D, 0xEE, 0x4C, 0x95, 0x0B, 0x42, 0xFA, 0xC3, 0x4E,
      0x08, 0x2E, 0xA1, 0x66, 0x28, 0xD9, 0x24, 0xB2, 0x76, 0x5B, 0xA2, 0x49, 0x6D, 0x8B, 0xD1, 0x25,
      0x72, 0xF8, 0xF6, 0x64, 0x86, 0x68, 0x98, 0x16, 0xD4, 0xA4, 0x5C, 0xCC, 0x5D, 0x65, 0xB6, 0x92,
      0x6C, 0x70, 0x48, 0x50, 0xFD, 0xED, 0xB9, 0xDA, 0x5E, 0x15, 0x46, 0x57, 0xA7, 0x8D, 0x9D, 0x84,
      0x90, 0xD8, 0xAB, 0x00, 0x8C, 0xBC, 0xD3, 0x0A, 0xF7, 0xE4, 0x58, 0x05, 0xB8, 0xB3, 0x45, 0x06,
      0xD0, 0x2C, 0x1E, 0x8F, 0xCA, 0x3F, 0x0F, 0x02, 0xC1, 0xAF, 0xBD, 0x03, 0x01, 0x13, 0x8A, 0x6B,
      0x3A, 0x91, 0x11, 0x41, 0x4F, 0x67, 0xDC, 0xEA, 0x97, 0xF2, 0xCF, 0xCE, 0xF0, 0xB4, 0xE6, 0x73,
      0x96, 0xAC, 0x74, 0x22, 0xE7, 0xAD, 0x35, 0x85, 0xE2, 0xF9, 0x37, 0xE8, 0x1C, 0x75, 0xDF, 0x6E,
      0x47, 0xF1, 0x1A, 0x71, 0x1D, 0x29, 0xC5, 0x89, 0x6F, 0xB7, 0x62, 0x0E, 0xAA, 0x18, 0xBE, 0x1B,
      0xFC, 0x56, 0x3E, 0x4B, 0xC6, 0xD2, 0x79, 0x20, 0x9A, 0xDB, 0xC0, 0xFE, 0x78, 0xCD, 0x5A, 0xF4,
      0x1F, 0xDD, 0xA8, 0x33, 0x88, 0x07, 0xC7, 0x31, 0xB1, 0x12, 0x10, 0x59, 0x27, 0x80, 0xEC, 0x5F,
      0x60, 0x51, 0x7F, 0xA9, 0x19, 0xB5, 0x4A, 0x0D, 0x2D, 0xE5, 0x7A, 0x9F, 0x93, 0xC9, 0x9C, 0xEF,
      0xA0, 0xE0, 0x3B, 0x4D, 0xAE, 0x2A, 0xF5, 0xB0, 0xC8, 0xEB, 0xBB, 0x3C, 0x83, 0x53, 0x99, 0x61,
      0x17, 0x2B, 0x04, 0x7E, 0xBA, 0x77, 0xD6, 0x26, 0xE1, 0x69, 0x14, 0x63, 0x55, 0x21, 0x0C, 0x7D]"

definition xtime :: "byte \<Rightarrow> byte" where
  "xtime s = push_bit 1 s XOR (drop_bit 7 s * 0x1B)"

definition xtime4 :: "byte \<Rightarrow> byte" where "xtime4 s = xtime (xtime s)"

definition xtime8 :: "byte \<Rightarrow> byte" where "xtime8 s = xtime (xtime (xtime s))"

definition xtime3 :: "byte \<Rightarrow> byte" where "xtime3 s = xtime s XOR s"

definition xtime9 :: "byte \<Rightarrow> byte" where "xtime9 s = xtime8 s XOR s"

definition xtime11 :: "byte \<Rightarrow> byte" where "xtime11 s = (xtime8 s XOR xtime s) XOR s"

definition xtime13 :: "byte \<Rightarrow> byte" where "xtime13 s = (xtime8 s XOR xtime4 s) XOR s"

definition xtime14 :: "byte \<Rightarrow> byte" where "xtime14 s = (xtime8 s XOR xtime4 s) XOR xtime s"

definition SE_word :: "u32 \<Rightarrow> u32" where
  "SE_word x =
     make_uint32 (SE ! unat (get_byte 0 x)) (SE ! unat (get_byte 1 x))
       (SE ! unat (get_byte 2 x)) (SE ! unat (get_byte 3 x))"

definition AES_TE :: "u32 list" where
  "AES_TE = map (\<lambda>s. make_uint32 (xtime s) s s (xtime3 s)) SE"

definition AES_TD :: "u32 list" where
  "AES_TD = map (\<lambda>s. make_uint32 (xtime14 s) (xtime9 s) (xtime13 s) (xtime11 s)) SD"

definition AES_T :: "u32 list \<Rightarrow> u32 \<Rightarrow> u32 \<Rightarrow> u32 \<Rightarrow> u32 \<Rightarrow> u32 \<Rightarrow> u32" where
  "AES_T T K V0 V1 V2 V3 =
     ((K XOR T ! unat (get_byte 0 V0)) XOR rotr 8 (T ! unat (get_byte 1 V1)) XOR
       rotr 16 (T ! unat (get_byte 2 V2))) XOR rotr 24 (T ! unat (get_byte 3 V3))"

text \<open>
  Every cache line of the table is read into \<open>Z\<close>, which is then masked with an entry that is
  zero; \<open>line\<close> is the number of entries in a cache line.
\<close>

definition touch_table :: "nat \<Rightarrow> u32 list \<Rightarrow> nat \<Rightarrow> u32" where
  "touch_table line T zero =
     fold (\<lambda>i Z. Z OR T ! i) (filter (\<lambda>i. i mod line = 0) [0..<256]) 0 AND T ! zero"

section \<open>Encryption\<close>

type_synonym aes_state = "u32 \<times> u32 \<times> u32 \<times> u32"

fun enc_round :: "u32 list \<Rightarrow> nat \<Rightarrow> aes_state \<Rightarrow> aes_state" where
  "enc_round EK r (T0, T1, T2, T3) =
     (AES_T AES_TE (EK ! r) T0 T1 T2 T3, AES_T AES_TE (EK ! (r + 1)) T1 T2 T3 T0,
      AES_T AES_TE (EK ! (r + 2)) T2 T3 T0 T1, AES_T AES_TE (EK ! (r + 3)) T3 T0 T1 T2)"

function enc_loop :: "u32 list \<Rightarrow> nat \<Rightarrow> aes_state \<Rightarrow> aes_state" where
  "enc_loop EK r B =
     (if r < length EK then enc_loop EK (r + 8) (enc_round EK (r + 4) (enc_round EK r B)) else B)"
  by pat_completeness auto
termination
  by (relation "measure (\<lambda>(EK, r, B). length EK - r)") auto

declare enc_loop.simps [simp del]

text \<open>A byte of \<open>TE\<close> instead of \<open>SE\<close>.\<close>

definition TE_byte :: "nat \<Rightarrow> u32 \<Rightarrow> byte" where
  "TE_byte n w = ucast (drop_bit 8 (AES_TE ! unat (get_byte n w)))"

fun enc_final :: "byte list \<Rightarrow> aes_state \<Rightarrow> byte list" where
  "enc_final ME (B0, B1, B2, B3) =
     map2 xor
       [TE_byte 0 B0, TE_byte 1 B1, TE_byte 2 B2, TE_byte 3 B3,
        TE_byte 0 B1, TE_byte 1 B2, TE_byte 2 B3, TE_byte 3 B0,
        TE_byte 0 B2, TE_byte 1 B3, TE_byte 2 B0, TE_byte 3 B1,
        TE_byte 0 B3, TE_byte 1 B0, TE_byte 2 B1, TE_byte 3 B2] ME"

definition aes_encrypt :: "nat \<Rightarrow> u32 list \<Rightarrow> byte list \<Rightarrow> byte list \<Rightarrow> byte list" where
  "aes_encrypt line EK ME input =
     (let Z = touch_table line AES_TE 82;
          T0 = load_be input 0 XOR EK ! 0; T1 = load_be input 1 XOR EK ! 1;
          T2 = load_be input 2 XOR EK ! 2; T3 = load_be input 3 XOR EK ! 3
      in enc_final ME (enc_loop EK 8 (enc_round EK 4 (T0 XOR Z, T1, T2, T3))))"

section \<open>Decryption\<close>

fun dec_round :: "u32 list \<Rightarrow> nat \<Rightarrow> aes_state \<Rightarrow> aes_state" where
  "dec_round DK r (T0, T1, T2, T3) =
     (AES_T AES_TD (DK ! r) T0 T3 T2 T1, AES_T AES_TD (DK ! (r + 1)) T1 T0 T3 T2,
      AES_T AES_TD (DK ! (r + 2)) T2 T1 T0 T3, AES_T AES_TD (DK ! (r + 3)) T3 T2 T1 T0)"

function dec_loop :: "u32 list \<Rightarrow> nat \<Rightarrow> aes_state \<Rightarrow> aes_state" where
  "dec_loop DK r B =
     (if r < length DK then dec_loop DK (r + 8) (dec_round DK (r + 4) (dec_round DK r B)) else B)"
  by pat_completeness auto
termination
  by (relation "measure (\<lambda>(DK, r, B). length DK - r)") auto

declare dec_loop.simps [simp del]

definition SD_byte :: "nat \<Rightarrow> u32 \<Rightarrow> byte" where
  "SD_byte n w = SD ! unat (get_byte n w)"

fun dec_final :: "byte list \<Rightarrow> aes_state \<Rightarrow> byte list" where
  "dec_final MD (B0, B1, B2, B3) =
     map2 xor
       [SD_byte 0 B0, SD_byte 1 B3, SD_byte 2 B2, SD_byte 3 B1,
        SD_byte 0 B1, SD_byte 1 B0, SD_byte 2 B3, SD_byte 3 B2,
        SD_byte 0 B2, SD_byte 1 B1, SD_byte 2 B0, SD_byte 3 B3,
        SD_byte 0 B3, SD_byte 1 B2, SD_byte 2 B1, SD_byte 3 B0] MD"

definition aes_decrypt :: "nat \<Rightarrow> u32 list \<Rightarrow> byte list \<Rightarrow> byte list \<Rightarrow> byte list" where
  "aes_decrypt line DK MD input =
     (let Z = touch_table line AES_TD 99;
          T0 = load_be input 0 XOR DK ! 0; T1 = load_be input 1 XOR DK ! 1;
          T2 = load_be input 2 XOR DK ! 2; T3 = load_be input 3 XOR DK ! 3
      in dec_final MD (dec_loop DK 8 (dec_round DK 4 (T0 XOR Z, T1, T2, T3))))"

section \<open>The key schedule\<close>

definition RC :: "u32 list" where
  "RC = [0x01000000, 0x02000000, 0x04000000, 0x08000000, 0x10000000,
         0x20000000, 0x40000000, 0x80000000, 0x1B000000, 0x36000000]"

text \<open>The inner loop on \<open>j\<close>, which runs up to \<open>X\<close>.\<close>

fun expand_inner :: "nat \<Rightarrow> nat \<Rightarrow> nat list \<Rightarrow> u32 list \<Rightarrow> u32 list" where
  "expand_inner X i [] XEK = XEK"
| "expand_inner X i (j # js) XEK =
     (let x = XEK ! (i + j - X);
          y = (if X = 8 \<and> j = 4 then SE_word (XEK ! (i + j - 1)) else XEK ! (i + j - 1))
      in expand_inner X i js (XEK[i + j := x XOR y]))"

function expand_loop :: "nat \<Rightarrow> nat \<Rightarrow> nat \<Rightarrow> u32 list \<Rightarrow> u32 list" where
  "expand_loop X rounds i XEK =
     (if i < 4 * (rounds + 1) \<and> 0 < X
      then expand_loop X rounds (i + X)
             (expand_inner X i [1..<X]
               (XEK[i := (XEK ! (i - X) XOR RC ! ((i - X) div X)) XOR SE_word (rotl 8 (XEK ! (i - 1)))]))
      else XEK)"
  by pat_completeness auto
termination
  by (relation "measure (\<lambda>(X, rounds, i, XEK). 4 * (rounds + 1) - i)") auto

declare expand_loop.simps [simp del]

definition expand_key :: "byte list \<Rightarrow> u32 list" where
  "expand_key key =
     (let len = length key; X = len div 4; rounds = len div 4 + 6
      in expand_loop X rounds X (map (load_be key) [0..<X] @ replicate (len + 32 - X) 0))"

definition inv_mix_key :: "u32 \<Rightarrow> u32" where
  "inv_mix_key w = (let x = SE_word w in AES_T AES_TD 0 x x x x)"

text \<open>\<open>EK\<close>, \<open>DK\<close>, \<open>ME\<close> and \<open>MD\<close> of a key.\<close>

record aes_key =
  m_EK :: "u32 list"
  m_DK :: "u32 list"
  m_ME :: "byte list"
  m_MD :: "byte list"

definition aes_subkeys :: "nat \<Rightarrow> u32 list \<Rightarrow> aes_key" where
  "aes_subkeys len XEK =
     (let rounds = len div 4 + 6;
          XDK = concat (map (\<lambda>i. [XEK ! (4 * rounds - 4 * i), XEK ! (4 * rounds - 4 * i + 1),
                                  XEK ! (4 * rounds - 4 * i + 2), XEK ! (4 * rounds - 4 * i + 3)]) [0..<rounds + 1]);
          DK = take 4 XDK @ map inv_mix_key (take (len + 20) (drop 4 XDK))
      in \<lparr>m_EK = take (len + 24) XEK, m_DK = take (len + 24) DK,
          m_ME = concat (map (\<lambda>i. store_be (XEK ! (i + 4 * rounds))) [0..<4]),
          m_MD = concat (map (\<lambda>i. store_be (XEK ! i)) [0..<4])\<rparr>)"

definition aes_key_schedule :: "byte list \<Rightarrow> fault + aes_key" where
  "aes_key_schedule key =
     (if length key div 4 \<notin> {4, 6, 8} then Inl (Thrown ''Invalid AES key size'')
      else Inr (aes_subkeys (length key) (expand_key key)))"


section \<open>S-boxes and columns\<close>

fun inverted_from :: "byte \<Rightarrow> byte list \<Rightarrow> bool" where
  "inverted_from i [] = True"
| "inverted_from i (s # ss) = (SD ! unat s = i \<and> inverted_from (i + 1) ss)"

lemma inverted_from_nth:
  "inverted_from i ss \<Longrightarrow> k < length ss \<Longrightarrow> SD ! unat (ss ! k) = i + word_of_nat k"
proof (induction ss arbitrary: i k)
  case Nil
  then show ?case by simp
next
  case (Cons s ss)
  then show ?case using Cons.IH [of "i + 1" "k - 1"] by (cases k) (auto simp: add.assoc)
qed

lemma SE_inverted: "inverted_from 0 SE"
  by (simp add: SE_def SD_def)

lemma length_boxes [simp]: "length SE = 256" "length SD = 256"
  by (simp_all add: SE_def SD_def)

lemma unat_byte [simp]: "unat (b :: byte) < 256"
  by (rule order_less_le_trans [OF unsigned_less]) simp

lemma SD_SE [simp]: "SD ! unat (SE ! unat b) = b"
  using inverted_from_nth [OF SE_inverted, of "unat b"] by simp

lemma xtime_bit: "xtime s = push_bit 1 s XOR (if bit s 7 then 0x1B else 0)"
proof -
  have "drop_bit 7 s = of_bool (bit s 7)"
  proof (rule bit_word_eqI)
    fix n
    show "bit (drop_bit 7 s) n = bit (of_bool (bit s 7) :: byte) n" if "n < LENGTH(8)"
      using bit_imp_le_length [of s "7 + n"] by (cases n) (auto simp: bit_simps)
  qed
  then show ?thesis by (simp add: xtime_def)
qed

lemma xtime_xor [simp]: "xtime (a XOR b) = xtime a XOR xtime b"
  by (auto simp: xtime_bit bit_xor_iff push_bit_xor xor.assoc xor.left_commute)

lemmas xtime_defs = xtime4_def xtime8_def xtime3_def xtime9_def xtime11_def xtime13_def xtime14_def

lemma xtime_lin [simp]:
  "xtime3 (a XOR b) = xtime3 a XOR xtime3 b" "xtime9 (a XOR b) = xtime9 a XOR xtime9 b"
  "xtime11 (a XOR b) = xtime11 a XOR xtime11 b" "xtime13 (a XOR b) = xtime13 a XOR xtime13 b"
  "xtime14 (a XOR b) = xtime14 a XOR xtime14 b"
  by (simp_all add: xtime_defs xor.assoc xor.left_commute xor.commute)

lemma xor_self_left [simp]: "a XOR (a XOR b) = (b :: 'a :: len word)"
  by (simp add: xor.assoc [symmetric])

text \<open>MixColumns and its inverse on one column.\<close>

definition mix_column :: "byte \<Rightarrow> byte \<Rightarrow> byte \<Rightarrow> byte \<Rightarrow> u32" where
  "mix_column a b c d =
     make_uint32 (xtime a XOR xtime3 b XOR c XOR d) (a XOR xtime b XOR xtime3 c XOR d)
       (a XOR b XOR xtime c XOR xtime3 d) (xtime3 a XOR b XOR c XOR xtime d)"

definition inv_mix_column :: "u32 \<Rightarrow> u32" where
  "inv_mix_column w =
     (let a = get_byte 0 w; b = get_byte 1 w; c = get_byte 2 w; d = get_byte 3 w
      in make_uint32 (xtime14 a XOR xtime11 b XOR xtime13 c XOR xtime9 d)
           (xtime9 a XOR xtime14 b XOR xtime11 c XOR xtime13 d)
           (xtime13 a XOR xtime9 b XOR xtime14 c XOR xtime11 d)
           (xtime11 a XOR xtime13 b XOR xtime9 c XOR xtime14 d))"

lemma inv_mix_mix [simp]: "inv_mix_column (mix_column a b c d) = make_uint32 a b c d"
  by (simp add: inv_mix_column_def mix_column_def xtime_defs xor.assoc xor.left_commute xor.commute)

lemma inv_mix_xor: "inv_mix_column (v XOR w) = inv_mix_column v XOR inv_mix_column w"
proof -
  obtain a b c d e f g h where "v = make_uint32 a b c d" "w = make_uint32 e f g h"
    by (metis make_get_byte(1))
  then show ?thesis by (simp add: inv_mix_column_def Let_def xor.assoc xor.left_commute xor.commute)
qed

lemma AES_T_TE:
  "AES_T AES_TE K V0 V1 V2 V3 =
     K XOR mix_column (SE ! unat (get_byte 0 V0)) (SE ! unat (get_byte 1 V1))
       (SE ! unat (get_byte 2 V2)) (SE ! unat (get_byte 3 V3))"
  by (simp add: AES_T_def AES_TE_def mix_column_def xor.assoc)

lemma AES_T_TD:
  "AES_T AES_TD K V0 V1 V2 V3 =
     K XOR inv_mix_column (make_uint32 (SD ! unat (get_byte 0 V0)) (SD ! unat (get_byte 1 V1))
       (SD ! unat (get_byte 2 V2)) (SD ! unat (get_byte 3 V3)))"
  by (simp add: AES_T_def AES_TD_def inv_mix_column_def Let_def xor.assoc)

lemma inv_mix_key_eq: "inv_mix_key w = inv_mix_column w"
proof -
  have "get_byte i (SE_word w) = SE ! unat (get_byte i w)" if "i \<in> {0, 1, 2, 3}" for i
    using that by (auto simp: SE_word_def)
  then show ?thesis by (simp add: inv_mix_key_def Let_def AES_T_TD)
qed

lemma TE_byte_eq [simp]: "TE_byte n w = SE ! unat (get_byte n w)"
proof -
  have "ucast (drop_bit 8 (make_uint32 a s s b)) = s" for a s b :: byte
    by (rule bit_word_eqI) (auto simp: bit_make_uint32 bit_simps)
  then show ?thesis by (simp add: TE_byte_def AES_TE_def)
qed

text \<open>The entries that mask the timing guard are zero.\<close>

lemma touch_table_zero [simp]: "touch_table line AES_TE 82 = 0" "touch_table line AES_TD 99 = 0"
  by (simp_all add: touch_table_def AES_TE_def AES_TD_def)
    (simp_all add: SE_def SD_def xtime_defs xtime_def)


section \<open>Rounds\<close>

text \<open>The columns after SubBytes and ShiftRows.\<close>

fun sub_shift :: "aes_state \<Rightarrow> aes_state" where
  "sub_shift (B0, B1, B2, B3) =
     (let f = \<lambda>V0 V1 V2 V3. make_uint32 (SE ! unat (get_byte 0 V0)) (SE ! unat (get_byte 1 V1))
                             (SE ! unat (get_byte 2 V2)) (SE ! unat (get_byte 3 V3))
      in (f B0 B1 B2 B3, f B1 B2 B3 B0, f B2 B3 B0 B1, f B3 B0 B1 B2))"

definition key_mixed :: "u32 list \<Rightarrow> u32 list \<Rightarrow> nat \<Rightarrow> nat \<Rightarrow> bool" where
  "key_mixed EK DK r r' \<longleftrightarrow> (\<forall>j<4. DK ! (r' + j) = inv_mix_column (EK ! (r + j)))"

lemma key_mixed_at:
  assumes "key_mixed EK DK r r'"
  shows "DK ! r' = inv_mix_column (EK ! r)" "DK ! (r' + 1) = inv_mix_column (EK ! (r + 1))"
    "DK ! (r' + 2) = inv_mix_column (EK ! (r + 2))" "DK ! (r' + 3) = inv_mix_column (EK ! (r + 3))"
  using assms by (auto simp: key_mixed_def dest: spec [of _ 0] spec [of _ 1] spec [of _ 2] spec [of _ 3])

text \<open>A decryption round takes an encryption round off, between two applications of \<open>sub_shift\<close>.\<close>

lemma dec_enc_round:
  assumes "key_mixed EK DK r r'"
  shows "dec_round DK r' (sub_shift (enc_round EK r s)) = sub_shift s"
proof -
  obtain B0 B1 B2 B3 where s: "s = (B0, B1, B2, B3)" by (cases s)
  show ?thesis
    unfolding s enc_round.simps sub_shift.simps Let_def dec_round.simps AES_T_TD AES_T_TE
      key_mixed_at [OF assms] get_byte_make SD_SE make_get_byte
    by (simp add: inv_mix_xor)
qed

lemma dec_enc_rounds:
  "\<forall>i\<in>set is. key_mixed EK DK (4 * i) (4 * (R - i)) \<Longrightarrow>
    fold (dec_round DK) (map (\<lambda>i. 4 * (R - i)) (rev is)) (sub_shift (fold (enc_round EK) (map ((*) 4) is) s)) =
      sub_shift s"
proof (induction "is" arbitrary: s)
  case Nil
  then show ?case by simp
next
  case (Cons i js)
  then show ?case using dec_enc_round [of EK DK "4 * i" "4 * (R - i)"] by simp
qed

lemma loop_steps:
  "r < length EK \<Longrightarrow> enc_loop EK r B = enc_loop EK (r + 8) (enc_round EK (r + 4) (enc_round EK r B))"
  "\<not> r < length EK \<Longrightarrow> enc_loop EK r B = B"
  "r < length DK \<Longrightarrow> dec_loop DK r B = dec_loop DK (r + 8) (dec_round DK (r + 4) (dec_round DK r B))"
  "\<not> r < length DK \<Longrightarrow> dec_loop DK r B = B"
  by (simp_all add: enc_loop.simps dec_loop.simps)

lemma round_numbers:
  "[Suc 0..<10] = [1, 2, 3, 4, 5, 6, 7, 8, 9]" "[Suc 0..<12] = [1, 2, 3, 4, 5, 6, 7, 8, 9, 10, 11]"
  "[Suc 0..<14] = [1, 2, 3, 4, 5, 6, 7, 8, 9, 10, 11, 12, 13]"
  by (simp_all add: upt_rec)

lemma enc_loop_fold:
  "length EK \<in> {40, 48, 56} \<Longrightarrow>
    enc_loop EK 8 (enc_round EK 4 B) = fold (enc_round EK) (map ((*) 4) [1..<length EK div 4]) B"
proof -
  assume "length EK \<in> {40, 48, 56}"
  then consider "length EK = 40" | "length EK = 48" | "length EK = 56" by auto
  then show ?thesis by cases (simp_all add: loop_steps round_numbers)
qed

lemma dec_loop_fold:
  "length DK \<in> {40, 48, 56} \<Longrightarrow>
    dec_loop DK 8 (dec_round DK 4 B) = fold (dec_round DK) (map ((*) 4) [1..<length DK div 4]) B"
proof -
  assume "length DK \<in> {40, 48, 56}"
  then consider "length DK = 40" | "length DK = 48" | "length DK = 56" by auto
  then show ?thesis by cases (simp_all add: loop_steps round_numbers)
qed


section \<open>Decryption undoes encryption\<close>

lemma concat_rows:
  assumes "\<And>i. length (g i) = 4"
  shows "length (concat (map g [0..<n])) = 4 * n"
    and "k < n \<Longrightarrow> j < 4 \<Longrightarrow> concat (map g [0..<n]) ! (4 * k + j) = g k ! j"
proof -
  show len: "length (concat (map g [0..<n])) = 4 * n" for n
    using assms by (induction n) simp_all
  show "k < n \<Longrightarrow> j < 4 \<Longrightarrow> concat (map g [0..<n]) ! (4 * k + j) = g k ! j"
  proof (induction n)
    case 0
    then show ?case by simp
  next
    case (Suc n)
    have "concat (map g [0..<Suc n]) ! (4 * k + j) =
        (concat (map g [0..<n]) @ g n) ! (4 * k + j)" by simp
    then show ?case using Suc by (cases "k = n") (auto simp: nth_append len)
  qed
qed

definition aes_lengths :: "nat set" where
  "aes_lengths = {16, 24, 32}"

lemma aes_subkeys_shape:
  assumes "len \<in> aes_lengths" "length XEK = len + 32"
  defines "R \<equiv> (len + 24) div 4"
  shows "length (m_EK (aes_subkeys len XEK)) = 4 * R" "length (m_DK (aes_subkeys len XEK)) = 4 * R"
    and "4 * R \<in> {40, 48, 56}"
    and "i < 4 * R \<Longrightarrow> m_EK (aes_subkeys len XEK) ! i = XEK ! i"
    and "j < 4 \<Longrightarrow> m_DK (aes_subkeys len XEK) ! j = XEK ! (4 * R + j)"
    and "0 < i \<Longrightarrow> i < R \<Longrightarrow> key_mixed (m_EK (aes_subkeys len XEK)) (m_DK (aes_subkeys len XEK)) (4 * i) (4 * (R - i))"
    and "m_ME (aes_subkeys len XEK) =
      store_be (XEK ! (4 * R)) @ store_be (XEK ! (4 * R + 1)) @ store_be (XEK ! (4 * R + 2)) @ store_be (XEK ! (4 * R + 3))"
    and "m_MD (aes_subkeys len XEK) =
      store_be (XEK ! 0) @ store_be (XEK ! 1) @ store_be (XEK ! 2) @ store_be (XEK ! 3)"
proof -
  have R: "4 * R = len + 24" "len div 4 + 6 = R" "1 \<le> R" using assms(1) by (auto simp: R_def aes_lengths_def)
  show "4 * R \<in> {40, 48, 56}" using assms(1) by (auto simp: R_def aes_lengths_def)
  define g where "g i = [XEK ! (4 * R - 4 * i), XEK ! (4 * R - 4 * i + 1), XEK ! (4 * R - 4 * i + 2),
    XEK ! (4 * R - 4 * i + 3)]" for i
  define XDK where "XDK = concat (map g [0..<R + 1])"
  have g: "length (g i) = 4" for i by (simp add: g_def)
  have g_nth: "g i ! j = XEK ! (4 * R - 4 * i + j)" if "j < 4" for i j
    using that by (auto simp: g_def less_Suc_eq numeral_eq_Suc)
  have lenX: "length XDK = 4 * (R + 1)" using concat_rows(1) [of g, OF g] by (simp only: XDK_def)
  have XDK: "XDK ! (4 * i + j) = XEK ! (4 * R - 4 * i + j)" if "i \<le> R" "j < 4" for i j
    using concat_rows(2) [of g i "R + 1" j, OF g] that g_nth by (simp add: XDK_def)
  have keys: "aes_subkeys len XEK =
      \<lparr>m_EK = take (4 * R) XEK, m_DK = take (4 * R) (take 4 XDK @ map inv_mix_key (take (len + 20) (drop 4 XDK))),
       m_ME = concat (map (\<lambda>i. store_be (XEK ! (i + 4 * R))) [0..<4]),
       m_MD = concat (map (\<lambda>i. store_be (XEK ! i)) [0..<4])\<rparr>"
    by (simp only: aes_subkeys_def Let_def R XDK_def g_def [abs_def])
  show "length (m_EK (aes_subkeys len XEK)) = 4 * R" "length (m_DK (aes_subkeys len XEK)) = 4 * R"
    using lenX R assms(2) by (simp_all add: keys)
  show "i < 4 * R \<Longrightarrow> m_EK (aes_subkeys len XEK) ! i = XEK ! i" by (simp add: keys)
  show "j < 4 \<Longrightarrow> m_DK (aes_subkeys len XEK) ! j = XEK ! (4 * R + j)"
    using XDK [of 0 j] lenX R by (simp add: keys nth_append)
  have DK: "m_DK (aes_subkeys len XEK) ! (4 * i + j) = inv_mix_column (XDK ! (4 * i + j))"
    if "0 < i" "i < R" "j < 4" for i j
  proof -
    have ij: "4 \<le> 4 * i + j" "4 * i + j < 4 * R" using that by auto
    then have "m_DK (aes_subkeys len XEK) ! (4 * i + j) =
        map inv_mix_key (take (len + 20) (drop 4 XDK)) ! (4 * i + j - 4)"
      using lenX by (simp add: keys nth_append min_def)
    also have "\<dots> = inv_mix_key (XDK ! (4 * i + j))" using ij lenX R by simp
    finally show ?thesis by (simp add: inv_mix_key_eq)
  qed
  show "key_mixed (m_EK (aes_subkeys len XEK)) (m_DK (aes_subkeys len XEK)) (4 * i) (4 * (R - i))"
    if i: "0 < i" "i < R"
    unfolding key_mixed_def
  proof (intro allI impI)
    fix j :: nat
    assume j: "j < 4"
    have "4 * i + j < 4 * R" using i j by auto
    moreover have "XDK ! (4 * (R - i) + j) = XEK ! (4 * i + j)"
      using XDK [of "R - i" j] i j by (simp add: diff_mult_distrib2)
    ultimately show "m_DK (aes_subkeys len XEK) ! (4 * (R - i) + j) =
        inv_mix_column (m_EK (aes_subkeys len XEK) ! (4 * i + j))"
      using DK [of "R - i" j] i j by (simp add: keys)
  qed
  have u4: "[0..<4] = [0, 1, 2, 3]" by (simp add: upt_rec)
  show "m_ME (aes_subkeys len XEK) =
      store_be (XEK ! (4 * R)) @ store_be (XEK ! (4 * R + 1)) @ store_be (XEK ! (4 * R + 2)) @ store_be (XEK ! (4 * R + 3))"
    "m_MD (aes_subkeys len XEK) =
      store_be (XEK ! 0) @ store_be (XEK ! 1) @ store_be (XEK ! 2) @ store_be (XEK ! 3)"
    by (simp_all add: keys u4 add.commute)
qed

lemma get_byte_xor [simp]: "get_byte i (v XOR w) = get_byte i v XOR get_byte i w"
  by (rule bit_word_eqI) (simp add: get_byte_def bit_simps)

lemma enc_final_columns:
  "sub_shift s = (C0, C1, C2, C3) \<Longrightarrow>
    enc_final (store_be k0 @ store_be k1 @ store_be k2 @ store_be k3) s =
      store_be (C0 XOR k0) @ store_be (C1 XOR k1) @ store_be (C2 XOR k2) @ store_be (C3 XOR k3)"
  by (cases s) (auto simp: store_be_def)

lemma dec_final_columns:
  "dec_final (store_be k0 @ store_be k1 @ store_be k2 @ store_be k3) (sub_shift (T0, T1, T2, T3)) =
     store_be (T0 XOR k0) @ store_be (T1 XOR k1) @ store_be (T2 XOR k2) @ store_be (T3 XOR k3)"
  by (simp add: store_be_def SD_byte_def)

lemma load_be_stored:
  "load_be (store_be a @ store_be b @ store_be c @ store_be d) 0 = a"
  "load_be (store_be a @ store_be b @ store_be c @ store_be d) 1 = b"
  "load_be (store_be a @ store_be b @ store_be c @ store_be d) 2 = c"
  "load_be (store_be a @ store_be b @ store_be c @ store_be d) 3 = d"
  by (simp_all add: load_be_def store_be_def)

lemma stored_load_be:
  assumes "length b = 16"
  shows "store_be (load_be b 0) @ store_be (load_be b 1) @ store_be (load_be b 2) @ store_be (load_be b 3) = b"
proof -
  have "b = map ((!) b) [0..<16]" using assms by (metis map_nth)
  also have "[0..<16] = [0, 1, 2, 3, 4, 5, 6, 7, 8, 9, 10, 11, 12, 13, 14, 15 :: nat]" by (simp add: upt_rec)
  finally have "b = [b ! 0, b ! 1, b ! 2, b ! 3, b ! 4, b ! 5, b ! 6, b ! 7, b ! 8, b ! 9, b ! 10, b ! 11,
    b ! 12, b ! 13, b ! 14, b ! 15]" by (simp only: list.map)
  then show ?thesis by (simp add: store_be_def load_be_def) (simp add: numeral_2_eq_2)
qed

lemma aes_block_roundtrip:
  assumes len: "len \<in> aes_lengths" and XEK: "length XEK = len + 32" and b: "length b = 16"
  defines "k \<equiv> aes_subkeys len XEK"
  shows "aes_decrypt line (m_DK k) (m_MD k) (aes_encrypt line (m_EK k) (m_ME k) b) = b"
    and "length (aes_encrypt line (m_EK k) (m_ME k) b) = 16"
proof -
  define R where "R = (len + 24) div 4"
  note shape = aes_subkeys_shape [OF len XEK, folded R_def k_def]
  define T0 T1 T2 T3 where T: "T0 = load_be b 0 XOR XEK ! 0" "T1 = load_be b 1 XOR XEK ! 1"
    "T2 = load_be b 2 XOR XEK ! 2" "T3 = load_be b 3 XOR XEK ! 3"
  define s where "s = fold (enc_round (m_EK k)) (map ((*) 4) [1..<R]) (T0, T1, T2, T3)"
  obtain C0 C1 C2 C3 where C: "sub_shift s = (C0, C1, C2, C3)" by (cases "sub_shift s")
  have R: "4 \<le> 4 * R" using shape(3) by auto
  then have EK: "m_EK k ! 0 = XEK ! 0" "m_EK k ! 1 = XEK ! 1" "m_EK k ! 2 = XEK ! 2" "m_EK k ! 3 = XEK ! 3"
    using shape(4) by simp_all
  have "enc_loop (m_EK k) 8 (enc_round (m_EK k) 4 (T0, T1, T2, T3)) = s"
    using enc_loop_fold [of "m_EK k"] shape(1,3) by (simp only: s_def) simp
  then have enc: "aes_encrypt line (m_EK k) (m_ME k) b =
      store_be (C0 XOR XEK ! (4 * R)) @ store_be (C1 XOR XEK ! (4 * R + 1)) @
      store_be (C2 XOR XEK ! (4 * R + 2)) @ store_be (C3 XOR XEK ! (4 * R + 3))"
    by (simp only: aes_encrypt_def Let_def touch_table_zero xor.right_neutral EK T [symmetric] shape(7)
      enc_final_columns [OF C])
  then show "length (aes_encrypt line (m_EK k) (m_ME k) b) = 16" by simp
  have rounds: "fold (dec_round (m_DK k)) (map ((*) 4) [1..<R]) (C0, C1, C2, C3) = sub_shift (T0, T1, T2, T3)"
  proof -
    have "map (\<lambda>i. 4 * (R - i)) (rev [1..<R]) = map ((*) 4) [1..<R]"
      by (rule nth_equalityI) (auto simp: rev_nth)
    moreover have "\<forall>i\<in>set [1..<R]. key_mixed (m_EK k) (m_DK k) (4 * i) (4 * (R - i))"
      using shape(6) by auto
    ultimately show ?thesis
      using dec_enc_rounds [of "[1..<R]" "m_EK k" "m_DK k" R "(T0, T1, T2, T3)"] C by (simp only: s_def)
  qed
  have dec: "dec_loop (m_DK k) 8 (dec_round (m_DK k) 4 (C0, C1, C2, C3)) = sub_shift (T0, T1, T2, T3)"
    using dec_loop_fold [of "m_DK k"] shape(2,3) by (simp only: rounds [symmetric]) simp
  have DK: "m_DK k ! 0 = XEK ! (4 * R)" "m_DK k ! 1 = XEK ! (4 * R + 1)"
    "m_DK k ! 2 = XEK ! (4 * R + 2)" "m_DK k ! 3 = XEK ! (4 * R + 3)"
    using shape(5) [of 0] shape(5) [of 1] shape(5) [of 2] shape(5) [of 3] by simp_all
  have cancel: "(c XOR x) XOR x = c" for c x :: u32 by (simp add: xor.assoc)
  show "aes_decrypt line (m_DK k) (m_MD k) (aes_encrypt line (m_EK k) (m_ME k) b) = b"
    by (simp only: enc aes_decrypt_def Let_def touch_table_zero xor.right_neutral DK load_be_stored cancel dec
      shape(8) dec_final_columns T stored_load_be [OF b])
qed

lemma length_expand [simp]:
  "length (expand_inner X i js XEK) = length XEK"
  "length (expand_loop X rounds i XEK) = length XEK"
proof -
  show inner: "length (expand_inner X i js XEK) = length XEK" for X i js XEK
    by (induction X i js XEK rule: expand_inner.induct) (simp_all add: Let_def)
  show "length (expand_loop X rounds i XEK) = length XEK"
  proof (induction X rounds i XEK rule: expand_loop.induct)
    case (1 X rounds i XEK)
    then show ?case by (cases "i < 4 * (rounds + 1) \<and> 0 < X") (auto simp: expand_loop.simps [of X rounds i] inner)
  qed
qed

lemma length_expand_key: "length (expand_key key) = length key + 32"
  by (simp add: expand_key_def Let_def)

lemma aes_key_schedule_ok:
  "length key \<in> aes_lengths \<Longrightarrow> aes_key_schedule key = Inr (aes_subkeys (length key) (expand_key key))"
  by (auto simp: aes_key_schedule_def aes_lengths_def)

text \<open>The two block functions under a key, for a cache line of \<open>line\<close> table entries.\<close>

definition aes_E :: "nat \<Rightarrow> byte list \<Rightarrow> byte list \<Rightarrow> byte list" where
  "aes_E line key = (let k = aes_subkeys (length key) (expand_key key) in aes_encrypt line (m_EK k) (m_ME k))"

definition aes_D :: "nat \<Rightarrow> byte list \<Rightarrow> byte list \<Rightarrow> byte list" where
  "aes_D line key = (let k = aes_subkeys (length key) (expand_key key) in aes_decrypt line (m_DK k) (m_MD k))"

lemma length_aes_decrypt: "length MD = 16 \<Longrightarrow> length (aes_decrypt line DK MD b) = 16"
proof -
  have "length (dec_final MD s) = 16" if "length MD = 16" for s using that by (cases s) simp
  then show "length MD = 16 \<Longrightarrow> length (aes_decrypt line DK MD b) = 16"
    by (simp add: aes_decrypt_def Let_def)
qed

lemma aes_block_cipher:
  assumes "length key \<in> aes_lengths"
  shows "block_cipher (aes_E line key) (aes_D line key)"
proof unfold_locales
  fix b :: "byte list"
  assume "length b = BS"
  then have b: "length b = 16" by (simp add: BS_def)
  note k = aes_block_roundtrip [OF assms length_expand_key b, of line]
  show "length (aes_E line key b) = BS" "aes_D line key (aes_E line key b) = b"
    using k by (simp_all add: aes_E_def aes_D_def Let_def BS_def)
  show "length (aes_D line key b) = BS"
    using length_aes_decrypt aes_subkeys_shape(8) [OF assms length_expand_key] by (simp add: aes_D_def Let_def BS_def)
qed

text \<open>Every AES-128 key: a key of sixteen bytes is \<open>map ((!) key) [0..<16]\<close>.\<close>

interpretation aes: block_cipher "aes_E line (map f [0..<16])" "aes_D line (map f [0..<16])"
  for line and f :: "nat \<Rightarrow> byte"
  by (rule aes_block_cipher) (simp add: aes_lengths_def)

lemma key_as_map: "length key = 16 \<Longrightarrow> map ((!) key) [0..<16] = key"
  by (metis map_nth)

text \<open>
  C19. For every key of an accepted size the key schedule succeeds, and with its subkeys the
  table driven AES decryption returns every block of sixteen bytes that the encryption was
  given, whatever the size of the cache line that the timing guards step by.
\<close>

theorem aes_roundtrip:
  assumes "length key \<in> {16, 24, 32}" and "length block = 16"
  shows "\<exists>k. aes_key_schedule key = Inr k \<and>
    aes_decrypt line (m_DK k) (m_MD k) (aes_encrypt line (m_EK k) (m_ME k) block) = block"
  using aes_key_schedule_ok [of key] aes_block_roundtrip(1) [of "length key" "expand_key key" block line]
    length_expand_key [of key] assms
  by (simp add: aes_lengths_def)

theorem aes_roundtrip_witness:
  "\<exists>k. aes_key_schedule (map word_of_nat [0..<16]) = Inr k \<and>
    aes_decrypt 16 (m_DK k) (m_MD k) (aes_encrypt 16 (m_EK k) (m_ME k) (replicate 16 0)) = replicate 16 0"
  by (rule aes_roundtrip) simp_all

end
