(* ===== verification/Botan_SHA.thy ===== *)
theory Botan_SHA
  imports Botan_Words
begin

unbundle bit_operations_syntax

text \<open>
  SHA-160 of the bundled Botan library (\<open>MDx_HashFunction\<close> and \<open>SHA_160\<close> in
  \<open>src/util/botan/botan_all.cpp\<close>, the portable version): the streaming interface with its
  buffer, its position and its count, and the compression function; and the proof that feeding
  a message in pieces gives the hash of the message padded at once.
\<close>

section \<open>The compression function\<close>

type_synonym sha_digest = "u32 \<times> u32 \<times> u32 \<times> u32 \<times> u32"

text \<open>
  A call of \<open>F1\<close> to \<open>F4\<close> on \<open>(A, B, C, D, E)\<close> changes \<open>E\<close> and \<open>B\<close>; the next call takes
  the variables as \<open>(E, A, B, C, D)\<close>, and that is the tuple the functions return.
\<close>

fun F1 :: "sha_digest \<Rightarrow> u32 \<Rightarrow> sha_digest" where
  "F1 (A, B, C, D, E) msg =
     (E + ((((D XOR (B AND (C XOR D))) + msg) + 0x5A827999) + rotl 5 A), A, rotl 30 B, C, D)"

fun F2 :: "sha_digest \<Rightarrow> u32 \<Rightarrow> sha_digest" where
  "F2 (A, B, C, D, E) msg =
     (E + ((((B XOR C XOR D) + msg) + 0x6ED9EBA1) + rotl 5 A), A, rotl 30 B, C, D)"

fun F3 :: "sha_digest \<Rightarrow> u32 \<Rightarrow> sha_digest" where
  "F3 (A, B, C, D, E) msg =
     (E + (((((B AND C) OR ((B OR C) AND D)) + msg) + 0x8F1BBCDC) + rotl 5 A), A, rotl 30 B, C, D)"

fun F4 :: "sha_digest \<Rightarrow> u32 \<Rightarrow> sha_digest" where
  "F4 (A, B, C, D, E) msg =
     (E + ((((B XOR C XOR D) + msg) + 0xCA62C1D6) + rotl 5 A), A, rotl 30 B, C, D)"

text \<open>\<open>m_W\<close>: sixteen words of the block and 64 more, each from four before it.\<close>

definition expand_W :: "byte list \<Rightarrow> u32 list" where
  "expand_W block =
     fold (\<lambda>j W. W @ [rotl 1 (((W ! (j - 3) XOR W ! (j - 8)) XOR W ! (j - 14)) XOR W ! (j - 16))])
       [16..<80] (map (load_be block) [0..<16])"

fun add_digest :: "sha_digest \<Rightarrow> sha_digest \<Rightarrow> sha_digest" where
  "add_digest (a, b, c, d, e) (a', b', c', d', e') = (a + a', b + b', c + c', d + d', e + e')"

definition sha_compress :: "sha_digest \<Rightarrow> byte list \<Rightarrow> sha_digest" where
  "sha_compress digest block =
     (let W = expand_W block;
          v1 = foldl F1 digest (take 20 W);
          v2 = foldl F2 v1 (take 20 (drop 20 W));
          v3 = foldl F3 v2 (take 20 (drop 40 W));
          v4 = foldl F4 v3 (take 20 (drop 60 W))
      in add_digest digest v4)"

text \<open>\<open>compress_n\<close>: \<open>n\<close> blocks from the front of the input.\<close>

primrec sha_compress_n :: "nat \<Rightarrow> sha_digest \<Rightarrow> byte list \<Rightarrow> sha_digest" where
  "sha_compress_n 0 digest input = digest"
| "sha_compress_n (Suc n) digest input = sha_compress_n n (sha_compress digest (take 64 input)) (drop 64 input)"

section \<open>The streaming interface\<close>

record sha_160 =
  m_buffer :: "byte list"
  m_count :: "64 word"
  m_position :: nat
  m_digest :: sha_digest

definition sha_init :: sha_digest where
  "sha_init = (0x67452301, 0xEFCDAB89, 0x98BADCFE, 0x10325476, 0xC3D2E1F0)"

definition sha_clear :: sha_160 where
  "sha_clear = \<lparr>m_buffer = replicate 64 0, m_count = 0, m_position = 0, m_digest = sha_init\<rparr>"

definition buffer_insert :: "byte list \<Rightarrow> nat \<Rightarrow> byte list \<Rightarrow> byte list" where
  "buffer_insert buf off input = blit off (take (length buf - off) input) buf"

text \<open>
  \<open>add_data\<close>: bytes left over from the last call are completed to a block first, when there
  are enough of them.
\<close>

definition sha_fill :: "byte list \<Rightarrow> sha_160 \<Rightarrow> sha_160 \<times> byte list" where
  "sha_fill input h =
     (if m_position h \<noteq> 0
      then let buf = buffer_insert (m_buffer h) (m_position h) input
           in if m_position h + length input \<ge> length buf
              then (h\<lparr>m_buffer := buf, m_digest := sha_compress_n 1 (m_digest h) buf, m_position := 0\<rparr>,
                    drop (length buf - m_position h) input)
              else (h\<lparr>m_buffer := buf\<rparr>, input)
      else (h, input))"

definition sha_blocks :: "sha_160 \<times> byte list \<Rightarrow> sha_160" where
  "sha_blocks st =
     (case st of (h, input) \<Rightarrow>
        let full_blocks = length input div length (m_buffer h);
            remaining = length input mod length (m_buffer h)
        in h\<lparr>m_digest := (if full_blocks \<noteq> 0 then sha_compress_n full_blocks (m_digest h) input else m_digest h),
             m_buffer := buffer_insert (m_buffer h) (m_position h) (drop (full_blocks * length (m_buffer h)) input),
             m_position := m_position h + remaining\<rparr>)"

definition sha_add_data :: "byte list \<Rightarrow> sha_160 \<Rightarrow> sha_160" where
  "sha_add_data input h =
     sha_blocks (sha_fill input (h\<lparr>m_count := m_count h + word_of_nat (length input)\<rparr>))"

definition store_be64 :: "64 word \<Rightarrow> byte list" where
  "store_be64 w = map (\<lambda>i. ucast (drop_bit (8 * (7 - i)) w)) [0..<8]"

fun copy_out :: "sha_digest \<Rightarrow> byte list" where
  "copy_out (a, b, c, d, e) = store_be a @ store_be b @ store_be c @ store_be d @ store_be e"

definition sha_final_result :: "sha_160 \<Rightarrow> byte list \<times> sha_160" where
  "sha_final_result h =
     (let buf = take (m_position h) (m_buffer h) @ [0x80] @ replicate (length (m_buffer h) - (m_position h + 1)) 0;
          spill = m_position h \<ge> length buf - 8;
          digest = (if spill then sha_compress_n 1 (m_digest h) buf else m_digest h);
          buf1 = (if spill then replicate (length buf) 0 else buf);
          buf2 = blit (length buf1 - 8) (store_be64 (m_count h * 8)) buf1
      in (copy_out (sha_compress_n 1 digest buf2), sha_clear))"

section \<open>The reference\<close>

text \<open>The message, a one bit, zeros, and its length in bits, padded to whole blocks of 64 bytes.\<close>

definition sha_pad :: "byte list \<Rightarrow> byte list" where
  "sha_pad m = m @ [0x80] @ replicate ((119 - length m mod 64) mod 64) 0 @ store_be64 (word_of_nat (length m) * 8)"

definition sha1_reference :: "byte list \<Rightarrow> byte list" where
  "sha1_reference m = copy_out (sha_compress_n (length (sha_pad m) div 64) sha_init (sha_pad m))"

lemma length_store_be64 [simp]: "length (store_be64 w) = 8"
  by (simp add: store_be64_def)

lemma pad_zeros:
  "(119 - n mod 64) mod 64 = (if n mod 64 < 56 then 55 - n mod 64 else 119 - n mod (64 :: nat))"
proof -
  have "n mod 64 < 64" by simp
  then show ?thesis by (simp add: mod_if [of "119 - n mod 64"]) linarith
qed

lemma sha_compress_n_append:
  "length x = 64 * n \<Longrightarrow> sha_compress_n (n + k) d (x @ y) = sha_compress_n k (sha_compress_n n d x) y"
  by (induction n arbitrary: d x) simp_all

lemma sha_compress_n_take: "64 * n \<le> length x \<Longrightarrow> sha_compress_n n d (x @ y) = sha_compress_n n d x"
  by (induction n arbitrary: d x) simp_all

text \<open>What has been fed so far: whole blocks are in the digest, the rest is in the buffer.\<close>

definition sha_fed :: "byte list \<Rightarrow> sha_160 \<Rightarrow> bool" where
  "sha_fed m h \<longleftrightarrow>
     length (m_buffer h) = 64 \<and> m_position h < 64 \<and>
     (\<exists>x n. length x = 64 * n \<and> m = x @ take (m_position h) (m_buffer h) \<and>
       m_digest h = sha_compress_n n sha_init x)"

lemma sha_fed_clear: "sha_fed [] sha_clear"
  by (auto simp: sha_fed_def sha_clear_def intro: exI [of _ "[]"])

lemma sha_fedE:
  assumes "sha_fed m h"
  obtains x n where "length (m_buffer h) = 64" "m_position h < 64" "length x = 64 * n"
    "m = x @ take (m_position h) (m_buffer h)" "m_digest h = sha_compress_n n sha_init x"
  using assms by (auto simp: sha_fed_def)

lemma sha_blocks_aligned:
  assumes "sha_fed m h" "m_position h = 0"
  shows "sha_fed (m @ input) (sha_blocks (h, input))"
proof -
  obtain x n where h: "length (m_buffer h) = 64" "length x = 64 * n" "m = x" "m_digest h = sha_compress_n n sha_init x"
    using assms by (auto elim!: sha_fedE)
  define k where "k = length input div 64"
  define y z where "y = take (64 * k) input" and "z = drop (64 * k) input"
  have input: "input = y @ z" and y: "length y = 64 * k" and z: "length z = length input mod 64" "length z < 64"
    by (simp_all add: y_def z_def k_def minus_mult_div_eq_mod)
  have "sha_compress_n k d input = sha_compress_n k d y" for d
    unfolding input by (rule sha_compress_n_take) (simp add: y)
  then have "(if k \<noteq> 0 then sha_compress_n k (m_digest h) input else m_digest h) = sha_compress_n (n + k) sha_init (x @ y)"
    using h(2,4) by (simp add: sha_compress_n_append)
  moreover have "take (length z) (buffer_insert (m_buffer h) 0 z) = z"
    using z(2) h(1) by (simp add: buffer_insert_def blit_def)
  moreover have "sha_blocks (h, input) = h\<lparr>m_digest := (if k \<noteq> 0 then sha_compress_n k (m_digest h) input else m_digest h),
      m_buffer := buffer_insert (m_buffer h) 0 z, m_position := length z\<rparr>"
  proof -
    have "length input div 64 = k" "drop (k * 64) input = z"
      by (simp_all only: k_def z_def mult.commute)
    moreover note z(1) [symmetric]
    ultimately show ?thesis by (simp only: sha_blocks_def h(1) assms(2) prod.case Let_def add_0_left)
  qed
  moreover have "length (buffer_insert (m_buffer h) 0 z) = 64"
    using z(2) h(1) by (simp add: buffer_insert_def blit_def)
  moreover have "length (x @ y) = 64 * (n + k)" using h(2) y by simp
  ultimately show ?thesis using z(2) unfolding sha_fed_def
    by (intro conjI exI [of _ "x @ y"] exI [of _ "n + k"]) (simp_all add: h(3) input)
qed

lemma sha_add_data_fed:
  assumes "sha_fed m h"
  shows "sha_fed (m @ input) (sha_add_data input h)"
proof -
  let ?h = "h\<lparr>m_count := m_count h + word_of_nat (length input)\<rparr>"
  obtain x n where h: "length (m_buffer h) = 64" "m_position h < 64" "length x = 64 * n"
    "m = x @ take (m_position h) (m_buffer h)" "m_digest h = sha_compress_n n sha_init x"
    using assms by (auto elim!: sha_fedE)
  have fed: "sha_fed m ?h" using assms by (simp add: sha_fed_def)
  let ?p = "m_position h"
  consider "?p = 0" | "?p \<noteq> 0" "?p + length input < 64" | "?p \<noteq> 0" "64 \<le> ?p + length input" by linarith
  then show ?thesis
  proof cases
    case 1
    then show ?thesis using sha_blocks_aligned [OF fed] by (simp add: sha_add_data_def sha_fill_def)
  next
    case 2
    have "sha_add_data input h = ?h\<lparr>m_buffer := blit ?p input (m_buffer h), m_position := ?p + length input\<rparr>"
      using 2 h(1) by (simp add: sha_add_data_def sha_fill_def sha_blocks_def buffer_insert_def Let_def blit_def min_def)
    then show ?thesis using h 2 take_blit_end [of ?p input "m_buffer h"]
      by (auto simp: sha_fed_def intro!: exI [of _ x] exI [of _ n])
  next
    case 3
    let ?a = "take (64 - ?p) input"
    have buf: "buffer_insert (m_buffer h) ?p input = take ?p (m_buffer h) @ ?a"
      using 3 h(1,2) by (simp add: buffer_insert_def blit_def)
    let ?g = "?h\<lparr>m_buffer := take ?p (m_buffer h) @ ?a,
      m_digest := sha_compress_n 1 (m_digest h) (take ?p (m_buffer h) @ ?a), m_position := 0\<rparr>"
    have "sha_fed (m @ ?a) ?g"
      using h 3 sha_compress_n_append [of x n 1 sha_init "take ?p (m_buffer h) @ ?a"]
      by (auto simp: sha_fed_def intro!: exI [of _ "m @ ?a"] exI [of _ "n + 1"])
    from sha_blocks_aligned [OF this, of "drop (64 - ?p) input"] show ?thesis
      using 3 h(1,2) buf by (simp add: sha_add_data_def sha_fill_def Let_def)
  qed
qed

lemma sha_add_data_count: "m_count (sha_add_data input h) = m_count h + word_of_nat (length input)"
  by (simp add: sha_add_data_def sha_blocks_def sha_fill_def Let_def)

lemma sha_feed_chunks:
  "sha_fed m h \<Longrightarrow> m_count h = word_of_nat (length m) \<Longrightarrow>
    sha_fed (m @ concat chunks) (fold sha_add_data chunks h) \<and>
    m_count (fold sha_add_data chunks h) = word_of_nat (length (m @ concat chunks))"
proof (induction chunks arbitrary: m h)
  case Nil
  then show ?case by simp
next
  case (Cons c cs)
  show ?case using Cons.IH [OF sha_add_data_fed [OF Cons.prems(1), of c]] Cons.prems(2)
    by (simp add: sha_add_data_count)
qed

lemma sha_final_reference:
  assumes "sha_fed m h" "m_count h = word_of_nat (length m)"
  shows "sha_final_result h = (sha1_reference m, sha_clear)"
proof -
  define p where "p = m_position h"
  define t where "t = take p (m_buffer h)"
  define L where "L = store_be64 (word_of_nat (length m) * 8)"
  obtain x n where h: "length (m_buffer h) = 64" "p < 64" "length x = 64 * n" "m = x @ t"
    "m_digest h = sha_compress_n n sha_init x"
    using assms(1) by (auto simp: p_def t_def elim!: sha_fedE)
  have t: "length t = p" using h by (simp add: t_def)
  have L: "length L = 8" by (simp add: L_def)
  have mod: "length m mod 64 = p" using h t by simp
  have zeros: "(119 - p) mod 64 = (if p < 56 then 55 - p else 119 - p)"
    using pad_zeros [of "length m"] by (simp only: mod)
  show ?thesis
  proof (cases "p < 56")
    case True
    define b where "b = t @ [0x80] @ replicate (55 - p) 0 @ L"
    have b: "length b = 64" using True t L by (simp add: b_def)
    have pad: "sha_pad m = x @ b"
      using True by (simp only: sha_pad_def mod zeros) (simp add: h(4) b_def L_def)
    have "replicate (63 - p) 0 = replicate (55 - p) 0 @ replicate 8 (0 :: byte)"
      using True by (simp add: replicate_add [symmetric])
    moreover have "56 - p = Suc (55 - p)" using True by simp
    ultimately have "blit 56 L (t @ [0x80] @ replicate (63 - p) 0) = b"
      using True t L by (simp add: blit_def b_def)
    then have "sha_final_result h = (copy_out (sha_compress_n 1 (m_digest h) b), sha_clear)"
      using True h(1) t assms(2) by (simp add: sha_final_result_def Let_def p_def [symmetric] t_def [symmetric] L_def)
    then show ?thesis using sha_compress_n_append [OF h(3), of 1 sha_init b] h(3,5) b
      by (simp add: sha1_reference_def pad)
  next
    case False
    define b where "b = t @ [0x80] @ replicate (63 - p) 0"
    define c where "c = replicate 56 0 @ L"
    have b: "length b = 64" and c: "length c = 64" using h(2) t L by (simp_all add: b_def c_def)
    have "replicate (119 - p) 0 = replicate (63 - p) 0 @ replicate 56 (0 :: byte)"
      using h(2) by (simp add: replicate_add [symmetric])
    then have pad: "sha_pad m = x @ b @ c"
      using False by (simp only: sha_pad_def mod zeros) (simp add: h(4) b_def c_def L_def)
    have "blit 56 L (replicate 64 0) = c"
      using L by (simp add: blit_def c_def)
    then have "sha_final_result h = (copy_out (sha_compress_n 1 (sha_compress_n 1 (m_digest h) b) c), sha_clear)"
      using False h(1,2) t assms(2)
      by (simp add: sha_final_result_def Let_def p_def [symmetric] t_def [symmetric] L_def) (simp add: b_def)
    then show ?thesis
      using sha_compress_n_append [OF h(3), of 2 sha_init "b @ c"] h(3,5) b c
      by (simp add: sha1_reference_def pad numeral_2_eq_2)
  qed
qed

text \<open>
  C31. Feeding a message to the hash in pieces of any sizes, each as one call of \<open>update\<close>, and
  then finishing gives SHA-1 of the whole message, padded at once with its length in bits, and
  leaves the hash ready for the next message.
\<close>

theorem sha_streaming:
  "sha_final_result (fold sha_add_data chunks sha_clear) = (sha1_reference (concat chunks), sha_clear)"
  using sha_feed_chunks [OF sha_fed_clear, of chunks]
  by (intro sha_final_reference) (simp_all add: sha_clear_def)

lemma length_sha1_reference: "length (sha1_reference m) = 20"
proof -
  have "length (copy_out d) = 20" for d by (cases d) simp
  then show ?thesis by (simp add: sha1_reference_def)
qed

end
