(* ===== verification/Cipher.thy ===== *)
theory Cipher
  imports Modifier Botan_AES Botan_SHA
begin

text \<open>
  The cipher modifier (\<open>src/net/protocol/util/cipher.cpp\<close>): the payload of a message is
  encrypted with AES-128/CBC/PKCS7 in place, and both sides move on to the next nonce, and
  every \<open>key_change_interval\<close> messages to the next key, with the SHA-1 of the plaintext and
  of the digest before. AES, CBC and SHA-1 are the models of the bundled Botan library; the
  parameter \<open>line\<close> is the cache line of the host, in table entries.
\<close>

section \<open>cipher_impl\<close>

record cipher_impl =
  ci_key :: "byte list"
  ci_nonce :: "byte list"
  ci_data :: "byte list"
  ci_count :: nat
  ci_hasher :: sha_160

definition default_key :: "byte list" where
  "default_key = [0x2B, 0x7E, 0x15, 0x16, 0x28, 0xAE, 0xD2, 0xA6, 0xAB, 0xF7, 0x15, 0x88, 0x09, 0xCF, 0x4F, 0x3C]"

definition default_nonce :: "byte list" where
  "default_nonce = [0xAC, 0xE0, 0x3D, 0x51, 0x9F, 0x3C, 0xBA, 0x2B, 0xF6, 0x7C, 0xF1, 0xB7, 0xE1, 0xC4, 0xF0, 0x2D]"

text \<open>What \<open>on_bind\<close> makes of both sides.\<close>

definition cipher_impl_bound :: cipher_impl where
  "cipher_impl_bound =
     \<lparr>ci_key = default_key, ci_nonce = default_nonce, ci_data = [], ci_count = 0, ci_hasher = sha_clear\<rparr>"

definition cipher_on_bind :: "net_result \<times> cipher_impl \<times> cipher_impl" where
  "cipher_on_bind = ((True, success), cipher_impl_bound, cipher_impl_bound)"

text \<open>\<open>update_hash\<close> on the bytes at \<open>msg_pos\<close>, at most 64 of them.\<close>

definition update_hash :: "rbuf \<Rightarrow> nat \<Rightarrow> nat \<Rightarrow> cipher_impl \<Rightarrow> fault + cipher_impl" where
  "update_hash buf msg_pos msg_len ci =
     (case rb_peek buf msg_pos (min msg_len 64) of
        Inl f \<Rightarrow> Inl f
      | Inr bytes \<Rightarrow>
          (let r = sha_final_result (sha_add_data (ci_data ci) (sha_add_data bytes (ci_hasher ci)))
           in Inr (ci\<lparr>ci_data := fst r, ci_hasher := snd r\<rparr>)))"

definition update_key :: "cipher_impl \<Rightarrow> cipher_impl" where
  "update_key ci = ci\<lparr>ci_key := take 16 (ci_data ci)\<rparr>"

text \<open>\<open>complete\<close>; a remainder by zero is undefined.\<close>

definition complete_ci :: "nat \<Rightarrow> cipher_impl \<Rightarrow> fault + cipher_impl" where
  "complete_ci interval ci =
     (if length (ci_data ci) < 16 then Inl Out_of_bounds
      else if interval = 0 then Inl (Thrown ''division by zero'')
      else let ci1 = ci\<lparr>ci_nonce := take 16 (ci_data ci)\<rparr>;
               ci2 = (if ci_count ci1 mod interval = 0 then update_key ci1 else ci1)
           in Inr (ci2\<lparr>ci_count := ci_count ci2 + 1\<rparr>))"

text \<open>\<open>algo->set_key\<close> and \<open>algo->start\<close> after \<open>clear\<close>: the key, and the state the mode starts from.\<close>

definition algo_start :: "cipher_impl \<Rightarrow> fault + (byte list \<times> byte list)" where
  "algo_start ci =
     (if length (ci_key ci) \<noteq> 16 then Inl (Thrown ''Invalid_Key_Length'')
      else if ci_nonce ci = [] then Inr (ci_key ci, replicate BS 0)
      else if length (ci_nonce ci) \<noteq> BS then Inl (Thrown ''Invalid_IV_Length'')
      else Inr (ci_key ci, ci_nonce ci))"

section \<open>on_recv\<close>

text \<open>
  The decryption in place: all blocks but the last with \<open>process\<close>, the last one copied out,
  given to \<open>finish\<close> and copied back without its padding. The result has the padding's length.
\<close>

definition decrypt_in_place ::
  "nat \<Rightarrow> byte list \<Rightarrow> byte list \<Rightarrow> rbuf \<Rightarrow> nat \<Rightarrow> nat \<Rightarrow> fault + (nat \<times> rbuf)" where
  "decrypt_in_place line key st buf cipher_pos cipher_len =
     (let process_len = cipher_len - BS; final_pos = cipher_pos + cipher_len - BS
      in case rb_peek buf cipher_pos process_len of
           Inl f \<Rightarrow> Inl f
         | Inr c1 \<Rightarrow>
        (case cbc_decrypt_process (aes_D line key) st c1 of
           Inl f \<Rightarrow> Inl f
         | Inr (p1, st1) \<Rightarrow>
        (case rb_poke buf cipher_pos p1 of
           Inl f \<Rightarrow> Inl f
         | Inr buf1 \<Rightarrow>
        (case rb_peek buf1 final_pos BS of
           Inl f \<Rightarrow> Inl f
         | Inr c2 \<Rightarrow>
        (case cbc_decrypt_finish (aes_D line key) st1 c2 of
           Inl f \<Rightarrow> Inl f
         | Inr p2 \<Rightarrow>
        (case rb_poke buf1 final_pos p2 of
           Inl f \<Rightarrow> Inl f
         | Inr buf2 \<Rightarrow> Inr (BS - length p2, buf2)))))))"

text \<open>
  A payload shorter than a block makes \<open>process_len\<close> wrap around; it and a message shorter than
  its header are faults.
\<close>

definition cipher_on_recv :: "nat \<Rightarrow> nat \<Rightarrow> cipher_impl recv_handler" where
  "cipher_on_recv line interval ci buf msg_pos msg_len =
     (if msg_len < header_length then Inl Out_of_bounds
      else if msg_len = header_length then Inr ((True, success), msg_len, buf, ci)
      else if msg_len - header_length < BS then Inl Out_of_bounds
      else case algo_start ci of
             Inl f \<Rightarrow> Inl f
           | Inr (key, st) \<Rightarrow>
          (case decrypt_in_place line key st buf (msg_pos + header_length) (msg_len - header_length) of
             Inl f \<Rightarrow> Inl f
           | Inr (pad_size, buf1) \<Rightarrow>
          (case update_hash buf1 (msg_pos + header_length) (msg_len - header_length - pad_size) ci of
             Inl f \<Rightarrow> Inl f
           | Inr ci1 \<Rightarrow>
          (case complete_ci interval ci1 of
             Inl f \<Rightarrow> Inl f
           | Inr ci2 \<Rightarrow> Inr ((True, success), msg_len - pad_size, buf1, ci2)))))"

section \<open>on_send\<close>

definition cipher_pad :: "byte list" where
  "cipher_pad = [0x12, 0x34, 0x56, 0x78, 0x90, 0x12, 0x34, 0x56, 0x78, 0x90, 0x12, 0x34, 0x56, 0x78, 0x90, 0x12]"

definition encrypt_in_place ::
  "nat \<Rightarrow> byte list \<Rightarrow> byte list \<Rightarrow> rbuf \<Rightarrow> nat \<Rightarrow> nat \<Rightarrow> nat \<Rightarrow> fault + rbuf" where
  "encrypt_in_place line key st buf cipher_pos cipher_len pad_size =
     (let process_len = cipher_len - BS; final_pos = cipher_pos + cipher_len - BS
      in case rb_peek buf cipher_pos process_len of
           Inl f \<Rightarrow> Inl f
         | Inr p1 \<Rightarrow>
        (case cbc_encrypt_process (aes_E line key) st p1 of
           Inl f \<Rightarrow> Inl f
         | Inr (c1, st1) \<Rightarrow>
        (case rb_poke buf cipher_pos c1 of
           Inl f \<Rightarrow> Inl f
         | Inr buf1 \<Rightarrow>
        (case rb_peek buf1 final_pos (BS - pad_size) of
           Inl f \<Rightarrow> Inl f
         | Inr p2 \<Rightarrow>
        (case cbc_encrypt_finish (aes_E line key) st1 p2 of
           Inl f \<Rightarrow> Inl f
         | Inr (c2, _) \<Rightarrow> rb_poke buf1 final_pos c2)))))"

text \<open>
  The first block under \<open>send_mutex_\<close>: key and nonce are taken and the hash is updated. The
  second one, after the encryption, completes the state.
\<close>

definition send_prepare ::
  "rbuf \<Rightarrow> nat \<Rightarrow> nat \<Rightarrow> cipher_impl \<Rightarrow> fault + (byte list \<times> byte list \<times> cipher_impl)" where
  "send_prepare buf msg_pos msg_len ci =
     (case algo_start ci of
        Inl f \<Rightarrow> Inl f
      | Inr (key, st) \<Rightarrow>
          (case update_hash buf (msg_pos + header_length) (msg_len - header_length) ci of
             Inl f \<Rightarrow> Inl f
           | Inr ci1 \<Rightarrow> Inr (key, st, ci1)))"

definition cipher_on_send :: "nat \<Rightarrow> nat \<Rightarrow> cipher_impl send_handler" where
  "cipher_on_send line interval ci buf msg_pos msg_len =
     (if msg_len < header_length then Inl Out_of_bounds
      else if msg_len = header_length then Inr ((True, success), buf, ci)
      else let payload_size = msg_len - header_length;
               pad_size = BS - payload_size mod BS
           in case rb_append buf (take pad_size cipher_pad) of
                Inl f \<Rightarrow> Inl f
              | Inr buf1 \<Rightarrow>
             (case send_prepare buf1 msg_pos msg_len ci of
                Inl f \<Rightarrow> Inl f
              | Inr (key, st, ci1) \<Rightarrow>
             (case encrypt_in_place line key st buf1 (msg_pos + header_length) (payload_size + pad_size) pad_size of
                Inl f \<Rightarrow> Inl f
              | Inr buf2 \<Rightarrow>
             (case complete_ci interval ci1 of
                Inl f \<Rightarrow> Inl f
              | Inr ci2 \<Rightarrow>
             (case update_length_field buf2 msg_pos (msg_len + pad_size) of
                Inl f \<Rightarrow> Inl f
              | Inr buf3 \<Rightarrow> Inr ((True, success), buf3, ci2))))))"

section \<open>Encryption in place\<close>

text \<open>\<open>c\<close> is what the plaintext \<open>x\<close> is sealed into, as far as the receiver is concerned.\<close>

definition sealed :: "nat \<Rightarrow> byte list \<Rightarrow> byte list \<Rightarrow> byte list \<Rightarrow> byte list \<Rightarrow> bool" where
  "sealed line key st x c \<longleftrightarrow>
     (\<exists>c1 st1 c2. c = c1 @ c2 \<and> length c1 = length x div BS * BS \<and> length c2 = BS \<and>
       cbc_decrypt_process (aes_D line key) st c1 = Inr (take (length x div BS * BS) x, st1) \<and>
       cbc_decrypt_finish (aes_D line key) st1 c2 = Inr (drop (length x div BS * BS) x))"

lemma length_sealed: "sealed line key st x c \<Longrightarrow> length c = length x div BS * BS + BS"
  by (auto simp: sealed_def)

lemma padded_length: "length x + (BS - length x mod BS) = length x div BS * BS + BS" for x :: "byte list"
proof -
  have "length x mod BS < BS" by simp
  moreover have "length x = length x div BS * BS + length x mod BS" by simp
  ultimately show ?thesis by linarith
qed

lemma encrypt_in_place_seals:
  assumes key: "length key = 16" and st: "length st = BS" and buf: "rb_ok buf"
    and bytes: "rb_bytes buf = pre @ x @ pad" and pad: "length pad = BS - length x mod BS"
  obtains buf' c where "encrypt_in_place line key st buf (length pre) (length x + length pad) (length pad) = Inr buf'"
    "rb_ok buf'" "rb_bytes buf' = pre @ c" "sealed line key st x c"
proof -
  define n where "n = length x div BS * BS"
  have len: "length x + length pad = n + BS" using padded_length [of x] by (simp add: pad n_def)
  have nx: "n \<le> length x" by (simp add: n_def div_times_less_eq_dividend)
  have tail: "length x - n = BS - length pad" using pad by (simp add: n_def minus_div_mult_eq_mod)
  have bc: "block_cipher (aes_E line key) (aes_D line key)"
    using aes.block_cipher_axioms [of line "(!) key"] key_as_map [OF key] by simp
  obtain c1 st1 c2 where c: "cbc_encrypt_process (aes_E line key) st (take n x) = Inr (c1, st1)" "length c1 = n"
    "cbc_encrypt_finish (aes_E line key) st1 (drop n x) = Inr (c2, c2)" "length c2 = BS"
    "cbc_decrypt_process (aes_D line key) st c1 = Inr (take n x, st1)"
    "cbc_decrypt_finish (aes_D line key) st1 c2 = Inr (drop n x)"
    by (rule block_cipher.message_roundtrip [OF bc st n_def]) blast
  have p1: "rb_peek buf (length pre) n = Inr (take n x)"
    using rb.peek_eq [OF buf, of "length pre" n] nx by (simp add: bytes)
  obtain b1 where b1: "rb_poke buf (length pre) c1 = Inr b1" "rb_ok b1" "rb_bytes b1 = pre @ c1 @ drop n x @ pad"
    using rb.poke_total [OF buf, of "length pre" c1] nx by (auto simp: bytes blit_def c(2))
  have p2: "rb_peek b1 (length pre + n) (BS - length pad) = Inr (drop n x)"
    using rb.peek_eq [OF b1(2), of "length pre + n" "BS - length pad"] nx tail by (simp add: b1(3) c(2))
  obtain b2 where b2: "rb_poke b1 (length pre + n) c2 = Inr b2" "rb_ok b2" "rb_bytes b2 = pre @ c1 @ c2"
    using rb.poke_total [OF b1(2), of "length pre + n" c2] nx len by (auto simp: b1(3) blit_def c(2,4))
  have "encrypt_in_place line key st buf (length pre) (n + BS) (length pad) = Inr b2"
    by (simp add: encrypt_in_place_def Let_def p1 c(1,3) b1(1) p2 b2(1))
  moreover have "sealed line key st x (c1 @ c2)" using c by (auto simp: sealed_def n_def)
  ultimately show thesis using that [of b2 "c1 @ c2"] b2 len by simp
qed

lemma decrypt_in_place_opens:
  assumes "sealed line key st x c" "rb_ok buf" "rb_bytes buf = pre @ c @ post"
  obtains buf' t where
    "decrypt_in_place line key st buf (length pre) (length c) = Inr (BS - length x mod BS, buf')"
    "rb_ok buf'" "rb_bytes buf' = pre @ x @ t @ post" "length (x @ t) = length c"
proof -
  define n where "n = length x div BS * BS"
  have nx: "n \<le> length x" by (simp add: n_def div_times_less_eq_dividend)
  have tail: "length x - n = length x mod BS" by (simp add: n_def minus_div_mult_eq_mod)
  obtain c1 st1 c2 where c: "c = c1 @ c2" "length c1 = n" "length c2 = BS"
    "cbc_decrypt_process (aes_D line key) st c1 = Inr (take n x, st1)"
    "cbc_decrypt_finish (aes_D line key) st1 c2 = Inr (drop n x)"
    using assms(1) by (auto simp: sealed_def n_def)
  have p1: "rb_peek buf (length pre) n = Inr c1"
    using rb.peek_eq [OF assms(2), of "length pre" n] by (simp add: assms(3) c)
  obtain b1 where b1: "rb_poke buf (length pre) (take n x) = Inr b1" "rb_ok b1"
    "rb_bytes b1 = pre @ take n x @ c2 @ post"
    using rb.poke_total [OF assms(2), of "length pre" "take n x"] nx by (auto simp: assms(3) blit_def c)
  have p2: "rb_peek b1 (length pre + n) BS = Inr c2"
    using rb.peek_eq [OF b1(2), of "length pre + n" BS] nx by (simp add: b1(3) c)
  have short: "length (drop n x) \<le> BS" using tail by (simp add: less_imp_le)
  obtain b2 where b2: "rb_poke b1 (length pre + n) (drop n x) = Inr b2" "rb_ok b2"
    "rb_bytes b2 = pre @ take n x @ drop n x @ drop (length (drop n x)) c2 @ post"
    using rb.poke_total [OF b1(2), of "length pre + n" "drop n x"] nx short le_diff_conv [of "length x" n BS] by (auto simp: b1(3) blit_def c)
  have "decrypt_in_place line key st buf (length pre) (length c) = Inr (BS - length x mod BS, b2)"
    using tail by (simp add: decrypt_in_place_def Let_def c(1-3) p1 c(4,5) b1(1) p2 b2(1))
  moreover have "rb_bytes b2 = pre @ x @ drop (length (drop n x)) c2 @ post"
    using b2(3) by (metis append_assoc append_take_drop_id)
  moreover have "length (x @ drop (length (drop n x)) c2) = length c" using nx short by (simp add: c)
  ultimately show thesis using that b2(2) by blast
qed

text \<open>The states of the two sides: equal, with a key and a nonce of sixteen bytes.\<close>

definition cipher_ok :: "cipher_impl \<Rightarrow> bool" where
  "cipher_ok ci \<longleftrightarrow> length (ci_key ci) = 16 \<and> length (ci_nonce ci) = 16"

lemma cipher_ok_bound: "cipher_ok cipher_impl_bound"
  by (simp add: cipher_ok_def cipher_impl_bound_def default_key_def default_nonce_def)

lemma algo_start_ok: "cipher_ok ci \<Longrightarrow> algo_start ci = Inr (ci_key ci, ci_nonce ci)"
  by (auto simp: algo_start_def cipher_ok_def BS_def)

text \<open>The state after a message with the payload \<open>x\<close>.\<close>

definition ci_hashed :: "cipher_impl \<Rightarrow> byte list \<Rightarrow> cipher_impl" where
  "ci_hashed ci x =
     (let r = sha_final_result (sha_add_data (ci_data ci) (sha_add_data (take 64 x) (ci_hasher ci)))
      in ci\<lparr>ci_data := fst r, ci_hasher := snd r\<rparr>)"

definition ci_next :: "nat \<Rightarrow> cipher_impl \<Rightarrow> byte list \<Rightarrow> cipher_impl" where
  "ci_next interval ci x =
     (let ci1 = ci_hashed ci x; n = take 16 (ci_data ci1)
      in ci1\<lparr>ci_nonce := n, ci_key := (if ci_count ci mod interval = 0 then n else ci_key ci),
             ci_count := ci_count ci + 1\<rparr>)"

lemma update_hash_ok:
  "rb_ok buf \<Longrightarrow> rb_bytes buf = pre @ x @ post \<Longrightarrow> update_hash buf (length pre) (length x) ci = Inr (ci_hashed ci x)"
  using rb.peek_eq [of buf "length pre" "min (length x) 64"]
  by (simp add: update_hash_def ci_hashed_def min_def Let_def)

lemma length_ci_hashed: "length (ci_data (ci_hashed ci x)) = 20"
proof -
  have "length (copy_out d) = 20" for d by (cases d) simp
  then show ?thesis by (simp add: ci_hashed_def sha_final_result_def Let_def)
qed

lemma complete_ci_ok:
  "0 < interval \<Longrightarrow> complete_ci interval (ci_hashed ci x) = Inr (ci_next interval ci x)"
  by (simp add: complete_ci_def ci_next_def length_ci_hashed update_key_def Let_def) (simp add: ci_hashed_def Let_def)

lemma cipher_ok_next: "cipher_ok ci \<Longrightarrow> cipher_ok (ci_next interval ci x)"
  by (simp add: cipher_ok_def ci_next_def length_ci_hashed Let_def)

lemma cipher_send_run:
  assumes ok: "cipher_ok ci" and buf: "rb_ok buf" and bytes: "rb_bytes buf = hdr @ x"
    and hdr: "length hdr = header_length" and x: "x \<noteq> []" and interval: "0 < interval"
  obtains b c where "cipher_on_send line interval ci buf 0 (length (rb_bytes buf)) =
      Inr ((True, success), b, ci_next interval ci x)" "rb_ok b"
    "rb_bytes b = length_field (header_length + length c) @ drop 4 hdr @ c"
    "sealed line (ci_key ci) (ci_nonce ci) x c"
proof -
  define pad where "pad = take (BS - length x mod BS) cipher_pad"
  have pad: "length pad = BS - length x mod BS" by (simp add: pad_def cipher_pad_def BS_def)
  have take_pad: "take (length pad) cipher_pad = pad" by (simp only: pad) (simp only: pad_def)
  have key: "length (ci_key ci) = 16" "length (ci_nonce ci) = BS" using ok by (simp_all add: cipher_ok_def BS_def)
  obtain b1 where b1: "rb_append buf pad = Inr b1" "rb_ok b1" "rb_bytes b1 = hdr @ x @ pad"
    using rb.append_total [OF buf] by (auto simp: bytes)
  have prep: "send_prepare b1 0 (header_length + length x) ci = Inr (ci_key ci, ci_nonce ci, ci_hashed ci x)"
    using update_hash_ok [OF b1(2,3)] hdr by (simp add: send_prepare_def algo_start_ok [OF ok])
  obtain b2 c where b2: "encrypt_in_place line (ci_key ci) (ci_nonce ci) b1 header_length (length x + length pad) (length pad) = Inr b2"
    "rb_ok b2" "rb_bytes b2 = hdr @ c" "sealed line (ci_key ci) (ci_nonce ci) x c"
    using encrypt_in_place_seals [OF key b1(2,3) pad, of line] hdr by auto
  have len: "length x + length pad = length c"
    using length_sealed [OF b2(4)] padded_length [of x] pad by simp
  obtain b3 where b3: "rb_poke b2 0 (length_field (header_length + length c)) = Inr b3" "rb_ok b3"
    "rb_bytes b3 = length_field (header_length + length c) @ drop 4 hdr @ c"
    using rb.poke_total [OF b2(2), of 0 "length_field (header_length + length c)"] hdr
    by (auto simp: b2(3) blit_def header_length_def)
  have "cipher_on_send line interval ci buf 0 (length (rb_bytes buf)) =
      Inr ((True, success), b3, ci_next interval ci x)"
    using x hdr b1(1) prep b2(1) b3(1) len
    by (simp add: cipher_on_send_def bytes Let_def pad [symmetric] take_pad complete_ci_ok [OF interval]
      update_length_field_def add.assoc)
  then show thesis using that b2(4) b3 by blast
qed

lemma header_split: "header_length \<le> length m \<Longrightarrow> m = take header_length m @ drop header_length m"
  by simp

interpretation cipher: modifier "cipher_on_send line (Suc k)" "cipher_on_recv line (Suc k)"
  "\<lambda>s r. s = r \<and> cipher_ok s" for line k
proof (unfold_locales, goal_cases)
  case (1 s r buf)
  define hdr x where "hdr = take header_length (rb_bytes buf)" and "x = drop header_length (rb_bytes buf)"
  have bytes: "rb_bytes buf = hdr @ x" and hdr: "length hdr = header_length" using 1(3) by (simp_all add: hdr_def x_def)
  show ?case
  proof (cases "x = []")
    case True
    then show ?thesis using 1 hdr by (simp add: cipher_on_send_def bytes)
  next
    case False
    obtain b c where b: "cipher_on_send line (Suc k) s buf 0 (length (rb_bytes buf)) =
        Inr ((True, success), b, ci_next (Suc k) s x)" "rb_ok b"
      "rb_bytes b = length_field (header_length + length c) @ drop 4 hdr @ c" "sealed line (ci_key s) (ci_nonce s) x c"
      using cipher_send_run [OF _ 1(2) bytes hdr False, of s "Suc k" line] 1(1) by auto
    have "length x \<le> length c" using length_sealed [OF b(4)] padded_length [of x] by linarith
    then show ?thesis using b hdr by (simp add: bytes header_length_def)
  qed
next
  case (2 s r buf buf' s' y rbuf pre post)
  define hdr x where "hdr = take header_length (rb_bytes buf)" and "x = drop header_length (rb_bytes buf)"
  have bytes: "rb_bytes buf = hdr @ x" and hdr: "length hdr = header_length" using 2(3) by (simp_all add: hdr_def x_def)
  have ok: "cipher_ok s" and r: "r = s" using 2(1) by auto
  show ?case
  proof (cases "x = []")
    case True
    then have sent: "buf' = buf" "s' = s" using 2(4) hdr by (simp_all add: cipher_on_send_def bytes)
    have "length y = header_length" using 2(5) sent True hdr by (simp add: same_message_def bytes)
    then show ?thesis using 2(5,6,7) sent True hdr ok r
      by (intro exI [of _ rbuf] exI [of _ y]) (auto simp add: cipher_on_recv_def same_message_def bytes)
  next
    case False
    obtain b c where b: "cipher_on_send line (Suc k) s buf 0 (length (rb_bytes buf)) =
        Inr ((True, success), b, ci_next (Suc k) s x)"
      "rb_bytes b = length_field (header_length + length c) @ drop 4 hdr @ c" "sealed line (ci_key s) (ci_nonce s) x c"
      using cipher_send_run [OF ok 2(2) bytes hdr False, of "Suc k" line] by blast
    have sent: "buf' = b" "s' = ci_next (Suc k) s x" using 2(4) b(1) by simp_all
    obtain l where l: "length l = 4" "y = l @ drop 4 hdr @ c"
    proof
      show "length (take 4 y) = 4" "y = take 4 y @ drop 4 hdr @ c"
        using 2(5) b(2) sent(1) append_take_drop_id [of 4 y] by (simp_all add: same_message_def header_length_def)
    qed
    define h' where "h' = l @ drop 4 hdr"
    have h': "length h' = header_length" "y = h' @ c" "take 4 h' = l" using l hdr by (simp_all add: h'_def header_length_def)
    have lc: "length c = length x div BS * BS + BS" by (rule length_sealed [OF b(3)])
    obtain rb t where rb: "decrypt_in_place line (ci_key s) (ci_nonce s) rbuf (length (pre @ h')) (length c) =
        Inr (BS - length x mod BS, rb)" "rb_ok rb" "rb_bytes rb = (pre @ h') @ x @ t @ post" "length (x @ t) = length c"
      using decrypt_in_place_opens [OF b(3) 2(6), of "pre @ h'" post] 2(7) h'(2) by auto
    have pl: "length c - (BS - length x mod BS) = length x"
      using padded_length [of x] lc by simp
    have ge: "BS - length x mod BS \<le> length c" using lc by simp
    have "update_hash rb (length (pre @ h')) (length x) s = Inr (ci_hashed s x)"
      using update_hash_ok [OF rb(2), of "pre @ h'" x "t @ post"] rb(3) by simp
    then have run: "cipher_on_recv line (Suc k) r rbuf (length pre) (length y) =
        Inr ((True, success), header_length + length x, rb, s')"
      using rb(1) h'(1,2) lc pl ge
      by (simp add: cipher_on_recv_def r algo_start_ok [OF ok] complete_ci_ok sent(2))
    have same: "same_message (take (header_length + length x) (h' @ x @ t)) (rb_bytes buf)"
      using l(1) hdr h'(1) by (simp add: same_message_def bytes h'_def)
    show ?thesis
    proof (intro exI conjI)
      show "cipher_on_recv line (Suc k) r rbuf (length pre) (length y) =
        Inr ((True, success), header_length + length x, rb, s')" by (rule run)
      show "rb_bytes rb = pre @ (h' @ x @ t) @ post" using rb(3) by simp
      show "length (h' @ x @ t) = length y" using rb(4) h' by simp
      show "take 4 (h' @ x @ t) = take 4 y" using h' by (simp add: header_length_def)
    qed (use same rb(2) sent ok cipher_ok_next hdr in \<open>simp_all add: bytes\<close>)
  qed
qed

text \<open>
  C9. The cipher modifier restores every message. From any equal states with a key and a
  nonce of sixteen bytes (which \<open>on_bind\<close> gives both sides) and for a message of a header and
  a payload of any length, the sender's encryption succeeds, pads the payload to the next
  full block and writes the new length in the header; the receiver, wherever the encrypted message lies in its buffer,
  decrypts it without a fault, reports the original length, restores all bytes behind the
  length field and leaves the bytes around the message alone, and both sides end with equal
  states again, so the next message is decrypted too.
\<close>

theorem cipher_roundtrip:
  assumes "length (ci_key ci) = 16" "length (ci_nonce ci) = 16" "0 < interval"
    and "rb_ok buf" "rb_bytes buf = hdr @ payload" "length hdr = 8"
    and "rb_ok rbuf"
  shows "\<exists>sent ci'. cipher_on_send line interval ci buf 0 (length (rb_bytes buf)) = Inr ((True, success), sent, ci') \<and>
    (payload \<noteq> [] \<longrightarrow> length (rb_bytes sent) = 8 + (length payload div 16 + 1) * 16) \<and>
    (rb_bytes rbuf = pre @ rb_bytes sent @ post \<longrightarrow>
      (\<exists>rbuf' x. cipher_on_recv line interval ci rbuf (length pre) (length (rb_bytes sent)) =
          Inr ((True, success), 8 + length payload, rbuf', ci') \<and>
        rb_bytes rbuf' = pre @ x @ post \<and> drop 4 (take (8 + length payload) x) = drop 4 (hdr @ payload)))"
proof -
  have ok: "cipher_ok ci" and hl: "header_length \<le> length (rb_bytes buf)"
    using assms by (simp_all add: cipher_ok_def header_length_def)
  have hl8: "length hdr = header_length" using assms(6) by (simp add: header_length_def)
  obtain k where k: "interval = Suc k" using assms(3) by (cases interval) auto
  have sync: "ci = ci \<and> cipher_ok ci" using ok by simp
  obtain sent ci' where sent: "cipher_on_send line interval ci buf 0 (length (rb_bytes buf)) = Inr ((True, success), sent, ci')"
    using cipher.send_total [OF sync assms(4) hl, of line k] k by auto
  have "length (rb_bytes sent) = 8 + (length payload div 16 + 1) * 16" if ne: "payload \<noteq> []"
  proof -
    obtain b c where "cipher_on_send line interval ci buf 0 (length (rb_bytes buf)) =
        Inr ((True, success), b, ci_next interval ci payload)"
      "rb_bytes b = length_field (header_length + length c) @ drop 4 hdr @ c" "sealed line (ci_key ci) (ci_nonce ci) payload c"
      using cipher_send_run [OF ok assms(4,5) hl8 ne assms(3), of line] by blast
    then show ?thesis using sent assms(6) by (auto simp: BS_def header_length_def dest!: length_sealed)
  qed
  moreover have "\<exists>rbuf' x. cipher_on_recv line interval ci rbuf (length pre) (length (rb_bytes sent)) =
          Inr ((True, success), 8 + length payload, rbuf', ci') \<and>
        rb_bytes rbuf' = pre @ x @ post \<and> drop 4 (take (8 + length payload) x) = drop 4 (hdr @ payload)"
    if "rb_bytes rbuf = pre @ rb_bytes sent @ post"
    using cipher.recv_sent [OF sync assms(4) hl, of line k sent ci' "rb_bytes sent" rbuf pre post] sent k that assms(5,6,7)
    by (auto simp: same_message_def)
  ultimately show ?thesis using sent by blast
qed

theorem cipher_roundtrip_witness:
  "\<exists>buf rbuf sent rbuf' x ci'. rb_bytes buf = [10, 0, 0, 0, 7, 0, 0, 0, 1, 2] \<and>
    cipher_on_send 16 1024 cipher_impl_bound buf 0 10 = Inr ((True, success), sent, ci') \<and>
    length (rb_bytes sent) = 24 \<and> rb_bytes rbuf = [5] @ rb_bytes sent @ [6] \<and>
    cipher_on_recv 16 1024 cipher_impl_bound rbuf 1 24 = Inr ((True, success), 10, rbuf', ci') \<and>
    rb_bytes rbuf' = [5] @ x @ [6] \<and> drop 4 (take 10 x) = [7, 0, 0, 0, 1, 2]"
proof -
  obtain buf where buf: "rb_ok buf" "rb_bytes buf = [10, 0, 0, 0, 7, 0, 0, 0] @ [1, 2]"
    using rb_ok_of_bytes by blast
  have k: "length (ci_key cipher_impl_bound) = 16" "length (ci_nonce cipher_impl_bound) = 16"
    using cipher_ok_bound by (simp_all add: cipher_ok_def)
  have len: "length (rb_bytes buf) = 10" by (simp add: buf(2))
  note rt = cipher_roundtrip [where pre = "[5]" and post = "[6]" and line = 16 and interval = 1024, OF k _ buf]
  obtain sent ci' where s: "cipher_on_send 16 1024 cipher_impl_bound buf 0 10 = Inr ((True, success), sent, ci')"
    "length (rb_bytes sent) = 24"
    using rt [OF _ _ buf(1)] unfolding len by auto
  obtain rbuf where r: "rb_ok rbuf" "rb_bytes rbuf = [5] @ rb_bytes sent @ [6]"
    using rb_ok_of_bytes by blast
  obtain rbuf' x where "cipher_on_recv 16 1024 cipher_impl_bound rbuf 1 24 = Inr ((True, success), 10, rbuf', ci')"
    "rb_bytes rbuf' = [5] @ x @ [6]" "drop 4 (take 10 x) = [7, 0, 0, 0, 1, 2]"
    using rt [OF _ _ r(1)] s r(2) unfolding len by auto
  then show ?thesis using s r(2) buf(2)
    by (intro exI [of _ buf] exI [of _ rbuf] exI [of _ sent] exI [of _ rbuf'] exI [of _ x] exI [of _ ci']) simp
qed

end
