(* ===== verification/Bits_Protocol.thy ===== *)
theory Bits_Protocol
  imports Bits_Message Cipher "HOL-Library.Sublist"
begin

text \<open>
  \<open>bits_protocol\<close> (\<open>src/net/protocol/bits/bits_protocol.cpp\<close>): messages are packed, modified
  and handed to the session; the bytes a session received are collected in \<open>recv_buf_\<close>, cut into
  messages by their length fields, checked, unpacked and posted.
\<close>

section \<open>Configuration and state\<close>

record bits_config =
  enable_cipher :: bool
  enable_checksum :: bool
  enable_sequence :: bool
  enable_loopback :: bool

text \<open>
  What the protocol finds around it: the configuration, the registered messages with the reading
  and writing of their bodies, the cache line of the host and \<open>cipher::cfg.key_change_interval\<close>.
\<close>

record 'a bits_env =
  cfg :: bits_config
  env_ser :: "'a \<Rightarrow> byte list list"
  env_de :: "'a \<Rightarrow> byte list \<Rightarrow> ('a \<times> byte list) option"
  env_factory :: "'a factory"
  env_line :: nat
  env_interval :: nat

record bits_protocol =
  bp_recv_buf :: rbuf
  bp_sequencer :: sequencer
  bp_sender :: cipher_impl
  bp_receiver :: cipher_impl

definition bits_on_bind :: "bits_protocol \<Rightarrow> bits_protocol" where
  "bits_on_bind bp =
     bp\<lparr>bp_sequencer := snd (sequencer_on_bind (bp_sequencer bp)),
        bp_receiver := fst (snd cipher_on_bind), bp_sender := snd (snd cipher_on_bind)\<rparr>"

definition needs_to_modify :: "bits_config \<Rightarrow> 'a bits_message \<Rightarrow> bool" where
  "needs_to_modify c m \<longleftrightarrow>
     (enable_cipher c \<and> bm_cipher m) \<or> (enable_checksum c \<and> bm_checksum m) \<or> (enable_sequence c \<and> bm_sequence m)"

section \<open>The modifiers in order\<close>

type_synonym mod_state = "(sequencer \<times> unit) \<times> cipher_impl"

definition sender_mods :: "bits_protocol \<Rightarrow> mod_state" where
  "sender_mods bp = ((bp_sequencer bp, ()), bp_sender bp)"

definition set_sender_mods :: "mod_state \<Rightarrow> bits_protocol \<Rightarrow> bits_protocol" where
  "set_sender_mods st bp = bp\<lparr>bp_sequencer := fst (fst st), bp_sender := snd st\<rparr>"

definition receiver_mods :: "bits_protocol \<Rightarrow> mod_state" where
  "receiver_mods bp = ((bp_sequencer bp, ()), bp_receiver bp)"

definition set_receiver_mods :: "mod_state \<Rightarrow> bits_protocol \<Rightarrow> bits_protocol" where
  "set_receiver_mods st bp = bp\<lparr>bp_sequencer := fst (fst st), bp_receiver := snd st\<rparr>"

text \<open>The calls of \<open>send_modified\<close>: sequence, checksum, cipher.\<close>

definition send_mods :: "'a bits_env \<Rightarrow> bool \<Rightarrow> bool \<Rightarrow> bool \<Rightarrow> mod_state send_handler" where
  "send_mods env seq crc enc =
     then_send (then_send (when_send (enable_sequence (cfg env) \<and> seq) sequencer_on_send)
                          (when_send (enable_checksum (cfg env) \<and> crc) checksum_on_send))
       (when_send (enable_cipher (cfg env) \<and> enc) (cipher_on_send (env_line env) (env_interval env)))"

text \<open>The calls of \<open>recv_modified\<close>: cipher, checksum, sequence.\<close>

definition recv_mods :: "'a bits_env \<Rightarrow> bool \<Rightarrow> bool \<Rightarrow> bool \<Rightarrow> mod_state recv_handler" where
  "recv_mods env seq crc enc =
     then_recv (when_recv (enable_cipher (cfg env) \<and> enc) (cipher_on_recv (env_line env) (env_interval env)))
       (then_recv (when_recv (enable_checksum (cfg env) \<and> crc) checksum_on_recv)
                  (when_recv (enable_sequence (cfg env) \<and> seq) sequencer_on_recv))"

definition recv_modified :: "'a bits_env \<Rightarrow> 'a bits_message \<Rightarrow> mod_state recv_handler" where
  "recv_modified env mp = recv_mods env (bm_sequence mp) (bm_checksum mp) (bm_cipher mp)"

text \<open>A handler that never lengthens a message nor resizes the buffer.\<close>

definition shrinks :: "'s recv_handler \<Rightarrow> bool" where
  "shrinks h \<longleftrightarrow> (\<forall>s buf pos len rc n buf' s'. h s buf pos len = Inr (rc, n, buf', s') \<longrightarrow>
     n \<le> len \<and> rb_size buf' = rb_size buf)"

lemma poke_size: "rb_poke b i xs = Inr b' \<Longrightarrow> rb_size b' = rb_size b"
  by (auto simp: rb_poke_def rb_size_def split: option.splits if_splits)

lemma shrinks_sequencer: "shrinks sequencer_on_recv"
  by (auto simp: shrinks_def sequencer_on_recv_def Let_def split: sum.splits if_splits)

lemma shrinks_checksum: "shrinks checksum_on_recv"
  by (auto simp: shrinks_def checksum_on_recv_def split: sum.splits if_splits)

lemma decrypt_in_place_size:
  "decrypt_in_place line key st buf pos len = Inr (n, buf') \<Longrightarrow> rb_size buf' = rb_size buf"
  by (auto simp: decrypt_in_place_def Let_def poke_size split: sum.splits)

lemma shrinks_cipher: "shrinks (cipher_on_recv line interval)"
  by (auto simp: shrinks_def cipher_on_recv_def decrypt_in_place_size split: sum.splits if_splits prod.splits)

lemma shrinks_when: "shrinks h \<Longrightarrow> shrinks (when_recv on h)"
  unfolding shrinks_def when_recv_def by auto

lemma shrinks_then: "shrinks g \<Longrightarrow> shrinks f \<Longrightarrow> shrinks (then_recv g f)"
  unfolding shrinks_def then_recv_def
  by (auto split: sum.splits if_splits prod.splits) (meson le_trans)+

lemma shrinks_recv_mods: "shrinks (recv_mods env seq crc enc)"
  unfolding recv_mods_def
  by (intro shrinks_then shrinks_when shrinks_cipher shrinks_checksum shrinks_sequencer)

lemma recv_modified_shrinks:
  "recv_modified env mp st buf pos len = Inr (rc, n, buf', st') \<Longrightarrow> n \<le> len \<and> rb_size buf' = rb_size buf"
  using shrinks_recv_mods [unfolded shrinks_def] unfolding recv_modified_def by blast

section \<open>on\_recv\<close>

definition get_length :: "rbuf \<Rightarrow> nat \<Rightarrow> fault + nat" where
  "get_length buf ri = map_sum id (\<lambda>b. unat (of_le32 b)) (rb_peek buf ri 4)"

definition get_topic :: "rbuf \<Rightarrow> nat \<Rightarrow> fault + u32" where
  "get_topic buf ri = map_sum id of_le32 (rb_peek buf ri 4)"

text \<open>
  The loop: the result, the messages posted, the modifiers, the buffer and \<open>processed_len\<close>. It
  ends because a message that unpacked had at least a header.
\<close>

function recv_loop :: "'a bits_env \<Rightarrow> mod_state \<Rightarrow> rbuf \<Rightarrow> nat \<Rightarrow> 'a bits_message list \<Rightarrow>
    fault + (net_result \<times> 'a bits_message list \<times> mod_state \<times> rbuf \<times> nat)" where
  "recv_loop env st buf processed posted =
     (if header_length < rb_size buf - processed
      then (case get_length buf processed of
              Inl f \<Rightarrow> Inl f
            | Inr msg_len \<Rightarrow>
                (if rb_size buf - processed < msg_len then Inr ((True, success), posted, st, buf, processed)
                 else (case get_topic buf (processed + 4) of
                         Inl f \<Rightarrow> Inl f
                       | Inr topic \<Rightarrow>
                (case factory_create topic (env_factory env) of
                   None \<Rightarrow> Inr ((False, fail_bits_message_not_registered), posted, st, buf, processed)
                 | Some mp \<Rightarrow>
                (case recv_modified env mp st buf processed msg_len of
                   Inl f \<Rightarrow> Inl f
                 | Inr (rc, final_len, buf1, st1) \<Rightarrow>
                     (if \<not> fst rc then Inr (rc, posted, st1, buf1, processed)
                      else (case bits_unpack (env_de env) mp buf1 processed final_len of
                              Inl f \<Rightarrow> Inl f
                            | Inr None \<Rightarrow> Inr ((False, fail_bits_unpack_error), posted, st1, buf1, processed)
                            | Inr (Some m) \<Rightarrow> recv_loop env st1 buf1 (processed + msg_len) (posted @ [m]))))))))
      else Inr ((True, success), posted, st, buf, processed))"
  by pat_completeness auto
termination
  by (relation "measure (\<lambda>(env, st, buf, processed, posted). rb_size buf - processed)")
    (auto dest!: recv_modified_shrinks unpack_long_enough)

declare recv_loop.simps [simp del]

text \<open>\<open>bytes\<close> may be null.\<close>

definition bits_on_recv :: "'a bits_env \<Rightarrow> byte list option \<Rightarrow> bits_protocol \<Rightarrow>
    fault + (net_result \<times> 'a bits_message list \<times> bits_protocol)" where
  "bits_on_recv env bytes bp =
     (case bytes of
        None \<Rightarrow> Inr ((False, fail_null_pointer), [], bp)
      | Some bs \<Rightarrow>
          (if bs = [] then Inr ((False, fail_zero_size_data), [], bp)
           else (case rb_append (bp_recv_buf bp) bs of
                   Inl f \<Rightarrow> Inl f
                 | Inr buf \<Rightarrow>
                     (case recv_loop env (receiver_mods bp) buf 0 [] of
                        Inl f \<Rightarrow> Inl f
                      | Inr (rc, posted, st, buf1, processed) \<Rightarrow>
                          (let bp1 = (set_receiver_mods st bp)\<lparr>bp_recv_buf := buf1\<rparr>
                           in if \<not> fst rc then Inr (rc, posted, bp1)
                              else (case rb_pop_front buf1 processed of
                                      Inl f \<Rightarrow> Inl f
                                    | Inr buf2 \<Rightarrow> Inr (rc, posted, bp1\<lparr>bp_recv_buf := buf2\<rparr>)))))))"

section \<open>send\<close>

text \<open>
  \<open>protocol::send\<close> hands bytes to the session, if there is one; with \<open>enable_loopback\<close> the
  protocol receives them itself. \<open>'w\<close> is the world of the session.
\<close>

type_synonym 'w session_send = "byte list \<Rightarrow> 'w \<Rightarrow> net_result \<times> 'w"

type_synonym ('a, 'w) send_result = "fault + (net_result \<times> 'a bits_message list \<times> bits_protocol \<times> 'w)"

definition bits_transmit ::
  "'a bits_env \<Rightarrow> 'w session_send option \<Rightarrow> byte list \<Rightarrow> bits_protocol \<Rightarrow> 'w \<Rightarrow> ('a, 'w) send_result" where
  "bits_transmit env sess data bp w =
     (if enable_loopback (cfg env)
      then (case bits_on_recv env (Some data) bp of
              Inl f \<Rightarrow> Inl f | Inr (rc, posted, bp') \<Rightarrow> Inr (rc, posted, bp', w))
      else (case sess of
              None \<Rightarrow> Inr ((False, fail_invalid_session), [], bp, w)
            | Some send \<Rightarrow> (case send data w of (rc, w') \<Rightarrow> Inr (rc, [], bp, w'))))"

definition send_modified ::
  "'a bits_env \<Rightarrow> 'w session_send option \<Rightarrow> 'a bits_message \<Rightarrow> rbuf \<Rightarrow> bits_protocol \<Rightarrow> 'w \<Rightarrow> ('a, 'w) send_result" where
  "send_modified env sess mp buf bp w =
     (case send_mods env (bm_sequence mp) (bm_checksum mp) (bm_cipher mp) (sender_mods bp) buf 0 (rb_size buf) of
        Inl f \<Rightarrow> Inl f
      | Inr (rc, buf1, st) \<Rightarrow>
          (if \<not> fst rc then Inr (rc, [], set_sender_mods st bp, w)
           else (case rb_peek buf1 0 (rb_size buf1) of
                   Inl f \<Rightarrow> Inl f
                 | Inr data \<Rightarrow> bits_transmit env sess data (set_sender_mods st bp) w)))"

definition send_final ::
  "'a bits_env \<Rightarrow> 'w session_send option \<Rightarrow> 'a bits_message \<Rightarrow> rbuf \<Rightarrow> nat \<Rightarrow> bits_protocol \<Rightarrow> 'w \<Rightarrow> ('a, 'w) send_result" where
  "send_final env sess mp buf len bp w =
     (if \<not> needs_to_modify (cfg env) mp
      then (case rb_peek buf 0 len of Inl f \<Rightarrow> Inl f | Inr data \<Rightarrow> bits_transmit env sess data bp w)
      else send_modified env sess mp buf bp w)"

text \<open>
  \<open>send\<close> of a message into a buffer over the pool \<open>p\<close>; \<open>length_field\<close> is what the four
  assignments through the iterator write.
\<close>

definition bits_send ::
  "'a bits_env \<Rightarrow> 'w session_send option \<Rightarrow> buffer_pool \<Rightarrow> 'a bits_message option \<Rightarrow> bits_protocol \<Rightarrow> 'w \<Rightarrow>
    ('a, 'w) send_result" where
  "bits_send env sess p m bp w =
     (case m of
        None \<Rightarrow> Inr ((False, fail_null_message_pointer), [], bp, w)
      | Some mp \<Rightarrow>
          (case bits_pack (env_ser env) mp (rbuf_new p 8192) of
             Inl f \<Rightarrow> Inl f
           | Inr (sz, buf, mp1) \<Rightarrow>
               (if sz < header_length then Inr ((False, fail_bits_pack_error), [], bp, w)
                else (case rb_poke (rb_rewind buf sz) 0 (length_field sz) of
                        Inl f \<Rightarrow> Inl f
                      | Inr buf1 \<Rightarrow> send_final env sess mp1 buf1 sz bp w))))"

text \<open>\<open>send\<close> of a message that was packed before.\<close>

definition bits_send_packed ::
  "'a bits_env \<Rightarrow> 'w session_send option \<Rightarrow> buffer_pool \<Rightarrow> 'a bits_message option \<Rightarrow> byte list option \<Rightarrow>
    bits_protocol \<Rightarrow> 'w \<Rightarrow> ('a, 'w) send_result" where
  "bits_send_packed env sess p m data bp w =
     (case m of
        None \<Rightarrow> Inr ((False, fail_null_message_pointer), [], bp, w)
      | Some mp \<Rightarrow>
          (case data of
             None \<Rightarrow> Inr ((False, fail_null_pointer), [], bp, w)
           | Some bs \<Rightarrow>
               (if length bs < header_length then Inr ((False, fail_invalid_message_header), [], bp, w)
                else if \<not> needs_to_modify (cfg env) mp then bits_transmit env sess bs bp w
                else (case rb_append (rbuf_new p 8192) bs of
                        Inl f \<Rightarrow> Inl f
                      | Inr buf \<Rightarrow> send_modified env sess mp buf bp w))))"

section \<open>The pipeline of modifiers\<close>

interpretation seq: optional_modifier sequencer_on_send sequencer_on_recv "\<lambda>s r. send_seq s = recv_seq r" on
  for on :: bool
  by (rule optional_modifier.intro [OF sequencer.modifier_axioms])

interpretation crc: optional_modifier checksum_on_send checksum_on_recv "\<lambda>s r. True" on
  for on :: bool
  by (rule optional_modifier.intro [OF checksum.modifier_axioms])

interpretation enc: optional_modifier "cipher_on_send line (Suc k)" "cipher_on_recv line (Suc k)"
  "\<lambda>s r. s = r \<and> cipher_ok s" on
  for line k and on :: bool
  by (rule optional_modifier.intro [OF cipher.modifier_axioms])

interpretation checked: modifier_pair "when_send b1 sequencer_on_send" "when_recv b1 sequencer_on_recv"
  "\<lambda>s r. send_seq s = recv_seq r" "when_send b2 checksum_on_send" "when_recv b2 checksum_on_recv" "\<lambda>s r. True"
  for b1 b2 :: bool
  by (rule modifier_pair.intro [OF seq.opt.modifier_axioms crc.opt.modifier_axioms])

interpretation pipeline: modifier_pair
  "then_send (when_send b1 sequencer_on_send) (when_send b2 checksum_on_send)"
  "then_recv (when_recv b2 checksum_on_recv) (when_recv b1 sequencer_on_recv)"
  "\<lambda>st rq. send_seq (fst st) = recv_seq (fst rq) \<and> True"
  "when_send b3 (cipher_on_send line (Suc k))" "when_recv b3 (cipher_on_recv line (Suc k))"
  "\<lambda>s r. s = r \<and> cipher_ok s"
  for b1 b2 b3 :: bool and line k
  by (rule modifier_pair.intro [OF checked.pair.modifier_axioms enc.opt.modifier_axioms])

text \<open>The two protocols are in step: the next sequence byte and the cipher states agree.\<close>

definition in_step :: "mod_state \<Rightarrow> mod_state \<Rightarrow> bool" where
  "in_step s r \<longleftrightarrow> send_seq (fst (fst s)) = recv_seq (fst (fst r)) \<and> snd s = snd r \<and> cipher_ok (snd s)"

lemma mods_modifier:
  assumes "0 < env_interval env"
  shows "modifier (send_mods env b1 b2 b3) (recv_mods env b1 b2 b3) in_step"
proof -
  obtain k where k: "env_interval env = Suc k" using assms by (cases "env_interval env") auto
  have "in_step = (\<lambda>st rq. (send_seq (fst (fst st)) = recv_seq (fst (fst rq)) \<and> True) \<and> snd st = snd rq \<and> cipher_ok (snd st))"
    by (simp add: fun_eq_iff in_step_def)
  then show ?thesis
    using pipeline.pair.modifier_axioms unfolding send_mods_def recv_mods_def k by simp
qed

section \<open>One message on the wire\<close>

text \<open>The image \<open>send\<close> gives to the modifiers: the packed message with its length field.\<close>

definition wire_image :: "'a bits_env \<Rightarrow> 'a bits_message \<Rightarrow> byte list" where
  "wire_image env m = length_field (length (packed (env_ser env) m)) @ drop 4 (packed (env_ser env) m)"

lemma wire_image_split: "wire_image env m =
    length_field (length (packed (env_ser env) m)) @ le32 (bm_key m) @ concat (env_ser env (bm_body m))"
  by (simp add: wire_image_def packed_def)

lemma length_wire_image: "length (wire_image env m) = length (packed (env_ser env) m)" "8 \<le> length (wire_image env m)"
  by (simp_all add: wire_image_split packed_def)

text \<open>\<open>m\<close> goes out as the bytes \<open>w\<close>, and the sending modifiers go from \<open>s\<close> to \<open>s'\<close>.\<close>

definition sent_as :: "'a bits_env \<Rightarrow> 'a bits_message \<Rightarrow> mod_state \<Rightarrow> byte list \<Rightarrow> mod_state \<Rightarrow> bool" where
  "sent_as env m s w s' \<longleftrightarrow>
     (\<exists>buf buf'. rb_ok buf \<and> rb_bytes buf = wire_image env m \<and>
       send_mods env (bm_sequence m) (bm_checksum m) (bm_cipher m) s buf 0 (length (rb_bytes buf)) =
         Inr ((True, success), buf', s') \<and> rb_ok buf' \<and> rb_bytes buf' = w)"

text \<open>The session of these lemmas takes every buffer and keeps a list of them.\<close>

definition stream_session :: "byte list list session_send" where
  "stream_session data w = ((True, success), w @ [data])"

lemma set_sender_mods_id [simp]: "set_sender_mods (sender_mods bp) bp = bp"
  by (simp add: set_sender_mods_def sender_mods_def)

lemma sender_mods_set [simp]: "sender_mods (set_sender_mods st bp) = st"
  by (cases st) (auto simp: sender_mods_def set_sender_mods_def)

lemma receiver_mods_set [simp]:
  "receiver_mods (set_receiver_mods st bp) = st" "receiver_mods (bp\<lparr>bp_recv_buf := buf\<rparr>) = receiver_mods bp"
  by (cases st; auto simp: receiver_mods_def set_receiver_mods_def)+

lemma no_mods:
  "\<not> needs_to_modify (cfg env) m \<Longrightarrow>
    send_mods env (bm_sequence m) (bm_checksum m) (bm_cipher m) s buf pos len = Inr ((True, success), buf, s)"
  by (cases s) (auto simp: needs_to_modify_def send_mods_def then_send_def when_send_def)

lemma send_one:
  assumes loop: "\<not> enable_loopback (cfg env)" and interval: "0 < env_interval env"
    and pool: "pool_inv p held" and len: "length (packed (env_ser env) m) \<le> 16384"
    and step: "in_step (sender_mods bp) r"
  obtains wire st where "bits_send env (Some stream_session) p (Some m) bp ws =
      Inr ((True, success), [], set_sender_mods st bp, ws @ [wire])"
    "sent_as env m (sender_mods bp) wire st" "\<exists>r'. in_step st r'"
proof -
  let ?x = "packed (env_ser env) m"
  note mods = mods_modifier [OF interval, of "bm_sequence m" "bm_checksum m" "bm_cipher m"]
  obtain buf where buf: "bits_pack (env_ser env) m (rbuf_new p 8192) = Inr (length ?x, buf, m\<lparr>bm_topic := bm_key m\<rparr>)"
    "packing held buf ?x"
    using pack_ok [OF pool len] by blast
  have ne: "?x \<noteq> []" by (simp add: packed_def le32_def)
  note rw = packing_rewind [OF buf(2) ne]
  have ok: "rb_ok (rb_rewind buf (length ?x))" using rw by (auto simp: rb_ok_def rb_inv_def)
  have n: "8 \<le> length ?x" by (simp add: packed_def)
  obtain b1 where b1: "rb_poke (rb_rewind buf (length ?x)) 0 (length_field (length ?x)) = Inr b1" "rb_ok b1"
    "rb_bytes b1 = wire_image env m"
    using rb.poke_total [OF ok, of 0 "length_field (length ?x)"] n rw(2) by (auto simp: blit_def wire_image_def)
  have sz: "rb_size b1 = length ?x" using rb_size_bytes [OF b1(2)] by (simp add: b1(3) length_wire_image)
  have hl: "header_length \<le> length (rb_bytes b1)" using length_wire_image(2) [of env m] by (simp add: b1(3) header_length_def)
  obtain b2 st where b2: "send_mods env (bm_sequence m) (bm_checksum m) (bm_cipher m) (sender_mods bp) b1 0
      (length (rb_bytes b1)) = Inr ((True, success), b2, st)" "rb_ok b2"
    using modifier.send_total [OF mods step b1(2) hl] by blast
  have sent: "sent_as env m (sender_mods bp) (rb_bytes b2) st" using b1 b2 by (auto simp: sent_as_def)
  have next_step: "\<exists>r'. in_step st r'"
    using modifier.sync_after_send [OF mods step b1(2) hl b2(1)] .
  have "rb_peek b2 0 (rb_size b2) = Inr (rb_bytes b2)"
    using rb.peek_eq [OF b2(2), of 0 "rb_size b2"] rb_size_bytes [OF b2(2)] by simp
  moreover have "b2 = b1 \<and> st = sender_mods bp" if "\<not> needs_to_modify (cfg env) m"
    using b2(1) no_mods [OF that] by simp
  ultimately have "send_final env (Some stream_session) (m\<lparr>bm_topic := bm_key m\<rparr>) b1 (length ?x) bp ws =
      Inr ((True, success), [], set_sender_mods st bp, ws @ [rb_bytes b2])"
    using b2(1) sz loop length_wire_image(1) [of env m]
    by (cases "needs_to_modify (cfg env) m")
      (auto simp: send_final_def send_modified_def needs_to_modify_def bits_transmit_def stream_session_def b1(3))
  then show thesis using that [OF _ sent next_step] n buf(1) b1(1) by (simp add: bits_send_def header_length_def)
qed

end
