(* ===== verification/Bits_Delivery.thy ===== *)
theory Bits_Delivery
  imports Bits_Protocol
begin

text \<open>
  Messages of the bits protocol arrive: what one protocol sends (\<open>bits_send\<close>, the whole of
  \<open>bits_protocol_impl::send\<close>) another one, in step with it, posts, however the connection cuts
  the bytes. The proofs rest on the interpretation \<open>pipeline\<close> of the modifiers and on \<open>rb\<close>,
  the receive buffer seen as a byte list.
\<close>


section \<open>Messages received\<close>

text \<open>
  The class of \<open>m\<close> is registered, with the same modifiers switched on, and its \<open>serialize\<close> reads the
  members back into a new message of the class.
\<close>

definition registered :: "'a bits_env \<Rightarrow> 'a bits_message \<Rightarrow> bool" where
  "registered env m \<longleftrightarrow>
     (case factory_create (bm_key m) (env_factory env) of
        None \<Rightarrow> False
      | Some c \<Rightarrow> bm_sequence c = bm_sequence m \<and> bm_checksum c = bm_checksum m \<and> bm_cipher c = bm_cipher m \<and>
          env_de env (bm_body c) (concat (env_ser env (bm_body m))) = Some (bm_body m, []))"

text \<open>What is posted for \<open>m\<close> when its wire form has \<open>n\<close> bytes.\<close>

definition delivered :: "'a bits_env \<Rightarrow> 'a bits_message \<Rightarrow> nat \<Rightarrow> 'a bits_message" where
  "delivered env m n =
     (the (factory_create (bm_key m) (env_factory env)))
       \<lparr>bm_length := word_of_nat n, bm_topic := bm_key m, bm_body := bm_body m, bm_key := bm_key m\<rparr>"

text \<open>A wire form: short enough for the length field, and its header tells its length and topic.\<close>

definition wire_ok :: "u32 \<Rightarrow> byte list \<Rightarrow> bool" where
  "wire_ok key w \<longleftrightarrow> header_length < length w \<and> length w < 256 \<and>
     take 4 w = length_field (length w) \<and> take 4 (drop 4 w) = le32 key"

lemma length_field_le32: "n < 256 \<Longrightarrow> length_field n = le32 (word_of_nat n)"
proof -
  assume n: "n < 256"
  have u: "unat (word_of_nat n :: u32) = n" using n by (simp add: unat_of_nat)
  have "(ucast (word_of_nat n :: u32) :: byte) = word_of_nat n"
    by (rule unsigned_word_eqI [where ?'a = nat]) (use n in \<open>simp add: unsigned_ucast_eq u unat_of_nat take_bit_eq_mod\<close>)
  moreover have "drop_bit k (word_of_nat n :: u32) = 0" if "8 \<le> k" for k
  proof -
    have "(2::nat) ^ 8 \<le> 2 ^ k" using that by (intro power_increasing) auto
    then have "n div 2 ^ k = 0" using n by simp
    moreover have "unat (drop_bit k (word_of_nat n :: u32)) = n div 2 ^ k"
      by (simp only: unsigned_drop_bit_eq u) (use n in \<open>simp add: drop_bit_eq_div take_bit_eq_mod\<close>)
    ultimately show ?thesis by (metis unat_0_iff)
  qed
  ultimately show ?thesis using n by (simp add: length_field_def le32_def)
qed

lemma sent_as_wire:
  assumes "sent_as env m s w s'" "in_step s r" "0 < env_interval env" "header_length < length w" "length w < 256"
  shows "wire_ok (bm_key m) w"
proof -
  obtain buf buf' where b: "rb_ok buf" "rb_bytes buf = wire_image env m"
      "send_mods env (bm_sequence m) (bm_checksum m) (bm_cipher m) s buf 0 (length (rb_bytes buf)) =
         Inr ((True, success), buf', s')" "rb_ok buf'" "rb_bytes buf' = w"
    using assms(1) by (auto simp: sent_as_def)
  have hl: "header_length \<le> length (rb_bytes buf)"
    using length_wire_image(2) [of env m] by (simp add: b(2) header_length_def)
  have "take 4 (drop 4 w) = take 4 (drop 4 (wire_image env m))"
    "take 4 w = length_field (length w) \<or> w = wire_image env m"
    using modifier.send_total [OF mods_modifier [OF assms(3)] assms(2) b(1) hl, of "bm_sequence m" "bm_checksum m" "bm_cipher m"]
      b(2,3,5) by auto
  moreover have "take 4 (drop 4 (wire_image env m)) = le32 (bm_key m)" by (simp add: wire_image_split)
  moreover have "take 4 (wire_image env m) = length_field (length (wire_image env m))"
    by (simp add: wire_image_split packed_def)
  ultimately show ?thesis using assms(4,5) by (auto simp: wire_ok_def)
qed

lemma wire_header:
  assumes "wire_ok key w" "rb_ok buf" "rb_bytes buf = pre @ w @ post"
  shows "get_length buf (length pre) = Inr (length w)" "get_topic buf (length pre + 4) = Inr key"
    "4 \<le> length w"
proof -
  have w: "8 < length w" "length w < 256" "take 4 w = le32 (word_of_nat (length w))" "take 4 (drop 4 w) = le32 key"
    using assms(1) by (simp_all add: wire_ok_def length_field_le32 header_length_def)
  have "rb_peek buf (length pre) 4 = Inr (le32 (word_of_nat (length w)))"
    "rb_peek buf (length pre + 4) 4 = Inr (le32 key)"
    using rb.peek_eq [OF assms(2), of "length pre" 4] rb.peek_eq [OF assms(2), of "length pre + 4" 4] w
    by (simp_all add: assms(3))
  then show "get_length buf (length pre) = Inr (length w)" "get_topic buf (length pre + 4) = Inr key"
    using w(2) of_le32_le32 [of "word_of_nat (length w)" "[]"] of_le32_le32 [of key "[]"]
    by (simp_all add: get_length_def get_topic_def unat_of_nat)
  show "4 \<le> length w" using w(1) by simp
qed

lemma recv_one:
  assumes sent: "sent_as env m s w s'" and step: "in_step s r" and interval: "0 < env_interval env"
    and reg: "registered env m" and wire: "header_length < length w" "length w < 256"
    and buf: "rb_ok buf" "rb_bytes buf = pre @ w @ post"
  obtains buf1 x r' where "recv_loop env r buf (length pre) posted =
      recv_loop env r' buf1 (length pre + length w) (posted @ [delivered env m (length w)])"
    "rb_ok buf1" "rb_bytes buf1 = pre @ x @ post" "length x = length w" "in_step s' r'"
proof -
  have ok: "wire_ok (bm_key m) w" by (rule sent_as_wire [OF sent step interval wire])
  obtain b0 b1 where b: "rb_ok b0" "rb_bytes b0 = wire_image env m"
      "send_mods env (bm_sequence m) (bm_checksum m) (bm_cipher m) s b0 0 (length (rb_bytes b0)) =
         Inr ((True, success), b1, s')" "rb_ok b1" "rb_bytes b1 = w"
    using sent by (auto simp: sent_as_def)
  have hl: "header_length \<le> length (rb_bytes b0)"
    using length_wire_image(2) [of env m] by (simp add: b(2) header_length_def)
  have same: "same_message w (rb_bytes b1)" by (simp add: same_message_def b(5))
  obtain c where c: "factory_create (bm_key m) (env_factory env) = Some c"
    "bm_sequence c = bm_sequence m" "bm_checksum c = bm_checksum m" "bm_cipher c = bm_cipher m"
    and serde: "env_de env (bm_body c) (concat (env_ser env (bm_body m))) = Some (bm_body m, [])"
    using reg by (auto simp: registered_def split: option.splits)
  obtain buf1 x n r' where rm: "recv_modified env c r buf (length pre) (length w) = Inr ((True, success), n, buf1, r')"
    "rb_ok buf1" "rb_bytes buf1 = pre @ x @ post" "length x = length w" "n = length (wire_image env m)"
    "same_message (take n x) (wire_image env m)" "take 4 x = take 4 w" "in_step s' r'"
    using modifier.recv_sent [OF mods_modifier [OF interval] step b(1) hl b(3) same buf] c b(2)
    by (auto simp: recv_modified_def)
  have n: "n \<le> length x" using rm(5,6) by (simp add: same_message_def) linarith
  have n8: "8 \<le> n" using length_wire_image(2) [of env m] rm(5) by simp
  define rest where "rest = concat (env_ser env (bm_body m))"
  have "take n x = take 4 x @ le32 (bm_key m) @ rest"
  proof -
    have "drop 4 (take n x) = le32 (bm_key m) @ rest"
      using rm(6) by (simp add: same_message_def wire_image_split rest_def)
    moreover have "take 4 (take n x) = take 4 x" using n8 by (simp add: min_def)
    ultimately show ?thesis by (metis append_take_drop_id)
  qed
  moreover have "rb_peek buf1 (length pre) n = Inr (take n x)"
    using rb.peek_eq [OF rm(2), of "length pre" n] n by (simp add: rm(3))
  moreover have "take 4 x = le32 (word_of_nat (length w))"
    using ok wire(2) rm(7) by (simp add: wire_ok_def length_field_le32)
  ultimately have "rb_peek buf1 (length pre) n = Inr (le32 (word_of_nat (length w)) @ le32 (bm_key m) @ rest)" by simp
  from unpack_image [where de = "env_de env" and m = c, OF this length_le32 serde [folded rest_def]]
  have un: "bits_unpack (env_de env) c buf1 (length pre) n = Inr (Some (delivered env m (length w)))"
    using c(1) of_le32_le32 [of "word_of_nat (length w)" "[]"] by (simp add: delivered_def)
  have size: "rb_size buf - length pre = length w + length post"
    using rb_size_bytes [OF buf(1)] by (simp add: buf(2))
  have "recv_loop env r buf (length pre) posted =
      recv_loop env r' buf1 (length pre + length w) (posted @ [delivered env m (length w)])"
    using wire_header [OF ok buf] size wire c(1) rm(1) un by (subst recv_loop.simps) simp
  then show thesis using that rm by blast
qed


section \<open>Streams of messages\<close>

fun all_sent_as :: "'a bits_env \<Rightarrow> ('a bits_message \<times> byte list) list \<Rightarrow> mod_state \<Rightarrow> mod_state \<Rightarrow> bool" where
  "all_sent_as env [] s s' = (s' = s)"
| "all_sent_as env ((m, w) # mws) s s' = (\<exists>s1. sent_as env m s w s1 \<and> all_sent_as env mws s1 s')"

definition good_wires :: "'a bits_env \<Rightarrow> ('a bits_message \<times> byte list) list \<Rightarrow> bool" where
  "good_wires env mws \<longleftrightarrow>
     (\<forall>(m, w) \<in> set mws. registered env m \<and> header_length < length w \<and> length w < 256)"

definition deliveries :: "'a bits_env \<Rightarrow> ('a bits_message \<times> byte list) list \<Rightarrow> 'a bits_message list" where
  "deliveries env mws = map (\<lambda>(m, w). delivered env m (length w)) mws"

lemma good_wires_simps [simp]:
  "good_wires env []"
  "good_wires env ((m, w) # mws) \<longleftrightarrow>
     registered env m \<and> header_length < length w \<and> length w < 256 \<and> good_wires env mws"
  "good_wires env (xs @ ys) \<longleftrightarrow> good_wires env xs \<and> good_wires env ys"
  by (auto simp: good_wires_def)

lemma deliveries_simps [simp]:
  "deliveries env [] = []"
  "deliveries env ((m, w) # mws) = delivered env m (length w) # deliveries env mws"
  "deliveries env (xs @ ys) = deliveries env xs @ deliveries env ys"
  by (simp_all add: deliveries_def)

lemma all_sent_as_append:
  "all_sent_as env (xs @ ys) s s' \<longleftrightarrow> (\<exists>s1. all_sent_as env xs s s1 \<and> all_sent_as env ys s1 s')"
proof (induction xs arbitrary: s)
  case Nil
  then show ?case by simp
next
  case (Cons mw xs)
  then show ?case by (cases mw) (simp del: split_paired_Ex, blast)
qed

lemma recv_many:
  assumes interval: "0 < env_interval env"
  shows "all_sent_as env mws s s' \<Longrightarrow> good_wires env mws \<Longrightarrow> in_step s r \<Longrightarrow> rb_ok buf \<Longrightarrow>
    rb_bytes buf = pre @ concat (map snd mws) @ part \<Longrightarrow>
    \<exists>buf1 x r'. recv_loop env r buf (length pre) posted =
        recv_loop env r' buf1 (length (pre @ x)) (posted @ deliveries env mws) \<and>
      rb_ok buf1 \<and> rb_bytes buf1 = pre @ x @ part \<and> length x = length (concat (map snd mws)) \<and> in_step s' r'"
proof (induction mws arbitrary: s r buf pre posted)
  case Nil
  then show ?case by (intro exI [of _ buf] exI [of _ "[]"] exI [of _ r]) simp
next
  case (Cons mw mws)
  obtain m w where mw: "mw = (m, w)" by force
  obtain s1 where s1: "sent_as env m s w s1" "all_sent_as env mws s1 s'" using Cons.prems(1) by (auto simp: mw)
  have g: "registered env m" "header_length < length w" "length w < 256" "good_wires env mws"
    using Cons.prems(2) by (simp_all add: mw)
  have bytes: "rb_bytes buf = pre @ w @ (concat (map snd mws) @ part)" using Cons.prems(5) by (simp add: mw)
  obtain buf1 x r1 where r1: "recv_loop env r buf (length pre) posted =
      recv_loop env r1 buf1 (length pre + length w) (posted @ [delivered env m (length w)])"
    "rb_ok buf1" "rb_bytes buf1 = pre @ x @ (concat (map snd mws) @ part)" "length x = length w" "in_step s1 r1"
    by (rule recv_one [OF s1(1) Cons.prems(3) interval g(1-3) Cons.prems(4) bytes])
  have bytes1: "rb_bytes buf1 = (pre @ x) @ concat (map snd mws) @ part" using r1(3) by simp
  from Cons.IH [OF s1(2) g(4) r1(5) r1(2) bytes1, of "posted @ [delivered env m (length w)]"]
  obtain buf2 y r2 where r2: "recv_loop env r1 buf1 (length (pre @ x)) (posted @ [delivered env m (length w)]) =
      recv_loop env r2 buf2 (length ((pre @ x) @ y)) ((posted @ [delivered env m (length w)]) @ deliveries env mws)"
    "rb_ok buf2" "rb_bytes buf2 = (pre @ x) @ y @ part" "length y = length (concat (map snd mws))" "in_step s' r2"
    by blast
  show ?case using r1(1,4) r2 by (intro exI [of _ buf2] exI [of _ "x @ y"] exI [of _ r2]) (simp add: mw)
qed

text \<open>With only a part of a message left the loop ends.\<close>

lemma recv_stop:
  assumes "rb_ok buf" "rb_bytes buf = pre @ part" "part = [] \<or> (\<exists>key w. wire_ok key w \<and> strict_prefix part w)"
  shows "recv_loop env r buf (length pre) posted = Inr ((True, success), posted, r, buf, length pre)"
proof -
  have size: "rb_size buf - length pre = length part" using rb_size_bytes [OF assms(1)] by (simp add: assms(2))
  show ?thesis
  proof (cases "header_length < length part")
    case False
    then show ?thesis using size by (subst recv_loop.simps) simp
  next
    case True
    then obtain key w z where w: "wire_ok key w" "w = part @ z" "z \<noteq> []"
      using assms(3) by (auto simp: strict_prefix_def prefix_def)
    have h: "8 < length part" using True by (simp add: header_length_def)
    have "take 4 part = take 4 w" using h by (simp add: w(2))
    then have "take 4 part = le32 (word_of_nat (length w))"
      using w(1) by (simp add: wire_ok_def length_field_le32)
    moreover have "length w < 256" using w(1) by (simp add: wire_ok_def)
    moreover have "rb_peek buf (length pre) 4 = Inr (take 4 part)"
      using rb.peek_eq [OF assms(1), of "length pre" 4] h by (simp add: assms(2))
    ultimately have "get_length buf (length pre) = Inr (length w)"
      using of_le32_le32 [of "word_of_nat (length w)" "[]"] by (simp add: get_length_def unat_of_nat)
    moreover have "length part < length w" using w(2,3) by simp
    ultimately show ?thesis using True size by (subst recv_loop.simps) simp
  qed
qed

text \<open>Where a stream is cut: whole messages, then a strict part of the next one.\<close>

lemma split_stream:
  "\<forall>mw \<in> set mws. snd mw \<noteq> [] \<Longrightarrow> prefix p (concat (map snd mws)) \<Longrightarrow>
    \<exists>xs ys part. mws = xs @ ys \<and> p = concat (map snd xs) @ part \<and>
      (part = [] \<or> (\<exists>y ys'. ys = y # ys' \<and> strict_prefix part (snd y)))"
proof (induction mws arbitrary: p)
  case Nil
  then show ?case by simp
next
  case (Cons mw mws)
  show ?case
  proof (cases "prefix (snd mw) p")
    case True
    then obtain q where q: "p = snd mw @ q" by (auto simp: prefix_def)
    then have "prefix q (concat (map snd mws))" using Cons.prems(2) by simp
    then obtain xs ys part where "mws = xs @ ys" "q = concat (map snd xs) @ part"
      "part = [] \<or> (\<exists>y ys'. ys = y # ys' \<and> strict_prefix part (snd y))"
      using Cons.IH Cons.prems(1) by (metis list.set_intros(2))
    then show ?thesis by (intro exI [of _ "mw # xs"] exI [of _ ys] exI [of _ part]) (simp add: q)
  next
    case False
    then have "strict_prefix p (snd mw)"
      using Cons.prems(2) by (metis concat.simps(2) list.simps(9) prefix_append prefix_order.dual_order.strict_iff_order prefix_order.eq_iff prefixI prefix_same_cases)
    then show ?thesis by (intro exI [of _ "[]"] exI [of _ "mw # mws"] exI [of _ p]) simp
  qed
qed

text \<open>All the bytes a session received, one piece after the other.\<close>

fun bits_recv_all :: "'a bits_env \<Rightarrow> byte list list \<Rightarrow> bits_protocol \<Rightarrow>
    fault + (net_result list \<times> 'a bits_message list \<times> bits_protocol)" where
  "bits_recv_all env [] bp = Inr ([], [], bp)"
| "bits_recv_all env (c # cs) bp =
     (case bits_on_recv env (Some c) bp of
        Inl f \<Rightarrow> Inl f
      | Inr (rc, posted, bp1) \<Rightarrow>
          (case bits_recv_all env cs bp1 of
             Inl f \<Rightarrow> Inl f
           | Inr (rcs, posted2, bp2) \<Rightarrow> Inr (rc # rcs, posted @ posted2, bp2)))"

text \<open>Messages sent one after the other through one protocol.\<close>

fun bits_send_all :: "'a bits_env \<Rightarrow> buffer_pool \<Rightarrow> 'a bits_message list \<Rightarrow> bits_protocol \<Rightarrow> byte list list \<Rightarrow>
    fault + (bits_protocol \<times> byte list list)" where
  "bits_send_all env p [] bp ws = Inr (bp, ws)"
| "bits_send_all env p (m # ms) bp ws =
     (case bits_send env (Some stream_session) p (Some m) bp ws of
        Inl f \<Rightarrow> Inl f
      | Inr (rc, posted, bp1, ws1) \<Rightarrow> bits_send_all env p ms bp1 ws1)"

lemma recv_chunk:
  assumes interval: "0 < env_interval env"
    and sent: "all_sent_as env (xs @ ys) s s'" and good: "good_wires env (xs @ ys)"
    and step: "in_step s (receiver_mods bp)" and inv: "rb_inv (bp_recv_buf bp)"
    and bytes: "rb_bytes (bp_recv_buf bp) @ c = concat (map snd xs) @ part" and c: "c \<noteq> []"
    and part: "part = [] \<or> (\<exists>y ys'. ys = y # ys' \<and> strict_prefix part (snd y))"
  obtains bp' s1 where "bits_on_recv env (Some c) bp = Inr ((True, success), deliveries env xs, bp')"
    "all_sent_as env ys s1 s'" "in_step s1 (receiver_mods bp')" "rb_inv (bp_recv_buf bp')"
    "rb_bytes (bp_recv_buf bp') = part"
proof -
  obtain s1 where s1: "all_sent_as env xs s s1" "all_sent_as env ys s1 s'"
    using sent by (auto simp: all_sent_as_append simp del: split_paired_Ex)
  obtain b0 where b0: "rb_append (bp_recv_buf bp) c = Inr b0" "rb_inv b0" "rb_bytes b0 = rb_bytes (bp_recv_buf bp) @ c"
    using rbn.append_total [OF inv] by blast
  have ok: "rb_ok b0" using b0(2) append_keeps_block [OF b0(1)] by (simp add: rb_ok_def)
  have b0b: "rb_bytes b0 = [] @ concat (map snd xs) @ part" using b0(3) bytes by simp
  have gx: "good_wires env xs" using good by simp
  obtain b1 x r' where r: "recv_loop env (receiver_mods bp) b0 0 [] =
      recv_loop env r' b1 (length x) (deliveries env xs)"
    "rb_ok b1" "rb_bytes b1 = x @ part" "in_step s1 r'"
    using recv_many [OF interval s1(1) gx step ok b0b, of "[]"] by auto
  have p: "part = [] \<or> (\<exists>key w. wire_ok key w \<and> strict_prefix part w)"
  proof (cases "part = []")
    case False
    then obtain m w ys' where y: "ys = (m, w) # ys'" "strict_prefix part w" using part by auto
    then obtain s2 where "sent_as env m s1 w s2" using s1(2) by auto
    moreover have "header_length < length w" "length w < 256" using good by (simp_all add: y(1))
    ultimately have "wire_ok (bm_key m) w" using sent_as_wire [OF _ r(4) interval] by blast
    then show ?thesis using y(2) by blast
  qed simp
  have stop: "recv_loop env r' b1 (length x) (deliveries env xs) =
      Inr ((True, success), deliveries env xs, r', b1, length x)"
    by (rule recv_stop [OF r(2,3) p])
  obtain b2 where b2: "rb_pop_front b1 (length x) = Inr b2" "rb_ok b2" "rb_bytes b2 = part"
    using rb.pop_total [OF r(2), of "length x"] by (auto simp: r(3))
  have "bits_on_recv env (Some c) bp = Inr ((True, success), deliveries env xs,
      (set_receiver_mods r' bp)\<lparr>bp_recv_buf := b2\<rparr>)"
    using c b0(1) r(1) stop b2(1) by (simp add: bits_on_recv_def Let_def)
  then show thesis using s1(2) r(4) b2 by (intro that) (auto simp: rb_ok_def)
qed

lemma recv_chunks:
  assumes interval: "0 < env_interval env"
  shows "all_sent_as env mws s s' \<Longrightarrow> good_wires env mws \<Longrightarrow> in_step s (receiver_mods bp) \<Longrightarrow>
    rb_inv (bp_recv_buf bp) \<Longrightarrow> rb_bytes (bp_recv_buf bp) @ concat cs = concat (map snd mws) \<Longrightarrow> [] \<notin> set cs \<Longrightarrow>
    (mws = [] \<or> strict_prefix (rb_bytes (bp_recv_buf bp)) (snd (hd mws))) \<Longrightarrow>
    \<exists>bp'. bits_recv_all env cs bp = Inr (replicate (length cs) (True, success), deliveries env mws, bp') \<and>
      in_step s' (receiver_mods bp') \<and> rb_inv (bp_recv_buf bp') \<and> rb_bytes (bp_recv_buf bp') = []"
proof (induction cs arbitrary: mws s bp)
  case Nil
  have "mws = []"
  proof (rule ccontr)
    assume "mws \<noteq> []"
    then have "strict_prefix (concat (map snd mws)) (snd (hd mws))" using Nil by simp
    moreover have "prefix (snd (hd mws)) (concat (map snd mws))" using \<open>mws \<noteq> []\<close> by (cases mws) simp_all
    ultimately show False by (simp add: prefix_order.less_le_not_le)
  qed
  then show ?case using Nil by simp
next
  case (Cons c cs)
  have ne: "\<forall>mw \<in> set mws. snd mw \<noteq> []" using Cons.prems(2) by (auto simp: good_wires_def)
  have "prefix (rb_bytes (bp_recv_buf bp) @ c) (concat (map snd mws))"
    using Cons.prems(5) by (metis append_assoc concat.simps(2) prefixI)
  from split_stream [OF ne this] obtain xs ys part where sp: "mws = xs @ ys"
    "rb_bytes (bp_recv_buf bp) @ c = concat (map snd xs) @ part"
    "part = [] \<or> (\<exists>y ys'. ys = y # ys' \<and> strict_prefix part (snd y))" by blast
  have c: "c \<noteq> []" using Cons.prems(6) by auto
  obtain bp1 s1 where r: "bits_on_recv env (Some c) bp = Inr ((True, success), deliveries env xs, bp1)"
    "all_sent_as env ys s1 s'" "in_step s1 (receiver_mods bp1)" "rb_inv (bp_recv_buf bp1)"
    "rb_bytes (bp_recv_buf bp1) = part"
    by (rule recv_chunk [OF interval Cons.prems(1) [unfolded sp(1)] Cons.prems(2) [unfolded sp(1)]
        Cons.prems(3,4) sp(2) c sp(3)])
  have rest: "rb_bytes (bp_recv_buf bp1) @ concat cs = concat (map snd ys)"
  proof -
    have "(rb_bytes (bp_recv_buf bp) @ c) @ concat cs = concat (map snd xs) @ concat (map snd ys)"
      using Cons.prems(5) sp(1) by simp
    then show ?thesis by (simp add: sp(2) r(5))
  qed
  have start: "ys = [] \<or> strict_prefix (rb_bytes (bp_recv_buf bp1)) (snd (hd ys))"
  proof (cases ys)
    case Nil
    then show ?thesis by simp
  next
    case (Cons y ys')
    then have "snd y \<noteq> []" using ne sp(1) by auto
    then show ?thesis using sp(3) r(5) Cons by (auto simp: strict_prefix_def)
  qed
  have g: "good_wires env ys" using Cons.prems(2) sp(1) by simp
  have "[] \<notin> set cs" using Cons.prems(6) by simp
  from Cons.IH [OF r(2) g r(3,4) rest this start]
  obtain bp2 where "bits_recv_all env cs bp1 = Inr (replicate (length cs) (True, success), deliveries env ys, bp2)"
    "in_step s' (receiver_mods bp2)" "rb_inv (bp_recv_buf bp2)" "rb_bytes (bp_recv_buf bp2) = []" by blast
  then show ?case using r(1) sp(1) by simp
qed

lemma send_many:
  assumes "\<not> enable_loopback (cfg env)" "0 < env_interval env" "pool_inv p held"
  shows "\<forall>m\<in>set ms. length (packed (env_ser env) m) \<le> 16384 \<Longrightarrow> in_step (sender_mods bp) r \<Longrightarrow>
    \<exists>bp' wires. bits_send_all env p ms bp ws = Inr (bp', ws @ wires) \<and> length wires = length ms \<and>
      all_sent_as env (zip ms wires) (sender_mods bp) (sender_mods bp')"
proof (induction ms arbitrary: bp r ws)
  case Nil
  then show ?case by simp
next
  case (Cons m ms)
  have len: "length (packed (env_ser env) m) \<le> 16384" using Cons.prems(1) by simp
  obtain wire st where one: "bits_send env (Some stream_session) p (Some m) bp ws =
      Inr ((True, success), [], set_sender_mods st bp, ws @ [wire])"
    "sent_as env m (sender_mods bp) wire st" "\<exists>r'. in_step st r'"
    by (rule send_one [OF assms len Cons.prems(2), of ws])
  obtain r' where "in_step (sender_mods (set_sender_mods st bp)) r'" using one(3) by auto
  from Cons.IH [OF _ this, of "ws @ [wire]"] Cons.prems(1)
  obtain bp' wires where "bits_send_all env p ms (set_sender_mods st bp) (ws @ [wire]) = Inr (bp', (ws @ [wire]) @ wires)"
    "length wires = length ms" "all_sent_as env (zip ms wires) st (sender_mods bp')" by auto
  then show ?case using one(1,2) by (intro exI [of _ bp'] exI [of _ "wire # wires"])
    (simp del: split_paired_Ex, blast)
qed

section \<open>How long a wire form is\<close>

lemma sequencer_send_length:
  assumes "rb_ok buf" "header_length \<le> length (rb_bytes buf)"
    and "sequencer_on_send s buf 0 (length (rb_bytes buf)) = Inr (rc, buf', s')"
  shows "rb_ok buf' \<and> length (rb_bytes buf') = length (rb_bytes buf) + 1"
proof -
  obtain b1 b2 b3 where "rb_append buf [97] = Inr b1" "rb_poke b1 (length (rb_bytes buf)) [send_seq s] = Inr b2"
    "update_length_field b2 0 (length (rb_bytes buf) + length [send_seq s]) = Inr b3" "rb_ok b3"
    "rb_bytes b3 = length_field (length (rb_bytes buf) + length [send_seq s]) @ drop 4 (rb_bytes buf) @ [send_seq s]"
    using assms(1,2) by (auto elim!: append_trailer [of buf "[97]" "[send_seq s]"])
  then show ?thesis using assms(2,3) by (auto simp: sequencer_on_send_def sequence_size_def header_length_def)
qed

lemma checksum_send_length:
  assumes "rb_ok buf" "header_length \<le> length (rb_bytes buf)"
    and "checksum_on_send s buf 0 (length (rb_bytes buf)) = Inr (rc, buf', s')"
  shows "rb_ok buf' \<and> length (rb_bytes buf') \<le> length (rb_bytes buf) + 4"
proof (cases "length (rb_bytes buf) = header_length")
  case True
  then show ?thesis using assms by (simp add: checksum_on_send_def)
next
  case False
  define crc where "crc = crc32 (drop header_length (rb_bytes buf))"
  have "rb_peek buf header_length (length (rb_bytes buf) - header_length) = Inr (drop header_length (rb_bytes buf))"
    using rb.peek_eq [OF assms(1), of header_length "length (rb_bytes buf) - header_length"] assms(2) by simp
  moreover obtain b1 b2 b3 where "rb_append buf [97, 98, 99, 100] = Inr b1" "rb_poke b1 (length (rb_bytes buf)) crc = Inr b2"
    "update_length_field b2 0 (length (rb_bytes buf) + length crc) = Inr b3" "rb_ok b3"
    "rb_bytes b3 = length_field (length (rb_bytes buf) + length crc) @ drop 4 (rb_bytes buf) @ crc"
    using assms(1,2) by (auto simp: crc_def elim!: append_trailer [of buf "[97, 98, 99, 100]" crc])
  ultimately show ?thesis using assms(2,3) False
    by (auto simp: checksum_on_send_def checksum_size_def crc_def header_length_def)
qed

lemma cipher_send_length:
  assumes "cipher_ok s" "0 < interval" "rb_ok buf" "header_length \<le> length (rb_bytes buf)"
    and "cipher_on_send line interval s buf 0 (length (rb_bytes buf)) = Inr (rc, buf', s')"
  shows "length (rb_bytes buf') \<le> length (rb_bytes buf) + 16"
proof (cases "length (rb_bytes buf) = header_length")
  case True
  then show ?thesis using assms(5) by (simp add: cipher_on_send_def)
next
  case False
  define hdr x where "hdr = take header_length (rb_bytes buf)" and "x = drop header_length (rb_bytes buf)"
  have bytes: "rb_bytes buf = hdr @ x" and hdr: "length hdr = header_length" using assms(4) by (simp_all add: hdr_def x_def)
  have ne: "x \<noteq> []" using False assms(4) by (simp add: x_def)
  obtain b c where "cipher_on_send line interval s buf 0 (length (rb_bytes buf)) =
      Inr ((True, success), b, ci_next interval s x)"
    "rb_bytes b = length_field (header_length + length c) @ drop 4 hdr @ c" "sealed line (ci_key s) (ci_nonce s) x c"
    using cipher_send_run [OF assms(1,3) bytes hdr ne assms(2), of line] by blast
  moreover have "length x div BS * BS + BS \<le> length x + 16" by (simp add: BS_def)
  ultimately show ?thesis using assms(5) hdr by (auto simp: bytes header_length_def dest!: length_sealed)
qed

lemma wire_length:
  assumes "sent_as env m s w s'" "in_step s r" "0 < env_interval env"
  shows "length (wire_image env m) \<le> length w" "length w \<le> length (wire_image env m) + 21"
proof -
  obtain buf buf' where b: "rb_ok buf" "rb_bytes buf = wire_image env m"
      "send_mods env (bm_sequence m) (bm_checksum m) (bm_cipher m) s buf 0 (length (rb_bytes buf)) =
         Inr ((True, success), buf', s')" "rb_ok buf'" "rb_bytes buf' = w"
    using assms(1) by (auto simp: sent_as_def)
  have hl: "header_length \<le> length (rb_bytes buf)"
    using length_wire_image(2) [of env m] by (simp add: b(2) header_length_def)
  show "length (wire_image env m) \<le> length w"
    using modifier.send_total [OF mods_modifier [OF assms(3)] assms(2) b(1) hl, of "bm_sequence m" "bm_checksum m" "bm_cipher m"]
      b(2,3,5) by auto
  let ?f = "when_send (enable_sequence (cfg env) \<and> bm_sequence m) sequencer_on_send"
  let ?g = "when_send (enable_checksum (cfg env) \<and> bm_checksum m) checksum_on_send"
  let ?h = "when_send (enable_cipher (cfg env) \<and> bm_cipher m) (cipher_on_send (env_line env) (env_interval env))"
  obtain rc1 b1 s1 where f: "?f (fst (fst s)) buf 0 (length (rb_bytes buf)) = Inr (rc1, b1, s1)"
    and k1: "fst rc1" using b(3) by (auto simp: send_mods_def then_send_def split: sum.splits if_splits)
  have m1: "modifier ?f (when_recv (enable_sequence (cfg env) \<and> bm_sequence m) sequencer_on_recv) (\<lambda>s r. send_seq s = recv_seq r)"
    by (rule seq.opt.modifier_axioms)
  have b1: "rb_ok b1" "length (rb_bytes buf) \<le> length (rb_bytes b1)" "length (rb_bytes b1) \<le> length (rb_bytes buf) + 1"
    using f sequencer_send_length [OF b(1) hl] b(1) by (auto simp: when_send_def split: if_splits)
  have h1: "header_length \<le> length (rb_bytes b1)" using hl b1(2) by simp
  obtain rc2 b2 s2 where g: "?g (snd (fst s)) b1 0 (length (rb_bytes b1)) = Inr (rc2, b2, s2)"
    "?h (snd s) b2 0 (rb_size b2) = Inr ((True, success), buf', snd s')"
    using b(3) f k1 rb_size_bytes [OF b1(1)]
    by (auto simp: send_mods_def then_send_def split: sum.splits if_splits)
  have b2: "rb_ok b2" "length (rb_bytes b2) \<le> length (rb_bytes b1) + 4"
    using g(1) checksum_send_length [OF b1(1) h1] b1(1) by (auto simp: when_send_def split: if_splits)
  have "length (rb_bytes b1) \<le> length (rb_bytes b2)"
    using g(1) crc.opt.send_total [OF _ b1(1) h1, of "enable_checksum (cfg env) \<and> bm_checksum m" "snd (fst s)"] by auto
  then have h2: "header_length \<le> length (rb_bytes b2)" using h1 by simp
  have "length w \<le> length (rb_bytes b2) + 16"
    using g(2) cipher_send_length [OF _ assms(3) b2(1) h2, of "snd s" "env_line env"] assms(2) rb_size_bytes [OF b2(1)] b(5)
    by (auto simp: when_send_def in_step_def split: if_splits)
  then show "length w \<le> length (wire_image env m) + 21" using b1(3) b2(2) b(2) by simp
qed

lemma all_wire_lengths:
  assumes interval: "0 < env_interval env"
  shows "all_sent_as env mws s s' \<Longrightarrow> in_step s r \<Longrightarrow> (m, w) \<in> set mws \<Longrightarrow>
    length (packed (env_ser env) m) \<le> length w \<and> length w \<le> length (packed (env_ser env) m) + 21"
proof (induction mws arbitrary: s r)
  case Nil
  then show ?case by simp
next
  case (Cons mw mws)
  obtain m1 w1 where mw: "mw = (m1, w1)" by force
  obtain s1 where s1: "sent_as env m1 s w1 s1" "all_sent_as env mws s1 s'" using Cons.prems(1) by (auto simp: mw)
  obtain buf buf' where b: "rb_ok buf" "rb_bytes buf = wire_image env m1"
      "send_mods env (bm_sequence m1) (bm_checksum m1) (bm_cipher m1) s buf 0 (length (rb_bytes buf)) =
         Inr ((True, success), buf', s1)"
    using s1(1) by (auto simp: sent_as_def)
  have hl: "header_length \<le> length (rb_bytes buf)"
    using length_wire_image(2) [of env m1] by (simp add: b(2) header_length_def)
  obtain r1 where "in_step s1 r1"
    using modifier.sync_after_send [OF mods_modifier [OF interval] Cons.prems(2) b(1) hl b(3)] by blast
  then have r1: "in_step s1 r1" .
  show ?case
  proof (cases "(m, w) \<in> set mws")
    case True
    then show ?thesis by (rule Cons.IH [OF s1(2) r1])
  next
    case False
    then have "m = m1" "w = w1" using Cons.prems(3) mw by simp_all
    then show ?thesis using wire_length [OF s1(1) Cons.prems(2) interval] by (simp add: length_wire_image)
  qed
qed

text \<open>Messages within the limits are sent, and their wire forms are ones the receiver takes apart.\<close>

lemma sent_wires:
  assumes "\<not> enable_loopback (cfg env)" and interval: "0 < env_interval env" and "pool_inv p held"
    and step: "in_step (sender_mods a) r"
    and ms: "\<forall>m\<in>set ms. registered env m \<and> 8 < length (packed (env_ser env) m) \<and> length (packed (env_ser env) m) \<le> 234"
  obtains a' wires where "bits_send_all env p ms a [] = Inr (a', wires)" "length wires = length ms"
    "all_sent_as env (zip ms wires) (sender_mods a) (sender_mods a')" "good_wires env (zip ms wires)"
    "\<forall>w\<in>set wires. 8 < length w \<and> length w < 256"
proof -
  have "\<forall>m\<in>set ms. length (packed (env_ser env) m) \<le> 16384" using ms by fastforce
  then obtain a' wires where s: "bits_send_all env p ms a [] = Inr (a', wires)" "length wires = length ms"
    "all_sent_as env (zip ms wires) (sender_mods a) (sender_mods a')"
    using send_many [OF assms(1-3) _ step, of ms "[]"] by auto
  have g: "good_wires env (zip ms wires)"
    unfolding good_wires_def
  proof (clarify)
    fix m w assume mw: "(m, w) \<in> set (zip ms wires)"
    then have "m \<in> set ms" by (rule set_zip_leftD)
    then show "registered env m \<and> header_length < length w \<and> length w < 256"
      using all_wire_lengths [OF interval s(3) step mw] ms by (fastforce simp: header_length_def)
  qed
  have "\<forall>w\<in>set wires. 8 < length w \<and> length w < 256"
  proof
    fix w assume "w \<in> set wires"
    then obtain m where "(m, w) \<in> set (zip ms wires)"
      using s(2) by (metis in_set_impl_in_set_zip2)
    then show "8 < length w \<and> length w < 256" using g by (auto simp: good_wires_def header_length_def)
  qed
  then show thesis using s g by (intro that)
qed

section \<open>Properties\<close>


text \<open>The configuration, the class and the two fresh protocols of the example below.\<close>

definition example_env :: "byte list bits_env" where
  "example_env = \<lparr>cfg = \<lparr>enable_cipher = True, enable_checksum = True, enable_sequence = True, enable_loopback = False\<rparr>,
     env_ser = (\<lambda>b. [b]), env_de = (\<lambda>_ bs. Some (bs, [])),
     env_factory = factory_add 7 (bits_msg_class 7 True True True []) Map.empty, env_line = 16, env_interval = 1024\<rparr>"

definition fresh_protocol :: "mem \<Rightarrow> bits_protocol" where
  "fresh_protocol mem = bits_on_bind
     \<lparr>bp_recv_buf = rbuf_new (buffer_pool_new mem) 8192, bp_sequencer = \<lparr>send_seq = 0, recv_seq = 0\<rparr>,
      bp_sender = cipher_impl_bound, bp_receiver = cipher_impl_bound\<rparr>"

lemma fresh_in_step: "in_step (sender_mods (fresh_protocol mem)) (receiver_mods (fresh_protocol mem))"
  using cipher_ok_bound
  by (simp add: in_step_def fresh_protocol_def bits_on_bind_def sender_mods_def receiver_mods_def
    sequencer_on_bind_def cipher_on_bind_def)


end
