(* ===== verification/Bits_Archive.thy ===== *)
theory Bits_Archive
  imports Bitsery Bits_Delivery
begin

text \<open>
  Messages whose members are archived with bitsery. \<open>Bits_Message\<close> takes what \<open>BITS_SERIALIZE\<close>
  makes of the members of a message as a parameter; here it is the serializer and the
  deserializer of \<open>Bitsery\<close> for the type of the members, and \<open>unpack\<close> is the one pass of a
  deserializer over the bytes that the macro \<open>BITS_MSG_BODY\<close> writes
  (\<open>include/lax/net/protocol/bits/bits_message.hpp\<close>). The body of a message is the type of its
  members with their values.
\<close>

section \<open>Readers over a part of a buffer\<close>

definition rd_shift :: "byte list \<Rightarrow> reader \<Rightarrow> reader" where
  "rd_shift pre r = \<lparr>rd_data = pre @ rd_data r, rd_pos = length pre + rd_pos r, rd_end = length pre + rd_end r\<rparr>"

text \<open>A decoder that finds the same wherever its bytes stand.\<close>

definition shifts :: "byte list \<Rightarrow> (reader \<Rightarrow> 'a \<times> reader) \<Rightarrow> bool" where
  "shifts pre d \<longleftrightarrow> (\<forall>r. d (rd_shift pre r) = (fst (d r), rd_shift pre (snd (d r))))"

lemma shift_error [simp]: "rd_error (rd_shift pre r) = rd_error r"
  by (simp add: rd_error_def rd_shift_def)

lemma shift_completed [simp]: "rd_completed (rd_shift pre r) = rd_completed r"
  by (simp add: rd_completed_def rd_shift_def)

lemma shift_set_error [simp]: "rd_set_error e (rd_shift pre r) = rd_shift pre (rd_set_error e r)"
  by (simp add: rd_set_error_def) (simp add: adapter_set_error_def rd_shift_def)

lemma shifts_read [simp]: "shifts pre (adapter_read n)"
  unfolding shifts_def
proof
  fix r
  have "adapter_set_error DataOverflow (rd_shift pre r) = rd_shift pre (adapter_set_error DataOverflow r)"
    by (simp add: adapter_set_error_def rd_shift_def)
  then show "adapter_read n (rd_shift pre r) = (fst (adapter_read n r), rd_shift pre (snd (adapter_read n r)))"
    by (simp add: adapter_read_def) (simp add: rd_shift_def)
qed

lemma shifts_return [simp]: "shifts pre (\<lambda>r. (x, r))"
  by (simp add: shifts_def)

lemma shifts_bind [intro]:
  "shifts pre d \<Longrightarrow> (\<And>x. shifts pre (k x)) \<Longrightarrow> shifts pre (\<lambda>r. case d r of (x, r1) \<Rightarrow> k x r1)"
  by (simp add: shifts_def case_prod_unfold)

lemma shifts_if [intro]: "shifts pre d \<Longrightarrow> shifts pre e \<Longrightarrow> shifts pre (\<lambda>r. if c then d r else e r)"
  by (simp add: shifts_def)

lemma shifts_set_error: "shifts pre (\<lambda>r. (x, if c then rd_set_error e r else r))"
  by (simp add: shifts_def)

lemma shifts_check: "shifts pre (check_size m sz)"
  by (simp add: shifts_def check_size_def)

lemma shifts_size [simp]: "shifts pre (read_size m)"
  unfolding read_size_read by (intro shifts_bind shifts_if shifts_read shifts_check)

lemma shifts_n: "shifts pre d \<Longrightarrow> shifts pre (read_n n d)"
proof (induction n)
  case (Suc n)
  then show ?case unfolding read_n_Suc by (intro shifts_bind) simp_all
qed (simp add: shifts_def)

lemma shifts_elems: "shifts pre d \<Longrightarrow> shifts pre (read_elems t d c k)"
proof -
  assume d: "shifts pre d"
  have "shifts pre (read_values n k)" for n
    unfolding read_values_read by (simp add: shifts_bind)
  then show ?thesis
    using shifts_n [OF d] by (auto simp: shifts_def read_elems_def split: option.splits)
qed

lemma shifts_fields: "(\<And>t. t \<in> set ts \<Longrightarrow> shifts pre (deser cmp t)) \<Longrightarrow> shifts pre (deser_fields cmp ts)"
  by (induction ts) (auto simp: deser_fields_read intro!: shifts_bind)

lemma shifts_deser: "shifts pre (deser cmp t)"
proof (induction t)
  case TBool
  then show ?case unfolding deser_read bool_value_read by (intro shifts_bind shifts_read shifts_set_error)
next
  case (TValue n)
  then show ?case unfolding deser_read value_n_read by (intro shifts_bind shifts_read) simp
qed (auto simp: deser_read intro!: shifts_bind shifts_n shifts_elems shifts_fields)

section \<open>The members of a message\<close>

type_synonym archived = "btype \<times> bval"

definition archive_ser :: "archived \<Rightarrow> byte list list" where
  "archive_ser b = ser (fst b) (snd b)"

definition archive_de :: "(nat \<Rightarrow> bval \<Rightarrow> bval \<Rightarrow> bool) \<Rightarrow> archived \<Rightarrow> byte list \<Rightarrow> (archived \<times> byte list) option" where
  "archive_de cmp b bs =
     (let (v, r) = deser cmp (fst b) (reader_new bs)
      in if rd_error r = NoError then Some ((fst b, v), drop (rd_pos r) bs) else None)"

text \<open>The text of \<open>unpack\<close>: one deserializer over the \<open>len\<close> bytes from \<open>iter\<close>.\<close>

definition archive_unpack ::
  "(nat \<Rightarrow> bval \<Rightarrow> bval \<Rightarrow> bool) \<Rightarrow> archived bits_message \<Rightarrow> rbuf \<Rightarrow> nat \<Rightarrow> nat \<Rightarrow>
    fault + (bool \<times> nat \<times> archived bits_message)" where
  "archive_unpack cmp m buf iter len =
     (case rb_peek buf iter len of
        Inl f \<Rightarrow> Inl f
      | Inr bytes \<Rightarrow>
          (let (l, r1) = adapter_read 4 (reader_new bytes);
               (t, r2) = adapter_read 4 r1;
               (v, r3) = deser cmp (fst (bm_body m)) r2
           in Inr (rd_completed r3, rd_error r3,
                m\<lparr>bm_length := of_le32 l, bm_topic := of_le32 t, bm_body := (fst (bm_body m), v),
                  bm_key := of_le32 t\<rparr>)))"

section \<open>The header and the members\<close>

lemma cut_not_completed: "rd_error r \<noteq> NoError \<Longrightarrow> \<not> rd_completed (snd (deser cmp t r))"
  using stickyD [OF sticky_deser, of r cmp t] by (auto simp: rd_completed_def rd_error_def split: if_splits)

lemma completed_iff:
  "rd_completed (snd (deser cmp t (reader_new bs))) \<longleftrightarrow>
    rd_error (snd (deser cmp t (reader_new bs))) = NoError \<and> drop (rd_pos (snd (deser cmp t (reader_new bs)))) bs = []"
proof -
  define r where "r = snd (deser cmp t (reader_new bs))"
  have "rd_good r \<and> rd_end r = length bs \<or> rd_error r \<in> {DataOverflow, InvalidData}"
    using tidyD [OF tidy_deser, of "reader_new bs" cmp t] by (auto simp: r_def rd_good_def reader_new_def)
  then show ?thesis
    unfolding r_def [symmetric]
  proof
    assume g: "rd_good r \<and> rd_end r = length bs"
    then show "rd_completed r \<longleftrightarrow> rd_error r = NoError \<and> drop (rd_pos r) bs = []"
      using good_no_error [of r] by (auto simp: rd_completed_def rd_good_def)
  next
    assume "rd_error r \<in> {DataOverflow, InvalidData}"
    then show "rd_completed r \<longleftrightarrow> rd_error r = NoError \<and> drop (rd_pos r) bs = []"
      by (auto simp: rd_completed_def rd_error_def DataOverflow_def InvalidData_def NoError_def split: if_splits)
  qed
qed

lemma header_cut:
  assumes "rb_peek buf iter len = Inr bytes" "length bytes < 8"
  shows "\<exists>err m'. archive_unpack cmp m buf iter len = Inr (False, err, m')"
proof -
  obtain l r1 where r1: "adapter_read 4 (reader_new bytes) = (l, r1)" by force
  obtain t r2 where r2: "adapter_read 4 r1 = (t, r2)" by force
  have "rd_error r2 \<noteq> NoError"
  proof (cases "length bytes < 4")
    case True
    then have "rd_error r1 = DataOverflow"
      using r1 error_set [of DataOverflow "reader_new bytes"]
      by (auto simp: adapter_read_def reader_new_def rd_error_def DataOverflow_def NoError_def)
    then have "r2 = r1" "rd_error r1 \<noteq> NoError" using r2 read_error [of r1 4] by (simp_all add: DataOverflow_def NoError_def)
    then show ?thesis by simp
  next
    case False
    then have "r1 = (reader_new bytes)\<lparr>rd_pos := 4\<rparr>" using r1 by (simp add: adapter_read_def reader_new_def)
    then show ?thesis using r2 assms(2) False
      by (auto simp: adapter_read_def reader_new_def rd_error_def adapter_set_error_def DataOverflow_def NoError_def
          split: if_splits)
  qed
  then have "\<not> rd_completed (snd (deser cmp (fst (bm_body m)) r2))" by (rule cut_not_completed)
  then show ?thesis by (simp add: archive_unpack_def assms(1) r1 r2 Let_def case_prod_unfold)
qed

lemma header_whole:
  assumes "rb_peek buf iter len = Inr bytes" "8 \<le> length bytes"
  shows "\<exists>err. archive_unpack cmp m buf iter len =
    Inr (rd_completed (snd (deser cmp (fst (bm_body m)) (reader_new (drop 8 bytes)))), err,
      m\<lparr>bm_length := of_le32 (take 4 bytes), bm_topic := of_le32 (take 4 (drop 4 bytes)),
        bm_body := (fst (bm_body m), fst (deser cmp (fst (bm_body m)) (reader_new (drop 8 bytes)))),
        bm_key := of_le32 (take 4 (drop 4 bytes))\<rparr>)"
proof -
  have r: "adapter_read 4 (reader_new bytes) = (take 4 bytes, (reader_new bytes)\<lparr>rd_pos := 4\<rparr>)"
    "adapter_read 4 ((reader_new bytes)\<lparr>rd_pos := 4\<rparr>) = (take 4 (drop 4 bytes), (reader_new bytes)\<lparr>rd_pos := 8\<rparr>)"
    using assms(2) by (simp_all add: adapter_read_def reader_new_def)
  have "(reader_new bytes)\<lparr>rd_pos := 8\<rparr> = rd_shift (take 8 bytes) (reader_new (drop 8 bytes))"
    using assms(2) by (simp add: rd_shift_def reader_new_def)
  moreover have "deser cmp t (rd_shift pre r) = (fst (deser cmp t r), rd_shift pre (snd (deser cmp t r)))" for t pre r
    using shifts_deser [of pre cmp t] by (simp add: shifts_def)
  ultimately show ?thesis by (simp add: archive_unpack_def assms(1) r)
qed

section \<open>Properties\<close>

text \<open>
  C16. Reading the members is one pass. \<open>unpack\<close> runs one deserializer over the header and the
  members; it returns true exactly when the model of \<open>Bits_Message\<close>, which reads the header and
  hands the rest to the members, gives a message, and then with the same message.
\<close>

theorem archive_unpack_refines:
  "bits_unpack (archive_de cmp) m buf iter len =
    (case archive_unpack cmp m buf iter len of
       Inl f \<Rightarrow> Inl f
     | Inr (ok, err, m') \<Rightarrow> Inr (if ok then Some m' else None))"
proof (cases "rb_peek buf iter len")
  case (Inl f)
  then show ?thesis by (simp add: bits_unpack_def archive_unpack_def)
next
  case (Inr bytes)
  show ?thesis
  proof (cases "length bytes < 8")
    case True
    then have "\<not> 4 \<le> length bytes - 4" by linarith
    then have "bits_unpack (archive_de cmp) m buf iter len = Inr None"
      by (simp add: bits_unpack_def in_read_def Inr split: option.split)
    moreover obtain err m' where "archive_unpack cmp m buf iter len = Inr (False, err, m')"
      using header_cut [OF Inr True, of cmp m] by blast
    ultimately show ?thesis by simp
  next
    case False
    define rest where "rest = drop 8 bytes"
    have four: "4 \<le> length bytes - 4" using False by linarith
    let ?d = "deser cmp (fst (bm_body m)) (reader_new rest)"
    note c = completed_iff [of cmp "fst (bm_body m)" rest]
    have "bits_unpack (archive_de cmp) m buf iter len =
      Inr (if rd_error (snd ?d) = NoError \<and> drop (rd_pos (snd ?d)) rest = []
        then Some (m\<lparr>bm_length := of_le32 (take 4 bytes), bm_topic := of_le32 (take 4 (drop 4 bytes)),
          bm_body := (fst (bm_body m), fst ?d), bm_key := of_le32 (take 4 (drop 4 bytes))\<rparr>)
        else None)"
      using four False by (simp add: bits_unpack_def Inr in_read_def archive_de_def Let_def case_prod_unfold rest_def)
    moreover have "8 \<le> length bytes" using False by simp
    from header_whole [OF Inr this, of cmp m] obtain err where "archive_unpack cmp m buf iter len =
        Inr (rd_completed (snd ?d), err, m\<lparr>bm_length := of_le32 (take 4 bytes), bm_topic := of_le32 (take 4 (drop 4 bytes)),
          bm_body := (fst (bm_body m), fst ?d), bm_key := of_le32 (take 4 (drop 4 bytes))\<rparr>)"
      unfolding rest_def by blast
    ultimately show ?thesis by (simp add: c)
  qed
qed

text \<open>An environment whose messages are archived.\<close>

definition with_archive ::
  "(nat \<Rightarrow> bval \<Rightarrow> bval \<Rightarrow> bool) \<Rightarrow> archived bits_env \<Rightarrow> archived bits_env" where
  "with_archive cmp env = env\<lparr>env_ser := archive_ser, env_de := archive_de cmp\<rparr>"

lemma archive_de_ser:
  assumes "typed cmp (fst b) (snd b)" "fst b0 = fst b"
  shows "archive_de cmp b0 (concat (archive_ser b)) = Some (b, [])"
proof -
  let ?bs = "concat (ser (fst b) (snd b))"
  have "rd_good (reader_new ?bs)" "rd_left (reader_new ?bs) = ?bs @ []"
    by (simp_all add: rd_good_def reader_new_def rd_left_def)
  from decodesD(1) [OF decodes_deser [OF assms(1)] this] show ?thesis
    by (simp add: archive_de_def archive_ser_def assms(2) rd_advance_def reader_new_def rd_error_def NoError_def)
qed

lemma registered_archive:
  assumes "factory_create (bm_key m) (env_factory env) = Some c"
    and "bm_sequence c = bm_sequence m" "bm_checksum c = bm_checksum m" "bm_cipher c = bm_cipher m"
    and "fst (bm_body c) = fst (bm_body m)" "typed cmp (fst (bm_body m)) (snd (bm_body m))"
  shows "registered (with_archive cmp env) m"
  using assms archive_de_ser [OF assms(6,5)] by (simp add: registered_def with_archive_def)

end
