(* ===== verification/Topic.thy ===== *)
theory Topic
  imports Lax_Prelude
begin

unbundle bit_operations_syntax

text \<open>
  Topics and messages: \<open>channel::topic\<close> (\<open>include/lax/channel/topic.hpp\<close>), a 32 bit key
  that holds a group in its high half and a type in its low half, and \<open>channel::message\<close>
  (\<open>include/lax/channel/message.hpp\<close>), the base class of what channels carry. Messages of
  the network layer extend the record. The comparison operators of the class are the
  instance of \<open>linorder\<close>.
\<close>

section \<open>channel::topic\<close>

datatype topic = Topic (get_key: u32)

definition topic_of :: "u16 \<Rightarrow> u16 \<Rightarrow> topic" where
  "topic_of grp typ = Topic (push_bit 16 (ucast grp) OR ucast typ)"

definition get_group :: "topic \<Rightarrow> u16" where
  "get_group t = ucast (drop_bit 16 (get_key t) AND 0x0000FFFF)"

definition get_type :: "topic \<Rightarrow> u16" where
  "get_type t = ucast (get_key t AND 0x0000FFFF)"

definition get_group_topic :: "topic \<Rightarrow> topic" where
  "get_group_topic t = topic_of (get_group t) 0"

definition is_valid :: "topic \<Rightarrow> bool" where
  "is_valid t \<longleftrightarrow> get_key t > 0"

definition topic_match :: "topic \<Rightarrow> topic \<Rightarrow> bool" where
  "topic_match t other =
     (if get_group t = get_group other
      then (if get_type t = 0 then True else get_type t = get_type other)
      else False)"

definition topic_less :: "topic \<Rightarrow> topic \<Rightarrow> bool" where
  "topic_less s t \<longleftrightarrow> get_key s < get_key t"

instantiation topic :: linorder
begin

definition less_topic :: "topic \<Rightarrow> topic \<Rightarrow> bool" where
  "less_topic = topic_less"

definition less_eq_topic :: "topic \<Rightarrow> topic \<Rightarrow> bool" where
  "less_eq_topic s t = (get_key s \<le> get_key t)"

instance
  by standard (auto simp: less_topic_def topic_less_def less_eq_topic_def topic.expand)

end

section \<open>channel::message\<close>

record message =
  m_topic :: topic

text \<open>\<open>message()\<close> without argument has the invalid topic 0.\<close>

definition message_new :: "topic \<Rightarrow> message" where
  "message_new t = \<lparr>m_topic = t\<rparr>"

definition set_topic :: "topic \<Rightarrow> 'a message_scheme \<Rightarrow> 'a message_scheme" where
  "set_topic t m = m\<lparr>m_topic := t\<rparr>"

section \<open>Packing and unpacking the key\<close>

lemma mask_low_u32: "x AND 0x0000FFFF = take_bit 16 (x :: u32)"
proof -
  have "(0x0000FFFF :: u32) = mask 16" by (simp add: mask_eq_exp_minus_1)
  then show ?thesis by (simp only: take_bit_eq_mask)
qed

lemma get_group_topic_of [simp]: "get_group (topic_of g ty) = g"
  by (rule bit_word_eqI) (auto simp: get_group_def topic_of_def mask_low_u32 bit_simps dest: bit_imp_le_length)

lemma get_type_topic_of [simp]: "get_type (topic_of g ty) = ty"
  by (rule bit_word_eqI) (auto simp: get_type_def topic_of_def mask_low_u32 bit_simps dest: bit_imp_le_length)

lemma topic_of_parts [simp]: "topic_of (get_group t) (get_type t) = t"
proof -
  have "push_bit 16 (ucast (get_group t)) OR ucast (get_type t) = get_key t"
    by (rule bit_word_eqI) (auto simp: get_group_def get_type_def mask_low_u32 bit_simps)
  then show ?thesis by (simp add: topic_of_def)
qed

lemma topic_eq_iff: "s = t \<longleftrightarrow> get_group s = get_group t \<and> get_type s = get_type t"
  by (metis topic_of_parts)

lemma topic_of_inject [simp]: "topic_of g ty = topic_of g' ty' \<longleftrightarrow> g = g' \<and> ty = ty'"
  by (simp add: topic_eq_iff)

lemma get_group_group_topic [simp]: "get_group (get_group_topic t) = get_group t"
  by (simp add: get_group_topic_def)

lemma get_type_group_topic [simp]: "get_type (get_group_topic t) = 0"
  by (simp add: get_group_topic_def)

lemma group_topic_idem [simp]: "get_group_topic (get_group_topic t) = get_group_topic t"
  by (simp add: topic_eq_iff)

lemma group_topic_fixed_iff: "get_group_topic t = t \<longleftrightarrow> get_type t = 0"
  by (auto simp: topic_eq_iff)

lemma topic_match_iff:
  "topic_match t other \<longleftrightarrow> t = other \<or> t = get_group_topic other"
  by (auto simp: topic_match_def topic_eq_iff)

lemma topic_match_refl [simp]: "topic_match t t"
  by (simp add: topic_match_iff)

lemma topic_match_group [simp]: "topic_match (get_group_topic t) t"
  by (simp add: topic_match_iff)

lemma is_valid_iff: "is_valid t \<longleftrightarrow> get_group t \<noteq> 0 \<or> get_type t \<noteq> 0"
proof -
  have "get_group (Topic 0) = 0" "get_type (Topic 0) = 0"
    by (simp_all add: get_group_def get_type_def)
  then have "t = Topic 0 \<longleftrightarrow> get_group t = 0 \<and> get_type t = 0" by (simp add: topic_eq_iff)
  then show ?thesis
    by (cases t) (auto simp: is_valid_def word_gt_0)
qed

lemma is_valid_group_topic: "is_valid (get_group_topic t) \<longleftrightarrow> get_group t \<noteq> 0"
  by (simp add: is_valid_iff)

lemma is_valid_groupD: "is_valid (get_group_topic t) \<Longrightarrow> is_valid t"
  by (simp add: is_valid_iff)

section \<open>Properties\<close>

text \<open>
  Group and type round-trip through the 32 bit key, both ways, and \<open>match\<close> accepts
  exactly two subscription topics for a message topic: the topic itself and its group topic.
\<close>

theorem topic_roundtrip_match:
  "get_group (topic_of g ty) = g \<and> get_type (topic_of g ty) = ty \<and>
   topic_of (get_group t) (get_type t) = t \<and>
   (topic_match s t \<longleftrightarrow> s = t \<or> s = get_group_topic t)"
  by (simp add: topic_match_iff)

end
