(* ===== verification/Id_Sequence.thy ===== *)
theory Id_Sequence
  imports Lax_Prelude
begin

text \<open>
  \<open>util::sequence\<close> (\<open>include/lax/util/sequence.hpp\<close>), the pool of reusable ids behind
  subscription keys, timer ids, actor ids, acceptor and connector ids. Its interface is the
  locale \<open>id_pool\<close>: what a client may rely on is which ids are live (issued and not
  released); the clients interpret nothing themselves, they use the facts of the
  interpretation \<open>ids\<close> at the end of this theory.
\<close>

section \<open>The model\<close>

text \<open>
  The template parameter \<open>Seq\<close> is an unsigned machine integer: \<open>'q\<close> is \<open>'w word\<close> in every operation. The
  mutex is not modelled: every public operation holds it from start to end.
\<close>

record 'q sequence =
  sq_begin :: 'q
  sq_end :: 'q
  sq_current :: 'q
  sq_reserve :: 'q
  sq_seqs :: "'q list"

fun acquire :: "nat \<Rightarrow> 'w::len word sequence \<Rightarrow> 'w word sequence" where
  "acquire 0 s = s"
| "acquire (Suc n) s =
     acquire n
       (if sq_current s < sq_end s
        then s\<lparr>sq_seqs := sq_seqs s @ [sq_current s], sq_current := sq_current s + 1\<rparr>
        else s)"

definition sequence_new :: "'w::len word \<Rightarrow> 'w word \<Rightarrow> 'w word \<Rightarrow> 'w word sequence" where
  "sequence_new b e r =
     (let r' = min (e - b) r
      in acquire (unat r')
           \<lparr>sq_begin = b, sq_end = e, sq_current = b, sq_reserve = r', sq_seqs = []\<rparr>)"

definition sequence_next :: "'w::len word sequence \<Rightarrow> fault + ('w word \<times> 'w word sequence)" where
  "sequence_next s =
     (let s1 = (if length (sq_seqs s) < unat (sq_reserve s)
                then acquire (unat (sq_reserve s) - length (sq_seqs s)) s
                else s)
      in case sq_seqs s1 of
           v # vs \<Rightarrow> Inr (v, s1\<lparr>sq_seqs := vs\<rparr>)
         | [] \<Rightarrow>
             (if sq_current s1 = sq_end s1 then Inl (Thrown ''no sequence to use'')
              else Inr (sq_current s1, s1\<lparr>sq_current := sq_current s1 + 1\<rparr>)))"

definition sequence_release :: "'w::len word sequence \<Rightarrow> 'w word \<Rightarrow> 'w word sequence" where
  "sequence_release s v =
     (if \<not> (sq_begin s \<le> v \<and> v < sq_end s) then s
      else s\<lparr>sq_seqs := sq_seqs s @ [v]\<rparr>)"

section \<open>Invariant and abstract value\<close>

definition sequence_inv :: "'w::len word sequence \<Rightarrow> bool" where
  "sequence_inv s \<longleftrightarrow>
     sq_begin s \<le> sq_current s \<and> sq_current s \<le> sq_end s \<and>
     distinct (sq_seqs s) \<and> set (sq_seqs s) \<subseteq> {sq_begin s..<sq_current s}"

text \<open>The ids issued and not released, and the ids there are.\<close>

definition seq_live :: "'w::len word sequence \<Rightarrow> 'w word set" where
  "seq_live s = {sq_begin s..<sq_current s} - set (sq_seqs s)"

definition seq_range :: "'w::len word sequence \<Rightarrow> 'w word set" where
  "seq_range s = {sq_begin s..<sq_end s}"

lemma acquire_inv [lax_inv]: "sequence_inv s \<Longrightarrow> sequence_inv (acquire n s)"
proof (induction n arbitrary: s)
  case 0
  then show ?case by simp
next
  case (Suc n)
  have "sequence_inv (if sq_current s < sq_end s
      then s\<lparr>sq_seqs := sq_seqs s @ [sq_current s], sq_current := sq_current s + 1\<rparr> else s)"
    using Suc.prems word_interval_plus1 [of "sq_current s" "sq_end s" "sq_begin s"]
    by (auto simp: sequence_inv_def word_plus1_le word_le_plus1)
  then show ?case by (simp add: Suc.IH)
qed

lemma acquire_frame [simp]:
  "sq_begin (acquire n s) = sq_begin s" "sq_end (acquire n s) = sq_end s"
  "sq_reserve (acquire n s) = sq_reserve s"
  by (induction n arbitrary: s) auto

lemma acquire_live [lax_abs]: "sequence_inv s \<Longrightarrow> seq_live (acquire n s) = seq_live s"
proof (induction n arbitrary: s)
  case 0
  then show ?case by simp
next
  case (Suc n)
  let ?s = "if sq_current s < sq_end s
      then s\<lparr>sq_seqs := sq_seqs s @ [sq_current s], sq_current := sq_current s + 1\<rparr> else s"
  have inv: "sequence_inv ?s"
    using acquire_inv [OF Suc.prems, of 1] by simp
  have "seq_live ?s = seq_live s"
    using Suc.prems word_interval_plus1 [of "sq_current s" "sq_end s" "sq_begin s"]
    by (auto simp: seq_live_def sequence_inv_def)
  then show ?case using Suc.IH [OF inv] by simp
qed

lemma acquire_seqs_prefix: "\<exists>zs. sq_seqs (acquire n s) = sq_seqs s @ zs"
proof (induction n arbitrary: s)
  case 0
  then show ?case by simp
next
  case (Suc n)
  show ?case
  proof (cases "sq_current s < sq_end s")
    case True
    obtain zs where "sq_seqs (acquire n (s\<lparr>sq_seqs := sq_seqs s @ [sq_current s],
        sq_current := sq_current s + 1\<rparr>)) = (sq_seqs s @ [sq_current s]) @ zs"
      using Suc.IH [of "s\<lparr>sq_seqs := sq_seqs s @ [sq_current s], sq_current := sq_current s + 1\<rparr>"]
      by auto
    with True show ?thesis by simp
  next
    case False
    with Suc.IH [of s] show ?thesis by simp
  qed
qed

lemma sequence_new_inv [lax_inv]: "b \<le> e \<Longrightarrow> sequence_inv (sequence_new b e r)"
  by (auto simp: sequence_new_def Let_def sequence_inv_def [of "\<lparr>sq_begin = b, sq_end = e,
    sq_current = b, sq_reserve = min (e - b) r, sq_seqs = []\<rparr>"] intro!: acquire_inv)

lemma sequence_new_live [lax_abs]: "b \<le> e \<Longrightarrow> seq_live (sequence_new b e r) = {}"
proof -
  assume "b \<le> e"
  let ?s = "\<lparr>sq_begin = b, sq_end = e, sq_current = b, sq_reserve = min (e - b) r, sq_seqs = []\<rparr>"
  have "sequence_inv ?s" using \<open>b \<le> e\<close> by (simp add: sequence_inv_def)
  then have "seq_live (acquire n ?s) = {}" for n
    by (simp add: acquire_live) (simp add: seq_live_def)
  then show ?thesis by (simp add: sequence_new_def Let_def)
qed

lemma sequence_new_range [lax_abs]: "seq_range (sequence_new b e r) = {b..<e}"
  by (simp add: sequence_new_def Let_def seq_range_def)

section \<open>The interface and its interpretation\<close>

locale id_pool =
  fixes alloc :: "'s \<Rightarrow> fault + ('i \<times> 's)"
    and free :: "'s \<Rightarrow> 'i \<Rightarrow> 's"
    and live :: "'s \<Rightarrow> 'i set"
    and all_ids :: "'s \<Rightarrow> 'i set"
    and pool_ok :: "'s \<Rightarrow> bool"
  assumes alloc_ok: "pool_ok s \<Longrightarrow> alloc s = Inr (i, s') \<Longrightarrow> pool_ok s'"
    and alloc_fresh: "pool_ok s \<Longrightarrow> alloc s = Inr (i, s') \<Longrightarrow> i \<in> all_ids s - live s"
    and alloc_live: "pool_ok s \<Longrightarrow> alloc s = Inr (i, s') \<Longrightarrow> live s' = insert i (live s)"
    and alloc_all: "pool_ok s \<Longrightarrow> alloc s = Inr (i, s') \<Longrightarrow> all_ids s' = all_ids s"
    and alloc_fails: "pool_ok s \<Longrightarrow> (\<exists>f. alloc s = Inl f) \<longleftrightarrow> live s = all_ids s"
    and free_ok: "pool_ok s \<Longrightarrow> i \<in> live s \<Longrightarrow> pool_ok (free s i)"
    and free_live: "pool_ok s \<Longrightarrow> i \<in> live s \<Longrightarrow> live (free s i) = live s - {i}"
    and free_all: "pool_ok s \<Longrightarrow> all_ids (free s i) = all_ids s"
begin

lemma alloc_new: "pool_ok s \<Longrightarrow> alloc s = Inr (i, s') \<Longrightarrow> j \<in> live s \<Longrightarrow> j \<noteq> i"
  using alloc_fresh by blast

lemma alloc_total: "pool_ok s \<Longrightarrow> live s \<noteq> all_ids s \<Longrightarrow> \<exists>i s'. alloc s = Inr (i, s')"
  using alloc_fails by (metis old.sum.exhaust prod.exhaust)

text \<open>A batch of allocations: the ids are distinct and new, all of them live afterwards.\<close>

fun alloc_many :: "nat \<Rightarrow> 's \<Rightarrow> fault + ('i list \<times> 's)" where
  "alloc_many 0 s = Inr ([], s)"
| "alloc_many (Suc n) s =
     (case alloc s of Inl f \<Rightarrow> Inl f
      | Inr (i, s1) \<Rightarrow> (case alloc_many n s1 of Inl f \<Rightarrow> Inl f | Inr (is, s2) \<Rightarrow> Inr (i # is, s2)))"

lemma alloc_many_distinct:
  "pool_ok s \<Longrightarrow> alloc_many n s = Inr (xs, s') \<Longrightarrow>
    pool_ok s' \<and> distinct xs \<and> set xs \<inter> live s = {} \<and> live s' = set xs \<union> live s \<and> length xs = n"
proof (induction n arbitrary: s xs)
  case 0
  then show ?case by simp
next
  case (Suc n)
  from Suc.prems(2) obtain i s1 ys where i: "alloc s = Inr (i, s1)"
    and ys: "alloc_many n s1 = Inr (ys, s')" and xs: "xs = i # ys"
    by (auto split: sum.splits)
  note s1 = alloc_ok [OF Suc.prems(1) i] alloc_live [OF Suc.prems(1) i] alloc_fresh [OF Suc.prems(1) i]
  from Suc.IH [OF s1(1) ys] s1(2,3) xs show ?case by auto
qed

end

lemma sequence_next_cases:
  assumes "sequence_inv s"
  obtains (throws) "sequence_next s = Inl (Thrown ''no sequence to use'')" "seq_live s = seq_range s"
  | (queued) s1 v vs where "sequence_inv s1" "seq_live s1 = seq_live s" "seq_range s1 = seq_range s"
      "sq_seqs s1 = v # vs" "sequence_next s = Inr (v, s1\<lparr>sq_seqs := vs\<rparr>)"
  | (counted) s1 where "sequence_inv s1" "seq_live s1 = seq_live s" "seq_range s1 = seq_range s"
      "sq_seqs s1 = []" "sq_current s1 < sq_end s1"
      "sequence_next s = Inr (sq_current s1, s1\<lparr>sq_current := sq_current s1 + 1\<rparr>)"
proof -
  define s1 where "s1 = (if length (sq_seqs s) < unat (sq_reserve s)
    then acquire (unat (sq_reserve s) - length (sq_seqs s)) s else s)"
  have s1: "sequence_inv s1" "seq_live s1 = seq_live s" "seq_range s1 = seq_range s"
    using assms by (auto simp: s1_def acquire_inv acquire_live seq_range_def)
  have eq: "sequence_next s = (case sq_seqs s1 of v # vs \<Rightarrow> Inr (v, s1\<lparr>sq_seqs := vs\<rparr>)
      | [] \<Rightarrow> if sq_current s1 = sq_end s1 then Inl (Thrown ''no sequence to use'')
              else Inr (sq_current s1, s1\<lparr>sq_current := sq_current s1 + 1\<rparr>))"
    unfolding sequence_next_def Let_def s1_def by (rule refl)
  show thesis
  proof (cases "sq_seqs s1")
    case (Cons v vs)
    then show ?thesis using queued [OF s1] eq by simp
  next
    case Nil
    show ?thesis
    proof (cases "sq_current s1 = sq_end s1")
      case True
      have "seq_live s1 = seq_range s1"
        using Nil True s1(1) by (simp add: seq_live_def seq_range_def)
      then show ?thesis using throws eq Nil True s1 by simp
    next
      case False
      then have "sq_current s1 < sq_end s1" using s1(1) by (auto simp: sequence_inv_def order_le_less)
      then show ?thesis using counted [OF s1 Nil] eq Nil False by simp
    qed
  qed
qed

lemma sequence_next_begin:
  "sequence_next s = Inr (v, s') \<Longrightarrow> sq_begin s' = sq_begin s \<and> sq_end s' = sq_end s"
  by (auto simp: sequence_next_def Let_def split: list.splits if_splits)

lemma sequence_next_ok:
  assumes inv: "sequence_inv s" and nxt: "sequence_next s = Inr (v, s')"
  shows "sequence_inv s'" "v \<in> seq_range s - seq_live s" "seq_live s' = insert v (seq_live s)"
    "seq_range s' = seq_range s"
proof -
  have "sequence_inv s' \<and> v \<in> seq_range s - seq_live s \<and> seq_live s' = insert v (seq_live s) \<and>
    seq_range s' = seq_range s"
    using inv
  proof (cases rule: sequence_next_cases)
    case throws
    with nxt show ?thesis by simp
  next
    case (queued s1 w ws)
    with nxt have "w = v" and s': "s' = s1\<lparr>sq_seqs := ws\<rparr>" by auto
    have "v \<in> {sq_begin s1..<sq_current s1}" "sq_current s1 \<le> sq_end s1" "v \<notin> set ws"
      using queued \<open>w = v\<close> by (auto simp: sequence_inv_def)
    then show ?thesis using queued(1,4) \<open>w = v\<close> unfolding queued(2,3) [symmetric] s'
      by (auto simp: sequence_inv_def seq_live_def seq_range_def)
  next
    case (counted s1)
    with nxt have v: "v = sq_current s1" and s': "s' = s1\<lparr>sq_current := sq_current s1 + 1\<rparr>" by auto
    have b: "sq_begin s1 \<le> sq_current s1" using counted(1) by (simp add: sequence_inv_def)
    show ?thesis
      using counted(1,4,5) word_interval_plus1 [OF counted(5) b] b
      unfolding counted(2,3) [symmetric] s' v
      by (auto simp: sequence_inv_def seq_live_def seq_range_def word_plus1_le word_le_plus1)
  qed
  then show "sequence_inv s'" "v \<in> seq_range s - seq_live s" "seq_live s' = insert v (seq_live s)"
    "seq_range s' = seq_range s" by blast+
qed

lemma seq_live_range: "sequence_inv s \<Longrightarrow> seq_live s \<subseteq> seq_range s"
  by (auto simp: sequence_inv_def seq_live_def seq_range_def)

lemma sequence_next_throws:
  assumes "sequence_inv s"
  shows "(\<exists>f. sequence_next s = Inl f) \<longleftrightarrow> seq_live s = seq_range s"
proof
  assume "\<exists>f. sequence_next s = Inl f"
  with assms show "seq_live s = seq_range s"
    by (cases rule: sequence_next_cases) auto
next
  assume "seq_live s = seq_range s"
  then show "\<exists>f. sequence_next s = Inl f"
    using sequence_next_ok(2) [OF assms] by (cases "sequence_next s") auto
qed

lemma sequence_release_inv [lax_inv]:
  "sequence_inv s \<Longrightarrow> v \<in> seq_live s \<Longrightarrow> sequence_inv (sequence_release s v)"
  by (auto simp: sequence_release_def sequence_inv_def seq_live_def)

lemma sequence_release_live [lax_abs]:
  "sequence_inv s \<Longrightarrow> v \<in> seq_live s \<Longrightarrow> seq_live (sequence_release s v) = seq_live s - {v}"
  by (auto simp: sequence_release_def sequence_inv_def seq_live_def)

lemma sequence_release_range [lax_abs]: "seq_range (sequence_release s v) = seq_range s"
  by (simp add: sequence_release_def seq_range_def)

interpretation ids: id_pool sequence_next sequence_release seq_live seq_range sequence_inv
proof (unfold_locales, goal_cases)
  case (5 s)
  then show ?case by (rule sequence_next_throws)
qed (auto simp: lax_inv lax_abs dest: sequence_next_ok)

section \<open>Runs of a client\<close>

text \<open>
  A client of the sequence that takes ids and gives them back. \<open>held\<close> is the list of ids
  the client has in its hands, the run stops at the first exception.
\<close>

datatype 'q seq_op = Take_id | Give_back 'q

fun seq_run ::
  "'w::len word seq_op list \<Rightarrow> 'w word list \<times> 'w word sequence
    \<Rightarrow> fault + ('w word list \<times> 'w word sequence)" where
  "seq_run [] st = Inr st"
| "seq_run (Take_id # ops) (held, s) =
     (case sequence_next s of Inl f \<Rightarrow> Inl f | Inr (v, s') \<Rightarrow> seq_run ops (v # held, s'))"
| "seq_run (Give_back v # ops) (held, s) = seq_run ops (removeAll v held, sequence_release s v)"

text \<open>The client gives back only what it holds.\<close>

fun well_behaved :: "'w::len word seq_op list \<Rightarrow> 'w word list \<times> 'w word sequence \<Rightarrow> bool" where
  "well_behaved [] st = True"
| "well_behaved (Take_id # ops) (held, s) =
     (case sequence_next s of Inl f \<Rightarrow> True | Inr (v, s') \<Rightarrow> well_behaved ops (v # held, s'))"
| "well_behaved (Give_back v # ops) (held, s) =
     (v \<in> set held \<and> well_behaved ops (removeAll v held, sequence_release s v))"

lemma seq_run_inv:
  "seq_run ops (held, s) = Inr (held', s') \<Longrightarrow> well_behaved ops (held, s) \<Longrightarrow>
    sequence_inv s \<Longrightarrow> distinct held \<Longrightarrow> set held = seq_live s \<Longrightarrow>
    sequence_inv s' \<and> distinct held' \<and> set held' = seq_live s' \<and> seq_range s' = seq_range s"
proof (induction ops "(held, s)" arbitrary: held s rule: seq_run.induct)
  case (1 held s)
  then show ?case by simp
next
  case (2 ops held s)
  from 2(2) obtain v t where t: "sequence_next s = Inr (v, t)"
    and run: "seq_run ops (v # held, t) = Inr (held', s')"
    by (auto split: sum.splits)
  from 2(3) t have wb: "well_behaved ops (v # held, t)" by simp
  note nx = sequence_next_ok [OF 2(4) t]
  have "distinct (v # held)" "set (v # held) = seq_live t" using nx 2(5,6) by auto
  from 2(1) [OF t refl run wb nx(1) this] nx(4) show ?case by simp
next
  case (3 v ops held s)
  then have v: "v \<in> seq_live s" by auto
  from 3(2) have run: "seq_run ops (removeAll v held, sequence_release s v) = Inr (held', s')" by simp
  from 3(3) have wb: "well_behaved ops (removeAll v held, sequence_release s v)" by simp
  have "distinct (removeAll v held)" "set (removeAll v held) = seq_live (sequence_release s v)"
    using 3(5,6) by (auto simp: distinct_removeAll ids.free_live [OF 3(4) v])
  from 3(1) [OF run wb ids.free_ok [OF 3(4) v] this] show ?case by (simp add: ids.free_all [OF 3(4)])
qed

fun next_many :: "nat \<Rightarrow> 'w::len word sequence \<Rightarrow> fault + ('w word list \<times> 'w word sequence)" where
  "next_many 0 s = Inr ([], s)"
| "next_many (Suc n) s =
     (case sequence_next s of Inl f \<Rightarrow> Inl f
      | Inr (v, s') \<Rightarrow>
          (case next_many n s' of Inl f \<Rightarrow> Inl f | Inr (vs, s'') \<Rightarrow> Inr (v # vs, s'')))"

lemma sequence_next_queue:
  assumes "sq_seqs s = v # vs"
  obtains zs s' where "sequence_next s = Inr (v, s')" "sq_seqs s' = vs @ zs"
proof -
  define s1 where "s1 = (if length (sq_seqs s) < unat (sq_reserve s)
    then acquire (unat (sq_reserve s) - length (sq_seqs s)) s else s)"
  obtain zs where zs: "sq_seqs s1 = (v # vs) @ zs"
    using acquire_seqs_prefix [of "unat (sq_reserve s) - length (sq_seqs s)" s] assms
    by (cases "length (sq_seqs s) < unat (sq_reserve s)") (auto simp: s1_def)
  have "sequence_next s = Inr (v, s1\<lparr>sq_seqs := vs @ zs\<rparr>)"
    unfolding sequence_next_def Let_def s1_def [symmetric] using zs by simp
  then show thesis using that by simp
qed

lemma next_many_queue:
  "n \<le> length (sq_seqs s) \<Longrightarrow> \<exists>s'. next_many n s = Inr (take n (sq_seqs s), s')"
proof (induction n arbitrary: s)
  case 0
  then show ?case by simp
next
  case (Suc n)
  then obtain v vs where vs: "sq_seqs s = v # vs" by (cases "sq_seqs s") auto
  obtain zs s' where s': "sequence_next s = Inr (v, s')" "sq_seqs s' = vs @ zs"
    by (rule sequence_next_queue [OF vs])
  have "n \<le> length (sq_seqs s')" using Suc.prems vs s'(2) by simp
  from Suc.IH [OF this] obtain t where "next_many n s' = Inr (take n (sq_seqs s'), t)" by blast
  then show ?case using s' vs Suc.prems by simp
qed

lemma acquire_seqs:
  "unat (sq_current s) + n \<le> unat (sq_end s) \<Longrightarrow>
    sq_seqs (acquire n s) = sq_seqs s @ map (\<lambda>i. sq_current s + of_nat i) [0..<n]"
proof (induction n arbitrary: s)
  case 0
  then show ?case by simp
next
  case (Suc n)
  have lt: "sq_current s < sq_end s" using Suc.prems by (simp add: word_less_nat_alt)
  let ?s = "s\<lparr>sq_seqs := sq_seqs s @ [sq_current s], sq_current := sq_current s + 1\<rparr>"
  have "unat (sq_current ?s) + n \<le> unat (sq_end ?s)"
    using Suc.prems unat_plus1 [OF lt] by simp
  from Suc.IH [OF this] lt show ?case by (simp add: upt_conv_Cons map_Suc_upt [symmetric] o_def add.assoc del: upt_Suc)
qed

text \<open>The first two ids of a fresh sequence.\<close>

lemma sequence_new_first_two:
  assumes "unat b + 2 \<le> unat e" "2 \<le> unat r" "unat r \<le> unat (e - b)"
    and "unat b + unat r \<le> unat (e :: 'w::len word)"
  obtains s1 s2 where "sequence_next (sequence_new b e r) = Inr (b, s1)" "sequence_next s1 = Inr (b + 1, s2)"
proof -
  have m: "min (e - b) r = r" using assms(3) by (intro min_absorb2) (simp add: word_le_nat_alt)
  have "sq_seqs (sequence_new b e r) = map (\<lambda>i. b + of_nat i) [0..<unat r]"
    using assms(4) by (simp add: sequence_new_def m acquire_seqs)
  moreover have "[0..<unat r] = 0 # 1 # [2..<unat r]"
    using assms(2) by (simp add: upt_conv_Cons numeral_2_eq_2)
  ultimately have vs: "sq_seqs (sequence_new b e r) = b # (b + 1) # map (\<lambda>i. b + of_nat i) [2..<unat r]"
    by simp
  obtain zs s1 where s1: "sequence_next (sequence_new b e r) = Inr (b, s1)"
    "sq_seqs s1 = ((b + 1) # map (\<lambda>i. b + of_nat i) [2..<unat r]) @ zs"
    by (rule sequence_next_queue [OF vs])
  have q: "sq_seqs s1 = (b + 1) # (map (\<lambda>i. b + of_nat i) [2..<unat r] @ zs)" using s1(2) by simp
  obtain ys s2 where "sequence_next s1 = Inr (b + 1, s2)" by (rule sequence_next_queue [OF q])
  then show thesis by (rule that [OF s1(1)])
qed

section \<open>Properties\<close>

text \<open>
  C40. Whatever a client that gives back only ids it holds does with a fresh sequence
  \<open>[b, e)\<close>, the ids in its hands are pairwise different, lie in \<open>[b, e)\<close>, and are exactly
  the ids the sequence counts as issued.
\<close>

theorem seq_run_distinct:
  assumes "b \<le> e" and "well_behaved ops ([], sequence_new b e r)"
    and "seq_run ops ([], sequence_new b e r) = Inr (held, s)"
  shows "distinct held \<and> set held \<subseteq> {b..<e} \<and> set held = seq_live s"
proof -
  note inv = sequence_new_inv [OF assms(1), of r] sequence_new_live [OF assms(1), of r]
  have "sequence_inv s \<and> distinct held \<and> set held = seq_live s \<and> seq_range s = {b..<e}"
    using seq_run_inv [OF assms(3,2)] inv by (simp add: sequence_new_range)
  then show ?thesis using seq_live_range [of s] by auto
qed

theorem seq_run_distinct_witness:
  "\<exists>held s. seq_run [Take_id, Take_id, Give_back 1, Take_id] ([], sequence_new (1 :: u16) 4 2) = Inr (held, s) \<and>
     distinct held \<and> set held \<subseteq> {1..<4} \<and> set held = seq_live s"
proof -
  have "\<not> isl (seq_run [Take_id, Take_id, Give_back 1, Take_id] ([], sequence_new (1 :: u16) 4 2))"
    by code_simp
  from not_isl_Inr [OF this] obtain held s where run: "seq_run [Take_id, Take_id, Give_back 1, Take_id]
      ([], sequence_new (1 :: u16) 4 2) = Inr (held, s)"
    by (metis surj_pair)
  have "(1 :: u16) \<le> 4" by simp
  moreover have "well_behaved [Take_id, Take_id, Give_back 1, Take_id] ([], sequence_new (1 :: u16) 4 2)"
    by code_simp
  ultimately show ?thesis using seq_run_distinct [OF _ _ run] run by blast
qed

text \<open>
  A released id is reused as late as possible: it goes behind every id waiting in the
  queue, so the calls of \<open>next\<close> that follow issue the whole queue first and then this id.
\<close>

theorem release_reissued_last:
  assumes "v \<in> seq_live s" and "sequence_inv s"
  shows "\<exists>s'. next_many (Suc (length (sq_seqs s))) (sequence_release s v) = Inr (sq_seqs s @ [v], s')"
proof -
  have "v \<in> seq_range s" using assms seq_live_range by blast
  then have "sq_seqs (sequence_release s v) = sq_seqs s @ [v]"
    by (simp add: sequence_release_def seq_range_def)
  then show ?thesis
    using next_many_queue [of "Suc (length (sq_seqs s))" "sequence_release s v"] by simp
qed

theorem release_reissued_last_witness:
  "\<exists>s'. next_many 3 (sequence_release
      \<lparr>sq_begin = 1, sq_end = 9, sq_current = 5, sq_reserve = 2, sq_seqs = [3, 4 :: u16]\<rparr> 1)
     = Inr ([3, 4, 1], s')"
proof -
  let ?s = "\<lparr>sq_begin = 1, sq_end = 9, sq_current = 5, sq_reserve = 2, sq_seqs = [3, 4 :: u16]\<rparr>"
  have "1 \<in> seq_live ?s" "sequence_inv ?s"
    by (simp_all add: seq_live_def sequence_inv_def)
  from release_reissued_last [OF this] show ?thesis by (simp add: numeral_3_eq_3)
qed

end
