(* ===== verification/Sub_Map.thy ===== *)
theory Sub_Map
  imports Topic Id_Sequence
begin

text \<open>
  Subscriptions: \<open>channel::sub\<close> (\<open>include/lax/channel/sub.hpp\<close>) and the two-mode
  subscription table \<open>channel::sub_map\<close> (\<open>src/channel/detail/sub_map.cpp\<close>). A callback is
  a function on the subscriber's world \<open>'w\<close>, so a post returns the world after every
  callback it made; a callback that calls back into the same table while the table is being
  traversed is not modelled (\<open>sub_map\<close> holds its lock during the traversal). The lock is
  held for the whole of each operation, so an operation is one step.
\<close>

section \<open>channel::sub\<close>

datatype mode = Immediate | Delayed

record ('a, 'w) sub =
  s_key :: u32
  s_topic :: topic
  s_cond :: "'a message_scheme \<Rightarrow> bool"
  s_cb :: "'a message_scheme \<Rightarrow> 'w \<Rightarrow> 'w"
  s_mode :: mode
  s_post_count :: nat

definition sub_new ::
  "u32 \<Rightarrow> topic \<Rightarrow> ('a message_scheme \<Rightarrow> bool) \<Rightarrow> ('a message_scheme \<Rightarrow> 'w \<Rightarrow> 'w) \<Rightarrow> mode \<Rightarrow> ('a, 'w) sub" where
  "sub_new key topic cond cb md =
     \<lparr>s_key = key, s_topic = topic, s_cond = cond, s_cb = cb, s_mode = md, s_post_count = 0\<rparr>"

definition sub_post ::
  "('a, 'w) sub \<Rightarrow> 'a message_scheme \<Rightarrow> 'w \<Rightarrow> bool \<times> ('a, 'w) sub \<times> 'w" where
  "sub_post s m w =
     (if \<not> topic_match (s_topic s) (m_topic m) then (False, s, w)
      else if \<not> s_cond s m then (False, s, w)
      else (True, s\<lparr>s_post_count := Suc (s_post_count s)\<rparr>, s_cb s m w))"

section \<open>channel::sub_map\<close>

record ('a, 'w) sub_entry =
  e_topic :: topic
  e_post_count :: nat
  e_subs :: "('a, 'w) sub list"

definition entry_new :: "('a, 'w) sub_entry" where
  "entry_new = \<lparr>e_topic = Topic 0, e_post_count = 0, e_subs = []\<rparr>"

type_synonym ('a, 'w) entry_map = "topic \<rightharpoonup> ('a, 'w) sub_entry"

record ('a, 'w) sub_map =
  sm_use_lock :: bool
  sm_immediate :: "('a, 'w) entry_map"
  sm_delayed :: "('a, 'w) entry_map"
  sm_keys :: "u32 \<rightharpoonup> topic \<times> mode"
  sm_seq :: "u32 sequence"

definition sub_map_new :: "bool \<Rightarrow> ('a, 'w) sub_map" where
  "sub_map_new use_lock =
     \<lparr>sm_use_lock = use_lock, sm_immediate = Map.empty, sm_delayed = Map.empty,
      sm_keys = Map.empty, sm_seq = sequence_new 1 0xFFFFFFFF 1000\<rparr>"

text \<open>Both branches of \<open>if (mode == immediate)\<close> work on the entry map of that mode.\<close>

definition sm_entries :: "('a, 'w) sub_map \<Rightarrow> mode \<Rightarrow> ('a, 'w) entry_map" where
  "sm_entries sm md = (if md = Immediate then sm_immediate sm else sm_delayed sm)"

definition sm_set_entries :: "('a, 'w) sub_map \<Rightarrow> mode \<Rightarrow> ('a, 'w) entry_map \<Rightarrow> ('a, 'w) sub_map" where
  "sm_set_entries sm md em =
     (if md = Immediate then sm\<lparr>sm_immediate := em\<rparr> else sm\<lparr>sm_delayed := em\<rparr>)"

subsection \<open>Subscribing\<close>

text \<open>\<open>subscribe(entry&, ...)\<close>: takes a key, appends the sub, records the key.\<close>

definition subscribe_entry ::
  "('a, 'w) sub_map \<Rightarrow> ('a, 'w) sub_entry \<Rightarrow> topic \<Rightarrow> ('a message_scheme \<Rightarrow> bool)
    \<Rightarrow> ('a message_scheme \<Rightarrow> 'w \<Rightarrow> 'w) \<Rightarrow> mode
    \<Rightarrow> fault + (u32 \<times> ('a, 'w) sub_entry \<times> ('a, 'w) sub_map)" where
  "subscribe_entry sm e topic cond cb md =
     (case sequence_next (sm_seq sm) of
        Inl f \<Rightarrow> Inl f
      | Inr (key, sq) \<Rightarrow>
          Inr (key, e\<lparr>e_subs := e_subs e @ [sub_new key topic cond cb md]\<rparr>,
               sm\<lparr>sm_seq := sq, sm_keys := (sm_keys sm)(key \<mapsto> (topic, md))\<rparr>))"

text \<open>\<open>subscribe(entry_map&, ...)\<close>: a new entry for a new topic, else the entry there is.\<close>

definition subscribe_em ::
  "('a, 'w) sub_map \<Rightarrow> mode \<Rightarrow> topic \<Rightarrow> ('a message_scheme \<Rightarrow> bool)
    \<Rightarrow> ('a message_scheme \<Rightarrow> 'w \<Rightarrow> 'w) \<Rightarrow> fault + (u32 \<times> ('a, 'w) sub_map)" where
  "subscribe_em sm md topic cond cb =
     (case sm_entries sm md topic of
        None \<Rightarrow>
          (case subscribe_entry sm entry_new topic cond cb md of
             Inl f \<Rightarrow> Inl f
           | Inr (key, e, sm') \<Rightarrow>
               Inr (key, sm_set_entries sm' md ((sm_entries sm' md)(topic \<mapsto> e))))
      | Some e0 \<Rightarrow>
          (case subscribe_entry sm e0 topic cond cb md of
             Inl f \<Rightarrow> Inl f
           | Inr (key, e, sm') \<Rightarrow>
               Inr (key, sm_set_entries sm' md ((sm_entries sm' md)(topic \<mapsto> e)))))"

definition sub_map_subscribe ::
  "('a, 'w) sub_map \<Rightarrow> topic \<Rightarrow> ('a message_scheme \<Rightarrow> bool) \<Rightarrow> ('a message_scheme \<Rightarrow> 'w \<Rightarrow> 'w)
    \<Rightarrow> mode \<Rightarrow> fault + (u32 \<times> ('a, 'w) sub_map)" where
  "sub_map_subscribe sm topic cond cb md =
     (if md = Immediate then subscribe_em sm Immediate topic cond cb
      else subscribe_em sm Delayed topic cond cb)"

definition sub_map_subscribe_all ::
  "('a, 'w) sub_map \<Rightarrow> topic \<Rightarrow> ('a message_scheme \<Rightarrow> 'w \<Rightarrow> 'w) \<Rightarrow> mode
    \<Rightarrow> fault + (u32 \<times> ('a, 'w) sub_map)" where
  "sub_map_subscribe_all sm topic cb md = sub_map_subscribe sm topic (\<lambda>m. True) cb md"

subsection \<open>Unsubscribing\<close>

text \<open>\<open>std::find_if\<close> and \<open>erase\<close>: the first sub with the key, if there is one.\<close>

definition erase_key :: "u32 \<Rightarrow> ('a, 'w) sub list \<Rightarrow> ('a, 'w) sub list" where
  "erase_key key subs =
     takeWhile (\<lambda>s. s_key s \<noteq> key) subs @ tl (dropWhile (\<lambda>s. s_key s \<noteq> key) subs)"

definition unsubscribe_em ::
  "('a, 'w) sub_map \<Rightarrow> mode \<Rightarrow> u32 \<Rightarrow> bool \<times> ('a, 'w) sub_map" where
  "unsubscribe_em sm md key =
     (case sm_keys sm key of
        None \<Rightarrow> (False, sm)
      | Some (topic, _) \<Rightarrow>
          (let sm1 = sm\<lparr>sm_keys := (sm_keys sm)(key := None), sm_seq := sequence_release (sm_seq sm) key\<rparr>
           in case sm_entries sm1 md topic of
                None \<Rightarrow> (False, sm1)
              | Some e \<Rightarrow>
                  (if list_ex (\<lambda>s. s_key s = key) (e_subs e)
                   then (True, sm_set_entries sm1 md
                           ((sm_entries sm1 md)(topic \<mapsto> e\<lparr>e_subs := erase_key key (e_subs e)\<rparr>)))
                   else (False, sm1))))"

definition sub_map_unsubscribe :: "('a, 'w) sub_map \<Rightarrow> u32 \<Rightarrow> bool \<times> ('a, 'w) sub_map" where
  "sub_map_unsubscribe sm key =
     (case sm_keys sm key of
        None \<Rightarrow> (False, sm)
      | Some (_, md) \<Rightarrow>
          (if md = Immediate then unsubscribe_em sm Immediate key
           else unsubscribe_em sm Delayed key))"

subsection \<open>Posting\<close>

fun post_subs ::
  "('a, 'w) sub list \<Rightarrow> 'a message_scheme \<Rightarrow> 'w \<Rightarrow> nat \<times> ('a, 'w) sub list \<times> 'w" where
  "post_subs [] m w = (0, [], w)"
| "post_subs (s # ss) m w =
     (case sub_post s m w of
        (ok, s', w1) \<Rightarrow>
          (case post_subs ss m w1 of
             (n, ss', w2) \<Rightarrow> (if ok then Suc n else n, s' # ss', w2)))"

definition post_on_topic ::
  "('a, 'w) entry_map \<Rightarrow> topic \<Rightarrow> 'a message_scheme \<Rightarrow> 'w \<Rightarrow> nat \<times> ('a, 'w) entry_map \<times> 'w" where
  "post_on_topic em topic m w =
     (if \<not> is_valid topic then (0, em, w)
      else case em topic of
             None \<Rightarrow> (0, em, w)
           | Some e \<Rightarrow>
               (case post_subs (e_subs e) m w of
                  (n, ss, w') \<Rightarrow> (n, em(topic \<mapsto> e\<lparr>e_subs := ss\<rparr>), w')))"

text \<open>\<open>post(entry_map&, m)\<close>: the message's topic, then its group topic.\<close>

definition post_em ::
  "('a, 'w) entry_map \<Rightarrow> 'a message_scheme \<Rightarrow> 'w \<Rightarrow> nat \<times> ('a, 'w) entry_map \<times> 'w" where
  "post_em em m w =
     (case post_on_topic em (m_topic m) m w of
        (n1, em1, w1) \<Rightarrow>
          (case post_on_topic em1 (get_group_topic (m_topic m)) m w1 of
             (n2, em2, w2) \<Rightarrow> (n1 + n2, em2, w2)))"

text \<open>\<open>post(entry_map&, topic, m)\<close>: the given topic and its group first.\<close>

definition post_em_topic ::
  "('a, 'w) entry_map \<Rightarrow> topic \<Rightarrow> 'a message_scheme \<Rightarrow> 'w \<Rightarrow> nat \<times> ('a, 'w) entry_map \<times> 'w" where
  "post_em_topic em topic m w =
     (case post_on_topic em topic m w of
        (n1, em1, w1) \<Rightarrow>
          (case post_on_topic em1 (get_group_topic topic) m w1 of
             (n2, em2, w2) \<Rightarrow>
               (case post_on_topic em2 (m_topic m) m w2 of
                  (n3, em3, w3) \<Rightarrow>
                    (case post_on_topic em3 (get_group_topic (m_topic m)) m w3 of
                       (n4, em4, w4) \<Rightarrow> (n1 + n2 + n3 + n4, em4, w4)))))"

definition sub_map_post ::
  "('a, 'w) sub_map \<Rightarrow> 'a message_scheme \<Rightarrow> mode \<Rightarrow> 'w \<Rightarrow> nat \<times> ('a, 'w) sub_map \<times> 'w" where
  "sub_map_post sm m md w =
     (case post_em (sm_entries sm md) m w of (n, em, w') \<Rightarrow> (n, sm_set_entries sm md em, w'))"

definition sub_map_post_topic ::
  "('a, 'w) sub_map \<Rightarrow> topic \<Rightarrow> 'a message_scheme \<Rightarrow> mode \<Rightarrow> 'w \<Rightarrow> nat \<times> ('a, 'w) sub_map \<times> 'w" where
  "sub_map_post_topic sm topic m md w =
     (case post_em_topic (sm_entries sm md) topic m w of
        (n, em, w') \<Rightarrow> (n, sm_set_entries sm md em, w'))"

subsection \<open>Queries\<close>

definition has_delayed_sub :: "('a, 'w) sub_map \<Rightarrow> topic \<Rightarrow> bool" where
  "has_delayed_sub sm topic \<longleftrightarrow> sm_delayed sm topic \<noteq> None"

definition get_subscription_count_mode :: "('a, 'w) sub_map \<Rightarrow> topic \<Rightarrow> mode \<Rightarrow> nat" where
  "get_subscription_count_mode sm topic md =
     (case (if md = Delayed then sm_delayed sm else sm_immediate sm) topic of
        None \<Rightarrow> 0
      | Some e \<Rightarrow> length (e_subs e))"

definition get_subscription_count :: "('a, 'w) sub_map \<Rightarrow> topic \<Rightarrow> nat" where
  "get_subscription_count sm topic =
     get_subscription_count_mode sm topic Immediate + get_subscription_count_mode sm topic Delayed"

section \<open>What a post delivers\<close>

text \<open>
  \<open>accepts s m\<close>: the sub's own test. \<open>targets em t m\<close>: the subs that \<open>post_on_topic\<close> calls
  back. \<open>run_cbs\<close>: their callbacks in that order. The subs in the table change by their
  post count only (\<open>bump\<close>).
\<close>

definition accepts :: "('a, 'w) sub \<Rightarrow> 'a message_scheme \<Rightarrow> bool" where
  "accepts s m \<longleftrightarrow> topic_match (s_topic s) (m_topic m) \<and> s_cond s m"

definition bump :: "'a message_scheme \<Rightarrow> ('a, 'w) sub \<Rightarrow> ('a, 'w) sub" where
  "bump m s = (if accepts s m then s\<lparr>s_post_count := Suc (s_post_count s)\<rparr> else s)"

definition run_cbs :: "'a message_scheme \<Rightarrow> ('a, 'w) sub list \<Rightarrow> 'w \<Rightarrow> 'w" where
  "run_cbs m ss w = fold (\<lambda>s. s_cb s m) ss w"

definition subs_at :: "('a, 'w) entry_map \<Rightarrow> topic \<Rightarrow> ('a, 'w) sub list" where
  "subs_at em t = (case em t of None \<Rightarrow> [] | Some e \<Rightarrow> e_subs e)"

definition targets :: "('a, 'w) entry_map \<Rightarrow> topic \<Rightarrow> 'a message_scheme \<Rightarrow> ('a, 'w) sub list" where
  "targets em t m = (if is_valid t then filter (\<lambda>s. accepts s m) (subs_at em t) else [])"

definition bump_at :: "('a, 'w) entry_map \<Rightarrow> topic \<Rightarrow> 'a message_scheme \<Rightarrow> ('a, 'w) entry_map" where
  "bump_at em t m =
     (if is_valid t
      then (case em t of None \<Rightarrow> em | Some e \<Rightarrow> em(t \<mapsto> e\<lparr>e_subs := map (bump m) (e_subs e)\<rparr>))
      else em)"

lemma bump_simps [simp]:
  "s_key (bump m s) = s_key s" "s_topic (bump m s) = s_topic s" "s_cond (bump m s) = s_cond s"
  "s_cb (bump m s) = s_cb s" "s_mode (bump m s) = s_mode s" "accepts (bump m s) m' = accepts s m'"
  by (simp_all add: bump_def accepts_def)

lemma run_cbs_simps [simp]:
  "run_cbs m [] w = w"
  "run_cbs m (s # ss) w = run_cbs m ss (s_cb s m w)"
  "run_cbs m (ss @ ts) w = run_cbs m ts (run_cbs m ss w)"
  "run_cbs m (map (bump m') ss) w = run_cbs m ss w"
  by (simp_all add: run_cbs_def fold_map o_def)

lemma sub_post_eq [lax_abs]:
  "sub_post s m w = (accepts s m, bump m s, if accepts s m then s_cb s m w else w)"
  by (simp add: sub_post_def accepts_def bump_def)

lemma post_subs_eq [lax_abs]:
  "post_subs ss m w =
     (length (filter (\<lambda>s. accepts s m) ss), map (bump m) ss, run_cbs m (filter (\<lambda>s. accepts s m) ss) w)"
  by (induction ss arbitrary: w) (auto simp: sub_post_eq)

lemma post_on_topic_eq [lax_abs]:
  "post_on_topic em t m w = (length (targets em t m), bump_at em t m, run_cbs m (targets em t m) w)"
  by (simp add: post_on_topic_def targets_def bump_at_def subs_at_def post_subs_eq split: option.split)

text \<open>A table up to the post counts: what bumping leaves alone.\<close>

definition same_table :: "('a, 'w) entry_map \<Rightarrow> ('a, 'w) entry_map \<Rightarrow> bool" where
  "same_table em em' \<longleftrightarrow>
     dom em = dom em' \<and> (\<forall>t. map (\<lambda>s. s\<lparr>s_post_count := 0\<rparr>) (subs_at em t)
                                = map (\<lambda>s. s\<lparr>s_post_count := 0\<rparr>) (subs_at em' t))"

lemma bump_zero_count [simp]: "(bump m s)\<lparr>s_post_count := 0\<rparr> = s\<lparr>s_post_count := 0\<rparr>"
  by (simp add: bump_def)

lemma same_table_refl [simp]: "same_table em em"
  by (simp add: same_table_def)

lemma same_table_trans: "same_table em em' \<Longrightarrow> same_table em' em'' \<Longrightarrow> same_table em em''"
  by (simp add: same_table_def)

lemma same_table_sym: "same_table em em' \<Longrightarrow> same_table em' em"
  by (simp add: same_table_def)

lemma same_table_bump_at [simp]: "same_table em (bump_at em t m)"
  by (auto simp: same_table_def bump_at_def subs_at_def split: option.splits)

lemma same_table_bump_at2 [intro]: "same_table em em' \<Longrightarrow> same_table em (bump_at em' t m)"
  by (rule same_table_trans [OF _ same_table_bump_at])

lemma zero_count_cb:
  "s\<lparr>s_post_count := 0\<rparr> = s'\<lparr>s_post_count := 0\<rparr> \<Longrightarrow>
     s_cb s = s_cb s' \<and> accepts s m = accepts s' m \<and> s_key s = s_key s' \<and> s_topic s = s_topic s'
     \<and> s_mode s = s_mode s' \<and> s_cond s = s_cond s'"
  by (cases s; cases s') (simp add: accepts_def)

lemma run_cbs_same:
  "map (\<lambda>s. s\<lparr>s_post_count := 0\<rparr>) ss = map (\<lambda>s. s\<lparr>s_post_count := 0\<rparr>) ss' \<Longrightarrow>
     run_cbs m (filter (\<lambda>s. accepts s m) ss) w = run_cbs m (filter (\<lambda>s. accepts s m) ss') w \<and>
     length (filter (\<lambda>s. accepts s m) ss) = length (filter (\<lambda>s. accepts s m) ss')"
proof (induction ss arbitrary: ss' w)
  case Nil
  then show ?case by simp
next
  case (Cons s ss)
  then obtain s' ss'' where ss': "ss' = s' # ss''" and s: "s\<lparr>s_post_count := 0\<rparr> = s'\<lparr>s_post_count := 0\<rparr>"
    and rest: "map (\<lambda>s. s\<lparr>s_post_count := 0\<rparr>) ss = map (\<lambda>s. s\<lparr>s_post_count := 0\<rparr>) ss''"
    by (cases ss') auto
  show ?case using Cons.IH [OF rest] zero_count_cb [OF s, of m] ss' by simp
qed

lemma run_cbs_targets_same:
  "same_table em em' \<Longrightarrow> run_cbs m (targets em t m) w = run_cbs m (targets em' t m) w \<and>
     length (targets em t m) = length (targets em' t m)"
  using run_cbs_same [of "subs_at em t" "subs_at em' t"] by (auto simp: targets_def same_table_def)

text \<open>The subs a post to the topics \<open>ts\<close> calls back, one after the other.\<close>

definition deliveries ::
  "('a, 'w) entry_map \<Rightarrow> topic list \<Rightarrow> 'a message_scheme \<Rightarrow> ('a, 'w) sub list" where
  "deliveries em ts m = concat (map (\<lambda>t. targets em t m) ts)"

lemma deliveries_same:
  "same_table em em' \<Longrightarrow> run_cbs m (deliveries em ts m) w = run_cbs m (deliveries em' ts m) w \<and>
     length (deliveries em ts m) = length (deliveries em' ts m)"
proof (induction ts arbitrary: w)
  case Nil
  then show ?case by (simp add: deliveries_def)
next
  case (Cons t ts)
  then show ?case using run_cbs_targets_same [OF Cons.prems, of m t w]
    by (simp add: deliveries_def)
qed

lemma post_em_eq [lax_abs]:
  "post_em em m w = (n, em', w') \<Longrightarrow>
     same_table em em' \<and> n = length (deliveries em [m_topic m, get_group_topic (m_topic m)] m) \<and>
     w' = run_cbs m (deliveries em [m_topic m, get_group_topic (m_topic m)] m) w"
  using run_cbs_targets_same [OF same_table_bump_at [of em "m_topic m" m], of m "get_group_topic (m_topic m)"]
  by (auto simp: post_em_def post_on_topic_eq deliveries_def)

lemma post_em_topic_eq [lax_abs]:
  assumes "post_em_topic em topic m w = (n, em', w')"
  defines "ts \<equiv> [topic, get_group_topic topic, m_topic m, get_group_topic (m_topic m)]"
  shows "same_table em em' \<and> n = length (deliveries em ts m) \<and> w' = run_cbs m (deliveries em ts m) w"
proof -
  define em1 where "em1 = bump_at em topic m"
  define em2 where "em2 = bump_at em1 (get_group_topic topic) m"
  define em3 where "em3 = bump_at em2 (m_topic m) m"
  have s1: "same_table em em1" by (simp add: em1_def)
  have s2: "same_table em em2" using same_table_trans [OF s1] by (simp add: em2_def)
  have s3: "same_table em em3" using same_table_trans [OF s2] by (simp add: em3_def)
  have s4: "same_table em (bump_at em3 (get_group_topic (m_topic m)) m)"
    using same_table_trans [OF s3] by simp
  show ?thesis
    using assms(1) s4 run_cbs_targets_same [OF s1, of m] run_cbs_targets_same [OF s2, of m]
      run_cbs_targets_same [OF s3, of m]
    by (auto simp: post_em_topic_def post_on_topic_eq deliveries_def ts_def em1_def em2_def em3_def)
qed

section \<open>Invariant of the table\<close>

text \<open>
  The key index, the two entry maps and the key sequence agree: every sub sits under its own
  topic in the map of its mode and is indexed, every indexed key has its sub, no key is used
  twice, and the keys in use are the ids the sequence has issued.
\<close>

definition sub_map_inv :: "('a, 'w) sub_map \<Rightarrow> bool" where
  "sub_map_inv sm \<longleftrightarrow>
     sequence_inv (sm_seq sm) \<and> dom (sm_keys sm) = seq_live (sm_seq sm) \<and>
     (\<forall>md t. distinct (map s_key (subs_at (sm_entries sm md) t))) \<and>
     (\<forall>md t. \<forall>s \<in> set (subs_at (sm_entries sm md) t).
         s_topic s = t \<and> s_mode s = md \<and> sm_keys sm (s_key s) = Some (t, md)) \<and>
     (\<forall>k t md. sm_keys sm k = Some (t, md) \<longrightarrow> k \<in> s_key ` set (subs_at (sm_entries sm md) t))"

lemma sm_entries_set [simp]:
  "sm_entries (sm_set_entries sm md em) md' = (if md' = md then em else sm_entries sm md')"
  by (cases md; cases md') (simp_all add: sm_entries_def sm_set_entries_def)

lemma sm_set_entries_frame [simp]:
  "sm_keys (sm_set_entries sm md em) = sm_keys sm" "sm_seq (sm_set_entries sm md em) = sm_seq sm"
  "sm_use_lock (sm_set_entries sm md em) = sm_use_lock sm"
  by (simp_all add: sm_set_entries_def)

lemma sm_entries_frame [simp]:
  "sm_entries (sm\<lparr>sm_keys := ks\<rparr>) md = sm_entries sm md"
  "sm_entries (sm\<lparr>sm_seq := sq\<rparr>) md = sm_entries sm md"
  "sm_entries (sm\<lparr>sm_keys := ks, sm_seq := sq\<rparr>) md = sm_entries sm md"
  "sm_entries (sm\<lparr>sm_seq := sq, sm_keys := ks\<rparr>) md = sm_entries sm md"
  by (simp_all add: sm_entries_def)

lemma sub_new_simps [simp]:
  "s_key (sub_new k t c cb md) = k" "s_topic (sub_new k t c cb md) = t" "s_cond (sub_new k t c cb md) = c"
  "s_cb (sub_new k t c cb md) = cb" "s_mode (sub_new k t c cb md) = md"
  by (simp_all add: sub_new_def)

lemma subs_at_upd [simp]:
  "subs_at (em(t \<mapsto> e)) t' = (if t' = t then e_subs e else subs_at em t')"
  by (simp add: subs_at_def)

lemma sub_map_new_inv [lax_inv]: "sub_map_inv (sub_map_new l)"
proof -
  have "sequence_inv (sequence_new (1 :: u32) 0xFFFFFFFF 1000)"
    and "seq_live (sequence_new (1 :: u32) 0xFFFFFFFF 1000) = {}"
    by (rule sequence_new_inv, simp, rule sequence_new_live, simp)
  then show ?thesis
    by (simp add: sub_map_inv_def sub_map_new_def sm_entries_def subs_at_def)
qed

text \<open>Subscribing: a key of the sequence, the sub at the end of its topic, nothing else.\<close>

lemma subscribe_cases:
  assumes "sub_map_subscribe sm t c cb md = Inr (k, sm')"
  obtains sq where "sequence_next (sm_seq sm) = Inr (k, sq)" "sm_seq sm' = sq"
    "sm_keys sm' = (sm_keys sm)(k \<mapsto> (t, md))"
    "\<And>md' t'. subs_at (sm_entries sm' md') t' =
       (if md' = md \<and> t' = t then subs_at (sm_entries sm md) t @ [sub_new k t c cb md]
        else subs_at (sm_entries sm md') t')"
    "\<And>md'. dom (sm_entries sm' md') =
       (if md' = md then insert t (dom (sm_entries sm md)) else dom (sm_entries sm md'))"
proof -
  have em: "subscribe_em sm md t c cb = Inr (k, sm')"
    using assms by (cases md) (simp_all add: sub_map_subscribe_def)
  then obtain sq where sq: "sequence_next (sm_seq sm) = Inr (k, sq)"
    by (auto simp: subscribe_em_def subscribe_entry_def split: option.splits sum.splits)
  show thesis
  proof (cases "sm_entries sm md t")
    case None
    then have "subs_at (sm_entries sm md) t = []" by (simp add: subs_at_def)
    moreover have "sm' = sm_set_entries (sm\<lparr>sm_seq := sq, sm_keys := (sm_keys sm)(k \<mapsto> (t, md))\<rparr>) md
        ((sm_entries sm md)(t \<mapsto> entry_new\<lparr>e_subs := [sub_new k t c cb md]\<rparr>))"
      using em sq None by (auto simp: subscribe_em_def subscribe_entry_def entry_new_def)
    ultimately show thesis by (intro that [OF sq]) auto
  next
    case (Some e)
    then have "subs_at (sm_entries sm md) t = e_subs e" by (simp add: subs_at_def)
    moreover have "sm' = sm_set_entries (sm\<lparr>sm_seq := sq, sm_keys := (sm_keys sm)(k \<mapsto> (t, md))\<rparr>) md
        ((sm_entries sm md)(t \<mapsto> e\<lparr>e_subs := e_subs e @ [sub_new k t c cb md]\<rparr>))"
      using em sq Some by (auto simp: subscribe_em_def subscribe_entry_def)
    ultimately show thesis using Some by (intro that [OF sq]) auto
  qed
qed

lemma subscribe_inv [lax_inv]:
  assumes inv: "sub_map_inv sm" and sub: "sub_map_subscribe sm t c cb md = Inr (k, sm')"
  shows "sub_map_inv sm'" "sm_keys sm k = None"
proof -
  obtain sq where sq: "sequence_next (sm_seq sm) = Inr (k, sq)" "sm_seq sm' = sq"
    and keys: "sm_keys sm' = (sm_keys sm)(k \<mapsto> (t, md))"
    and subs: "\<And>md' t'. subs_at (sm_entries sm' md') t' =
       (if md' = md \<and> t' = t then subs_at (sm_entries sm md) t @ [sub_new k t c cb md]
        else subs_at (sm_entries sm md') t')"
    using subscribe_cases [OF sub] by metis
  have seq: "sequence_inv (sm_seq sm)" using inv by (simp add: sub_map_inv_def)
  note nx = sequence_next_ok [OF seq sq(1)]
  have dom: "dom (sm_keys sm) = seq_live (sm_seq sm)" using inv by (simp add: sub_map_inv_def)
  then show fresh: "sm_keys sm k = None" using nx(2) by (auto simp: domIff)
  have notin: "k \<notin> s_key ` set (subs_at (sm_entries sm md') t')" for md' t'
    using inv fresh by (force simp: sub_map_inv_def)
  show "sub_map_inv sm'"
    unfolding sub_map_inv_def
  proof (intro conjI)
    show "sequence_inv (sm_seq sm')" using nx(1) sq(2) by simp
    show "dom (sm_keys sm') = seq_live (sm_seq sm')" using nx(3) sq(2) keys dom by simp
    show "\<forall>md t. distinct (map s_key (subs_at (sm_entries sm' md) t))"
      using inv notin by (auto simp: subs sub_map_inv_def)
    show "\<forall>md t. \<forall>s \<in> set (subs_at (sm_entries sm' md) t).
         s_topic s = t \<and> s_mode s = md \<and> sm_keys sm' (s_key s) = Some (t, md)"
      using inv notin by (auto simp: subs keys sub_map_inv_def)
    show "\<forall>k t md. sm_keys sm' k = Some (t, md) \<longrightarrow> k \<in> s_key ` set (subs_at (sm_entries sm' md) t)"
      using inv by (auto simp: subs keys sub_map_inv_def)
  qed
qed

lemma erase_key_filter:
  "distinct (map s_key ss) \<Longrightarrow> erase_key k ss = filter (\<lambda>s. s_key s \<noteq> k) ss"
proof (induction ss)
  case Nil
  then show ?case by (simp add: erase_key_def)
next
  case (Cons s ss)
  have "s_key s \<notin> s_key ` set ss \<Longrightarrow> filter (\<lambda>t. s_key t \<noteq> s_key s) ss = ss"
    by (rule filter_True) (metis image_eqI)
  with Cons show ?case by (auto simp: erase_key_def)
qed

lemma unsubscribe_cases:
  assumes inv: "sub_map_inv sm" and key: "sm_keys sm k = Some (t, md)"
  obtains sm' where "sub_map_unsubscribe sm k = (True, sm')"
    "sm_seq sm' = sequence_release (sm_seq sm) k" "sm_keys sm' = (sm_keys sm)(k := None)"
    "\<And>md' t'. subs_at (sm_entries sm' md') t' =
       (if md' = md \<and> t' = t then filter (\<lambda>s. s_key s \<noteq> k) (subs_at (sm_entries sm md) t)
        else subs_at (sm_entries sm md') t')"
    "\<And>md'. dom (sm_entries sm' md') = dom (sm_entries sm md')"
proof -
  have k: "k \<in> s_key ` set (subs_at (sm_entries sm md) t)"
    and d: "distinct (map s_key (subs_at (sm_entries sm md) t))"
    using inv key by (simp_all add: sub_map_inv_def)
  then obtain e where e: "sm_entries sm md t = Some e"
    by (auto simp: subs_at_def split: option.splits)
  with k have ex: "list_ex (\<lambda>s. s_key s = k) (e_subs e)"
    by (auto simp: list_ex_iff subs_at_def)
  define sm1 where "sm1 = sm\<lparr>sm_keys := (sm_keys sm)(k := None), sm_seq := sequence_release (sm_seq sm) k\<rparr>"
  define sm' where "sm' = sm_set_entries sm1 md
    ((sm_entries sm1 md)(t \<mapsto> e\<lparr>e_subs := erase_key k (e_subs e)\<rparr>))"
  have "sub_map_unsubscribe sm k = unsubscribe_em sm md k"
    using key by (cases md) (simp_all add: sub_map_unsubscribe_def)
  also have "\<dots> = (True, sm')"
    using key e ex by (simp add: unsubscribe_em_def sm'_def sm1_def Let_def)
  finally have run: "sub_map_unsubscribe sm k = (True, sm')" .
  show thesis
    using d e by (intro that [OF run])
      (auto simp: sm'_def sm1_def subs_at_def erase_key_filter split: if_splits)
qed

lemma unsubscribe_inv [lax_inv]:
  assumes inv: "sub_map_inv sm" and unsub: "sub_map_unsubscribe sm k = (ok, sm')"
  shows "sub_map_inv sm'"
proof (cases "sm_keys sm k")
  case None
  then show ?thesis using inv unsub by (simp add: sub_map_unsubscribe_def)
next
  case (Some p)
  obtain t md where key: "sm_keys sm k = Some (t, md)" using Some by (cases p) simp
  obtain sm1 where run: "sub_map_unsubscribe sm k = (True, sm1)"
    and seq: "sm_seq sm1 = sequence_release (sm_seq sm) k" and keys: "sm_keys sm1 = (sm_keys sm)(k := None)"
    and subs: "\<And>md' t'. subs_at (sm_entries sm1 md') t' =
       (if md' = md \<and> t' = t then filter (\<lambda>s. s_key s \<noteq> k) (subs_at (sm_entries sm md) t)
        else subs_at (sm_entries sm md') t')"
    using unsubscribe_cases [OF inv key] by metis
  have sm': "sm' = sm1" using run unsub by simp
  have sq: "sequence_inv (sm_seq sm)" and dom: "dom (sm_keys sm) = seq_live (sm_seq sm)"
    using inv by (simp_all add: sub_map_inv_def)
  have live: "k \<in> seq_live (sm_seq sm)" using key dom by blast
  have other: "k \<notin> s_key ` set (subs_at (sm_entries sm md') t')" if "md' \<noteq> md \<or> t' \<noteq> t" for md' t'
    using inv key that by (force simp: sub_map_inv_def)
  show ?thesis
    unfolding sm' sub_map_inv_def
  proof (intro conjI)
    show "sequence_inv (sm_seq sm1)" using ids.free_ok [OF sq live] seq by simp
    show "dom (sm_keys sm1) = seq_live (sm_seq sm1)"
      using ids.free_live [OF sq live] seq keys dom by simp
    show "\<forall>md t. distinct (map s_key (subs_at (sm_entries sm1 md) t))"
      using inv by (auto simp: subs sub_map_inv_def distinct_map_filter)
    show "\<forall>md t. \<forall>s \<in> set (subs_at (sm_entries sm1 md) t).
         s_topic s = t \<and> s_mode s = md \<and> sm_keys sm1 (s_key s) = Some (t, md)"
      using inv other by (auto simp: subs keys sub_map_inv_def)
    show "\<forall>k t md. sm_keys sm1 k = Some (t, md) \<longrightarrow> k \<in> s_key ` set (subs_at (sm_entries sm1 md) t)"
    proof (intro allI impI)
      fix k' t' md' assume "sm_keys sm1 k' = Some (t', md')"
      then have "k' \<noteq> k" "k' \<in> s_key ` set (subs_at (sm_entries sm md') t')"
        using inv by (auto simp: keys sub_map_inv_def split: if_splits)
      then show "k' \<in> s_key ` set (subs_at (sm_entries sm1 md') t')" by (auto simp: subs)
    qed
  qed
qed


section \<open>The registry the table implements\<close>

text \<open>
  The abstract subscription table is one list of subs in the order they subscribed, without
  counters. A step of it is given the operation and the result the code returned, and is
  undefined when the registry would not allow that result.
\<close>

type_synonym ('a, 'w) registry = "('a, 'w) sub list"

datatype ('a, 'w) sm_op =
    Subscribe topic "'a message_scheme \<Rightarrow> bool" "'a message_scheme \<Rightarrow> 'w \<Rightarrow> 'w" mode
  | Unsubscribe u32
  | Post "'a message_scheme" mode

datatype sm_result = Key u32 | Done bool | Count nat

definition sub_map_step ::
  "('a, 'w) sm_op \<Rightarrow> ('a, 'w) sub_map \<times> 'w \<Rightarrow> fault + (sm_result \<times> ('a, 'w) sub_map \<times> 'w)" where
  "sub_map_step oper st =
     (case st of (sm, w) \<Rightarrow>
        (case oper of
           Subscribe t c cb md \<Rightarrow>
             (case sub_map_subscribe sm t c cb md of Inl f \<Rightarrow> Inl f | Inr (k, sm') \<Rightarrow> Inr (Key k, sm', w))
         | Unsubscribe k \<Rightarrow> (case sub_map_unsubscribe sm k of (b, sm') \<Rightarrow> Inr (Done b, sm', w))
         | Post m md \<Rightarrow> (case sub_map_post sm m md w of (n, sm', w') \<Rightarrow> Inr (Count n, sm', w'))))"

fun sub_map_run ::
  "('a, 'w) sm_op list \<Rightarrow> ('a, 'w) sub_map \<times> 'w \<Rightarrow> fault + (sm_result list \<times> ('a, 'w) sub_map \<times> 'w)" where
  "sub_map_run [] st = Inr ([], st)"
| "sub_map_run (oper # ops) st =
     (case sub_map_step oper st of Inl f \<Rightarrow> Inl f
      | Inr (r, st') \<Rightarrow> (case sub_map_run ops st' of Inl f \<Rightarrow> Inl f | Inr (rs, st'') \<Rightarrow> Inr (r # rs, st'')))"

definition reg_keys :: "('a, 'w) registry \<Rightarrow> u32 set" where
  "reg_keys tbl = s_key ` set tbl"

definition reg_at :: "('a, 'w) registry \<Rightarrow> mode \<Rightarrow> topic \<Rightarrow> ('a, 'w) registry" where
  "reg_at tbl md t = filter (\<lambda>s. s_topic s = t \<and> s_mode s = md) tbl"

definition reg_targets :: "('a, 'w) registry \<Rightarrow> 'a message_scheme \<Rightarrow> mode \<Rightarrow> ('a, 'w) registry" where
  "reg_targets tbl m md =
     concat (map (\<lambda>t. if is_valid t then filter (\<lambda>s. s_cond s m) (reg_at tbl md t) else [])
                 [m_topic m, get_group_topic (m_topic m)])"

fun reg_step ::
  "('a, 'w) sm_op \<Rightarrow> sm_result \<Rightarrow> ('a, 'w) registry \<times> 'w \<Rightarrow> (('a, 'w) registry \<times> 'w) option" where
  "reg_step (Subscribe t c cb md) (Key k) (tbl, w) =
     (if k \<in> reg_keys tbl \<or> k = 0 then None else Some (tbl @ [sub_new k t c cb md], w))"
| "reg_step (Unsubscribe k) (Done b) (tbl, w) =
     (if b = (k \<in> reg_keys tbl) then Some (filter (\<lambda>s. s_key s \<noteq> k) tbl, w) else None)"
| "reg_step (Post m md) (Count n) (tbl, w) =
     (if n = length (reg_targets tbl m md) then Some (tbl, run_cbs m (reg_targets tbl m md) w) else None)"
| "reg_step _ _ _ = None"

fun reg_run ::
  "('a, 'w) sm_op list \<Rightarrow> sm_result list \<Rightarrow> ('a, 'w) registry \<times> 'w \<Rightarrow> (('a, 'w) registry \<times> 'w) option" where
  "reg_run [] [] st = Some st"
| "reg_run (oper # ops) (r # rs) st =
     (case reg_step oper r st of None \<Rightarrow> None | Some st' \<Rightarrow> reg_run ops rs st')"
| "reg_run _ _ _ = None"

definition reg_rel :: "('a, 'w) sub_map \<Rightarrow> ('a, 'w) registry \<Rightarrow> bool" where
  "reg_rel sm tbl \<longleftrightarrow>
     sub_map_inv sm \<and> sq_begin (sm_seq sm) = 1 \<and> dom (sm_keys sm) = reg_keys tbl \<and>
     (\<forall>md t. map (\<lambda>s. s\<lparr>s_post_count := 0\<rparr>) (subs_at (sm_entries sm md) t) = reg_at tbl md t)"

lemma reg_rel_new: "reg_rel (sub_map_new l) []"
  using sub_map_new_inv [of l]
  by (simp add: reg_rel_def reg_keys_def reg_at_def sub_map_new_def sm_entries_def subs_at_def
    sequence_new_def Let_def)

lemma reg_at_topic: "s \<in> set (reg_at tbl md t) \<Longrightarrow> s_topic s = t \<and> s_mode s = md"
  by (simp add: reg_at_def)

lemma same_table_keys:
  assumes "same_table em em'"
  shows "map s_key (subs_at em t) = map s_key (subs_at em' t)"
proof -
  have "map s_key (map (\<lambda>s. s\<lparr>s_post_count := 0\<rparr>) (subs_at em t)) =
      map s_key (map (\<lambda>s. s\<lparr>s_post_count := 0\<rparr>) (subs_at em' t))"
    using assms by (simp add: same_table_def)
  then show ?thesis by (simp add: o_def)
qed

lemma same_table_member:
  assumes "same_table em em'" "s \<in> set (subs_at em' t)"
  shows "\<exists>s0 \<in> set (subs_at em t). s_key s = s_key s0 \<and> s_topic s = s_topic s0 \<and> s_mode s = s_mode s0"
proof -
  have "s\<lparr>s_post_count := 0\<rparr> \<in> set (map (\<lambda>s. s\<lparr>s_post_count := 0\<rparr>) (subs_at em t))"
    using assms by (simp add: same_table_def)
  then obtain s0 where "s0 \<in> set (subs_at em t)" "s\<lparr>s_post_count := 0\<rparr> = s0\<lparr>s_post_count := 0\<rparr>" by auto
  with zero_count_cb [OF this(2)] show ?thesis by blast
qed

lemma set_entries_inv [lax_inv]:
  assumes "sub_map_inv sm" "same_table (sm_entries sm md) em"
  shows "sub_map_inv (sm_set_entries sm md em)"
proof -
  have keys: "map s_key (subs_at em t) = map s_key (subs_at (sm_entries sm md) t)" for t
    using same_table_keys [OF assms(2)] by simp
  then have set_keys: "s_key ` set (subs_at em t) = s_key ` set (subs_at (sm_entries sm md) t)" for t
    by (metis list.set_map)
  have "s_topic s = t \<and> s_mode s = md \<and> sm_keys sm (s_key s) = Some (t, md)"
    if "s \<in> set (subs_at em t)" for s t
    using same_table_member [OF assms(2) that] assms(1) by (auto simp: sub_map_inv_def)
  with assms(1) keys set_keys show ?thesis by (simp add: sub_map_inv_def)
qed

lemma accepts_zero: "accepts (s\<lparr>s_post_count := 0\<rparr>) m = accepts s m"
  by (simp add: accepts_def)

lemma run_cbs_zero: "run_cbs m (map (\<lambda>s. s\<lparr>s_post_count := 0\<rparr>) ss) w = run_cbs m ss w"
  by (simp add: run_cbs_def fold_map o_def)

lemma filter_zero:
  "map (\<lambda>s. s\<lparr>s_post_count := 0\<rparr>) (filter (\<lambda>s. accepts s m) ss) =
   filter (\<lambda>s. accepts s m) (map (\<lambda>s. s\<lparr>s_post_count := 0\<rparr>) ss)"
  by (simp add: filter_map o_def accepts_zero)

lemma targets_reg:
  assumes "reg_rel sm tbl" and t: "t = m_topic m \<or> t = get_group_topic (m_topic m)"
  shows "map (\<lambda>s. s\<lparr>s_post_count := 0\<rparr>) (targets (sm_entries sm md) t m) =
    (if is_valid t then filter (\<lambda>s. s_cond s m) (reg_at tbl md t) else [])"
proof -
  have "accepts s m = s_cond s m" if "s \<in> set (reg_at tbl md t)" for s
    using reg_at_topic [OF that] t by (auto simp: accepts_def topic_match_iff)
  moreover have "map (\<lambda>s. s\<lparr>s_post_count := 0\<rparr>) (subs_at (sm_entries sm md) t) = reg_at tbl md t"
    using assms(1) by (simp add: reg_rel_def)
  ultimately show ?thesis by (simp add: targets_def filter_zero cong: filter_cong)
qed

lemma deliveries_reg:
  assumes "reg_rel sm tbl"
  shows "map (\<lambda>s. s\<lparr>s_post_count := 0\<rparr>)
      (deliveries (sm_entries sm md) [m_topic m, get_group_topic (m_topic m)] m) = reg_targets tbl m md"
  using targets_reg [OF assms, of "m_topic m" m md] targets_reg [OF assms, of "get_group_topic (m_topic m)" m md]
  by (simp add: deliveries_def reg_targets_def)

lemma same_table_rel:
  assumes rel: "reg_rel sm tbl" and same: "same_table (sm_entries sm md) em"
  shows "reg_rel (sm_set_entries sm md em) tbl"
proof -
  have "map (\<lambda>s. s\<lparr>s_post_count := 0\<rparr>) (subs_at em t) = reg_at tbl md t" for t
    using same rel by (simp add: reg_rel_def same_table_def)
  then show ?thesis
    using rel set_entries_inv [OF _ same] unfolding reg_rel_def by simp
qed

lemma post_reg:
  assumes rel: "reg_rel sm tbl" and post: "sub_map_post sm m md w = (n, sm', w')"
  shows "reg_rel sm' tbl \<and> n = length (reg_targets tbl m md) \<and> w' = run_cbs m (reg_targets tbl m md) w"
proof -
  let ?ds = "deliveries (sm_entries sm md) [m_topic m, get_group_topic (m_topic m)] m"
  from post obtain em where em: "post_em (sm_entries sm md) m w = (n, em, w')"
    and sm': "sm' = sm_set_entries sm md em"
    by (auto simp: sub_map_post_def split: prod.splits)
  note eq = post_em_eq [OF em]
  have "n = length (reg_targets tbl m md)" "w' = run_cbs m (reg_targets tbl m md) w"
    using eq deliveries_reg [OF rel, of md m] run_cbs_zero [of m ?ds w] by (metis length_map)+
  moreover have "reg_rel sm' tbl"
    unfolding sm' using same_table_rel [OF rel] eq by blast
  ultimately show ?thesis by simp
qed

lemma reg_at_snoc:
  "reg_at (tbl @ [s]) md t = reg_at tbl md t @ (if s_topic s = t \<and> s_mode s = md then [s] else [])"
  by (simp add: reg_at_def)

lemma subscribe_reg:
  assumes rel: "reg_rel sm tbl" and sub: "sub_map_subscribe sm t c cb md = Inr (k, sm')"
  shows "reg_rel sm' (tbl @ [sub_new k t c cb md]) \<and> k \<notin> reg_keys tbl \<and> k \<noteq> 0"
proof -
  have inv: "sub_map_inv sm" and dom: "dom (sm_keys sm) = reg_keys tbl"
    and b: "sq_begin (sm_seq sm) = 1" using rel by (simp_all add: reg_rel_def)
  obtain sq where sq: "sequence_next (sm_seq sm) = Inr (k, sq)" "sm_seq sm' = sq"
    and keys: "sm_keys sm' = (sm_keys sm)(k \<mapsto> (t, md))"
    and subs: "\<And>md' t'. subs_at (sm_entries sm' md') t' =
       (if md' = md \<and> t' = t then subs_at (sm_entries sm md) t @ [sub_new k t c cb md]
        else subs_at (sm_entries sm md') t')"
    using subscribe_cases [OF sub] by metis
  have sinv: "sequence_inv (sm_seq sm)" using inv by (simp add: sub_map_inv_def)
  note nx = sequence_next_ok [OF sinv sq(1)]
  have k0: "k \<noteq> 0"
    using nx(2) b by (auto simp: seq_range_def word_le_nat_alt)
  have fresh: "k \<notin> reg_keys tbl" using subscribe_inv(2) [OF inv sub] dom by (auto simp: domIff)
  have "sq_begin sq = 1" using sequence_next_begin [OF sq(1)] b by simp
  have "reg_rel sm' (tbl @ [sub_new k t c cb md])"
    using rel subscribe_inv(1) [OF inv sub] \<open>sq_begin sq = 1\<close> sq(2)
    by (auto simp: reg_rel_def keys subs reg_at_snoc reg_keys_def sub_new_def)
  then show ?thesis using fresh k0 by simp
qed

lemma filter_key_zero:
  "map (\<lambda>s. s\<lparr>s_post_count := 0\<rparr>) (filter (\<lambda>s. s_key s \<noteq> k) ss) =
   filter (\<lambda>s. s_key s \<noteq> k) (map (\<lambda>s. s\<lparr>s_post_count := 0\<rparr>) ss)"
  by (simp add: filter_map o_def)


lemma unsubscribe_reg:
  assumes rel: "reg_rel sm tbl" and unsub: "sub_map_unsubscribe sm k = (b, sm')"
  shows "reg_rel sm' (filter (\<lambda>s. s_key s \<noteq> k) tbl) \<and> b = (k \<in> reg_keys tbl)"
proof (cases "sm_keys sm k")
  case None
  then have "k \<notin> reg_keys tbl" using rel by (auto simp: reg_rel_def)
  then have "filter (\<lambda>s. s_key s \<noteq> k) tbl = tbl" by (intro filter_True) (auto simp: reg_keys_def)
  then show ?thesis using None unsub rel \<open>k \<notin> reg_keys tbl\<close> by (simp add: sub_map_unsubscribe_def)
next
  case (Some p)
  obtain t md where key: "sm_keys sm k = Some (t, md)" using Some by (cases p) simp
  have inv: "sub_map_inv sm" and dom: "dom (sm_keys sm) = reg_keys tbl" using rel by (simp_all add: reg_rel_def)
  obtain sm1 where run: "sub_map_unsubscribe sm k = (True, sm1)"
    and seq: "sm_seq sm1 = sequence_release (sm_seq sm) k" and keys: "sm_keys sm1 = (sm_keys sm)(k := None)"
    and subs: "\<And>md' t'. subs_at (sm_entries sm1 md') t' =
       (if md' = md \<and> t' = t then filter (\<lambda>s. s_key s \<noteq> k) (subs_at (sm_entries sm md) t)
        else subs_at (sm_entries sm md') t')"
    using unsubscribe_cases [OF inv key] by metis
  have other: "filter (\<lambda>s. s_key s \<noteq> k) (subs_at (sm_entries sm md') t') = subs_at (sm_entries sm md') t'"
    if "md' \<noteq> md \<or> t' \<noteq> t" for md' t'
    using inv key that by (intro filter_True) (force simp: sub_map_inv_def)
  have at: "map (\<lambda>s. s\<lparr>s_post_count := 0\<rparr>) (subs_at (sm_entries sm1 md') t') =
      reg_at (filter (\<lambda>s. s_key s \<noteq> k) tbl) md' t'" for md' t'
  proof -
    have "subs_at (sm_entries sm1 md') t' = filter (\<lambda>s. s_key s \<noteq> k) (subs_at (sm_entries sm md') t')"
      using other by (simp add: subs)
    moreover have "map (\<lambda>s. s\<lparr>s_post_count := 0\<rparr>) (subs_at (sm_entries sm md') t') = reg_at tbl md' t'"
      using rel by (simp add: reg_rel_def)
    ultimately show ?thesis by (simp add: filter_key_zero reg_at_def conj_commute cong: conj_cong)
  qed
  have "dom (sm_keys sm1) = reg_keys (filter (\<lambda>s. s_key s \<noteq> k) tbl)"
    using dom by (auto simp: keys reg_keys_def)
  moreover have "k \<in> reg_keys tbl" using key dom by blast
  ultimately show ?thesis
    using run unsub unsubscribe_inv [OF inv run] at rel by (simp add: reg_rel_def seq sequence_release_def)
qed

lemma step_reg:
  assumes rel: "reg_rel sm tbl" and step: "sub_map_step oper (sm, w) = Inr (r, sm', w')"
  shows "\<exists>tbl'. reg_step oper r (tbl, w) = Some (tbl', w') \<and> reg_rel sm' tbl'"
proof (cases oper)
  case (Subscribe t c cb md)
  with step obtain k where "sub_map_subscribe sm t c cb md = Inr (k, sm')" "r = Key k" "w' = w"
    by (auto simp: sub_map_step_def split: sum.splits)
  with subscribe_reg [OF rel] Subscribe show ?thesis by auto
next
  case (Unsubscribe k)
  with step obtain b where "sub_map_unsubscribe sm k = (b, sm')" "r = Done b" "w' = w"
    by (auto simp: sub_map_step_def split: prod.splits)
  with unsubscribe_reg [OF rel] Unsubscribe show ?thesis by auto
next
  case (Post m md)
  with step obtain n where "sub_map_post sm m md w = (n, sm', w')" "r = Count n"
    by (auto simp: sub_map_step_def split: prod.splits)
  with post_reg [OF rel] Post show ?thesis by auto
qed

lemma run_reg:
  "reg_rel sm tbl \<Longrightarrow> sub_map_run ops (sm, w) = Inr (rs, sm', w') \<Longrightarrow>
    \<exists>tbl'. reg_run ops rs (tbl, w) = Some (tbl', w') \<and> reg_rel sm' tbl'"
proof (induction ops arbitrary: sm tbl w rs)
  case Nil
  then show ?case by auto
next
  case (Cons oper ops)
  from Cons.prems(2) obtain r sm1 w1 qs where step: "sub_map_step oper (sm, w) = Inr (r, sm1, w1)"
    and run: "sub_map_run ops (sm1, w1) = Inr (qs, sm', w')" and rs: "rs = r # qs"
    by (auto split: sum.splits)
  obtain tbl1 where one: "reg_step oper r (tbl, w) = Some (tbl1, w1)" "reg_rel sm1 tbl1"
    using step_reg [OF Cons.prems(1) step] by blast
  then show ?case using Cons.IH [OF one(2) run] rs by simp
qed

lemmas sub_map_table_defs =
  sub_map_new_def sub_map_subscribe_def subscribe_em_def subscribe_entry_def entry_new_def sm_entries_def
  sm_set_entries_def sub_map_post_def post_em_def post_on_topic_eq targets_def bump_at_def subs_at_def
  accepts_def bump_def is_valid_iff topic_match_iff get_group_topic_def sub_new_def run_cbs_def

text \<open>The first two keys of a new table.\<close>

lemma sub_keys_first_two:
  obtains s1 s2 where "sequence_next (sequence_new (1 :: u32) 0xFFFFFFFF 1000) = Inr (1, s1)"
    "sequence_next s1 = Inr (1 + 1, s2)"
proof -
  have bounds: "unat (1 :: u32) + 2 \<le> unat (0xFFFFFFFF :: u32)" "2 \<le> unat (1000 :: u32)"
    "unat (1000 :: u32) \<le> unat (0xFFFFFFFF - 1 :: u32)"
    "unat (1 :: u32) + unat (1000 :: u32) \<le> unat (0xFFFFFFFF :: u32)"
    by simp_all
  show thesis by (rule sequence_new_first_two [OF bounds]) (rule that)
qed

section \<open>Properties\<close>

text \<open>
  C11. \<open>sub_map\<close> implements the subscription registry: for every sequence of subscribe,
  unsubscribe and post on a new table, the keys and results returned are allowed by the
  registry, every post makes exactly the callbacks of the registry in subscription order
  (those on the message topic, then those on its group topic), and the table ends in the
  invariant with exactly the registry's subscriptions.
\<close>

theorem sub_map_refines_registry:
  assumes "sub_map_run ops (sub_map_new l, w) = Inr (rs, sm, w')"
  shows "\<exists>tbl. reg_run ops rs ([], w) = Some (tbl, w') \<and> reg_rel sm tbl"
  by (rule run_reg [OF reg_rel_new assms])

definition demo_ops :: "(unit, topic list) sm_op list" where
  "demo_ops =
     [Subscribe (topic_of 1 2) (\<lambda>m. True) (\<lambda>m w. w @ [m_topic m]) Immediate,
      Subscribe (topic_of 1 0) (\<lambda>m. True) (\<lambda>m w. w @ [Topic 0]) Immediate,
      Post (message_new (topic_of 1 2)) Immediate, Unsubscribe 1, Unsubscribe 1,
      Post (message_new (topic_of 1 2)) Immediate]"

lemma demo_run:
  "\<exists>sm. sub_map_run demo_ops (sub_map_new False, [])
      = Inr ([Key 1, Key 2, Count 2, Done True, Done False, Count 1], sm, [topic_of 1 2, Topic 0, Topic 0])"
proof -
  obtain s1 s2 where "sequence_next (sequence_new (1 :: u32) 0xFFFFFFFF 1000) = Inr (1, s1)"
    "sequence_next s1 = Inr (1 + 1, s2)"
    by (rule sub_keys_first_two)
  then show ?thesis
    by (simp add: demo_ops_def sub_map_step_def sub_map_table_defs message_new_def
      sub_map_unsubscribe_def unsubscribe_em_def erase_key_def Let_def)
qed

theorem sub_map_refines_registry_witness:
  "\<exists>tbl sm. reg_run demo_ops [Key 1, Key 2, Count 2, Done True, Done False, Count 1] ([], [])
     = Some (tbl, [topic_of 1 2, Topic 0, Topic 0]) \<and> reg_rel sm tbl"
proof -
  obtain sm where "sub_map_run demo_ops (sub_map_new False, [])
      = Inr ([Key 1, Key 2, Count 2, Done True, Done False, Count 1], sm, [topic_of 1 2, Topic 0, Topic 0])"
    using demo_run by blast
  from sub_map_refines_registry [OF this] show ?thesis by blast
qed

end
