(* ===== verification/Channel.thy ===== *)
theory Channel
  imports Sub_Map Concurrent_Queue
begin

text \<open>
  \<open>channel::channel\<close> (\<open>src/channel/channel.cpp\<close>): messages are posted to immediate
  subscribers when they are published and queued for the delayed ones, which \<open>execute\<close>
  serves; and the process wide \<open>channel_map\<close> (\<open>src/channel/detail/channel_map.cpp\<close>). A
  callback that publishes to the channel it is called from is not modelled, so the queue only
  shrinks while \<open>execute\<close> runs.
\<close>

section \<open>The channel\<close>

record channel_config =
  use_lock :: bool
  post_all_when_destroyed :: bool
  check_delayed_sub_before_enqueue :: bool

definition channel_config_default :: channel_config where
  "channel_config_default =
     \<lparr>use_lock = True, post_all_when_destroyed = True, check_delayed_sub_before_enqueue = True\<rparr>"

record channel_stat =
  total_post_count :: nat
  total_immediate_post_count :: nat
  last_post_count :: nat

record ('a, 'w) channel =
  ch_key :: string
  ch_q :: "'a message_scheme cqueue"
  ch_map :: "('a, 'w) sub_map"
  ch_config :: channel_config
  ch_stat :: channel_stat

definition channel_new :: "string \<Rightarrow> channel_config \<Rightarrow> ('a, 'w) channel" where
  "channel_new key cfg =
     \<lparr>ch_key = key, ch_q = [], ch_map = sub_map_new (use_lock cfg), ch_config = cfg,
      ch_stat = \<lparr>total_post_count = 0, total_immediate_post_count = 0, last_post_count = 0\<rparr>\<rparr>"

definition enqueue_checked ::
  "('a, 'w) channel \<Rightarrow> topic \<Rightarrow> 'a message_scheme \<Rightarrow> ('a, 'w) channel" where
  "enqueue_checked ch topic m =
     (if check_delayed_sub_before_enqueue (ch_config ch)
      then (if has_delayed_sub (ch_map ch) topic \<or> has_delayed_sub (ch_map ch) (get_group_topic topic)
            then ch\<lparr>ch_q := cq_push (ch_q ch) m\<rparr>
            else ch)
      else ch\<lparr>ch_q := cq_push (ch_q ch) m\<rparr>)"

text \<open>What \<open>publish\<close> and \<open>post\<close> do after a post to the immediate subscribers.\<close>

definition count_immediate ::
  "('a, 'w) channel \<Rightarrow> nat \<times> ('a, 'w) sub_map \<times> 'w \<Rightarrow> nat \<times> ('a, 'w) channel \<times> 'w" where
  "count_immediate ch r =
     (case r of (n, sm, w) \<Rightarrow>
        (n, ch\<lparr>ch_map := sm,
               ch_stat := (ch_stat ch)\<lparr>total_immediate_post_count := total_immediate_post_count (ch_stat ch) + n\<rparr>\<rparr>, w))"

definition channel_publish ::
  "('a, 'w) channel \<Rightarrow> 'a message_scheme \<Rightarrow> 'w \<Rightarrow> nat \<times> ('a, 'w) channel \<times> 'w" where
  "channel_publish ch m w =
     (let ch1 = enqueue_checked ch (m_topic m) m
      in count_immediate ch1 (sub_map_post (ch_map ch1) m Immediate w))"

definition channel_publish_topic ::
  "('a, 'w) channel \<Rightarrow> topic \<Rightarrow> 'a message_scheme \<Rightarrow> 'w \<Rightarrow> nat \<times> ('a, 'w) channel \<times> 'w" where
  "channel_publish_topic ch topic m w =
     (let ch1 = enqueue_checked ch topic m
      in count_immediate ch1 (sub_map_post_topic (ch_map ch1) topic m Immediate w))"

definition channel_post ::
  "('a, 'w) channel \<Rightarrow> 'a message_scheme \<Rightarrow> 'w \<Rightarrow> nat \<times> ('a, 'w) channel \<times> 'w" where
  "channel_post ch m w = count_immediate ch (sub_map_post (ch_map ch) m Immediate w)"

text \<open>One round of the loop of \<open>execute\<close>, on the count, the table and the world.\<close>

definition execute_step ::
  "'a message_scheme \<Rightarrow> nat \<times> ('a, 'w) sub_map \<times> 'w \<Rightarrow> nat \<times> ('a, 'w) sub_map \<times> 'w" where
  "execute_step m st =
     (case st of (count, sm, w) \<Rightarrow>
        (case sub_map_post sm m Delayed w of (n, sm', w') \<Rightarrow> (count + n, sm', w')))"

definition channel_execute :: "('a, 'w) channel \<Rightarrow> 'w \<Rightarrow> nat \<times> ('a, 'w) channel \<times> 'w" where
  "channel_execute ch w =
     (case drain execute_step (ch_q ch) (0, ch_map ch, w) of
        (count, sm, w') \<Rightarrow>
          (count, ch\<lparr>ch_q := [], ch_map := sm,
             ch_stat := (ch_stat ch)\<lparr>last_post_count := count,
                                    total_post_count := total_post_count (ch_stat ch) + count\<rparr>\<rparr>, w'))"

definition channel_subscribe ::
  "('a, 'w) channel \<Rightarrow> topic \<Rightarrow> ('a message_scheme \<Rightarrow> bool) \<Rightarrow> ('a message_scheme \<Rightarrow> 'w \<Rightarrow> 'w)
    \<Rightarrow> mode \<Rightarrow> fault + (u32 \<times> ('a, 'w) channel)" where
  "channel_subscribe ch topic cond cb md =
     (case sub_map_subscribe (ch_map ch) topic cond cb md of
        Inl f \<Rightarrow> Inl f | Inr (k, sm) \<Rightarrow> Inr (k, ch\<lparr>ch_map := sm\<rparr>))"

definition channel_subscribe_all ::
  "('a, 'w) channel \<Rightarrow> topic \<Rightarrow> ('a message_scheme \<Rightarrow> 'w \<Rightarrow> 'w) \<Rightarrow> mode \<Rightarrow> fault + (u32 \<times> ('a, 'w) channel)" where
  "channel_subscribe_all ch topic cb md =
     (case sub_map_subscribe_all (ch_map ch) topic cb md of
        Inl f \<Rightarrow> Inl f | Inr (k, sm) \<Rightarrow> Inr (k, ch\<lparr>ch_map := sm\<rparr>))"

definition channel_unsubscribe :: "('a, 'w) channel \<Rightarrow> u32 \<Rightarrow> bool \<times> ('a, 'w) channel" where
  "channel_unsubscribe ch key =
     (case sub_map_unsubscribe (ch_map ch) key of (ok, sm) \<Rightarrow> (ok, ch\<lparr>ch_map := sm\<rparr>))"

definition get_queue_size :: "('a, 'w) channel \<Rightarrow> nat" where
  "get_queue_size ch = cq_unsafe_size (ch_q ch)"

lemma execute_empties: "channel_execute ch w = (n, ch', w') \<Longrightarrow> ch_q ch' = []"
  by (auto simp: channel_execute_def split: prod.splits)

text \<open>\<open>~channel()\<close>: the loop \<open>while (q_.unsafe_size() > 0) execute();\<close>.\<close>

function drain_all :: "('a, 'w) channel \<Rightarrow> 'w \<Rightarrow> ('a, 'w) channel \<times> 'w" where
  "drain_all ch w =
     (if get_queue_size ch > 0
      then (case channel_execute ch w of (_, ch', w') \<Rightarrow> drain_all ch' w')
      else (ch, w))"
  by pat_completeness auto
termination
  by (relation "measure (\<lambda>(ch, w). get_queue_size ch)")
    (auto simp: get_queue_size_def cq_unsafe_size_def dest: execute_empties [OF sym])

declare drain_all.simps [simp del]

definition channel_destructor :: "('a, 'w) channel \<Rightarrow> 'w \<Rightarrow> ('a, 'w) channel \<times> 'w" where
  "channel_destructor ch w =
     (if post_all_when_destroyed (ch_config ch) then drain_all ch w else (ch, w))"

section \<open>The map of channels\<close>

text \<open>
  \<open>create\<close> takes the lock twice, once to look and once to insert, so two creators of one
  key can interleave: they are two steps here, and \<open>channel_map_create\<close> is the run of both
  with nothing in between. \<open>std::map::insert\<close> keeps the entry that is there. A channel is
  its place \<open>'c\<close>, as \<open>make_shared\<close> gives it.
\<close>

type_synonym 'c channel_map = "string \<rightharpoonup> 'c"

definition create_check :: "'c channel_map \<Rightarrow> string \<Rightarrow> bool" where
  "create_check cm key = (cm key = None)"

definition create_insert :: "'c channel_map \<Rightarrow> string \<Rightarrow> 'c \<Rightarrow> 'c channel_map" where
  "create_insert cm key cp = (case cm key of None \<Rightarrow> cm(key \<mapsto> cp) | Some _ \<Rightarrow> cm)"

definition channel_map_create :: "'c channel_map \<Rightarrow> string \<Rightarrow> 'c \<Rightarrow> 'c option \<times> 'c channel_map" where
  "channel_map_create cm key cp =
     (if \<not> create_check cm key then (None, cm) else (Some cp, create_insert cm key cp))"

definition channel_map_find :: "'c channel_map \<Rightarrow> string \<Rightarrow> 'c option" where
  "channel_map_find cm key = cm key"

definition channel_map_destroy :: "'c channel_map \<Rightarrow> string \<Rightarrow> bool \<times> 'c channel_map" where
  "channel_map_destroy cm key =
     (case cm key of None \<Rightarrow> (False, cm) | Some _ \<Rightarrow> (True, cm(key := None)))"


section \<open>Checking for delayed subscriptions first\<close>

lemma sm_set_entries_id [simp]: "sm_set_entries sm md (sm_entries sm md) = sm"
  by (simp add: sm_set_entries_def sm_entries_def)

lemma has_delayed_entries: "has_delayed_sub sm t \<longleftrightarrow> t \<in> dom (sm_entries sm Delayed)"
  by (auto simp: has_delayed_sub_def sm_entries_def)

text \<open>A message is queued by the check when the table has an entry it can be delivered to.\<close>

definition wanted :: "topic set \<Rightarrow> 'a message_scheme \<Rightarrow> bool" where
  "wanted T m \<longleftrightarrow> m_topic m \<in> T \<or> get_group_topic (m_topic m) \<in> T"

lemma post_unwanted:
  assumes "\<not> wanted (dom (sm_entries sm md)) m"
  shows "sub_map_post sm m md w = (0, sm, w)"
proof -
  have "post_on_topic (sm_entries sm md) t m w = (0, sm_entries sm md, w)"
    if "t = m_topic m \<or> t = get_group_topic (m_topic m)" for t
    using that assms by (auto simp: post_on_topic_def wanted_def dom_def split: option.splits)
  then show ?thesis by (simp add: sub_map_post_def post_em_def)
qed

lemma post_dom:
  assumes "sub_map_post sm m md w = (n, sm', w')"
  shows "dom (sm_entries sm' md') = dom (sm_entries sm md')"
proof -
  from assms obtain em where em: "post_em (sm_entries sm md) m w = (n, em, w')"
    and sm': "sm' = sm_set_entries sm md em"
    by (auto simp: sub_map_post_def split: prod.splits)
  show ?thesis using post_em_eq [OF em] by (simp add: sm' same_table_def)
qed

lemma execute_step_dom:
  "execute_step m (k, sm, w) = (n, sm', w') \<Longrightarrow> dom (sm_entries sm' md') = dom (sm_entries sm md')"
  using post_dom by (fastforce simp: execute_step_def split: prod.splits)

lemma fold_execute_filter:
  "dom (sm_entries sm Delayed) = T \<Longrightarrow>
    fold execute_step (filter (wanted T) ms) (k, sm, w) = fold execute_step ms (k, sm, w)"
proof (induction ms arbitrary: k sm w)
  case Nil
  then show ?case by simp
next
  case (Cons m ms)
  obtain k' sm' w' where step: "execute_step m (k, sm, w) = (k', sm', w')" by (metis surj_pair)
  have dom: "dom (sm_entries sm' Delayed) = T" using execute_step_dom [OF step] Cons.prems by simp
  show ?case
  proof (cases "wanted T m")
    case True
    then show ?thesis using Cons.IH [OF dom, of k' w'] step by simp
  next
    case False
    then have "execute_step m (k, sm, w) = (k, sm, w)"
      using post_unwanted [of sm Delayed m] Cons.prems by (simp add: execute_step_def)
    then show ?thesis using Cons.IH [OF Cons.prems, of k w] False by simp
  qed
qed

lemma execute_eq_fold:
  "channel_execute ch w =
     (case fold execute_step (ch_q ch) (0, ch_map ch, w) of
        (count, sm, w') \<Rightarrow>
          (count, ch\<lparr>ch_q := [], ch_map := sm,
             ch_stat := (ch_stat ch)\<lparr>last_post_count := count,
                                    total_post_count := total_post_count (ch_stat ch) + count\<rparr>\<rparr>, w'))"
  by (simp add: channel_execute_def drain_fold)

lemma fold_execute_dom:
  "fold execute_step ms (k, sm, w) = (n, sm', w') \<Longrightarrow> dom (sm_entries sm' md') = dom (sm_entries sm md')"
proof (induction ms arbitrary: k sm w)
  case Nil
  then show ?case by simp
next
  case (Cons m ms)
  obtain k1 sm1 w1 where step: "execute_step m (k, sm, w) = (k1, sm1, w1)" by (metis surj_pair)
  then show ?case using Cons.IH [of k1 sm1 w1] Cons.prems execute_step_dom [OF step] by simp
qed

text \<open>Publishing a list of messages, then executing.\<close>

fun publish_all :: "'a message_scheme list \<Rightarrow> ('a, 'w) channel \<Rightarrow> 'w \<Rightarrow> ('a, 'w) channel \<times> 'w" where
  "publish_all [] ch w = (ch, w)"
| "publish_all (m # ms) ch w = (case channel_publish ch m w of (_, ch', w') \<Rightarrow> publish_all ms ch' w')"

definition publish_and_execute ::
  "'a message_scheme list \<Rightarrow> ('a, 'w) channel \<Rightarrow> 'w \<Rightarrow> nat \<times> ('a, 'w) channel \<times> 'w" where
  "publish_and_execute ms ch w = (case publish_all ms ch w of (ch', w') \<Rightarrow> channel_execute ch' w')"

definition set_check :: "bool \<Rightarrow> ('a, 'w) channel \<Rightarrow> ('a, 'w) channel" where
  "set_check b ch = ch\<lparr>ch_config := (ch_config ch)\<lparr>check_delayed_sub_before_enqueue := b\<rparr>\<rparr>"

lemma set_check_simps [simp]:
  "ch_q (set_check b ch) = ch_q ch" "ch_map (set_check b ch) = ch_map ch" "ch_stat (set_check b ch) = ch_stat ch"
  by (simp_all add: set_check_def)

lemma publish_all_wanted:
  "dom (sm_entries (ch_map ch) Delayed) = T \<Longrightarrow> publish_all ms (set_check True ch) w = (c1, w1) \<Longrightarrow>
    publish_all ms (set_check False (ch\<lparr>ch_q := q\<rparr>)) w =
      (set_check False (c1\<lparr>ch_q := q @ ms\<rparr>), w1) \<and>
    ch_q c1 = ch_q ch @ filter (wanted T) ms \<and> dom (sm_entries (ch_map c1) Delayed) = T"
proof (induction ms arbitrary: ch w q)
  case Nil
  then show ?case by (auto simp: set_check_def)
next
  case (Cons m ms)
  obtain n sm w' where post: "sub_map_post (ch_map ch) m Immediate w = (n, sm, w')" by (metis surj_pair)
  define ch' where "ch' = ch\<lparr>ch_map := sm, ch_q := ch_q ch @ filter (wanted T) [m],
    ch_stat := (ch_stat ch)\<lparr>total_immediate_post_count := total_immediate_post_count (ch_stat ch) + n\<rparr>\<rparr>"
  have T: "dom (sm_entries (ch_map ch') Delayed) = T"
    using post_dom [OF post] Cons.prems(1) by (simp add: ch'_def)
  have on: "channel_publish (set_check True ch) m w = (n, set_check True ch', w')"
    using post Cons.prems(1)
    by (auto simp: channel_publish_def enqueue_checked_def count_immediate_def set_check_def ch'_def
      has_delayed_entries wanted_def cq_push_def)
  have off: "channel_publish (set_check False (ch\<lparr>ch_q := q\<rparr>)) m w =
      (n, set_check False (ch'\<lparr>ch_q := q @ [m]\<rparr>), w')"
    using post
    by (auto simp: channel_publish_def enqueue_checked_def count_immediate_def set_check_def ch'_def cq_push_def)
  have "publish_all ms (set_check True ch') w' = (c1, w1)" using Cons.prems(2) on by simp
  from Cons.IH [OF T this, of "q @ [m]"] show ?case using off by (simp add: ch'_def)
qed

section \<open>The abstract channel\<close>

text \<open>
  The registry with a queue of published messages. \<open>Published n queued\<close> is the result of a
  publish that made \<open>n\<close> callbacks; it may only leave the message out of the queue when the
  registry has no delayed sub for its topic or group topic.
\<close>

datatype ('a, 'w) chan_op =
    C_subscribe topic "'a message_scheme \<Rightarrow> bool" "'a message_scheme \<Rightarrow> 'w \<Rightarrow> 'w" mode
  | C_unsubscribe u32
  | C_publish "'a message_scheme"
  | C_post "'a message_scheme"
  | C_execute

datatype chan_result = C_key u32 | C_done bool | Published nat bool | C_count nat

definition channel_step ::
  "('a, 'w) chan_op \<Rightarrow> ('a, 'w) channel \<times> 'w \<Rightarrow> fault + (chan_result \<times> ('a, 'w) channel \<times> 'w)" where
  "channel_step oper st =
     (case st of (ch, w) \<Rightarrow>
        (case oper of
           C_subscribe t c cb md \<Rightarrow>
             (case channel_subscribe ch t c cb md of Inl f \<Rightarrow> Inl f | Inr (k, ch') \<Rightarrow> Inr (C_key k, ch', w))
         | C_unsubscribe k \<Rightarrow> (case channel_unsubscribe ch k of (b, ch') \<Rightarrow> Inr (C_done b, ch', w))
         | C_publish m \<Rightarrow>
             (case channel_publish ch m w of (n, ch', w') \<Rightarrow>
                Inr (Published n (get_queue_size ch < get_queue_size ch'), ch', w'))
         | C_post m \<Rightarrow> (case channel_post ch m w of (n, ch', w') \<Rightarrow> Inr (C_count n, ch', w'))
         | C_execute \<Rightarrow> (case channel_execute ch w of (n, ch', w') \<Rightarrow> Inr (C_count n, ch', w'))))"

fun channel_run ::
  "('a, 'w) chan_op list \<Rightarrow> ('a, 'w) channel \<times> 'w \<Rightarrow> fault + (chan_result list \<times> ('a, 'w) channel \<times> 'w)" where
  "channel_run [] st = Inr ([], st)"
| "channel_run (oper # ops) st =
     (case channel_step oper st of Inl f \<Rightarrow> Inl f
      | Inr (r, st') \<Rightarrow> (case channel_run ops st' of Inl f \<Rightarrow> Inl f | Inr (rs, st'') \<Rightarrow> Inr (r # rs, st'')))"

type_synonym ('a, 'w) abs_channel = "('a, 'w) registry \<times> 'a message_scheme list \<times> 'w"

definition abs_deliver ::
  "('a, 'w) registry \<Rightarrow> mode \<Rightarrow> 'a message_scheme list \<Rightarrow> 'w \<Rightarrow> 'w" where
  "abs_deliver tbl md ms w = fold (\<lambda>m. run_cbs m (reg_targets tbl m md)) ms w"

definition abs_count :: "('a, 'w) registry \<Rightarrow> mode \<Rightarrow> 'a message_scheme list \<Rightarrow> nat" where
  "abs_count tbl md ms = sum_list (map (\<lambda>m. length (reg_targets tbl m md)) ms)"

fun abs_chan_step ::
  "('a, 'w) chan_op \<Rightarrow> chan_result \<Rightarrow> ('a, 'w) abs_channel \<Rightarrow> ('a, 'w) abs_channel option" where
  "abs_chan_step (C_subscribe t c cb md) (C_key k) (tbl, q, w) =
     (if k \<in> reg_keys tbl \<or> k = 0 then None else Some (tbl @ [sub_new k t c cb md], q, w))"
| "abs_chan_step (C_unsubscribe k) (C_done b) (tbl, q, w) =
     (if b = (k \<in> reg_keys tbl) then Some (filter (\<lambda>s. s_key s \<noteq> k) tbl, q, w) else None)"
| "abs_chan_step (C_publish m) (Published n queued) (tbl, q, w) =
     (if n = abs_count tbl Immediate [m] \<and>
         (queued \<or> reg_at tbl Delayed (m_topic m) = [] \<and> reg_at tbl Delayed (get_group_topic (m_topic m)) = [])
      then Some (tbl, if queued then q @ [m] else q, abs_deliver tbl Immediate [m] w) else None)"
| "abs_chan_step (C_post m) (C_count n) (tbl, q, w) =
     (if n = abs_count tbl Immediate [m] then Some (tbl, q, abs_deliver tbl Immediate [m] w) else None)"
| "abs_chan_step C_execute (C_count n) (tbl, q, w) =
     (if n = abs_count tbl Delayed q then Some (tbl, [], abs_deliver tbl Delayed q w) else None)"
| "abs_chan_step _ _ _ = None"

fun abs_chan_run ::
  "('a, 'w) chan_op list \<Rightarrow> chan_result list \<Rightarrow> ('a, 'w) abs_channel \<Rightarrow> ('a, 'w) abs_channel option" where
  "abs_chan_run [] [] st = Some st"
| "abs_chan_run (oper # ops) (r # rs) st =
     (case abs_chan_step oper r st of None \<Rightarrow> None | Some st' \<Rightarrow> abs_chan_run ops rs st')"
| "abs_chan_run _ _ _ = None"

lemma reg_at_unwanted:
  assumes "reg_rel sm tbl" "t \<notin> dom (sm_entries sm md)"
  shows "reg_at tbl md t = []"
proof -
  have "subs_at (sm_entries sm md) t = []" using assms(2) by (auto simp: subs_at_def split: option.splits)
  then show ?thesis using assms(1) by (simp add: reg_rel_def) (metis list.simps(8))
qed

lemma fold_execute_reg:
  "reg_rel sm tbl \<Longrightarrow> fold execute_step ms (k, sm, w) = (n, sm', w') \<Longrightarrow>
    reg_rel sm' tbl \<and> n = k + abs_count tbl Delayed ms \<and> w' = abs_deliver tbl Delayed ms w"
proof (induction ms arbitrary: k sm w)
  case Nil
  then show ?case by (simp add: abs_count_def abs_deliver_def)
next
  case (Cons m ms)
  obtain n1 sm1 w1 where post: "sub_map_post sm m Delayed w = (n1, sm1, w1)" by (metis surj_pair)
  note pr = post_reg [OF Cons.prems(1) post]
  have "fold execute_step ms (k + n1, sm1, w1) = (n, sm', w')"
    using Cons.prems(2) by (simp add: execute_step_def [of m] post)
  from Cons.IH [OF _ this] pr show ?case by (simp add: abs_count_def abs_deliver_def)
qed


definition chan_rel :: "('a, 'w) channel \<Rightarrow> ('a, 'w) registry \<Rightarrow> 'a message_scheme list \<Rightarrow> bool" where
  "chan_rel ch tbl q \<longleftrightarrow> reg_rel (ch_map ch) tbl \<and> ch_q ch = q"

lemma count_immediate_rel:
  assumes "reg_rel (ch_map ch) tbl"
    and "count_immediate ch (sub_map_post (ch_map ch) m Immediate w) = (n, ch', w')"
  shows "reg_rel (ch_map ch') tbl \<and> n = abs_count tbl Immediate [m] \<and> w' = abs_deliver tbl Immediate [m] w
    \<and> ch_q ch' = ch_q ch"
proof -
  obtain k sm v where post: "sub_map_post (ch_map ch) m Immediate w = (k, sm, v)" by (metis surj_pair)
  show ?thesis using post_reg [OF assms(1) post] assms(2) post
    by (auto simp: count_immediate_def abs_count_def abs_deliver_def)
qed

lemma publish_rel:
  assumes rel: "chan_rel ch tbl q" and pub: "channel_publish ch m w = (n, ch', w')"
  defines "queued \<equiv> get_queue_size ch < get_queue_size ch'"
  shows "n = abs_count tbl Immediate [m]" "w' = abs_deliver tbl Immediate [m] w"
    "queued \<or> reg_at tbl Delayed (m_topic m) = [] \<and> reg_at tbl Delayed (get_group_topic (m_topic m)) = []"
    "chan_rel ch' tbl (if queued then q @ [m] else q)"
proof -
  define ch1 where "ch1 = enqueue_checked ch (m_topic m) m"
  have reg: "reg_rel (ch_map ch1) tbl"
    using rel by (simp add: chan_rel_def ch1_def enqueue_checked_def)
  have run: "count_immediate ch1 (sub_map_post (ch_map ch1) m Immediate w) = (n, ch', w')"
    using pub unfolding channel_publish_def Let_def ch1_def [symmetric] .
  note ci = count_immediate_rel [OF reg run]
  show "n = abs_count tbl Immediate [m]" "w' = abs_deliver tbl Immediate [m] w" using ci by simp_all
  have q: "ch_q ch1 = q @ [m] \<or> ch_q ch1 = q \<and> \<not> has_delayed_sub (ch_map ch) (m_topic m)
      \<and> \<not> has_delayed_sub (ch_map ch) (get_group_topic (m_topic m))"
    using rel by (auto simp: chan_rel_def ch1_def enqueue_checked_def cq_push_def)
  have queued: "queued \<longleftrightarrow> ch_q ch1 \<noteq> q"
    using q ci rel by (auto simp: queued_def get_queue_size_def cq_unsafe_size_def chan_rel_def)
  show "queued \<or> reg_at tbl Delayed (m_topic m) = [] \<and> reg_at tbl Delayed (get_group_topic (m_topic m)) = []"
    using q queued rel reg_at_unwanted [of "ch_map ch" tbl]
    by (auto simp: has_delayed_entries chan_rel_def)
  show "chan_rel ch' tbl (if queued then q @ [m] else q)"
    using q queued ci by (auto simp: chan_rel_def)
qed

lemma execute_rel:
  assumes "chan_rel ch tbl q" and "channel_execute ch w = (n, ch', w')"
  shows "n = abs_count tbl Delayed q \<and> w' = abs_deliver tbl Delayed q w \<and> chan_rel ch' tbl []"
proof -
  obtain k sm v where f: "fold execute_step (ch_q ch) (0, ch_map ch, w) = (k, sm, v)" by (metis surj_pair)
  have reg: "reg_rel (ch_map ch) tbl" and q: "ch_q ch = q" using assms(1) by (simp_all add: chan_rel_def)
  show ?thesis using fold_execute_reg [OF reg f] assms(2) f q
    by (auto simp: execute_eq_fold chan_rel_def)
qed

lemma channel_step_rel:
  assumes rel: "chan_rel ch tbl q" and step: "channel_step oper (ch, w) = Inr (r, ch', w')"
  shows "\<exists>tbl' q'. abs_chan_step oper r (tbl, q, w) = Some (tbl', q', w') \<and> chan_rel ch' tbl' q'"
proof (cases oper)
  case (C_subscribe t c cb md)
  with step obtain k sm where "sub_map_subscribe (ch_map ch) t c cb md = Inr (k, sm)" "r = C_key k"
    "w' = w" "ch' = ch\<lparr>ch_map := sm\<rparr>"
    by (auto simp: channel_step_def channel_subscribe_def split: sum.splits)
  with subscribe_reg [of "ch_map ch" tbl t c cb md k sm] C_subscribe rel show ?thesis
    by (auto simp: chan_rel_def)
next
  case (C_unsubscribe k)
  with step obtain b sm where "sub_map_unsubscribe (ch_map ch) k = (b, sm)" "r = C_done b" "w' = w"
    "ch' = ch\<lparr>ch_map := sm\<rparr>"
    by (auto simp: channel_step_def channel_unsubscribe_def split: prod.splits)
  with unsubscribe_reg [of "ch_map ch" tbl k b sm] C_unsubscribe rel show ?thesis
    by (auto simp: chan_rel_def)
next
  case (C_publish m)
  with step obtain n where pub: "channel_publish ch m w = (n, ch', w')"
    and r: "r = Published n (get_queue_size ch < get_queue_size ch')"
    by (auto simp: channel_step_def split: prod.splits)
  show ?thesis using publish_rel [OF rel pub] C_publish r by auto
next
  case (C_post m)
  with step obtain n where post: "channel_post ch m w = (n, ch', w')" and r: "r = C_count n"
    by (auto simp: channel_step_def split: prod.splits)
  have "reg_rel (ch_map ch) tbl" using rel by (simp add: chan_rel_def)
  from count_immediate_rel [OF this, of m w n ch' w'] post rel C_post r show ?thesis
    by (auto simp: channel_post_def chan_rel_def)
next
  case C_execute
  with step obtain n where ex: "channel_execute ch w = (n, ch', w')" and r: "r = C_count n"
    by (auto simp: channel_step_def split: prod.splits)
  show ?thesis using execute_rel [OF rel ex] C_execute r by auto
qed

lemma channel_run_rel:
  "chan_rel ch tbl q \<Longrightarrow> channel_run ops (ch, w) = Inr (rs, ch', w') \<Longrightarrow>
    \<exists>tbl' q'. abs_chan_run ops rs (tbl, q, w) = Some (tbl', q', w') \<and> chan_rel ch' tbl' q'"
proof (induction ops arbitrary: ch tbl q w rs)
  case Nil
  then show ?case by auto
next
  case (Cons oper ops)
  from Cons.prems(2) obtain r ch1 w1 qs where step: "channel_step oper (ch, w) = Inr (r, ch1, w1)"
    and run: "channel_run ops (ch1, w1) = Inr (qs, ch', w')" and rs: "rs = r # qs"
    by (auto split: sum.splits)
  obtain tbl1 q1 where one: "abs_chan_step oper r (tbl, q, w) = Some (tbl1, q1, w1)" "chan_rel ch1 tbl1 q1"
    using channel_step_rel [OF Cons.prems(1) step] by blast
  then show ?case using Cons.IH [OF one(2) run] rs by simp
qed

lemma channel_new_rel: "chan_rel (channel_new key cfg) [] []"
  by (simp add: chan_rel_def channel_new_def reg_rel_new)

lemma destructor_rel:
  assumes rel: "chan_rel ch tbl q"
  shows "channel_destructor ch w =
    (if post_all_when_destroyed (ch_config ch) \<and> q \<noteq> []
     then (case channel_execute ch w of (_, ch', w') \<Rightarrow> (ch', abs_deliver tbl Delayed q w)) else (ch, w))"
proof -
  obtain n ch' w' where ex: "channel_execute ch w = (n, ch', w')" by (metis surj_pair)
  note er = execute_rel [OF rel ex]
  have "drain_all ch' w' = (ch', w')"
    using execute_empties [OF ex] by (subst drain_all.simps) (simp add: get_queue_size_def cq_unsafe_size_def)
  then show ?thesis
    using er ex rel
    by (simp add: channel_destructor_def drain_all.simps [of ch w] get_queue_size_def cq_unsafe_size_def chan_rel_def)
qed

section \<open>Publishing on a topic of the caller\<close>

definition reg_deliveries :: "('a, 'w) registry \<Rightarrow> topic list \<Rightarrow> 'a message_scheme \<Rightarrow> mode \<Rightarrow> ('a, 'w) registry" where
  "reg_deliveries tbl ts m md =
     concat (map (\<lambda>t. if is_valid t then filter (\<lambda>s. accepts s m) (reg_at tbl md t) else []) ts)"

lemma deliveries_reg_gen:
  assumes "reg_rel sm tbl"
  shows "map (\<lambda>s. s\<lparr>s_post_count := 0\<rparr>) (deliveries (sm_entries sm md) ts m) = reg_deliveries tbl ts m md"
proof (induction ts)
  case Nil
  then show ?case by (simp add: deliveries_def reg_deliveries_def)
next
  case (Cons t ts)
  have "map (\<lambda>s. s\<lparr>s_post_count := 0\<rparr>) (subs_at (sm_entries sm md) t) = reg_at tbl md t"
    using assms by (simp add: reg_rel_def)
  then show ?case using Cons.IH
    by (simp add: deliveries_def reg_deliveries_def targets_def filter_zero)
qed

lemma reg_deliveries_foreign:
  "get_group t \<noteq> get_group (m_topic m) \<Longrightarrow> reg_deliveries tbl [t, get_group_topic t] m md = []"
  by (auto simp: reg_deliveries_def reg_at_def accepts_def topic_match_def filter_empty_conv)

lemma reg_deliveries_own:
  "reg_deliveries tbl [m_topic m, get_group_topic (m_topic m)] m md = reg_targets tbl m md"
proof -
  have "filter (\<lambda>s. accepts s m) (reg_at tbl md t) = filter (\<lambda>s. s_cond s m) (reg_at tbl md t)"
    if "t = m_topic m \<or> t = get_group_topic (m_topic m)" for t
    using that reg_at_topic [of _ tbl md t] by (intro filter_cong) (auto simp: accepts_def topic_match_iff)
  then show ?thesis by (simp add: reg_deliveries_def reg_targets_def)
qed

lemma reg_deliveries_append:
  "reg_deliveries tbl (ts @ us) m md = reg_deliveries tbl ts m md @ reg_deliveries tbl us m md"
  by (simp add: reg_deliveries_def)

lemma post_topic_reg:
  assumes rel: "reg_rel sm tbl" and post: "sub_map_post_topic sm t m md w = (n, sm', w')"
  defines "ds \<equiv> reg_deliveries tbl [t, get_group_topic t] m md @ reg_targets tbl m md"
  shows "n = length ds \<and> w' = run_cbs m ds w \<and> reg_rel sm' tbl"
proof -
  let ?ts = "[t, get_group_topic t, m_topic m, get_group_topic (m_topic m)]"
  let ?cs = "deliveries (sm_entries sm md) ?ts m"
  from post obtain em where em: "post_em_topic (sm_entries sm md) t m w = (n, em, w')"
    and sm': "sm' = sm_set_entries sm md em"
    by (auto simp: sub_map_post_topic_def split: prod.splits)
  note eq = post_em_topic_eq [OF em]
  have "reg_deliveries tbl ?ts m md = ds"
    using reg_deliveries_append [of tbl "[t, get_group_topic t]" "[m_topic m, get_group_topic (m_topic m)]" m md]
    by (simp add: ds_def reg_deliveries_own)
  then have "map (\<lambda>s. s\<lparr>s_post_count := 0\<rparr>) ?cs = ds" using deliveries_reg_gen [OF rel] by simp
  then have "n = length ds" "w' = run_cbs m ds w"
    using eq run_cbs_zero [of m ?cs w] by (metis length_map)+
  moreover have "reg_rel sm' tbl" unfolding sm' using same_table_rel [OF rel] eq by blast
  ultimately show ?thesis by simp
qed

lemmas channel_demo_defs =
  channel_step_def channel_new_def channel_config_default_def sub_map_table_defs channel_publish_def
  enqueue_checked_def has_delayed_sub_def count_immediate_def get_queue_size_def cq_unsafe_size_def
  cq_push_def channel_subscribe_def execute_eq_fold execute_step_def Let_def message_new_def

section \<open>Properties\<close>


definition chan_demo :: "(unit, topic list) chan_op list" where
  "chan_demo =
     [C_publish (message_new (topic_of 7 1)),
      C_subscribe (topic_of 7 0) (\<lambda>m. True) (\<lambda>m w. w @ [m_topic m]) Delayed,
      C_publish (message_new (topic_of 7 2)), C_publish (message_new (topic_of 7 3)), C_execute]"






text \<open>
  \<open>publish\<close> with a topic of its own never reaches the subscribers of a topic in another
  group: it makes the callbacks of the message's own topic only, because every sub checks the
  topic of the message again; and with the message's own topic it makes each of them twice.
\<close>

theorem publish_topic_deliveries:
  assumes "reg_rel sm tbl" and "sub_map_post_topic sm t m md w = (n, sm', w')"
  shows "(get_group t \<noteq> get_group (m_topic m) \<longrightarrow>
            n = length (reg_targets tbl m md) \<and> w' = run_cbs m (reg_targets tbl m md) w) \<and>
         (t = m_topic m \<longrightarrow>
            n = 2 * length (reg_targets tbl m md) \<and>
            w' = run_cbs m (reg_targets tbl m md @ reg_targets tbl m md) w)"
  using post_topic_reg [OF assms] reg_deliveries_foreign [of t m tbl md] reg_deliveries_own [of tbl m md]
  by auto

theorem publish_topic_deliveries_witness:
  "\<exists>sm (tbl :: (unit, topic list) registry) sm'. sub_map_post_topic sm (topic_of 3 3) (message_new (topic_of 3 3)) Immediate []
      = (2, sm', [topic_of 3 3, topic_of 3 3]) \<and>
    length (reg_targets tbl (message_new (topic_of 3 3)) Immediate) = 1"
proof -
  let ?cb = "\<lambda>m w. w @ [m_topic m]"
  obtain s1 s2 where seq: "sequence_next (sequence_new (1 :: u32) 0xFFFFFFFF 1000) = Inr (1, s1)"
    "sequence_next s1 = Inr (1 + 1, s2)"
    by (rule sub_keys_first_two)
  then obtain sm where sub: "sub_map_subscribe (sub_map_new False) (topic_of 3 3) (\<lambda>m. True) ?cb Immediate
      = Inr (1, sm :: (unit, topic list) sub_map)"
    and sm: "sm_entries sm Immediate = [topic_of 3 3 \<mapsto>
      \<lparr>e_topic = Topic 0, e_post_count = 0, e_subs = [sub_new 1 (topic_of 3 3) (\<lambda>m. True) ?cb Immediate]\<rparr>]"
    by (simp add: sub_map_table_defs)
  have rel: "reg_rel sm ([] @ [sub_new 1 (topic_of 3 3) (\<lambda>m. True) ?cb Immediate])"
    using subscribe_reg [OF reg_rel_new sub] by simp
  let ?tbl = "[sub_new 1 (topic_of 3 3) (\<lambda>m. True) ?cb Immediate]"
  let ?m = "message_new (topic_of 3 3)"
  have tg: "reg_targets ?tbl ?m Immediate = ?tbl"
    by (simp add: reg_targets_def reg_at_def message_new_def is_valid_iff get_group_topic_def)
  obtain n sm' w' where post: "sub_map_post_topic sm (topic_of 3 3) ?m Immediate [] = (n, sm', w')"
    by (metis surj_pair)
  have "n = 2 * length (reg_targets ?tbl ?m Immediate) \<and>
      w' = run_cbs ?m (reg_targets ?tbl ?m Immediate @ reg_targets ?tbl ?m Immediate) []"
    using publish_topic_deliveries [OF rel post] by (simp add: message_new_def)
  then have "n = 2 \<and> w' = [topic_of 3 3, topic_of 3 3]" unfolding tg by (simp add: message_new_def)
  with post have "sub_map_post_topic sm (topic_of 3 3) ?m Immediate [] = (2, sm', [topic_of 3 3, topic_of 3 3])"
    by simp
  moreover have "length (reg_targets ?tbl ?m Immediate) = 1" using tg by simp
  ultimately show ?thesis by blast
qed

text \<open>
  Two threads that create one key at the same time both get a channel, and the second
  one's channel is not the one \<open>find\<close> returns: the check and the insertion of \<open>create\<close> are
  under two different locks. One creator alone gets the channel that \<open>find\<close> returns.
\<close>

theorem channel_create_race:
  assumes "cm key = None" and "a \<noteq> b"
  defines "cm' \<equiv> create_insert (create_insert cm key a) key b"
  shows "create_check cm key \<and> channel_map_find cm' key = Some a \<and> channel_map_find cm' key \<noteq> Some b \<and>
    channel_map_find (snd (channel_map_create cm key a)) key = fst (channel_map_create cm key a)"
  using assms by (simp add: create_check_def create_insert_def channel_map_find_def channel_map_create_def)

theorem channel_create_race_witness:
  "channel_map_find (create_insert (create_insert Map.empty ''key'' (1 :: nat)) ''key'' 2) ''key'' \<noteq> Some 2"
  using channel_create_race [of Map.empty "''key''" 1 "2 :: nat"] by simp

end
