(* ===== verification/Timer.thy ===== *)
theory Timer
  imports Id_Sequence "HOL-Library.Multiset"
begin

text \<open>
  \<open>channel::timer\<close> (\<open>include/lax/channel/timer.hpp\<close>, \<open>src/channel/timer.cpp\<close>): requests with
  callbacks, kept in slots that are checked at the interval of the slot.

  Ticks are floats; the operations on them are the parameter \<open>tk\<close>, with the order of the type \<open>'t\<close>,
  and what is used of them is \<open>tick_law\<close>. A NaN is not a tick. The clock is the argument
  \<open>now\<close>. Which of several largest entries \<open>std::priority_queue::top\<close> gives is not
  specified: it is the parameter \<open>pick\<close> with \<open>pq_law\<close>. An action changes the world \<open>'w\<close> of
  the program; one that calls the timer back while \<open>update\<close> runs is not modelled.

  A request object lives as long as the index \<open>reqs_\<close> or a slot refers to it, and gives its id back when it
  dies: an id is as good as the address of the object.
\<close>

section \<open>Ticks and queues\<close>

record 't ticks =
  tk_zero :: 't
  tk_min :: 't                      \<comment> \<open>\<open>min_interval\<close>\<close>
  tk_add :: "'t \<Rightarrow> 't \<Rightarrow> 't"
  tk_half :: "'t \<Rightarrow> 't"
  tk_double :: "'t \<Rightarrow> 't"

text \<open>Adding an interval does not lead back, and doubling \<open>min_interval\<close> gets beyond every interval.\<close>

definition tick_law :: "'t::linorder ticks \<Rightarrow> bool" where
  "tick_law tk \<longleftrightarrow> (\<forall>a i. tk_min tk \<le> i \<longrightarrow> a \<le> tk_add tk a i) \<and> (\<forall>t. \<exists>n. t \<le> (tk_double tk ^^ n) (tk_min tk))"

definition pq_law :: "(('t::linorder \<times> u32) list \<Rightarrow> u32) \<Rightarrow> bool" where
  "pq_law pick \<longleftrightarrow> (\<forall>xs. xs \<noteq> [] \<longrightarrow> (\<exists>t. (t, pick xs) \<in> set xs \<and> (\<forall>(t', i) \<in> set xs. t' \<le> t)))"

section \<open>State\<close>

record ('t, 'w) req =
  rq_interval :: 't
  rq_duration :: 't
  rq_after :: 't
  rq_repeat :: bool
  rq_actions :: "(u32 \<Rightarrow> 'w \<Rightarrow> 'w) list"
  rq_last :: 't
  rq_next :: 't
  rq_end :: 't
  rq_cancel :: bool
  rq_count :: nat

record 't tslot =
  ts_interval :: 't
  ts_last :: 't
  ts_reqs :: "u32 list"             \<comment> \<open>the entries of the priority queue\<close>

record ('t, 'w) timer =
  tm_slots :: "'t tslot list"
  tm_reqs :: "u32 set"              \<comment> \<open>the keys of \<open>reqs_\<close>\<close>
  tm_store :: "u32 \<Rightarrow> ('t, 'w) req" \<comment> \<open>the request objects\<close>
  tm_seq :: "u32 sequence"

definition timer_new :: "(u32 \<Rightarrow> ('t, 'w) req) \<Rightarrow> ('t, 'w) timer" where
  "timer_new mem = \<lparr>tm_slots = [], tm_reqs = {}, tm_store = mem, tm_seq = sequence_new 1 0xFFFFFFFF 16\<rparr>"

section \<open>Operations\<close>

text \<open>The constructor of a request.\<close>

definition req_new :: "'t::linorder ticks \<Rightarrow> 't \<Rightarrow> 't \<Rightarrow> 't \<Rightarrow> 't \<Rightarrow> bool \<Rightarrow> ('t, 'w) req" where
  "req_new tk now interval duration after repeat =
     (let iv = max (tk_min tk) interval
      in \<lparr>rq_interval = iv, rq_duration = duration, rq_after = after, rq_repeat = repeat, rq_actions = [],
          rq_last = tk_zero tk, rq_next = tk_add tk (tk_add tk now after) iv, rq_end = tk_add tk (tk_add tk now after) duration,
          rq_cancel = False, rq_count = 0\<rparr>)"

text \<open>\<open>create_slot\<close>: the slot with the longest interval that is shorter, or a new one.\<close>

fun find_slot :: "'t::linorder \<Rightarrow> 't tslot list \<Rightarrow> nat \<Rightarrow> nat option \<times> 't \<Rightarrow> nat option \<times> 't" where
  "find_slot interval [] n fnd = fnd"
| "find_slot interval (s # ss) n (found, found_interval) =
     find_slot interval ss (Suc n)
       (if ts_interval s < interval \<and> found_interval < ts_interval s then (Some n, ts_interval s) else (found, found_interval))"

definition create_slot :: "'t::linorder ticks \<Rightarrow> 't \<Rightarrow> 't tslot list \<Rightarrow> nat \<times> 't tslot list" where
  "create_slot tk interval slots =
     (case fst (find_slot interval slots 0 (None, tk_zero tk)) of
        Some k \<Rightarrow>
          (if ts_interval (slots ! k) > interval
           then (length slots, slots @ [\<lparr>ts_interval = interval, ts_last = tk_zero tk, ts_reqs = []\<rparr>])
           else (k, slots))
      | None \<Rightarrow> (length slots, slots @ [\<lparr>ts_interval = interval, ts_last = tk_zero tk, ts_reqs = []\<rparr>]))"

text \<open>The interval of the slot: the loop of \<open>set\<close> doubles until half the interval is reached.\<close>

partial_function (option) slot_interval :: "'t::linorder ticks \<Rightarrow> 't \<Rightarrow> 't \<Rightarrow> 't \<Rightarrow> 't option" where
  "slot_interval tk target si fi =
     (if si < target then slot_interval tk target (tk_double tk si) si else Some fi)"

definition timer_set ::
  "'t::linorder ticks \<Rightarrow> 't \<Rightarrow> 't \<Rightarrow> 't \<Rightarrow> bool \<Rightarrow> 't \<Rightarrow> ('t, 'w) timer \<Rightarrow> (fault + (u32 \<times> ('t, 'w) timer)) option" where
  "timer_set tk now interval duration repeat after tm =
     (case slot_interval tk (tk_half tk interval) (tk_min tk) (tk_min tk) of
        None \<Rightarrow> None
      | Some fi \<Rightarrow>
          (case create_slot tk fi (tm_slots tm) of
             (k, slots) \<Rightarrow>
               (case sequence_next (tm_seq tm) of
                  Inl f \<Rightarrow> Some (Inl f)
                | Inr (i, sq) \<Rightarrow>
                    Some (Inr (i,
                      tm\<lparr>tm_slots := slots[k := (slots ! k)\<lparr>ts_reqs := i # ts_reqs (slots ! k)\<rparr>],
                         tm_reqs := insert i (tm_reqs tm),
                         tm_store := (tm_store tm)(i := req_new tk now interval duration after repeat),
                         tm_seq := sq\<rparr>)))))"

definition timer_has :: "u32 \<Rightarrow> ('t, 'w) timer \<Rightarrow> bool" where
  "timer_has i tm \<longleftrightarrow> i \<in> tm_reqs tm"

definition timer_add :: "u32 \<Rightarrow> (u32 \<Rightarrow> 'w \<Rightarrow> 'w) \<Rightarrow> ('t, 'w) timer \<Rightarrow> bool \<times> ('t, 'w) timer" where
  "timer_add i act tm =
     (if i \<notin> tm_reqs tm then (False, tm)
      else (True, tm\<lparr>tm_store := (tm_store tm)(i := (tm_store tm i)\<lparr>rq_actions := rq_actions (tm_store tm i) @ [act]\<rparr>)\<rparr>))"

definition timer_cancel :: "u32 \<Rightarrow> ('t, 'w) timer \<Rightarrow> bool \<times> ('t, 'w) timer" where
  "timer_cancel i tm =
     (if i \<notin> tm_reqs tm then (False, tm)
      else (True, tm\<lparr>tm_store := (tm_store tm)(i := (tm_store tm i)\<lparr>rq_cancel := True\<rparr>), tm_reqs := tm_reqs tm - {i}\<rparr>))"

definition get_next_run_tick :: "'t ticks \<Rightarrow> u32 \<Rightarrow> ('t, 'w) timer \<Rightarrow> 't" where
  "get_next_run_tick tk i tm = (if i \<notin> tm_reqs tm then tk_zero tk else rq_next (tm_store tm i))"

definition get_last_run_tick :: "'t ticks \<Rightarrow> u32 \<Rightarrow> ('t, 'w) timer \<Rightarrow> 't" where
  "get_last_run_tick tk i tm = (if i \<notin> tm_reqs tm then tk_zero tk else rq_last (tm_store tm i))"

definition get_run_count :: "u32 \<Rightarrow> ('t, 'w) timer \<Rightarrow> nat" where
  "get_run_count i tm = (if i \<notin> tm_reqs tm then 0 else rq_count (tm_store tm i))"

definition remove_end_req :: "u32 \<Rightarrow> ('t, 'w) timer \<Rightarrow> ('t, 'w) timer" where
  "remove_end_req i tm = tm\<lparr>tm_reqs := tm_reqs tm - {i}\<rparr>"

text \<open>The destructor of a request gives its id back; \<open>id_\<close> is an \<open>int\<close>.\<close>

definition req_release :: "u32 \<Rightarrow> ('t, 'w) timer \<Rightarrow> ('t, 'w) timer" where
  "req_release i tm = (if 0 < sint i then tm\<lparr>tm_seq := sequence_release (tm_seq tm) i\<rparr> else tm)"

definition req_run :: "u32 \<Rightarrow> ('t, 'w) timer \<Rightarrow> 'w \<Rightarrow> ('t, 'w) timer \<times> 'w" where
  "req_run i tm w =
     (tm\<lparr>tm_store := (tm_store tm)(i := (tm_store tm i)\<lparr>rq_count := rq_count (tm_store tm i) + 1\<rparr>)\<rparr>,
      fold (\<lambda>act. act i) (rq_actions (tm_store tm i)) w)"

text \<open>
  One round of the loop of \<open>update_slot\<close>, for the entry \<open>e\<close> at the top of the queue \<open>q\<close> that is due: the
  queue and the timer after it. The request dies when it is neither pushed again nor in the index.
\<close>

definition update_entry ::
  "'t::linorder ticks \<Rightarrow> 't \<Rightarrow> u32 \<Rightarrow> u32 list \<times> ('t, 'w) timer \<times> 'w \<Rightarrow> u32 list \<times> ('t, 'w) timer \<times> 'w" where
  "update_entry tk now e st =
     (case st of
        (q, tm, w) \<Rightarrow>
          (let q1 = remove1 e q
           in if \<not> rq_cancel (tm_store tm e)
              then let tm1 = tm\<lparr>tm_store := (tm_store tm)(e := (tm_store tm e)\<lparr>rq_last := now\<rparr>)\<rparr>;
                       r = req_run e tm1 w; tm2 = fst r; rq = tm_store tm2 e
                   in if rq_repeat rq \<or> now < rq_end rq
                      then (e # q1, tm2\<lparr>tm_store := (tm_store tm2)(e := rq\<lparr>rq_next := tk_add tk now (rq_interval rq)\<rparr>)\<rparr>, snd r)
                      else (q1, req_release e (remove_end_req e tm2), snd r)
              else (q1, req_release e tm, w)))"

partial_function (option) update_loop ::
  "(('t::linorder \<times> u32) list \<Rightarrow> u32) \<Rightarrow> 't ticks \<Rightarrow> 't \<Rightarrow> u32 \<Rightarrow> u32 list \<times> ('t, 'w) timer \<times> 'w \<Rightarrow>
     (u32 list \<times> ('t, 'w) timer \<times> 'w) option" where
  "update_loop pick tk now e st =
     (if \<not> rq_next (tm_store (fst (snd st)) e) < now then Some st
      else let st1 = update_entry tk now e st
           in if fst st1 = [] then Some st1
              else update_loop pick tk now (pick (map (\<lambda>i. (rq_next (tm_store (fst (snd st1)) i), i)) (fst st1))) st1)"

definition update_slot ::
  "(('t::linorder \<times> u32) list \<Rightarrow> u32) \<Rightarrow> 't ticks \<Rightarrow> 't \<Rightarrow> nat \<Rightarrow> ('t, 'w) timer \<times> 'w \<Rightarrow> (('t, 'w) timer \<times> 'w) option" where
  "update_slot pick tk now k tw =
     (case tw of
        (tm, w) \<Rightarrow>
          (let sl = tm_slots tm ! k
           in if now < tk_add tk (ts_last sl) (ts_interval sl) then Some (tm, w)
              else let tm1 = tm\<lparr>tm_slots := (tm_slots tm)[k := sl\<lparr>ts_last := now\<rparr>]\<rparr>; q = ts_reqs sl
                   in if q = [] then Some (tm1, w)
                      else (case update_loop pick tk now (pick (map (\<lambda>i. (rq_next (tm_store tm1 i), i)) q)) (q, tm1, w) of
                              None \<Rightarrow> None
                            | Some (q', tm', w') \<Rightarrow>
                                Some (tm'\<lparr>tm_slots := (tm_slots tm')[k := (tm_slots tm' ! k)\<lparr>ts_reqs := q'\<rparr>]\<rparr>, w'))))"

fun update_slots ::
  "(('t::linorder \<times> u32) list \<Rightarrow> u32) \<Rightarrow> 't ticks \<Rightarrow> 't \<Rightarrow> nat list \<Rightarrow> ('t, 'w) timer \<times> 'w \<Rightarrow> (('t, 'w) timer \<times> 'w) option" where
  "update_slots pick tk now [] tw = Some tw"
| "update_slots pick tk now (k # ks) tw =
     (case update_slot pick tk now k tw of None \<Rightarrow> None | Some tw' \<Rightarrow> update_slots pick tk now ks tw')"

definition timer_update ::
  "(('t::linorder \<times> u32) list \<Rightarrow> u32) \<Rightarrow> 't ticks \<Rightarrow> 't \<Rightarrow> ('t, 'w) timer \<times> 'w \<Rightarrow> (('t, 'w) timer \<times> 'w) option" where
  "timer_update pick tk now tw = update_slots pick tk now [0..<length (tm_slots (fst tw))] tw"

section \<open>Invariant\<close>

text \<open>
  A request is in one slot at most, it is in the index unless it was cancelled, and what is
  in a slot holds its id.
\<close>

definition entry_ok :: "'t::linorder ticks \<Rightarrow> ('t, 'w) timer \<Rightarrow> u32 \<Rightarrow> bool" where
  "entry_ok tk tm i \<longleftrightarrow>
     tk_min tk \<le> rq_interval (tm_store tm i) \<and> (i \<in> tm_reqs tm \<longleftrightarrow> \<not> rq_cancel (tm_store tm i))"

definition entries_ok :: "'t::linorder ticks \<Rightarrow> u32 list \<Rightarrow> ('t, 'w) timer \<Rightarrow> bool" where
  "entries_ok tk es tm \<longleftrightarrow>
     distinct es \<and> (\<forall>i \<in> set es. entry_ok tk tm i) \<and> tm_reqs tm \<subseteq> set es \<and>
     sequence_inv (tm_seq tm) \<and> set es \<subseteq> seq_live (tm_seq tm)"

definition slot_entries :: "'t tslot list \<Rightarrow> u32 list" where
  "slot_entries slots = concat (map ts_reqs slots)"

definition timer_ok :: "'t::linorder ticks \<Rightarrow> ('t, 'w) timer \<Rightarrow> bool" where
  "timer_ok tk tm \<longleftrightarrow> entries_ok tk (slot_entries (tm_slots tm)) tm"

lemma entries_ok_perm:
  assumes "entries_ok tk es tm" "mset es = mset es'"
  shows "entries_ok tk es' tm"
  using assms(1) mset_eq_setD [OF assms(2)] mset_eq_imp_distinct_iff [OF assms(2)] by (simp add: entries_ok_def)

lemma entries_ok_slots [simp]:
  "entries_ok tk es (tm\<lparr>tm_slots := slots\<rparr>) = entries_ok tk es tm"
  by (simp add: entries_ok_def entry_ok_def)

lemma slot_entries_split:
  assumes "k < length slots"
  shows "mset (slot_entries (slots[k := sl])) =
    mset (concat (map ts_reqs (take k slots @ drop (Suc k) slots)) @ ts_reqs sl)"
  by (simp add: slot_entries_def upd_conv_take_nth_drop [OF assms])

section \<open>One entry\<close>

lemma entry_okD: "entries_ok tk es tm \<Longrightarrow> i \<in> set es \<Longrightarrow> entry_ok tk tm i"
  by (simp add: entries_ok_def)

lemma entries_ok_store:
  assumes "entries_ok tk es tm" "rq_interval r = rq_interval (tm_store tm e)" "rq_cancel r = rq_cancel (tm_store tm e)"
  shows "entries_ok tk es (tm\<lparr>tm_store := (tm_store tm)(e := r)\<rparr>)"
  using assms by (auto simp: entries_ok_def entry_ok_def)

lemma req_release_frame [simp]:
  "tm_store (req_release e tm) = tm_store tm" "tm_slots (req_release e tm) = tm_slots tm" "tm_reqs (req_release e tm) = tm_reqs tm"
  by (simp_all add: req_release_def)

lemma entries_ok_release:
  assumes "entries_ok tk (e # es) tm" "e \<notin> tm_reqs tm"
  shows "entries_ok tk es (req_release e tm)"
proof -
  have i: "sequence_inv (tm_seq tm)" "e \<in> seq_live (tm_seq tm)" "set es \<subseteq> seq_live (tm_seq tm)" "e \<notin> set es"
    using assms(1) by (simp_all add: entries_ok_def)
  show ?thesis using assms i ids.free_ok [OF i(1,2)] ids.free_live [OF i(1,2)]
    by (auto simp: entries_ok_def entry_ok_def req_release_def)
qed

lemma update_entry_ok:
  assumes law: "tick_law tk" and ok: "entries_ok tk (es @ q) tm" and e: "e \<in> set q"
    and u: "update_entry tk now e (q, tm, w) = (q', tm', w')"
  shows "entries_ok tk (es @ q') tm'" "tm_slots tm' = tm_slots tm" "set q' \<subseteq> set q" "distinct q'"
    "\<And>i. i \<noteq> e \<Longrightarrow> tm_store tm' i = tm_store tm i \<and> (i \<in> set q' \<longleftrightarrow> i \<in> set q)"
    "rq_cancel (tm_store tm e) \<Longrightarrow> tm_store tm' e = tm_store tm e \<and> e \<notin> set q' \<and> w' = w"
    "\<not> rq_cancel (tm_store tm e) \<Longrightarrow> rq_count (tm_store tm' e) = rq_count (tm_store tm e) + 1 \<and>
       rq_last (tm_store tm' e) = now \<and> (e \<in> set q' \<longrightarrow> now \<le> rq_next (tm_store tm' e)) \<and>
       (e \<in> set q' \<longleftrightarrow> rq_repeat (tm_store tm e) \<or> now < rq_end (tm_store tm e)) \<and>
       w' = fold (\<lambda>act. act e) (rq_actions (tm_store tm e)) w"
    "rq_interval (tm_store tm' e) = rq_interval (tm_store tm e) \<and> rq_cancel (tm_store tm' e) = rq_cancel (tm_store tm e)"
proof -
  let ?q1 = "remove1 e q"
  have d: "distinct q" "e \<notin> set ?q1" using ok by (simp_all add: entries_ok_def)
  have q: "mset (es @ q) = mset (e # es @ ?q1)" using e by simp
  have ok1: "entries_ok tk (e # es @ ?q1) tm" by (rule entries_ok_perm [OF ok q])
  have iv: "tk_min tk \<le> rq_interval (tm_store tm e)" and ix: "e \<in> tm_reqs tm \<longleftrightarrow> \<not> rq_cancel (tm_store tm e)"
    using entry_okD [OF ok1, of e] by (simp_all add: entry_ok_def)
  have others: "i \<noteq> e \<Longrightarrow> i \<in> set ?q1 \<longleftrightarrow> i \<in> set q" for i by simp
  let ?rq = "(tm_store tm e)\<lparr>rq_last := now, rq_count := rq_count (tm_store tm e) + 1\<rparr>"
  consider (cancel) "rq_cancel (tm_store tm e)" "q' = ?q1" "tm' = req_release e tm" "w' = w"
    | (push) "\<not> rq_cancel (tm_store tm e)" "rq_repeat (tm_store tm e) \<or> now < rq_end (tm_store tm e)" "q' = e # ?q1"
        "tm' = tm\<lparr>tm_store := (tm_store tm)(e := ?rq\<lparr>rq_next := tk_add tk now (rq_interval (tm_store tm e))\<rparr>)\<rparr>"
        "w' = fold (\<lambda>act. act e) (rq_actions (tm_store tm e)) w"
    | (ended) "\<not> rq_cancel (tm_store tm e)" "\<not> (rq_repeat (tm_store tm e) \<or> now < rq_end (tm_store tm e))" "q' = ?q1"
        "tm' = req_release e (remove_end_req e (tm\<lparr>tm_store := (tm_store tm)(e := ?rq)\<rparr>))"
        "w' = fold (\<lambda>act. act e) (rq_actions (tm_store tm e)) w"
    using u by (auto simp: update_entry_def req_run_def Let_def split: if_splits)
  note c = this
  show "set q' \<subseteq> set q" using c e set_remove1_subset [of e q] by cases auto
  show "distinct q'" using c d by cases auto
  show "tm_slots tm' = tm_slots tm" using c by cases (simp_all add: remove_end_req_def)
  show "tm_store tm' i = tm_store tm i \<and> (i \<in> set q' \<longleftrightarrow> i \<in> set q)" if "i \<noteq> e" for i
    using c that others [OF that] by cases (simp_all add: remove_end_req_def)
  show "rq_interval (tm_store tm' e) = rq_interval (tm_store tm e) \<and> rq_cancel (tm_store tm' e) = rq_cancel (tm_store tm e)"
    using c by cases (simp_all add: remove_end_req_def)
  show "entries_ok tk (es @ q') tm'" using c
  proof cases
    case cancel
    then show ?thesis using entries_ok_release [OF ok1] ix by simp
  next
    case push
    have "entries_ok tk (e # es @ ?q1) tm'" unfolding push(4) by (rule entries_ok_store [OF ok1]) simp_all
    then show ?thesis by (rule entries_ok_perm) (simp add: push(3))
  next
    case ended
    let ?tm = "tm\<lparr>tm_store := (tm_store tm)(e := ?rq\<lparr>rq_cancel := True\<rparr>), tm_reqs := tm_reqs tm - {e}\<rparr>"
    have "entries_ok tk (e # es @ ?q1) ?tm" using ok1 by (auto simp: entries_ok_def entry_ok_def)
    then have "entries_ok tk (es @ ?q1) (req_release e ?tm)" by (rule entries_ok_release) simp
    moreover have "e \<notin> set (es @ ?q1)" using ok1 by (simp add: entries_ok_def)
    ultimately show ?thesis unfolding ended(3,4)
      by (auto simp: entries_ok_def entry_ok_def remove_end_req_def req_release_def split: if_splits)
  qed
  show "rq_cancel (tm_store tm e) \<Longrightarrow> tm_store tm' e = tm_store tm e \<and> e \<notin> set q' \<and> w' = w"
    using c d by cases auto
  show "\<not> rq_cancel (tm_store tm e) \<Longrightarrow> rq_count (tm_store tm' e) = rq_count (tm_store tm e) + 1 \<and>
       rq_last (tm_store tm' e) = now \<and> (e \<in> set q' \<longrightarrow> now \<le> rq_next (tm_store tm' e)) \<and>
       (e \<in> set q' \<longleftrightarrow> rq_repeat (tm_store tm e) \<or> now < rq_end (tm_store tm e)) \<and>
       w' = fold (\<lambda>act. act e) (rq_actions (tm_store tm e)) w"
    using c d iv law by cases (auto simp: remove_end_req_def tick_law_def)
qed

section \<open>The loop\<close>

text \<open>
  What \<open>update_slot\<close> may do to the requests: those that ran were in the slot, due and not cancelled, and ran
  once; what stays of them in the slot is due no more.
\<close>

definition ran :: "'t::linorder \<Rightarrow> u32 list \<Rightarrow> ('t, 'w) timer \<Rightarrow> u32 \<Rightarrow> ('t, 'w) timer \<Rightarrow> bool" where
  "ran now q0 tm0 i tm \<longleftrightarrow>
     i \<in> set q0 \<and> rq_next (tm_store tm0 i) < now \<and> \<not> rq_cancel (tm_store tm0 i) \<and>
     rq_count (tm_store tm i) = rq_count (tm_store tm0 i) + 1 \<and> rq_last (tm_store tm i) = now \<and>
     rq_interval (tm_store tm i) = rq_interval (tm_store tm0 i) \<and> \<not> rq_cancel (tm_store tm i)"

definition ran_once :: "'t::linorder \<Rightarrow> u32 list \<Rightarrow> ('t, 'w) timer \<Rightarrow> u32 list \<Rightarrow> ('t, 'w) timer \<Rightarrow> bool" where
  "ran_once now q0 tm0 q tm \<longleftrightarrow>
     set q \<subseteq> set q0 \<and>
     (\<forall>i. tm_store tm i = tm_store tm0 i \<or> ran now q0 tm0 i tm \<and> (i \<in> set q \<longrightarrow> now \<le> rq_next (tm_store tm i)))"

definition latest :: "('t::linorder, 'w) timer \<Rightarrow> u32 list \<Rightarrow> u32 \<Rightarrow> bool" where
  "latest tm q e \<longleftrightarrow> e \<in> set q \<and> (\<forall>i \<in> set q. rq_next (tm_store tm i) \<le> rq_next (tm_store tm e))"

lemma pick_latest:
  assumes "pq_law pick" "q \<noteq> []"
  shows "latest tm q (pick (map (\<lambda>i. (rq_next (tm_store tm i), i)) q))"
proof -
  let ?xs = "map (\<lambda>i. (rq_next (tm_store tm i), i)) q"
  obtain t where "(t, pick ?xs) \<in> set ?xs" "\<forall>(t', i) \<in> set ?xs. t' \<le> t"
    using assms(1) [unfolded pq_law_def, rule_format, of ?xs] assms(2) by blast
  then show ?thesis unfolding latest_def by fastforce
qed

lemma filter_shrinks:
  assumes "distinct xs" "distinct ys" "set (filter Q ys) \<subseteq> set (filter P xs) - {e}" "e \<in> set xs" "P e"
  shows "length (filter Q ys) < length (filter P xs)"
proof -
  have "card (set (filter Q ys)) < card (set (filter P xs))"
    by (rule psubset_card_mono) (use assms(3,4,5) in auto)
  then show ?thesis using distinct_card [of "filter P xs"] distinct_card [of "filter Q ys"] assms(1,2) by simp
qed

text \<open>One round keeps what was said of those that ran.\<close>

lemma update_entry_ran:
  assumes o: "tick_law tk" "entries_ok tk (es @ q) tm" "e \<in> set q" "update_entry tk now e (q, tm, w) = (q1, tm1, w1)"
    and r: "ran_once now q0 tm0 q tm" and due: "rq_next (tm_store tm e) < now"
  shows "ran_once now q0 tm0 q1 tm1"
    "set (filter (\<lambda>i. rq_next (tm_store tm1 i) < now) q1) \<subseteq> set (filter (\<lambda>i. rq_next (tm_store tm i) < now) q) - {e}"
proof -
  note o = update_entry_ok [OF o]
  have q: "set q \<subseteq> set q0" using r by (simp add: ran_once_def)
  have old: "tm_store tm i = tm_store tm0 i \<or> ran now q0 tm0 i tm \<and> (i \<in> set q \<longrightarrow> now \<le> rq_next (tm_store tm i))" for i
    using r by (simp add: ran_once_def)
  have same: "tm_store tm e = tm_store tm0 e" using old [of e] due assms(3) by (simp add: not_le [symmetric])
  have "tm_store tm1 i = tm_store tm0 i \<or> ran now q0 tm0 i tm1 \<and> (i \<in> set q1 \<longrightarrow> now \<le> rq_next (tm_store tm1 i))" for i
  proof (cases "i = e")
    case False
    then show ?thesis using o(5) [OF False] old [of i] by (simp add: ran_def)
  next
    case i: True
    have "e \<in> set q0" using q assms(3) by blast
    then show ?thesis
    proof (cases "rq_cancel (tm_store tm e)")
      case True
      then show ?thesis using o(6) i same by simp
    next
      case False
      then show ?thesis using o(7) [OF False] o(8) i same due \<open>e \<in> set q0\<close> by (simp add: ran_def)
    qed
  qed
  then show "ran_once now q0 tm0 q1 tm1" using o(3) q unfolding ran_once_def by blast
  show "set (filter (\<lambda>i. rq_next (tm_store tm1 i) < now) q1) \<subseteq> set (filter (\<lambda>i. rq_next (tm_store tm i) < now) q) - {e}"
  proof
    fix i assume i: "i \<in> set (filter (\<lambda>i. rq_next (tm_store tm1 i) < now) q1)"
    have "i \<noteq> e"
    proof
      assume "i = e"
      then have "e \<in> set q1" "\<not> now \<le> rq_next (tm_store tm1 e)" using i by (simp_all add: not_le)
      then show False using o(6) o(7) by blast
    qed
    then show "i \<in> set (filter (\<lambda>i. rq_next (tm_store tm i) < now) q) - {e}" using i o(5) [of i] by simp
  qed
qed

lemma update_loop_ok:
  assumes law: "tick_law tk" "pq_law pick"
  shows "entries_ok tk (es @ q) tm \<Longrightarrow> latest tm q e \<Longrightarrow> ran_once now q0 tm0 q tm \<Longrightarrow>
    \<exists>q' tm' w'. update_loop pick tk now e (q, tm, w) = Some (q', tm', w') \<and> entries_ok tk (es @ q') tm' \<and>
      tm_slots tm' = tm_slots tm \<and> ran_once now q0 tm0 q' tm' \<and> (q' = [] \<or> (\<exists>i \<in> set q'. now \<le> rq_next (tm_store tm' i)))"
proof (induction "length (filter (\<lambda>i. rq_next (tm_store tm i) < now) q)" arbitrary: q tm e w rule: less_induct)
  case less
  have e: "e \<in> set q" using less.prems(2) by (simp add: latest_def)
  show ?case
  proof (cases "rq_next (tm_store tm e) < now")
    case False
    then have "update_loop pick tk now e (q, tm, w) = Some (q, tm, w)" by (simp add: update_loop.simps)
    moreover have "\<exists>i \<in> set q. now \<le> rq_next (tm_store tm i)" using e False by (auto simp: not_less)
    ultimately show ?thesis using less.prems(1,3) by (intro exI [of _ q] exI [of _ tm] exI [of _ w]) simp
  next
    case True
    obtain q1 tm1 w1 where u: "update_entry tk now e (q, tm, w) = (q1, tm1, w1)" by (metis prod_cases3)
    note o = update_entry_ok(1-4) [OF law(1) less.prems(1) e u]
    note r = update_entry_ran [OF law(1) less.prems(1) e u less.prems(3) True]
    show ?thesis
    proof (cases "q1 = []")
      case empty: True
      have "update_loop pick tk now e (q, tm, w) = Some (q1, tm1, w1)"
        using True u empty by (simp add: update_loop.simps)
      then show ?thesis using o(1,2) r(1) empty by (intro exI [of _ q1] exI [of _ tm1] exI [of _ w1]) simp
    next
      case False
      let ?e1 = "pick (map (\<lambda>i. (rq_next (tm_store tm1 i), i)) q1)"
      have "distinct q" using less.prems(1) by (simp add: entries_ok_def)
      have l: "length (filter (\<lambda>i. rq_next (tm_store tm1 i) < now) q1) < length (filter (\<lambda>i. rq_next (tm_store tm i) < now) q)"
        by (rule filter_shrinks [OF \<open>distinct q\<close> o(4) r(2) e True])
      have "update_loop pick tk now e (q, tm, w) = update_loop pick tk now ?e1 (q1, tm1, w1)"
        using True u False by (subst update_loop.simps) simp
      then show ?thesis
        using less.hyps [OF l o(1) pick_latest [OF law(2) False] r(1), of w1] unfolding o(2) by simp
    qed
  qed
qed

section \<open>Slots\<close>

lemma update_slot_ok:
  fixes tm :: "('t::linorder, 'w) timer"
  assumes law: "tick_law tk" "pq_law pick" and ok: "timer_ok tk tm" and k: "k < length (tm_slots tm)"
  shows "\<exists>tm' w'. update_slot pick tk now k (tm, w) = Some (tm', w') \<and> timer_ok tk tm' \<and>
    map ts_interval (tm_slots tm') = map ts_interval (tm_slots tm) \<and>
    (\<forall>j. j \<noteq> k \<longrightarrow> tm_slots tm' ! j = tm_slots tm ! j) \<and>
    set (ts_reqs (tm_slots tm' ! k)) \<subseteq> set (ts_reqs (tm_slots tm ! k)) \<and>
    (\<forall>i. tm_store tm' i = tm_store tm i \<or> ran now (ts_reqs (tm_slots tm ! k)) tm i tm')"
proof -
  let ?sl = "tm_slots tm ! k"
  let ?tm1 = "tm\<lparr>tm_slots := (tm_slots tm)[k := ?sl\<lparr>ts_last := now\<rparr>]\<rparr>"
  let ?es = "concat (map ts_reqs (take k (tm_slots tm) @ drop (Suc k) (tm_slots tm)))"
  have sp: "mset (slot_entries ((tm_slots tm)[k := sl])) = mset (?es @ ts_reqs sl)" for sl
    by (rule slot_entries_split [OF k])
  have ok0: "entries_ok tk (?es @ ts_reqs ?sl) tm"
    by (rule entries_ok_perm [OF ok [unfolded timer_ok_def]]) (use sp [of ?sl] in simp)
  have put: "timer_ok tk (tm'\<lparr>tm_slots := (tm_slots tm)[k := sl]\<rparr>)" if "entries_ok tk (?es @ ts_reqs sl) tm'" for tm' :: "('t, 'w) timer" and sl
    unfolding timer_ok_def by (simp, rule entries_ok_perm [OF that]) (simp add: sp del: mset_append)
  have ivs: "map ts_interval ((tm_slots tm)[k := sl]) = map ts_interval (tm_slots tm)" if "ts_interval sl = ts_interval ?sl" for sl
    using that by (simp add: map_update) (metis k list_update_id map_update nth_map)
  have ok1: "entries_ok tk (?es @ ts_reqs ?sl) ?tm1" using ok0 by simp
  consider (early) "now < tk_add tk (ts_last ?sl) (ts_interval ?sl)" | (empty) "\<not> now < tk_add tk (ts_last ?sl) (ts_interval ?sl)" "ts_reqs ?sl = []"
    | (loop) "\<not> now < tk_add tk (ts_last ?sl) (ts_interval ?sl)" "ts_reqs ?sl \<noteq> []" by blast
  then show ?thesis
  proof cases
    case early
    then show ?thesis using ok by (auto simp: update_slot_def Let_def)
  next
    case empty
    then have u: "update_slot pick tk now k (tm, w) = Some (?tm1, w)" by (simp add: update_slot_def Let_def)
    have "timer_ok tk ?tm1" by (rule put) (use ok0 in simp)
    then show ?thesis using u ivs [of "?sl\<lparr>ts_last := now\<rparr>"] k by (intro exI [of _ ?tm1] exI [of _ w]) simp
  next
    case loop
    let ?q = "ts_reqs ?sl"
    have r0: "ran_once now ?q ?tm1 ?q ?tm1" by (simp add: ran_once_def)
    obtain q' tm' w' where l: "update_loop pick tk now (pick (map (\<lambda>i. (rq_next (tm_store ?tm1 i), i)) ?q)) (?q, ?tm1, w) = Some (q', tm', w')"
      "entries_ok tk (?es @ q') tm'" "tm_slots tm' = tm_slots ?tm1" "ran_once now ?q ?tm1 q' tm'"
      using update_loop_ok [OF law ok1 pick_latest [OF law(2) loop(2)] r0, of w] by (elim exE conjE) (rule that)
    let ?sl' = "?sl\<lparr>ts_last := now, ts_reqs := q'\<rparr>"
    let ?tm2 = "tm'\<lparr>tm_slots := (tm_slots tm)[k := ?sl']\<rparr>"
    have u: "update_slot pick tk now k (tm, w) = Some (?tm2, w')"
      using loop l(1,3) k by (simp add: update_slot_def Let_def)
    have "timer_ok tk ?tm2" by (rule put) (use l(2) in simp)
    moreover have "map ts_interval (tm_slots ?tm2) = map ts_interval (tm_slots tm)" using ivs [of ?sl'] by simp
    moreover have "tm_store ?tm2 i = tm_store tm i \<or> ran now ?q tm i ?tm2" for i
      using l(4) by (auto simp: ran_once_def ran_def)
    moreover have "set q' \<subseteq> set ?q" using l(4) by (simp add: ran_once_def)
    ultimately show ?thesis using u k by (intro exI [of _ ?tm2] exI [of _ w']) simp
  qed
qed

lemma entries_disjoint:
  assumes "timer_ok tk tm" "j < length (tm_slots tm)" "k < length (tm_slots tm)"
    "i \<in> set (ts_reqs (tm_slots tm ! j))" "i \<in> set (ts_reqs (tm_slots tm ! k))"
  shows "j = k"
proof (rule ccontr)
  assume "j \<noteq> k"
  have "distinct (concat (map ts_reqs (tm_slots tm)))" using assms(1) by (simp add: timer_ok_def entries_ok_def slot_entries_def)
  then have "mset (concat (map ts_reqs (take k (tm_slots tm) @ drop (Suc k) (tm_slots tm))) @ ts_reqs (tm_slots tm ! k)) =
      mset (concat (map ts_reqs (tm_slots tm)))"
    using slot_entries_split [OF assms(3), of "tm_slots tm ! k"] by (simp add: slot_entries_def)
  then have "distinct (concat (map ts_reqs (take k (tm_slots tm) @ drop (Suc k) (tm_slots tm))) @ ts_reqs (tm_slots tm ! k))"
    using \<open>distinct (concat (map ts_reqs (tm_slots tm)))\<close> mset_eq_imp_distinct_iff by metis
  moreover have "tm_slots tm ! j \<in> set (take k (tm_slots tm) @ drop (Suc k) (tm_slots tm))"
  proof (cases "j < k")
    case True
    then have "take k (tm_slots tm) ! j = tm_slots tm ! j" by simp
    then show ?thesis using True assms(2) by (metis UnCI length_take min_less_iff_conj nth_mem set_append)
  next
    case False
    then have "drop (Suc k) (tm_slots tm) ! (j - Suc k) = tm_slots tm ! j" "j - Suc k < length (drop (Suc k) (tm_slots tm))"
      using \<open>j \<noteq> k\<close> assms(2) by auto
    then show ?thesis by (metis UnCI nth_mem set_append)
  qed
  ultimately show False using assms(4,5) by auto
qed

lemma update_slots_ok:
  fixes tm :: "('t::linorder, 'w) timer"
  assumes law: "tick_law tk" "pq_law pick"
  shows "timer_ok tk tm \<Longrightarrow> distinct ks \<Longrightarrow> set ks \<subseteq> {..<length (tm_slots tm)} \<Longrightarrow>
    \<exists>tm' w'. update_slots pick tk now ks (tm, w) = Some (tm', w') \<and> timer_ok tk tm' \<and>
      (\<forall>i. tm_store tm' i = tm_store tm i \<or> (\<exists>k \<in> set ks. ran now (ts_reqs (tm_slots tm ! k)) tm i tm'))"
proof (induction ks arbitrary: tm w)
  case Nil
  then show ?case by simp
next
  case (Cons k ks)
  have k: "k < length (tm_slots tm)" "k \<notin> set ks" using Cons.prems by auto
  obtain tm1 w1 where one: "update_slot pick tk now k (tm, w) = Some (tm1, w1)" "timer_ok tk tm1"
    "map ts_interval (tm_slots tm1) = map ts_interval (tm_slots tm)" "\<forall>j. j \<noteq> k \<longrightarrow> tm_slots tm1 ! j = tm_slots tm ! j"
    "\<forall>i. tm_store tm1 i = tm_store tm i \<or> ran now (ts_reqs (tm_slots tm ! k)) tm i tm1"
    using update_slot_ok [OF law Cons.prems(1) k(1), of now w] by blast
  have len: "length (tm_slots tm1) = length (tm_slots tm)" using arg_cong [OF one(3), of length] by simp
  obtain tm2 w2 where rest: "update_slots pick tk now ks (tm1, w1) = Some (tm2, w2)" "timer_ok tk tm2"
    "\<forall>i. tm_store tm2 i = tm_store tm1 i \<or> (\<exists>j \<in> set ks. ran now (ts_reqs (tm_slots tm1 ! j)) tm1 i tm2)"
    using Cons.IH [OF one(2), of w1] Cons.prems(2,3) len by auto
  have "tm_store tm2 i = tm_store tm i \<or> (\<exists>j \<in> set (k # ks). ran now (ts_reqs (tm_slots tm ! j)) tm i tm2)" for i
  proof (cases "tm_store tm2 i = tm_store tm1 i")
    case True
    then show ?thesis using one(5) [rule_format, of i] by (auto simp: ran_def)
  next
    case False
    then obtain j where j: "j \<in> set ks" "ran now (ts_reqs (tm_slots tm1 ! j)) tm1 i tm2" using rest(3) by blast
    then have jk: "j \<noteq> k" "j < length (tm_slots tm)" using k Cons.prems(3) by auto
    then have r: "ran now (ts_reqs (tm_slots tm ! j)) tm1 i tm2" using j(2) one(4) by simp
    then have "i \<notin> set (ts_reqs (tm_slots tm ! k))"
      using entries_disjoint [OF Cons.prems(1) jk(2) k(1)] jk(1) by (auto simp: ran_def)
    then have "tm_store tm1 i = tm_store tm i" using one(5) [rule_format, of i] by (auto simp: ran_def)
    then show ?thesis using r j(1) by (auto simp: ran_def)
  qed
  then show ?case using one(1) rest(1,2) by simp
qed

section \<open>Setting, adding, cancelling\<close>

lemma find_slot_index:
  "fst (find_slot iv slots n (fnd, fiv)) = Some k \<Longrightarrow> fnd = Some k \<or> n \<le> k \<and> k < n + length slots"
proof (induction slots arbitrary: n fnd fiv)
  case (Cons s slots)
  then show ?case using Cons.IH [of "Suc n" "Some n" "ts_interval s"] Cons.IH [of "Suc n" fnd fiv] by (auto split: if_splits)
qed simp

lemma create_slot_ok:
  assumes "create_slot tk iv slots = (k, slots')"
  shows "k < length slots'" "mset (slot_entries slots') = mset (slot_entries slots)"
  using assms find_slot_index [of iv slots 0 None "tk_zero tk"]
  by (auto simp: create_slot_def slot_entries_def split: option.splits if_splits)

lemma slot_interval_ends:
  "\<not> (tk_double tk ^^ n) si < target \<Longrightarrow> \<exists>fi. slot_interval tk target si fi0 = Some fi"
proof (induction n arbitrary: si fi0)
  case 0
  then show ?case by (subst slot_interval.simps) simp
next
  case (Suc n)
  have "\<not> (tk_double tk ^^ n) (tk_double tk si) < target" using Suc.prems by (simp add: funpow_swap1)
  then show ?case using Suc.IH by (subst slot_interval.simps) simp
qed

lemma timer_set_ok:
  assumes law: "tick_law tk" and ok: "timer_ok tk tm"
  shows "\<exists>r. timer_set tk now interval duration repeat after tm = Some r \<and>
    (case r of
       Inl f \<Rightarrow> seq_live (tm_seq tm) = seq_range (tm_seq tm)
     | Inr (i, tm') \<Rightarrow> timer_ok tk tm' \<and> i \<notin> set (slot_entries (tm_slots tm)))"
proof -
  have "\<exists>n. tk_half tk interval \<le> (tk_double tk ^^ n) (tk_min tk)" using law unfolding tick_law_def by (elim conjE) (rule spec)
  then obtain n where "tk_half tk interval \<le> (tk_double tk ^^ n) (tk_min tk)" ..
  then obtain fi where fi: "slot_interval tk (tk_half tk interval) (tk_min tk) (tk_min tk) = Some fi"
    using slot_interval_ends [of n tk "tk_min tk" "tk_half tk interval"] by (auto simp: not_less)
  obtain k slots where c: "create_slot tk fi (tm_slots tm) = (k, slots)" by force
  note cs = create_slot_ok [OF c]
  have e: "entries_ok tk (slot_entries slots) tm"
    by (rule entries_ok_perm [OF ok [unfolded timer_ok_def]]) (simp add: cs(2))
  have inv: "sequence_inv (tm_seq tm)" using e by (simp add: entries_ok_def)
  show ?thesis
  proof (cases "sequence_next (tm_seq tm)")
    case (Inl f)
    then have "seq_live (tm_seq tm) = seq_range (tm_seq tm)" using ids.alloc_fails [OF inv] by blast
    then show ?thesis using fi c Inl by (simp add: timer_set_def)
  next
    case (Inr p)
    obtain i sq where p: "p = (i, sq)" by force
    note nx = sequence_next_ok [OF inv Inr [unfolded p]]
    let ?r = "req_new tk now interval duration after repeat"
    let ?tm = "tm\<lparr>tm_slots := slots[k := (slots ! k)\<lparr>ts_reqs := i # ts_reqs (slots ! k)\<rparr>],
        tm_reqs := insert i (tm_reqs tm), tm_store := (tm_store tm)(i := ?r), tm_seq := sq\<rparr>"
    have new: "i \<notin> set (slot_entries slots)" using e nx(2) by (auto simp: entries_ok_def)
    have r: "tk_min tk \<le> rq_interval ?r" "\<not> rq_cancel ?r" by (simp_all add: req_new_def Let_def)
    have "entries_ok tk (i # slot_entries slots) ?tm"
      using e new nx r by (auto simp: entries_ok_def entry_ok_def)
    moreover have "mset (i # slot_entries slots) = mset (slot_entries (tm_slots ?tm))"
      using slot_entries_split [OF cs(1), of "(slots ! k)\<lparr>ts_reqs := i # ts_reqs (slots ! k)\<rparr>"]
        slot_entries_split [OF cs(1), of "slots ! k"] by simp
    ultimately have "timer_ok tk ?tm" unfolding timer_ok_def by (rule entries_ok_perm)
    moreover have "i \<notin> set (slot_entries (tm_slots tm))" using new mset_eq_setD [OF cs(2)] by simp
    ultimately show ?thesis using fi c Inr p by (simp add: timer_set_def)
  qed
qed

lemma timer_add_ok: "timer_ok tk tm \<Longrightarrow> timer_ok tk (snd (timer_add i act tm))"
  by (auto simp: timer_add_def timer_ok_def entries_ok_def entry_ok_def)

lemma timer_cancel_ok: "timer_ok tk tm \<Longrightarrow> timer_ok tk (snd (timer_cancel i tm))"
  by (auto simp: timer_cancel_def timer_ok_def entries_ok_def entry_ok_def)

lemma timer_new_ok: "timer_ok tk (timer_new mem)"
proof -
  have "sequence_inv (sequence_new 1 0xFFFFFFFF 16 :: u32 sequence)" by (rule sequence_new_inv) simp
  then show ?thesis by (simp add: timer_ok_def timer_new_def slot_entries_def entries_ok_def)
qed

section \<open>Properties\<close>

text \<open>The timers a program can have: what the operations make of a new one, at any times.\<close>

inductive timer_reach ::
  "(('t::linorder \<times> u32) list \<Rightarrow> u32) \<Rightarrow> 't ticks \<Rightarrow> ('t, 'w) timer \<Rightarrow> bool" for pick tk where
  new: "timer_reach pick tk (timer_new mem)"
| set: "timer_reach pick tk tm \<Longrightarrow> timer_set tk now interval duration repeat after tm = Some (Inr (i, tm')) \<Longrightarrow>
    timer_reach pick tk tm'"
| add: "timer_reach pick tk tm \<Longrightarrow> timer_reach pick tk (snd (timer_add i act tm))"
| cancel: "timer_reach pick tk tm \<Longrightarrow> timer_reach pick tk (snd (timer_cancel i tm))"
| update: "timer_reach pick tk tm \<Longrightarrow> timer_update pick tk now (tm, w) = Some (tm', w') \<Longrightarrow> timer_reach pick tk tm'"

lemma timer_update_ok:
  assumes "tick_law tk" "pq_law pick" "timer_ok tk tm"
  shows "\<exists>tm' w'. timer_update pick tk now (tm, w) = Some (tm', w') \<and> timer_ok tk tm' \<and>
      (\<forall>i. tm_store tm' i = tm_store tm i \<or> (\<exists>k < length (tm_slots tm). ran now (ts_reqs (tm_slots tm ! k)) tm i tm'))"
  using update_slots_ok [OF assms, of "[0..<length (tm_slots tm)]" now w]
  by (simp add: timer_update_def atLeast0LessThan Bex_def)

lemma timer_reach_ok:
  assumes law: "tick_law tk" "pq_law pick"
  shows "timer_reach pick tk tm \<Longrightarrow> timer_ok tk tm"
proof (induction rule: timer_reach.induct)
  case (set tm now interval duration repeat after i tm')
  then show ?case using timer_set_ok [OF law(1) set.IH, of now interval duration repeat after] by auto
next
  case (update tm now w tm' w')
  then show ?case using timer_update_ok [OF law update.IH, of now w] by auto
qed (simp_all add: timer_new_ok timer_add_ok timer_cancel_ok)

text \<open>
  C24. \<open>update\<close> always returns, for every timer the operations can make and every time. It runs a
  request at most once, only one that is in a slot, whose time has passed and that has not
  been cancelled; every other request is left as it was. \<open>set\<close> always returns too, and gives an id no request has.
\<close>

theorem timer_update_once:
  assumes "tick_law tk" "pq_law pick" "timer_reach pick tk tm"
  shows "(\<exists>tm' w'. timer_update pick tk now (tm, w) = Some (tm', w') \<and>
      (\<forall>i. tm_store tm' i = tm_store tm i \<or> (\<exists>k < length (tm_slots tm). ran now (ts_reqs (tm_slots tm ! k)) tm i tm'))) \<and>
    (\<exists>r. timer_set tk now interval duration repeat after tm = Some r \<and>
      (case r of Inl f \<Rightarrow> seq_live (tm_seq tm) = seq_range (tm_seq tm)
       | Inr (i, tm') \<Rightarrow> i \<in> tm_reqs tm' \<and> i \<notin> set (slot_entries (tm_slots tm))))"
proof -
  note ok = timer_reach_ok [OF assms]
  obtain r where r: "timer_set tk now interval duration repeat after tm = Some r"
    "case r of Inl f \<Rightarrow> seq_live (tm_seq tm) = seq_range (tm_seq tm)
     | Inr (i, tm') \<Rightarrow> timer_ok tk tm' \<and> i \<notin> set (slot_entries (tm_slots tm))"
    using timer_set_ok [OF assms(1) ok] by blast
  then have "case r of Inl f \<Rightarrow> seq_live (tm_seq tm) = seq_range (tm_seq tm)
     | Inr (i, tm') \<Rightarrow> i \<in> tm_reqs tm' \<and> i \<notin> set (slot_entries (tm_slots tm))"
    by (auto simp: timer_set_def split: option.splits prod.splits sum.splits)
  then show ?thesis using r(1) timer_update_ok [OF assms(1,2) ok, of now w] by blast
qed

section \<open>Starvation\<close>

text \<open>
  The queue of a slot has the latest request at the top, where the earliest should be. A repeating
  request that is due later than all others of its slot is pushed back with a later time
  still: \<open>update\<close> finds it at the top again and stops.
\<close>

definition hogs :: "('t::linorder, 'w) timer \<Rightarrow> u32 list \<Rightarrow> u32 \<Rightarrow> bool" where
  "hogs tm q e \<longleftrightarrow> distinct q \<and> e \<in> set q \<and> rq_repeat (tm_store tm e) \<and> \<not> rq_cancel (tm_store tm e) \<and>
     (\<forall>i \<in> set q. i \<noteq> e \<longrightarrow> rq_next (tm_store tm i) < rq_next (tm_store tm e))"

lemma hogs_pick:
  assumes "pq_law pick" "hogs tm q e"
  shows "pick (map (\<lambda>i. (rq_next (tm_store tm i), i)) q) = e"
proof -
  have "q \<noteq> []" using assms(2) by (auto simp: hogs_def)
  then have l: "latest tm q (pick (map (\<lambda>i. (rq_next (tm_store tm i), i)) q))" (is "latest tm q ?e")
    by (rule pick_latest [OF assms(1)])
  show ?thesis
  proof (rule ccontr)
    assume "?e \<noteq> e"
    then have "rq_next (tm_store tm ?e) < rq_next (tm_store tm e)" using l assms(2) by (simp add: latest_def hogs_def)
    moreover have "rq_next (tm_store tm e) \<le> rq_next (tm_store tm ?e)" using l assms(2) by (simp add: latest_def hogs_def)
    ultimately show False by simp
  qed
qed

lemma hogs_loop:
  assumes law: "tick_law tk" "pq_law pick" and ok: "entries_ok tk (es @ q) tm" and h: "hogs tm q e"
  shows "\<exists>q' tm' w'. update_loop pick tk now e (q, tm, w) = Some (q', tm', w') \<and> hogs tm' q' e \<and> set q' = set q \<and>
    tm_slots tm' = tm_slots tm \<and> (\<forall>i. i \<noteq> e \<longrightarrow> tm_store tm' i = tm_store tm i)"
proof (cases "rq_next (tm_store tm e) < now")
  case False
  then have "update_loop pick tk now e (q, tm, w) = Some (q, tm, w)" by (simp add: update_loop.simps)
  then show ?thesis using h by (intro exI [of _ q] exI [of _ tm] exI [of _ w]) simp
next
  case True
  have e: "e \<in> set q" "\<not> rq_cancel (tm_store tm e)" "rq_repeat (tm_store tm e)" using h by (simp_all add: hogs_def)
  obtain q1 tm1 w1 where u: "update_entry tk now e (q, tm, w) = (q1, tm1, w1)" by (metis prod_cases3)
  note o = update_entry_ok [OF law(1) ok e(1) u]
  have e1: "e \<in> set q1" "now \<le> rq_next (tm_store tm1 e)" using o(7) [OF e(2)] e(3) by auto
  have rep: "rq_repeat (tm_store tm1 e)" using u e(2,3) by (auto simp: update_entry_def req_run_def Let_def)
  have "i \<in> set q1 \<longleftrightarrow> i \<in> set q" for i using o(5) [of i] e(1) e1(1) by (cases "i = e") simp_all
  then have s: "set q1 = set q" by blast
  have "rq_next (tm_store tm1 i) < rq_next (tm_store tm1 e)" if "i \<in> set q1" "i \<noteq> e" for i
  proof -
    have "rq_next (tm_store tm1 i) < rq_next (tm_store tm e)" using h that s o(5) [OF that(2)] by (simp add: hogs_def)
    then show ?thesis using True e1(2) by simp
  qed
  then have h1: "hogs tm1 q1 e" using o(4,8) e(2) e1(1) rep by (simp add: hogs_def)
  have "q1 \<noteq> []" using e1(1) by auto
  then have "update_loop pick tk now e (q, tm, w) = update_loop pick tk now e (q1, tm1, w1)"
    using True u hogs_pick [OF law(2) h1] by (subst update_loop.simps) simp
  also have "\<dots> = Some (q1, tm1, w1)" using e1(2) by (simp add: update_loop.simps not_less)
  finally show ?thesis using h1 s o(2,5) by (intro exI [of _ q1] exI [of _ tm1] exI [of _ w1]) simp
qed

lemma hogs_slot:
  fixes tm :: "('t::linorder, 'w) timer"
  assumes law: "tick_law tk" "pq_law pick" and ok: "timer_ok tk tm" and k: "k < length (tm_slots tm)"
    and h: "hogs tm (ts_reqs (tm_slots tm ! k)) e"
  shows "\<exists>tm' w'. update_slot pick tk now k (tm, w) = Some (tm', w') \<and> hogs tm' (ts_reqs (tm_slots tm' ! k)) e \<and>
    set (ts_reqs (tm_slots tm' ! k)) = set (ts_reqs (tm_slots tm ! k)) \<and>
    (\<forall>i. i \<noteq> e \<longrightarrow> tm_store tm' i = tm_store tm i) \<and> timer_ok tk tm' \<and> k < length (tm_slots tm')"
proof -
  let ?sl = "tm_slots tm ! k"
  let ?tm1 = "tm\<lparr>tm_slots := (tm_slots tm)[k := ?sl\<lparr>ts_last := now\<rparr>]\<rparr>"
  let ?es = "concat (map ts_reqs (take k (tm_slots tm) @ drop (Suc k) (tm_slots tm)))"
  obtain tm2 w2 where u: "update_slot pick tk now k (tm, w) = Some (tm2, w2)" "timer_ok tk tm2"
      "map ts_interval (tm_slots tm2) = map ts_interval (tm_slots tm)"
    using update_slot_ok [OF law ok k, of now w] by blast
  have len: "length (tm_slots tm2) = length (tm_slots tm)" using arg_cong [OF u(3), of length] by simp
  have ok1: "entries_ok tk (?es @ ts_reqs ?sl) ?tm1"
    by (simp, rule entries_ok_perm [OF ok [unfolded timer_ok_def]]) (use slot_entries_split [OF k, of ?sl] in simp)
  have h1: "hogs ?tm1 (ts_reqs ?sl) e" using h by (simp add: hogs_def)
  have "ts_reqs ?sl \<noteq> []" using h by (auto simp: hogs_def)
  moreover obtain q' tm' w' where l: "update_loop pick tk now e (ts_reqs ?sl, ?tm1, w) = Some (q', tm', w')" "hogs tm' q' e"
    "set q' = set (ts_reqs ?sl)" "tm_slots tm' = tm_slots ?tm1" "\<forall>i. i \<noteq> e \<longrightarrow> tm_store tm' i = tm_store ?tm1 i"
    using hogs_loop [OF law ok1 h1, of now w] by (elim exE conjE) (rule that)
  ultimately have "hogs tm2 (ts_reqs (tm_slots tm2 ! k)) e \<and> set (ts_reqs (tm_slots tm2 ! k)) = set (ts_reqs ?sl) \<and>
      (\<forall>i. i \<noteq> e \<longrightarrow> tm_store tm2 i = tm_store tm i)"
    using u(1) k h hogs_pick [OF law(2) h1]
    by (cases "now < tk_add tk (ts_last ?sl) (ts_interval ?sl)") (auto simp: update_slot_def Let_def hogs_def)
  then show ?thesis using u(1,2) k len by (intro exI [of _ tm2] exI [of _ w2]) simp
qed

lemma hogs_slots:
  fixes tm :: "('t::linorder, 'w) timer"
  assumes law: "tick_law tk" "pq_law pick"
  shows "timer_ok tk tm \<Longrightarrow> k < length (tm_slots tm) \<Longrightarrow> hogs tm (ts_reqs (tm_slots tm ! k)) e \<Longrightarrow>
    \<forall>j \<in> set js. j < length (tm_slots tm) \<Longrightarrow>
    \<exists>tm' w'. update_slots pick tk now js (tm, w) = Some (tm', w') \<and> timer_ok tk tm' \<and>
      length (tm_slots tm') = length (tm_slots tm) \<and> hogs tm' (ts_reqs (tm_slots tm' ! k)) e \<and>
      set (ts_reqs (tm_slots tm' ! k)) = set (ts_reqs (tm_slots tm ! k)) \<and>
      (\<forall>i \<in> set (ts_reqs (tm_slots tm ! k)). i \<noteq> e \<longrightarrow> tm_store tm' i = tm_store tm i)"
proof (induction js arbitrary: tm w)
  case Nil
  then show ?case by simp
next
  case (Cons j js)
  have j: "j < length (tm_slots tm)" using Cons.prems(4) by simp
  obtain tm1 w1 where one: "update_slot pick tk now j (tm, w) = Some (tm1, w1)" "timer_ok tk tm1"
    "map ts_interval (tm_slots tm1) = map ts_interval (tm_slots tm)" "\<forall>l. l \<noteq> j \<longrightarrow> tm_slots tm1 ! l = tm_slots tm ! l"
    "\<forall>i. tm_store tm1 i = tm_store tm i \<or> ran now (ts_reqs (tm_slots tm ! j)) tm i tm1"
    using update_slot_ok [OF law Cons.prems(1) j, of now w] by blast
  have len: "length (tm_slots tm1) = length (tm_slots tm)" using arg_cong [OF one(3), of length] by simp
  have h1: "hogs tm1 (ts_reqs (tm_slots tm1 ! k)) e \<and> set (ts_reqs (tm_slots tm1 ! k)) = set (ts_reqs (tm_slots tm ! k)) \<and>
      (\<forall>i \<in> set (ts_reqs (tm_slots tm ! k)). i \<noteq> e \<longrightarrow> tm_store tm1 i = tm_store tm i)"
  proof (cases "j = k")
    case True
    then show ?thesis using hogs_slot [OF law Cons.prems(1-3), of now w] one(1) by auto
  next
    case False
    have same: "tm_store tm1 i = tm_store tm i" if "i \<in> set (ts_reqs (tm_slots tm ! k))" for i
      using one(5) [rule_format, of i] entries_disjoint [OF Cons.prems(1) j Cons.prems(2) _ that] False
      by (auto simp: ran_def)
    have "hogs tm1 (ts_reqs (tm_slots tm ! k)) e"
      using Cons.prems(3) same by (simp add: hogs_def)
    then show ?thesis using one(4) False same by simp
  qed
  obtain tm2 w2 where rest: "update_slots pick tk now js (tm1, w1) = Some (tm2, w2)" "timer_ok tk tm2"
      "length (tm_slots tm2) = length (tm_slots tm1)" "hogs tm2 (ts_reqs (tm_slots tm2 ! k)) e"
      "set (ts_reqs (tm_slots tm2 ! k)) = set (ts_reqs (tm_slots tm1 ! k))"
      "\<forall>i \<in> set (ts_reqs (tm_slots tm1 ! k)). i \<noteq> e \<longrightarrow> tm_store tm2 i = tm_store tm1 i"
    using Cons.IH [OF one(2) _ conjunct1 [OF h1], of w1] Cons.prems(2,4) len by auto
  then show ?case using one(1) h1 len by (intro exI [of _ tm2] exI [of _ w2]) simp
qed

fun timer_updates ::
  "(('t::linorder \<times> u32) list \<Rightarrow> u32) \<Rightarrow> 't ticks \<Rightarrow> 't list \<Rightarrow> ('t, 'w) timer \<times> 'w \<Rightarrow> (('t, 'w) timer \<times> 'w) option" where
  "timer_updates pick tk [] tw = Some tw"
| "timer_updates pick tk (now # nows) tw =
     (case timer_update pick tk now tw of None \<Rightarrow> None | Some tw' \<Rightarrow> timer_updates pick tk nows tw')"

lemma timer_updates_starve:
  fixes tm :: "('t::linorder, 'w) timer"
  assumes law: "tick_law tk" "pq_law pick"
  shows "timer_ok tk tm \<Longrightarrow> k < length (tm_slots tm) \<Longrightarrow> hogs tm (ts_reqs (tm_slots tm ! k)) e \<Longrightarrow>
    \<exists>tm' w'. timer_updates pick tk nows (tm, w) = Some (tm', w') \<and>
      (\<forall>i \<in> set (ts_reqs (tm_slots tm ! k)). i \<noteq> e \<longrightarrow> tm_store tm' i = tm_store tm i)"
proof (induction nows arbitrary: tm w)
  case Nil
  then show ?case by simp
next
  case (Cons now nows)
  obtain tm1 w1 where one: "timer_update pick tk now (tm, w) = Some (tm1, w1)" "timer_ok tk tm1"
      "length (tm_slots tm1) = length (tm_slots tm)" "hogs tm1 (ts_reqs (tm_slots tm1 ! k)) e"
      "set (ts_reqs (tm_slots tm1 ! k)) = set (ts_reqs (tm_slots tm ! k))"
      "\<forall>i \<in> set (ts_reqs (tm_slots tm ! k)). i \<noteq> e \<longrightarrow> tm_store tm1 i = tm_store tm i"
    using hogs_slots [OF law Cons.prems, of "[0..<length (tm_slots tm)]" now w] by (auto simp: timer_update_def)
  obtain tm2 w2 where "timer_updates pick tk nows (tm1, w1) = Some (tm2, w2)"
      "\<forall>i \<in> set (ts_reqs (tm_slots tm1 ! k)). i \<noteq> e \<longrightarrow> tm_store tm2 i = tm_store tm1 i"
    using Cons.IH [OF one(2) _ one(4), of w1] Cons.prems(2) one(3) by auto
  then show ?case using one by (intro exI [of _ tm2] exI [of _ w2]) simp
qed

text \<open>
  C33. Of the repeating requests of a slot only one runs: as long as it is not cancelled, a repeating
  request due later than the others of its slot keeps every other one from running, through any
  number of updates at any times, however long the others have been due.
\<close>

theorem timer_starves:
  assumes "tick_law tk" "pq_law pick" "timer_reach pick tk tm" "k < length (tm_slots tm)"
    "hogs tm (ts_reqs (tm_slots tm ! k)) e"
  shows "\<exists>tm' w'. timer_updates pick tk nows (tm, w) = Some (tm', w') \<and>
    (\<forall>i \<in> set (ts_reqs (tm_slots tm ! k)). i \<noteq> e \<longrightarrow> rq_count (tm_store tm' i) = rq_count (tm_store tm i))"
proof -
  obtain tm' w' where "timer_updates pick tk nows (tm, w) = Some (tm', w')"
    "\<forall>i \<in> set (ts_reqs (tm_slots tm ! k)). i \<noteq> e \<longrightarrow> tm_store tm' i = tm_store tm i"
    using timer_updates_starve [OF assms(1,2) timer_reach_ok [OF assms(1-3)] assms(4,5)] by blast
  then show ?thesis by auto
qed

section \<open>Witnesses\<close>

text \<open>Whole numbers as ticks, and a queue that gives the first of the largest.\<close>

definition int_ticks :: "int ticks" where
  "int_ticks = \<lparr>tk_zero = 0, tk_min = 1, tk_add = (+), tk_half = (\<lambda>t. t div 2), tk_double = (\<lambda>t. 2 * t)\<rparr>"

definition pick_first :: "('t::linorder \<times> u32) list \<Rightarrow> u32" where
  "pick_first xs = (case filter (\<lambda>x. \<forall>y \<in> set xs. fst y \<le> fst x) xs of [] \<Rightarrow> 0 | x # _ \<Rightarrow> snd x)"

lemma int_ticks_simps [simp]:
  "tk_zero int_ticks = 0" "tk_min int_ticks = 1" "tk_add int_ticks a b = a + b" "tk_half int_ticks a = a div 2"
  "tk_double int_ticks a = 2 * a"
  by (simp_all add: int_ticks_def)

lemma double_power: "((\<lambda>t. 2 * t) ^^ n) (a :: int) = 2 ^ n * a"
  by (induction n arbitrary: a) (simp_all add: algebra_simps)

lemma int_tick_law: "tick_law int_ticks"
proof -
  have "t \<le> (2 :: int) ^ nat t" for t
  proof -
    have "t \<le> int (nat t)" by simp
    also have "\<dots> \<le> int (2 ^ nat t)" using less_exp [of "nat t"] by (simp only: of_nat_le_iff less_imp_le)
    also have "\<dots> = 2 ^ nat t" by simp
    finally show ?thesis .
  qed
  then show ?thesis by (auto simp: tick_law_def int_ticks_def double_power)
qed

lemma pick_first_law: "pq_law pick_first"
  unfolding pq_law_def
proof (intro allI impI)
  fix xs :: "('t::linorder \<times> u32) list"
  assume "xs \<noteq> []"
  then have "Max (fst ` set xs) \<in> fst ` set xs" by (intro Max_in) auto
  then obtain x where x: "x \<in> set xs" "fst x = Max (fst ` set xs)" by auto
  have "\<forall>y \<in> set xs. fst y \<le> fst x" unfolding x(2) by simp
  then have "x \<in> set (filter (\<lambda>x. \<forall>y \<in> set xs. fst y \<le> fst x) xs)" using x(1) by simp
  then obtain z zs where z: "filter (\<lambda>x. \<forall>y \<in> set xs. fst y \<le> fst x) xs = z # zs"
    by (cases "filter (\<lambda>x. \<forall>y \<in> set xs. fst y \<le> fst x) xs") auto
  then have "z \<in> set (filter (\<lambda>x. \<forall>y \<in> set xs. fst y \<le> fst x) xs)" by (simp only: list.set_intros)
  then have m: "z \<in> set xs" "\<forall>y \<in> set xs. fst y \<le> fst z" by simp_all
  have "pick_first xs = snd z" by (simp add: pick_first_def z)
  moreover have "(fst z, snd z) \<in> set xs" using m(1) by simp
  moreover have "\<forall>(t', i) \<in> set xs. t' \<le> fst z" using m(2) by auto
  ultimately show "\<exists>t. (t, pick_first xs) \<in> set xs \<and> (\<forall>(t', i) \<in> set xs. t' \<le> t)" by metis
qed

text \<open>
  Two repeating requests with intervals of 2 and 6 ticks, set at tick 0, share a slot. The
  second one has the later time.
\<close>

lemma two_timers:
  obtains tm :: "(int, nat list) timer" where "timer_reach pick_first int_ticks tm" "length (tm_slots tm) = 1"
    "ts_reqs (tm_slots tm ! 0) = [2, 1]" "hogs tm [2, 1] 2" "rq_count (tm_store tm 1) = 0" "rq_next (tm_store tm 2) = 6"
proof -
  let ?tm0 = "timer_new (\<lambda>i. undefined) :: (int, nat list) timer"
  obtain s1 s2 :: "u32 sequence" where s: "sequence_next (sequence_new 1 0xFFFFFFFF 16) = Inr (1, s1)" "sequence_next s1 = Inr (1 + 1, s2)"
    by (rule sequence_new_first_two [of "1 :: u32" "0xFFFFFFFF" "16"]) auto
  let ?r1 = "req_new int_ticks 0 2 0 0 True :: (int, nat list) req"
  let ?r2 = "req_new int_ticks 0 6 0 0 True :: (int, nat list) req"
  let ?tm1 = "\<lparr>tm_slots = [\<lparr>ts_interval = 1, ts_last = 0, ts_reqs = [1]\<rparr>], tm_reqs = {1},
      tm_store = (\<lambda>i. undefined)(1 := ?r1), tm_seq = s1\<rparr>"
  let ?tm2 = "\<lparr>tm_slots = [\<lparr>ts_interval = 1, ts_last = 0, ts_reqs = [2, 1]\<rparr>], tm_reqs = insert 2 {1},
      tm_store = (\<lambda>i. undefined)(1 := ?r1, 2 := ?r2), tm_seq = s2\<rparr>"
  have i1: "slot_interval int_ticks 1 1 1 = Some 1" by (simp add: slot_interval.simps)
  have i2: "slot_interval int_ticks 3 1 1 = Some 2" by (simp add: slot_interval.simps)
  have "timer_set int_ticks 0 2 0 True 0 ?tm0 = Some (Inr (1, ?tm1))"
    using i1 s(1) by (simp add: timer_set_def timer_new_def create_slot_def)
  then have r1: "timer_reach pick_first int_ticks ?tm1" by (rule timer_reach.set [OF timer_reach.new])
  have "timer_set int_ticks 0 6 0 True 0 ?tm1 = Some (Inr (2, ?tm2))"
    using i2 s(2) by (simp add: timer_set_def create_slot_def)
  then have r2: "timer_reach pick_first int_ticks ?tm2" by (rule timer_reach.set [OF r1])
  show thesis
    by (rule that [OF r2]) (simp_all add: hogs_def req_new_def)
qed

theorem timer_update_once_witness:
  "\<exists>(tm :: (int, nat list) timer) tm' w'. timer_update pick_first int_ticks 3 (tm, []) = Some (tm', w') \<and> rq_count (tm_store tm 1) = 0"
proof -
  obtain tm :: "(int, nat list) timer" where "timer_reach pick_first int_ticks tm" "rq_count (tm_store tm 1) = 0"
    by (rule two_timers)
  then show ?thesis using timer_update_once [OF int_tick_law pick_first_law, of tm 3 "[]"] by blast
qed

theorem timer_starves_witness:
  "\<exists>(tm :: (int, nat list) timer) tm' w'. timer_updates pick_first int_ticks [3, 5, 7, 9] (tm, []) = Some (tm', w') \<and>
     1 \<in> set (ts_reqs (tm_slots tm ! 0)) \<and> rq_next (tm_store tm 1) \<le> 6 \<and> rq_count (tm_store tm' 1) = 0"
proof -
  obtain tm :: "(int, nat list) timer" where tm: "timer_reach pick_first int_ticks tm" "length (tm_slots tm) = 1"
    "ts_reqs (tm_slots tm ! 0) = [2, 1]" "hogs tm [2, 1] 2" "rq_count (tm_store tm 1) = 0" "rq_next (tm_store tm 2) = 6"
    by (rule two_timers)
  have "hogs tm (ts_reqs (tm_slots tm ! 0)) 2" using tm(3,4) by simp
  then obtain tm' w' where "timer_updates pick_first int_ticks [3, 5, 7, 9] (tm, []) = Some (tm', w')"
    "\<forall>i \<in> set (ts_reqs (tm_slots tm ! 0)). i \<noteq> 2 \<longrightarrow> rq_count (tm_store tm' i) = rq_count (tm_store tm i)"
    using timer_starves [OF int_tick_law pick_first_law tm(1), of 0 2 "[3, 5, 7, 9]" "[]"] tm(2) by auto
  moreover have "1 \<in> set (ts_reqs (tm_slots tm ! 0))" "rq_next (tm_store tm 1) \<le> 6" using tm(3,4,6) by (simp_all add: hogs_def)
  ultimately show ?thesis using tm(5) by (intro exI [of _ tm] exI [of _ tm'] exI [of _ w']) simp
qed

text \<open>A slot with the same interval is not taken: every request at the shortest interval gets a slot of its own.\<close>

lemma create_slot_same:
  "tk_zero tk < iv \<Longrightarrow> create_slot tk iv [\<lparr>ts_interval = iv, ts_last = l, ts_reqs = q\<rparr>] =
     (1, [\<lparr>ts_interval = iv, ts_last = l, ts_reqs = q\<rparr>, \<lparr>ts_interval = iv, ts_last = tk_zero tk, ts_reqs = []\<rparr>])"
  by (simp add: create_slot_def)

end
