(* ===== verification/Dispatcher.thy ===== *)
theory Dispatcher
  imports Sub_Map
begin

text \<open>
  \<open>channel::dispatcher\<close> (\<open>include/lax/channel/dispatcher.hpp\<close>), the unlocked dispatcher one
  class uses for its own handlers: a map from topics to lists of subs, and what a sequence of
  subscriptions leaves in it.
\<close>

section \<open>The model\<close>

record ('a, 'w) dispatcher =
  d_subs :: "topic \<rightharpoonup> ('a, 'w) sub list"
  d_seq :: u32

definition dispatcher_new :: "('a, 'w) dispatcher" where
  "dispatcher_new = \<lparr>d_subs = Map.empty, d_seq = 1\<rparr>"

text \<open>\<open>std::unordered_map::emplace\<close> does nothing when the key is there.\<close>

definition emplace :: "('k \<rightharpoonup> 'v) \<Rightarrow> 'k \<Rightarrow> 'v \<Rightarrow> 'k \<rightharpoonup> 'v" where
  "emplace mp k v = (case mp k of None \<Rightarrow> mp(k \<mapsto> v) | Some _ \<Rightarrow> mp)"

definition dispatcher_subscribe ::
  "('a, 'w) dispatcher \<Rightarrow> topic \<Rightarrow> ('a message_scheme \<Rightarrow> 'w \<Rightarrow> 'w) \<Rightarrow> ('a, 'w) dispatcher" where
  "dispatcher_subscribe d topic cb =
     (let e = (case d_subs d topic of Some subs \<Rightarrow> subs | None \<Rightarrow> []);
          e' = e @ [sub_new (d_seq d) topic (\<lambda>m. True) cb Immediate]
      in d\<lparr>d_subs := emplace (d_subs d) topic e', d_seq := d_seq d + 1\<rparr>)"

definition dispatcher_post ::
  "('a, 'w) dispatcher \<Rightarrow> 'a message_scheme \<Rightarrow> 'w \<Rightarrow> nat \<times> ('a, 'w) dispatcher \<times> 'w" where
  "dispatcher_post d m w =
     (if \<not> is_valid (m_topic m) then (0, d, w)
      else case d_subs d (m_topic m) of
             None \<Rightarrow> (0, d, w)
           | Some subs \<Rightarrow>
               (case post_subs subs m w of
                  (n, subs', w') \<Rightarrow> (n, d\<lparr>d_subs := (d_subs d)(m_topic m \<mapsto> subs')\<rparr>, w')))"

definition dispatcher_clear :: "('a, 'w) dispatcher \<Rightarrow> ('a, 'w) dispatcher" where
  "dispatcher_clear d = d\<lparr>d_subs := Map.empty\<rparr>"

section \<open>What a sequence of subscriptions leaves\<close>

definition subscribe_list ::
  "(topic \<times> ('a message_scheme \<Rightarrow> 'w \<Rightarrow> 'w)) list \<Rightarrow> ('a, 'w) dispatcher \<Rightarrow> ('a, 'w) dispatcher" where
  "subscribe_list l d = fold (\<lambda>(t, cb) d. dispatcher_subscribe d t cb) l d"

lemma subscribe_list_cbs:
  "map_option (map (\<lambda>s. (s_topic s, s_cb s, s_cond s))) (d_subs (subscribe_list l d) t) =
     (case d_subs d t of
        Some subs \<Rightarrow> Some (map (\<lambda>s. (s_topic s, s_cb s, s_cond s)) subs)
      | None \<Rightarrow> map_option (\<lambda>cb. [(t, cb, \<lambda>m. True)]) (map_of l t))"
proof (induction l arbitrary: d)
  case Nil
  then show ?case by (simp add: subscribe_list_def split: option.split)
next
  case (Cons p l)
  obtain t' cb where p: "p = (t', cb)" by (cases p)
  have "subscribe_list (p # l) d = subscribe_list l (dispatcher_subscribe d t' cb)"
    by (simp add: subscribe_list_def p)
  then show ?case
    using Cons.IH [of "dispatcher_subscribe d t' cb"]
    by (auto simp: p dispatcher_subscribe_def emplace_def Let_def split: option.splits)
qed

section \<open>Properties\<close>

text \<open>
  Whatever was subscribed to a new dispatcher, a post calls the first handler subscribed
  to the topic of the message and no other: later subscriptions to the same topic and
  subscriptions to its group topic are never called.
\<close>

theorem dispatcher_calls_first_only:
  "(case dispatcher_post (subscribe_list l dispatcher_new) m w of (n, d, w') \<Rightarrow> (n, w')) =
     (if is_valid (m_topic m)
      then (case map_of l (m_topic m) of None \<Rightarrow> (0, w) | Some cb \<Rightarrow> (1, cb m w))
      else (0, w))"
proof (cases "is_valid (m_topic m)")
  case False
  then show ?thesis by (simp add: dispatcher_post_def)
next
  case True
  have cbs: "map_option (map (\<lambda>s. (s_topic s, s_cb s, s_cond s)))
      (d_subs (subscribe_list l dispatcher_new) (m_topic m)) =
    map_option (\<lambda>cb. [(m_topic m, cb, \<lambda>m. True)]) (map_of l (m_topic m))"
    using subscribe_list_cbs [of l dispatcher_new "m_topic m"] by (simp add: dispatcher_new_def)
  show ?thesis
  proof (cases "map_of l (m_topic m)")
    case None
    then show ?thesis using cbs by (simp add: dispatcher_post_def)
  next
    case (Some cb)
    then obtain s where "d_subs (subscribe_list l dispatcher_new) (m_topic m) = Some [s]"
      "s_topic s = m_topic m" "s_cb s = cb" "s_cond s = (\<lambda>m. True)"
      using cbs by auto
    then show ?thesis using True Some
      by (simp add: dispatcher_post_def post_subs_eq accepts_def)
  qed
qed

end
