(* ===== verification/Packet.thy ===== *)
theory Packet
  imports Sub_Map
begin

text \<open>
  Packets, the messages of the network layer (\<open>include/lax/net/packet.hpp\<close>), their topics
  (\<open>include/lax/net/protocol/topics.hpp\<close>) and the system messages
  (\<open>include/lax/net/protocol/sys/sys_messages.hpp\<close>).
\<close>

section \<open>Topics\<close>

text \<open>\<open>topics::groups\<close> and \<open>topics::types\<close>, enumerations that count from 0.\<close>

datatype topic_group = Sys | Bits | Groups_end

definition group_value :: "topic_group \<Rightarrow> u32" where
  "group_value g = (case g of Sys \<Rightarrow> 0 | Bits \<Rightarrow> 1 | Groups_end \<Rightarrow> 4)"

datatype sys_type = Accepted | Accept_failed | Connected_type | Connect_failed | Session_ready | Session_closed | Sys_keys_end

definition sys_type_value :: "sys_type \<Rightarrow> u32" where
  "sys_type_value t =
     (case t of Accepted \<Rightarrow> 0 | Accept_failed \<Rightarrow> 1 | Connected_type \<Rightarrow> 2 | Connect_failed \<Rightarrow> 3 | Session_ready \<Rightarrow> 4
      | Session_closed \<Rightarrow> 5 | Sys_keys_end \<Rightarrow> 6)"

text \<open>The macro \<open>MSG_TOPIC\<close>.\<close>

definition msg_topic_key :: "u32 \<Rightarrow> u32 \<Rightarrow> u32" where
  "msg_topic_key grp typ = (push_bit 16 grp AND 0xFFFF0000) OR (typ AND 0x0000FFFF)"

section \<open>Packets\<close>

record packet = message +
  pk_sid :: u32

definition packet_new :: "u32 \<Rightarrow> packet" where
  "packet_new key = \<lparr>m_topic = Topic key, pk_sid = 0\<rparr>"

text \<open>\<open>sys_accept_failed\<close>, \<open>sys_connect_failed\<close>, \<open>sys_session_ready\<close> and \<open>sys_session_closed\<close>.\<close>

definition sys_message :: "sys_type \<Rightarrow> packet" where
  "sys_message t = packet_new (msg_topic_key (group_value Sys) (sys_type_value t))"

section \<open>Who gets them\<close>

lemma msg_topic_key_topic: "Topic (msg_topic_key grp typ) = topic_of (ucast grp) (ucast typ)"
proof -
  have "msg_topic_key grp typ = push_bit 16 (ucast (ucast grp :: u16)) OR ucast (ucast typ :: u16)"
  proof -
    have m: "(0x0000FFFF :: u32) = mask 16" "(0xFFFF0000 :: u32) = push_bit 16 (mask 16)" by (simp_all add: mask_numeral)
    show ?thesis unfolding msg_topic_key_def m
      by (rule bit_word_eqI) (auto simp: bit_simps)
  qed
  then show ?thesis by (simp add: topic_of_def)
qed

lemma msg_topic_parts:
  "get_group (Topic (msg_topic_key grp typ)) = ucast grp" "get_type (Topic (msg_topic_key grp typ)) = ucast typ"
  by (simp_all add: msg_topic_key_topic)

text \<open>
  The group of the system messages is 0, so that its topic is the invalid topic: a subscription to
  the whole group gets none of them.
\<close>

lemma sys_group_invalid: "\<not> is_valid (get_group_topic (m_topic (sys_message t)))"
  by (simp add: sys_message_def packet_new_def get_group_topic_def msg_topic_parts group_value_def is_valid_def topic_of_def)

lemma sys_group_gets_nothing: "post_em em (sys_message t) w = post_on_topic em (m_topic (sys_message t)) (sys_message t) w"
  by (simp add: post_em_def post_on_topic_def [of _ "get_group_topic _"] sys_group_invalid split: prod.splits)

text \<open>Accepted, the first type of the group, is itself the invalid topic.\<close>

lemma accepted_invalid: "\<not> is_valid (m_topic (sys_message Accepted))"
  by (simp add: sys_message_def packet_new_def msg_topic_key_def group_value_def sys_type_value_def is_valid_def)

end
