(* ===== verification/Logger.thy ===== *)
theory Logger
  imports Lax_Prelude
begin

text \<open>
  \<open>util::log\<close> (\<open>include/lax/util/logger.hpp\<close>, \<open>src/util/logger.cpp\<close>): the logger every component
  gets by \<open>log::get()\<close>, created by the first call. Threads are numbers; \<open>get\<close> looks at
  \<open>initialized_\<close> without the lock, \<open>init\<close> works under it. What spdlog does is not modelled, only
  that \<open>spdlog::create\<close> registers the logger and \<open>spdlog::get\<close> gives null before.
\<close>

section \<open>The model\<close>

text \<open>Where a thread is; \<open>Got\<close> is the end of \<open>get\<close>, with a logger or with null.\<close>

datatype log_pc = Idle | At_init | In_init | At_create | At_get | Got bool

record log_state =
  initialized :: bool
  holder :: "nat option"       \<comment> \<open>who has \<open>mutex_\<close>\<close>
  created :: nat               \<comment> \<open>calls of \<open>spdlog::create\<close>\<close>
  log_pc :: "nat \<Rightarrow> log_pc"

definition log_new :: log_state where
  "log_new = \<lparr>initialized = False, holder = None, created = 0, log_pc = (\<lambda>_. Idle)\<rparr>"

definition move :: "nat \<Rightarrow> log_pc \<Rightarrow> log_state \<Rightarrow> log_state" where
  "move t p s = s\<lparr>log_pc := (log_pc s)(t := p)\<rparr>"

text \<open>The next step of a thread; none when it waits for the lock or has its result.\<close>

definition log_step :: "nat \<Rightarrow> log_state \<Rightarrow> log_state option" where
  "log_step t s =
     (case log_pc s t of
        Idle \<Rightarrow> Some (move t (if initialized s then At_get else At_init) s)
      | At_init \<Rightarrow> (if holder s = None then Some (move t In_init (s\<lparr>holder := Some t\<rparr>)) else None)
      | In_init \<Rightarrow>
          Some (if initialized s then move t At_get (s\<lparr>holder := None\<rparr>)
                else move t At_create (s\<lparr>initialized := True\<rparr>))
      | At_create \<Rightarrow> Some (move t At_get (s\<lparr>created := created s + 1, holder := None\<rparr>))
      | At_get \<Rightarrow> Some (move t (Got (created s > 0)) s)
      | Got b \<Rightarrow> None)"

fun log_run :: "nat list \<Rightarrow> log_state \<Rightarrow> log_state option" where
  "log_run [] s = Some s"
| "log_run (t # ts) s = (case log_step t s of None \<Rightarrow> None | Some s' \<Rightarrow> log_run ts s')"

section \<open>The invariant\<close>

definition locking :: "log_pc \<Rightarrow> bool" where
  "locking p \<longleftrightarrow> p = In_init \<or> p = At_create"

text \<open>Past the test of \<open>initialized_\<close>.\<close>

definition past :: "log_pc \<Rightarrow> bool" where
  "past p \<longleftrightarrow> p \<noteq> Idle \<and> p \<noteq> At_init \<and> p \<noteq> In_init"

lemma locking_simps [simp]:
  "\<not> locking Idle" "\<not> locking At_init" "locking In_init" "locking At_create" "\<not> locking At_get" "\<not> locking (Got b)"
  "\<not> past Idle" "\<not> past At_init" "\<not> past In_init" "past At_create" "past At_get" "past (Got b)"
  by (simp_all add: locking_def past_def)

definition log_inv :: "log_state \<Rightarrow> bool" where
  "log_inv s \<longleftrightarrow>
     (\<forall>t. locking (log_pc s t) = (holder s = Some t)) \<and>
     (\<forall>t. past (log_pc s t) \<longrightarrow> initialized s) \<and>
     (\<forall>t. log_pc s t = At_create \<longrightarrow> created s = 0) \<and> created s \<le> 1 \<and> (\<not> initialized s \<longrightarrow> created s = 0)"

lemma log_new_inv: "log_inv log_new"
  by (simp add: log_inv_def log_new_def)

text \<open>Moving one thread.\<close>

lemma log_move:
  assumes i: "log_inv s" and l: "\<And>u. u \<noteq> t \<Longrightarrow> locking (log_pc s u) = (h = Some u)" "locking p = (h = Some t)"
    and "past p \<Longrightarrow> b" "initialized s \<Longrightarrow> b" and "p = At_create \<Longrightarrow> c = 0"
    and c: "\<And>u. u \<noteq> t \<Longrightarrow> log_pc s u = At_create \<Longrightarrow> c = 0" "c \<le> 1" "\<not> b \<Longrightarrow> c = 0"
  shows "log_inv \<lparr>initialized = b, holder = h, created = c, log_pc = (log_pc s)(t := p)\<rparr>"
proof -
  have "past (log_pc s u) \<Longrightarrow> b" for u using i assms(5) unfolding log_inv_def by blast
  then show ?thesis using assms(2-9) by (simp add: log_inv_def) blast
qed

lemma log_step_inv:
  assumes i: "log_inv s" and st: "log_step t s = Some s'"
  shows "log_inv s'"
proof -
  have l: "locking (log_pc s u) = (holder s = Some u)" for u using i by (simp add: log_inv_def)
  have z: "log_pc s u = At_create \<Longrightarrow> created s = 0" for u using i unfolding log_inv_def by blast
  have past: "past (log_pc s u) \<Longrightarrow> initialized s" for u using i unfolding log_inv_def by blast
  have o: "created s \<le> 1" "\<not> initialized s \<Longrightarrow> created s = 0" using i by (simp_all add: log_inv_def)
  note mv = log_move [OF i, of t]
  show ?thesis
  proof (cases "log_pc s t")
    case Idle
    then have s': "s' = \<lparr>initialized = initialized s, holder = holder s, created = created s,
        log_pc = (log_pc s)(t := if initialized s then At_get else At_init)\<rparr>"
      using st by (cases s) (simp add: log_step_def move_def)
    show ?thesis unfolding s' by (rule mv) (use l l [of t] z o Idle in \<open>simp_all split: if_splits\<close>)
  next
    case At_init
    then have h: "holder s = None" using st by (simp add: log_step_def split: if_splits)
    have s': "s' = \<lparr>initialized = initialized s, holder = Some t, created = created s, log_pc = (log_pc s)(t := In_init)\<rparr>"
      using st At_init h by (cases s) (simp add: log_step_def move_def)
    show ?thesis unfolding s' by (rule mv) (use l z o h in simp_all)
  next
    case In_init
    then have h: "holder s = Some t" using l [of t] by simp
    have s': "s' = \<lparr>initialized = True, holder = (if initialized s then None else Some t), created = created s,
        log_pc = (log_pc s)(t := if initialized s then At_get else At_create)\<rparr>"
      using st In_init h by (cases s) (auto simp add: log_step_def move_def)
    show ?thesis unfolding s' by (rule mv) (use l z o h in \<open>simp_all split: if_splits\<close>)
  next
    case At_create
    then have h: "holder s = Some t" "created s = 0" "initialized s" using l [of t] z past [of t] by simp_all
    have s': "s' = \<lparr>initialized = True, holder = None, created = 1, log_pc = (log_pc s)(t := At_get)\<rparr>"
      using st At_create h by (cases s) (simp add: log_step_def move_def)
    have "log_pc s u \<noteq> At_create" if "u \<noteq> t" for u using l [of u] h(1) that by auto
    then show ?thesis unfolding s' by (intro mv) (use l h(1) in simp_all)
  next
    case At_get
    then have h: "initialized s" "holder s \<noteq> Some t" using past [of t] l [of t] by simp_all
    have s': "s' = \<lparr>initialized = initialized s, holder = holder s, created = created s, log_pc = (log_pc s)(t := Got (created s > 0))\<rparr>"
      using st At_get by (cases s) (simp add: log_step_def move_def)
    show ?thesis unfolding s' by (rule mv) (use l z o h in simp_all)
  next
    case (Got b)
    then show ?thesis using st by (simp add: log_step_def)
  qed
qed

lemma log_run_inv: "log_run ts s = Some s' \<Longrightarrow> log_inv s \<Longrightarrow> log_inv s'"
  by (induction ts arbitrary: s) (auto split: option.splits dest: log_step_inv)

section \<open>One logger, and one call that gets none\<close>

text \<open>However threads interleave, the logger is created at most once.\<close>

lemma log_created_once: "log_run ts log_new = Some s \<Longrightarrow> created s \<le> 1"
  using log_run_inv [OF _ log_new_inv, of ts s] by (simp add: log_inv_def)

text \<open>
  \<open>initialized_\<close> is set before the logger is created, so that a thread that comes between gets null,
  which every caller dereferences.
\<close>

lemma log_get_null: "\<exists>s. log_run [1, 1, 1, 2, 2] log_new = Some s \<and> log_pc s 2 = Got False"
  by (simp add: log_new_def log_step_def move_def)

end
