(* ===== verification/Buffer_Iterator.thy ===== *)
theory Buffer_Iterator
  imports Resize_Buffer
begin

text \<open>
  \<open>net::resize_buffer_iterator\<close> (\<open>include/lax/net/detail/buffer/resize_buffer_iterator.hpp\<close>), a
  pointer into the block of a \<open>resize_buffer\<close>, and the functions of the buffer that give one.

  A pointer is null or an offset in the block with some number. Two pointers into one block can
  be subtracted; reading through a pointer that is not into the block the buffer holds now is
  \<open>Out_of_bounds\<close>, so that an iterator kept over a reallocation faults.
\<close>

section \<open>Pointers and iterators\<close>

datatype elem_ptr = Null_ptr | Elem_ptr nat int

record iter = elem :: elem_ptr

definition iter_bool :: "iter \<Rightarrow> bool" where
  "iter_bool it \<longleftrightarrow> elem it \<noteq> Null_ptr"

definition iter_eq :: "iter \<Rightarrow> iter \<Rightarrow> bool" where
  "iter_eq it other \<longleftrightarrow> elem it = elem other"

definition iter_neq :: "iter \<Rightarrow> iter \<Rightarrow> bool" where
  "iter_neq it other \<longleftrightarrow> elem it \<noteq> elem other"

text \<open>Pointer arithmetic; on null only adding zero is defined.\<close>

fun ptr_add :: "elem_ptr \<Rightarrow> int \<Rightarrow> fault + elem_ptr" where
  "ptr_add Null_ptr n = (if n = 0 then Inr Null_ptr else Inl Out_of_bounds)"
| "ptr_add (Elem_ptr b i) n = Inr (Elem_ptr b (i + n))"

definition iter_add_assign :: "iter \<Rightarrow> int \<Rightarrow> fault + iter" where
  "iter_add_assign it movement = map_sum id (\<lambda>p. it\<lparr>elem := p\<rparr>) (ptr_add (elem it) movement)"

definition iter_sub_assign :: "iter \<Rightarrow> int \<Rightarrow> fault + iter" where
  "iter_sub_assign it movement = map_sum id (\<lambda>p. it\<lparr>elem := p\<rparr>) (ptr_add (elem it) (- movement))"

definition iter_inc :: "iter \<Rightarrow> fault + iter" where
  "iter_inc it = iter_add_assign it 1"

definition iter_dec :: "iter \<Rightarrow> fault + iter" where
  "iter_dec it = iter_sub_assign it 1"

text \<open>
  \<open>operator+\<close> and \<open>operator-\<close> move the iterator itself, copy it and put it back: the copy and
  the iterator.
\<close>

definition iter_plus :: "iter \<Rightarrow> int \<Rightarrow> fault + (iter \<times> iter)" where
  "iter_plus it movement =
     (let old_ptr = elem it
      in case ptr_add (elem it) movement of
           Inl f \<Rightarrow> Inl f
         | Inr p \<Rightarrow> (let temp = it\<lparr>elem := p\<rparr> in Inr (temp, temp\<lparr>elem := old_ptr\<rparr>)))"

definition iter_minus :: "iter \<Rightarrow> int \<Rightarrow> fault + (iter \<times> iter)" where
  "iter_minus it movement =
     (let old_ptr = elem it
      in case ptr_add (elem it) (- movement) of
           Inl f \<Rightarrow> Inl f
         | Inr p \<Rightarrow> (let temp = it\<lparr>elem := p\<rparr> in Inr (temp, temp\<lparr>elem := old_ptr\<rparr>)))"

text \<open>\<open>std::distance(iter, this)\<close>.\<close>

fun ptr_diff :: "elem_ptr \<Rightarrow> elem_ptr \<Rightarrow> fault + int" where
  "ptr_diff (Elem_ptr b i) (Elem_ptr c j) = (if b = c then Inr (i - j) else Inl Out_of_bounds)"
| "ptr_diff Null_ptr Null_ptr = Inr 0"
| "ptr_diff _ _ = Inl Out_of_bounds"

definition iter_distance :: "iter \<Rightarrow> iter \<Rightarrow> fault + int" where
  "iter_distance it other = ptr_diff (elem it) (elem other)"

text \<open>\<open>*it\<close>, read and written, while the buffer holds its block.\<close>

definition iter_read :: "rbuf \<Rightarrow> iter \<Rightarrow> fault + byte" where
  "iter_read rb it =
     (case (elem it, rb_buf rb) of
        (Elem_ptr c i, Some b) \<Rightarrow>
          (if c = b_id b \<and> 0 \<le> i \<and> nat i < b_capacity b then Inr (b_data b ! nat i) else Inl Out_of_bounds)
      | _ \<Rightarrow> Inl Out_of_bounds)"

definition iter_write :: "rbuf \<Rightarrow> iter \<Rightarrow> byte \<Rightarrow> fault + rbuf" where
  "iter_write rb it x =
     (case (elem it, rb_buf rb) of
        (Elem_ptr c i, Some b) \<Rightarrow>
          (if c = b_id b \<and> 0 \<le> i \<and> nat i < b_capacity b
           then Inr (rb\<lparr>rb_buf := Some (b\<lparr>b_data := (b_data b)[nat i := x]\<rparr>)\<rparr>) else Inl Out_of_bounds)
      | _ \<Rightarrow> Inl Out_of_bounds)"

section \<open>The iterators of a buffer\<close>

definition rb_begin :: "rbuf \<Rightarrow> iter" where
  "rb_begin rb = (case rb_buf rb of None \<Rightarrow> \<lparr>elem = Null_ptr\<rparr> | Some b \<Rightarrow> \<lparr>elem = Elem_ptr (b_id b) 0\<rparr>)"

definition rb_end :: "rbuf \<Rightarrow> iter" where
  "rb_end rb = (case rb_buf rb of None \<Rightarrow> \<lparr>elem = Null_ptr\<rparr> | Some b \<Rightarrow> \<lparr>elem = Elem_ptr (b_id b) (int (rb_pos rb))\<rparr>)"

text \<open>A loop \<open>for (; it != last; ++it)\<close> over the bytes, as the algorithms of the standard library run it.\<close>

partial_function (option) iter_loop :: "rbuf \<Rightarrow> iter \<Rightarrow> iter \<Rightarrow> byte list \<Rightarrow> (fault + byte list) option" where
  "iter_loop rb it stop_at acc =
     (if \<not> iter_neq it stop_at then Some (Inr acc)
      else (case iter_read rb it of
              Inl f \<Rightarrow> Some (Inl f)
            | Inr x \<Rightarrow> (case iter_inc it of Inl f \<Rightarrow> Some (Inl f) | Inr it' \<Rightarrow> iter_loop rb it' stop_at (acc @ [x]))))"

text \<open>\<open>std::copy\<close> of some bytes to an iterator.\<close>

fun iter_copy :: "rbuf \<Rightarrow> iter \<Rightarrow> byte list \<Rightarrow> fault + rbuf" where
  "iter_copy rb it [] = Inr rb"
| "iter_copy rb it (x # xs) =
     (case iter_write rb it x of
        Inl f \<Rightarrow> Inl f
      | Inr rb' \<Rightarrow> (case iter_inc it of Inl f \<Rightarrow> Inl f | Inr it' \<Rightarrow> iter_copy rb' it' xs))"

section \<open>Ranges\<close>

lemma iter_loop_ends:
  assumes "rb_inv rb" "rb_buf rb = Some b" "k \<le> rb_pos rb"
  shows "iter_loop rb \<lparr>elem = Elem_ptr (b_id b) (int k)\<rparr> (rb_end rb) acc = Some (Inr (acc @ drop k (rb_bytes rb)))"
  using assms(3)
proof (induction "rb_pos rb - k" arbitrary: k acc)
  case 0
  then show ?case using assms(2) by (subst iter_loop.simps) (simp add: iter_neq_def rb_end_def rb_bytes_def)
next
  case (Suc n)
  have cap: "rb_pos rb \<le> length (b_data b)"
    using assms(1,2) by (auto simp: rb_inv_def rb_inv_with_def rb_capacity_def b_capacity_def)
  have k: "k < rb_pos rb" using Suc.hyps(2) by simp
  then have "drop k (rb_bytes rb) = b_data b ! k # drop (Suc k) (rb_bytes rb)"
    using cap assms(2) Cons_nth_drop_Suc [of k "rb_bytes rb"] by (simp add: rb_bytes_def)
  moreover have "iter_loop rb \<lparr>elem = Elem_ptr (b_id b) (int (Suc k))\<rparr> (rb_end rb) (acc @ [b_data b ! k]) =
      Some (Inr ((acc @ [b_data b ! k]) @ drop (Suc k) (rb_bytes rb)))"
    using Suc k by (intro Suc.hyps(1)) simp_all
  ultimately show ?case using k cap assms(2)
    by (subst iter_loop.simps)
      (simp add: iter_neq_def rb_end_def iter_read_def iter_inc_def iter_add_assign_def b_capacity_def add.commute)
qed

lemma iter_copy_pokes:
  "rb_buf rb = Some b \<Longrightarrow> i + length xs \<le> b_capacity b \<Longrightarrow>
    iter_copy rb \<lparr>elem = Elem_ptr (b_id b) (int i)\<rparr> xs = rb_poke rb i xs"
proof (induction xs arbitrary: rb b i)
  case Nil
  then show ?case by (simp add: rb_poke_def)
next
  case (Cons x xs)
  let ?b = "b\<lparr>b_data := (b_data b)[i := x]\<rparr>" and ?rb = "rb\<lparr>rb_buf := Some (b\<lparr>b_data := (b_data b)[i := x]\<rparr>)\<rparr>"
  have "iter_copy ?rb \<lparr>elem = Elem_ptr (b_id ?b) (int (Suc i))\<rparr> xs = rb_poke ?rb (Suc i) xs"
    using Cons.prems by (intro Cons.IH) (simp_all add: b_capacity_def)
  moreover have "blit (Suc i) xs ((b_data b)[i := x]) = blit i (x # xs) (b_data b)"
    using Cons.prems(2) by (simp add: blit_def b_capacity_def take_Suc_conv_app_nth)
  ultimately show ?case using Cons.prems
    by (simp add: iter_write_def iter_inc_def iter_add_assign_def rb_poke_def b_capacity_def add.commute)
qed

lemma begin_plus:
  assumes "rb_inv rb" "i \<le> rb_size rb"
  shows "\<exists>it. iter_plus (rb_begin rb) (int i) = Inr (it, rb_begin rb) \<and> iter_distance it (rb_begin rb) = Inr (int i) \<and>
    (iter_eq it (rb_end rb) \<longleftrightarrow> i = rb_size rb) \<and> (i < rb_size rb \<longrightarrow> iter_read rb it = Inr (rb_bytes rb ! i))"
proof (cases "rb_buf rb")
  case None
  then have "i = 0" "rb_size rb = 0"
    using assms by (auto simp: rb_inv_def rb_inv_with_def rb_capacity_def rb_size_def)
  then show ?thesis using None
    by (simp add: iter_plus_def rb_begin_def rb_end_def iter_distance_def iter_eq_def)
next
  case (Some b)
  have cap: "rb_pos rb \<le> length (b_data b)"
    using assms(1) Some by (auto simp: rb_inv_def rb_inv_with_def rb_capacity_def b_capacity_def)
  show ?thesis using Some cap assms(2)
    by (auto simp: iter_plus_def rb_begin_def rb_end_def iter_distance_def iter_eq_def iter_read_def rb_size_def
      rb_bytes_def b_capacity_def)
qed

text \<open>Appending within the capacity keeps iterators valid; beyond it the old ones are into a block given back.\<close>

lemma append_keeps_iterators:
  assumes "rb_buf rb = Some b" "rb_pos rb + length xs \<le> b_capacity b" "rb_append rb xs = Inr rb'"
  shows "rb_begin rb' = rb_begin rb"
  using assms by (auto simp: rb_append_def rb_reserve_def rb_begin_def)

section \<open>Properties\<close>

text \<open>
  The iterators of a buffer are a range over its bytes: a loop from \<open>begin()\<close> to
  \<open>end()\<close> returns and reads exactly the bytes of the buffer, in order, without a fault; the distance
  of \<open>end()\<close> from \<open>begin()\<close> is \<open>size()\<close>; adding \<open>i\<close> leaves \<open>begin()\<close> as it was, gives
  what is \<open>i\<close> elements on, is \<open>end()\<close> for \<open>i = size()\<close> only, and otherwise reads byte \<open>i\<close>; and
  copying bytes to it writes these bytes at \<open>i\<close>. An empty buffer without a block is an empty
  range of null pointers.
\<close>

theorem iterators_range:
  assumes "rb_inv rb"
  shows "iter_loop rb (rb_begin rb) (rb_end rb) [] = Some (Inr (rb_bytes rb)) \<and>
    iter_distance (rb_end rb) (rb_begin rb) = Inr (int (rb_size rb)) \<and>
    (iter_bool (rb_begin rb) \<longleftrightarrow> rb_buf rb \<noteq> None) \<and>
    (i \<le> rb_size rb \<longrightarrow> (\<exists>it. iter_plus (rb_begin rb) (int i) = Inr (it, rb_begin rb) \<and>
      iter_distance it (rb_begin rb) = Inr (int i) \<and> (iter_eq it (rb_end rb) \<longleftrightarrow> i = rb_size rb) \<and>
      (i < rb_size rb \<longrightarrow> iter_read rb it = Inr (rb_bytes rb ! i)) \<and>
      (xs \<noteq> [] \<and> i + length xs \<le> rb_size rb \<longrightarrow> iter_copy rb it xs = rb_poke rb i xs)))"
proof (cases "rb_buf rb")
  case None
  then have z: "rb_pos rb = 0" using assms by (auto simp: rb_inv_def rb_inv_with_def rb_capacity_def)
  have "iter_loop rb (rb_begin rb) (rb_end rb) [] = Some (Inr (rb_bytes rb))"
    using None by (subst iter_loop.simps) (simp add: iter_neq_def rb_begin_def rb_end_def rb_bytes_def)
  then show ?thesis using None z begin_plus [OF assms, of i]
    by (auto simp: rb_begin_def rb_end_def iter_distance_def iter_bool_def rb_size_def)
next
  case (Some b)
  have loop: "iter_loop rb (rb_begin rb) (rb_end rb) [] = Some (Inr (rb_bytes rb))"
    using iter_loop_ends [OF assms Some, of 0 "[]"] Some by (simp add: rb_begin_def)
  have copy: "iter_copy rb it xs = rb_poke rb i xs"
    if "iter_plus (rb_begin rb) (int i) = Inr (it, rb_begin rb)" "i + length xs \<le> rb_size rb" for it
  proof -
    have "it = \<lparr>elem = Elem_ptr (b_id b) (int i)\<rparr>" using that(1) Some by (simp add: iter_plus_def rb_begin_def)
    moreover have "rb_pos rb \<le> b_capacity b" using assms Some by (auto simp: rb_inv_def rb_inv_with_def rb_capacity_def)
    ultimately show ?thesis using iter_copy_pokes [OF Some, of i xs] that(2) by (simp add: rb_size_def)
  qed
  have "iter_distance (rb_end rb) (rb_begin rb) = Inr (int (rb_size rb))" "iter_bool (rb_begin rb)"
    using Some by (simp_all add: rb_begin_def rb_end_def iter_distance_def iter_bool_def rb_size_def)
  then show ?thesis using loop Some begin_plus [OF assms, of i] copy by auto
qed

theorem iterators_range_witness:
  "\<exists>rb it. rb_append (rbuf_new (buffer_pool_new \<lparr>next_block = 0, junk = (\<lambda>_. 0)\<rparr>) 8192) [1, 2, 3] = Inr rb \<and>
    iter_loop rb (rb_begin rb) (rb_end rb) [] = Some (Inr [1, 2, 3]) \<and>
    iter_plus (rb_begin rb) 1 = Inr (it, rb_begin rb) \<and> iter_read rb it = Inr 2"
proof -
  obtain rb where rb: "rb_append (rbuf_new (buffer_pool_new \<lparr>next_block = 0, junk = (\<lambda>_. 0)\<rparr>) 8192) [1, 2, 3] = Inr rb"
    "rb_inv rb" "rb_bytes rb = [1, 2, 3]"
    using rbn.append_total [OF rbuf_new_inv, of "\<lparr>next_block = 0, junk = (\<lambda>_. 0)\<rparr>" 8192 "[1, 2, 3]"] by auto
  have "rb_size rb = 3" using rb(2,3) length_rb_bytes [of _ rb] by (fastforce simp: rb_inv_def rb_size_def)
  with iterators_range [OF rb(2), of 1 "[]"] rb show ?thesis by auto
qed

section \<open>Reallocation\<close>

text \<open>After an append that reallocates, iterators from before it read out of bounds.\<close>

lemma append_stale_iterators:
  assumes inv: "rb_inv_with held rb" and b: "rb_buf rb = Some b" and more: "b_capacity b < rb_pos rb + length xs"
    and ap: "rb_append rb xs = Inr rb'"
  shows "iter_read rb' (rb_begin rb) = Inl Out_of_bounds"
proof -
  have pool: "pool_inv (rb_pool rb) (held @ [b])" using inv b by (simp add: rb_inv_with_def)
  obtain nb p where al: "mp_alloc (rb_pool rb) (rb_pos rb + length xs) = (nb, p)" by force
  have "b_id nb \<noteq> b_id b" using pool_inv_distinct [OF alloc_inv [OF pool al]] by auto
  then show ?thesis using ap b more al
    by (auto simp: rb_append_def rb_reserve_def rb_begin_def iter_read_def split: if_splits)
qed

end
