(* ===== verification/Json_Value.thy ===== *)
theory Json_Value
  imports Lax_Prelude
begin

text \<open>
  JSON values and what lax uses of the JSON library it bundles
  (\<open>include/lax/util/json.hpp\<close>): \<open>operator[]\<close> and \<open>find\<close> with a key, \<open>get\<close> of a string, a Boolean or
  a number, and the range of a \<open>for\<close>. Numbers are whole. An object keeps its members sorted by key, as
  \<open>std::map\<close> does.
\<close>

section \<open>Results\<close>

definition bind :: "fault + 'a \<Rightarrow> ('a \<Rightarrow> fault + 'b) \<Rightarrow> fault + 'b" where
  "bind x f = (case x of Inl e \<Rightarrow> Inl e | Inr a \<Rightarrow> f a)"

lemma bind_Inr [simp]: "bind (Inr x) f = f x" and bind_Inl [simp]: "bind (Inl e) f = Inl e"
  by (simp_all add: bind_def)

lemma bind_split: "(bind x f = Inr b) = (\<exists>a. x = Inr a \<and> f a = Inr b)"
  by (cases x) simp_all

section \<open>Values\<close>

datatype jval = J_null | J_bool bool | J_num int | J_str string | J_arr "jval list" | J_obj "(string \<times> jval) list"

text \<open>\<open>std::less<std::string>\<close>.\<close>

fun key_less :: "string \<Rightarrow> string \<Rightarrow> bool" where
  "key_less _ [] = False"
| "key_less [] (d # ds) = True"
| "key_less (c # cs) (d # ds) =
     ((of_char c :: nat) < of_char d \<or> c = d \<and> key_less cs ds)"

text \<open>\<open>object->operator[](key)\<close>: the members with one of that key.\<close>

fun member_at :: "string \<Rightarrow> (string \<times> jval) list \<Rightarrow> (string \<times> jval) list" where
  "member_at key [] = [(key, J_null)]"
| "member_at key ((k, v) # ms) =
     (if k = key then (k, v) # ms else if key_less key k then (key, J_null) # (k, v) # ms else (k, v) # member_at key ms)"

text \<open>\<open>operator[]\<close>: the member and the value afterwards. Null becomes an object, a key that is missing a member.\<close>

definition j_ref :: "jval \<Rightarrow> string \<Rightarrow> fault + (jval \<times> jval)" where
  "j_ref j key =
     (let member = (\<lambda>ms. Inr (case map_of (member_at key ms) key of Some v \<Rightarrow> v | None \<Rightarrow> J_null, J_obj (member_at key ms)))
      in case j of J_null \<Rightarrow> member [] | J_obj ms \<Rightarrow> member ms | _ \<Rightarrow> Inl (Thrown ''type_error''))"

text \<open>The member alone, where the value itself is not looked at again.\<close>

definition j_at :: "jval \<Rightarrow> string \<Rightarrow> fault + jval" where
  "j_at j key = map_sum id fst (j_ref j key)"

definition j_find :: "jval \<Rightarrow> string \<Rightarrow> jval option" where
  "j_find j key = (case j of J_obj ms \<Rightarrow> map_of ms key | _ \<Rightarrow> None)"

text \<open>\<open>get\<close> of an integer type of 32 bits: Booleans are accepted, the value is cast.\<close>

definition j_word :: "jval \<Rightarrow> fault + u32" where
  "j_word j =
     (case j of
        J_num n \<Rightarrow> Inr (word_of_int n)
      | J_bool b \<Rightarrow> Inr (if b then 1 else 0)
      | _ \<Rightarrow> Inl (Thrown ''type_error''))"

text \<open>\<open>get<float>\<close>.\<close>

definition j_float :: "jval \<Rightarrow> fault + int" where
  "j_float j =
     (case j of
        J_num n \<Rightarrow> Inr n
      | J_bool b \<Rightarrow> Inr (if b then 1 else 0)
      | _ \<Rightarrow> Inl (Thrown ''type_error''))"

definition j_bool :: "jval \<Rightarrow> fault + bool" where
  "j_bool j = (case j of J_bool b \<Rightarrow> Inr b | _ \<Rightarrow> Inl (Thrown ''type_error''))"

definition j_str :: "jval \<Rightarrow> fault + string" where
  "j_str j = (case j of J_str s \<Rightarrow> Inr s | _ \<Rightarrow> Inl (Thrown ''type_error''))"

text \<open>What a range \<open>for\<close> runs through: null is empty, a value that is no container is its own only element.\<close>

definition j_items :: "jval \<Rightarrow> jval list" where
  "j_items j = (case j of J_null \<Rightarrow> [] | J_arr vs \<Rightarrow> vs | J_obj ms \<Rightarrow> map snd ms | v \<Rightarrow> [v])"

section \<open>Members\<close>

text \<open>The members are strictly sorted, as those of a \<open>std::map\<close> are.\<close>

definition members_ok :: "(string \<times> jval) list \<Rightarrow> bool" where
  "members_ok ms \<longleftrightarrow> sorted_wrt key_less (map fst ms)"

lemma key_less_irrefl [simp]: "\<not> key_less k k"
  by (induction k) simp_all

lemma key_less_trans: "key_less a b \<Longrightarrow> key_less b c \<Longrightarrow> key_less a c"
proof (induction a b arbitrary: c rule: key_less.induct)
  case (2 d ds)
  then show ?case by (cases c) simp_all
next
  case (3 x xs y ys)
  then obtain z zs where c: "c = z # zs" by (cases c) simp_all
  show ?case using 3 by (auto simp: c)
qed simp

lemma key_less_total: "k = l \<or> key_less k l \<or> key_less l k"
proof (induction k arbitrary: l)
  case Nil
  then show ?case by (cases l) simp_all
next
  case (Cons c cs)
  show ?case
  proof (cases l)
    case (Cons d ds)
    have "c = d \<or> (of_char c :: nat) < of_char d \<or> (of_char d :: nat) < of_char c"
      using of_char_eq_iff [where ?'a = nat] by (metis nat_neq_iff)
    then show ?thesis using Cons.IH [of ds] Cons by auto
  qed simp
qed

lemma set_member_at: "set (member_at key ms) \<subseteq> insert (key, J_null) (set ms)"
  by (induction key ms rule: member_at.induct) auto

lemma keys_member_at: "set (map fst (member_at key ms)) = insert key (set (map fst ms))"
  by (induction key ms rule: member_at.induct) auto

lemma member_at_ok: "members_ok ms \<Longrightarrow> members_ok (member_at key ms)"
proof (induction key ms rule: member_at.induct)
  case (2 key k v ms)
  have k: "\<forall>l \<in> fst ` set ms. key_less k l" "members_ok ms" using "2.prems" by (auto simp: members_ok_def)
  show ?case
  proof (cases "k = key \<or> key_less key k")
    case True
    then show ?thesis using "2.prems" k by (auto simp: members_ok_def intro: key_less_trans)
  next
    case False
    then have "key_less k key" using key_less_total by blast
    then show ?thesis using "2.IH" False k keys_member_at [of key ms]
      by (auto simp: members_ok_def simp flip: set_map)
  qed
qed (simp add: members_ok_def)

text \<open>A lookup by \<open>operator[]\<close> finds what \<open>find\<close> finds, null for a key that is missing, and leaves other keys.\<close>

lemma map_of_member_at:
  "members_ok ms \<Longrightarrow> map_of (member_at key ms) =
    (map_of ms)(key := Some (case map_of ms key of Some v \<Rightarrow> v | None \<Rightarrow> J_null))"
proof (induction key ms rule: member_at.induct)
  case (2 key k v ms)
  have k: "\<forall>l \<in> fst ` set ms. key_less k l" "members_ok ms" using "2.prems" by (auto simp: members_ok_def)
  show ?case
  proof (cases "key_less key k \<and> k \<noteq> key")
    case True
    then have "key \<notin> fst ` set ms" using k(1) key_less_trans key_less_irrefl by metis
    then have "map_of ms key = None" by (simp add: map_of_eq_None_iff)
    then show ?thesis using True by (auto simp: fun_eq_iff)
  next
    case False
    then show ?thesis using "2.IH" k(2) by (auto simp: fun_eq_iff)
  qed
qed auto

lemma j_ref_obj:
  "members_ok ms \<Longrightarrow> j_ref (J_obj ms) key =
    Inr (case map_of ms key of Some v \<Rightarrow> v | None \<Rightarrow> J_null, J_obj (member_at key ms))"
  by (simp add: j_ref_def Let_def map_of_member_at)

end
