(* ===== verification/Idl_Parser.thy ===== *)
theory Idl_Parser
  imports Json_Value
begin

text \<open>
  The parser of the interface compiler \<open>bitsc\<close> (\<open>tools/bitsc/idl/\<close>): it goes through the members of
  a JSON document and makes a type object of each. Two functions leave without a \<open>return\<close>, which
  is \<open>No_return\<close>; an exception of the JSON library is \<open>Json_error\<close>. Values, fields and the
  generators do nothing yet and succeed.
\<close>

section \<open>Results and types\<close>

datatype idl_error = Success | Fail_object_type_not_found | Fail_object_type_invalid
  | Fail_object_name_not_found | Fail_object_type_not_supported

record idl_result =
  ir_token :: string
  ir_desc :: string
  ir_rc :: idl_error

datatype idl_fault = No_return | Json_error

text \<open>\<open>type_object\<close> with its class.\<close>

datatype idl_class = Enum_type | Struct_type | Message_type

record type_object =
  ty_class :: idl_class
  ty_name :: string
  ty_type_name :: string

text \<open>\<open>idl_unit\<close> and the parser; a unit is in the list of units, pointers to one are its place there.\<close>

record idl_unit =
  un_input_file :: string
  un_types :: "string \<Rightarrow> type_object option"

record idl_parser =
  units :: "idl_unit list"
  main_unit :: "nat option"
  current_unit :: "nat option"
  current_type :: "type_object option"

definition idl_parser_new :: idl_parser where
  "idl_parser_new = \<lparr>units = [], main_unit = None, current_unit = None, current_type = None\<rparr>"

definition idl_ok :: "idl_result \<Rightarrow> bool" where
  "idl_ok r \<longleftrightarrow> ir_rc r = Success"

definition no_result :: idl_result where
  "no_result = \<lparr>ir_token = [], ir_desc = [], ir_rc = Success\<rparr>"

section \<open>Parsing\<close>

text \<open>
  \<open>complete_current_type\<close>: a type is entered in the table of the current unit, and then the function
  ends without a result.
\<close>

definition complete_current_type :: "idl_parser \<Rightarrow> (idl_fault + bool) \<times> idl_parser" where
  "complete_current_type ps =
     (case current_type ps of
        None \<Rightarrow> (Inr False, ps)
      | Some ty \<Rightarrow>
          (case current_unit ps of
             None \<Rightarrow> (Inr False, ps)
           | Some u \<Rightarrow>
               (if un_types (units ps ! u) (ty_name ty) \<noteq> None then (Inr False, ps)
                else (Inl No_return,
                  ps\<lparr>units := (units ps)[u := (units ps ! u)\<lparr>un_types := (un_types (units ps ! u))(ty_name ty \<mapsto> ty)\<rparr>]\<rparr>))))"

definition create_current_type :: "string \<Rightarrow> string \<Rightarrow> idl_parser \<Rightarrow> bool \<times> idl_parser" where
  "create_current_type type name ps =
     (let create = (\<lambda>c. (True, ps\<lparr>current_type := Some \<lparr>ty_class = c, ty_name = name, ty_type_name = type\<rparr>\<rparr>))
      in if type = ''enum'' then create Enum_type
         else if type = ''struct'' then create Struct_type
         else if type = ''message'' then create Message_type
         else (False, ps))"

text \<open>\<open>values::parse\<close> and \<open>fields::parse\<close>, and the virtual \<open>type_object::parse\<close>.\<close>

definition values_parse :: "jval \<Rightarrow> idl_result" where
  "values_parse js = no_result"

definition fields_parse :: "jval \<Rightarrow> idl_result" where
  "fields_parse js = no_result"

definition enum_parse :: "jval \<Rightarrow> idl_parser \<Rightarrow> (idl_fault + idl_result) \<times> idl_parser" where
  "enum_parse js ps =
     (let rc = values_parse js
      in if \<not> idl_ok rc then (Inr rc, ps) else (Inl No_return, snd (complete_current_type ps)))"

definition type_parse :: "type_object \<Rightarrow> jval \<Rightarrow> idl_parser \<Rightarrow> (idl_fault + idl_result) \<times> idl_parser" where
  "type_parse ty js ps =
     (case ty_class ty of
        Enum_type \<Rightarrow> enum_parse js ps
      | Struct_type \<Rightarrow> (Inr (fields_parse js), ps)
      | Message_type \<Rightarrow> (Inr (fields_parse js), ps))"

definition parse_type_object :: "string \<Rightarrow> jval \<Rightarrow> idl_parser \<Rightarrow> (idl_fault + idl_result) \<times> idl_parser" where
  "parse_type_object key js ps =
     (case j_find js ''type'' of
        None \<Rightarrow> (Inr \<lparr>ir_token = key, ir_desc = ''fail: type is not found'', ir_rc = Fail_object_type_not_found\<rparr>, ps)
      | Some jt \<Rightarrow>
          (case j_str jt of
             Inl _ \<Rightarrow> (Inl Json_error, ps)
           | Inr type_name \<Rightarrow>
               (case j_find js ''name'' of
                  None \<Rightarrow> (Inr \<lparr>ir_token = key, ir_desc = ''fail: object name not found'', ir_rc = Fail_object_name_not_found\<rparr>, ps)
                | Some jn \<Rightarrow>
                    (case j_str jn of
                       Inl _ \<Rightarrow> (Inl Json_error, ps)
                     | Inr name \<Rightarrow>
                         (case create_current_type type_name name ps of
                            (False, ps1) \<Rightarrow>
                              (Inr \<lparr>ir_token = name, ir_desc = ''fail: object type not supported'',
                                    ir_rc = Fail_object_type_not_supported\<rparr>, ps1)
                          | (True, ps1) \<Rightarrow>
                              (case current_type ps1 of
                                 Some ty \<Rightarrow> type_parse ty js ps1
                               | None \<Rightarrow> (Inl No_return, ps1)))))))"

text \<open>
  \<open>test_parse\<close> for the document in a file that was opened and read: a new unit, and every member in
  turn; the results are dropped. \<open>it.key()\<close> throws for what is not an object.
\<close>

fun parse_members :: "(string \<times> jval) list \<Rightarrow> idl_parser \<Rightarrow> (idl_fault + unit) \<times> idl_parser" where
  "parse_members [] ps = (Inr (), ps)"
| "parse_members ((key, js) # ms) ps =
     (case parse_type_object key js ps of
        (Inl f, ps1) \<Rightarrow> (Inl f, ps1)
      | (Inr _, ps1) \<Rightarrow> parse_members ms ps1)"

definition test_parse :: "string \<Rightarrow> jval \<Rightarrow> idl_parser \<Rightarrow> (idl_fault + unit) \<times> idl_parser" where
  "test_parse file js ps =
     (let u = length (units ps);
          ps1 = ps\<lparr>units := units ps @ [\<lparr>un_input_file = file, un_types = Map.empty\<rparr>],
                   main_unit := Some u, current_unit := Some u\<rparr>
      in case js of
           J_obj ms \<Rightarrow> parse_members ms ps1
         | _ \<Rightarrow> (if j_items js = [] then (Inr (), ps1) else (Inl Json_error, ps1)))"

section \<open>What is parsed\<close>

text \<open>A description the code takes: its type is known and its name is there.\<close>

definition describes :: "jval \<Rightarrow> idl_class \<Rightarrow> string \<Rightarrow> bool" where
  "describes js c name \<longleftrightarrow>
     j_find js ''name'' = Some (J_str name) \<and>
     j_find js ''type'' = Some (J_str (case c of Enum_type \<Rightarrow> ''enum'' | Struct_type \<Rightarrow> ''struct'' | Message_type \<Rightarrow> ''message''))"

lemmas idl_defs = parse_type_object_def create_current_type_def type_parse_def enum_parse_def complete_current_type_def
  values_parse_def fields_parse_def no_result_def idl_ok_def j_str_def Let_def

lemma parse_struct:
  "describes js c name \<Longrightarrow> c \<noteq> Enum_type \<Longrightarrow>
    parse_type_object key js ps =
      (Inr no_result, ps\<lparr>current_type := Some \<lparr>ty_class = c, ty_name = name,
         ty_type_name = (if c = Struct_type then ''struct'' else ''message'')\<rparr>\<rparr>)"
  by (cases c) (simp_all add: describes_def idl_defs)

lemma parse_enum: "describes js Enum_type name \<Longrightarrow> fst (parse_type_object key js ps) = Inl No_return"
  by (simp add: describes_def idl_defs)

lemma parse_returns:
  assumes "parse_type_object key js ps = (Inr r, ps')"
  shows "units ps' = units ps \<and> current_unit ps' = current_unit ps \<and> main_unit ps' = main_unit ps"
  using assms by (auto simp: idl_defs split: option.splits jval.splits if_splits prod.splits)

lemma members_keep_units:
  "parse_members ms ps = (Inr (), ps') \<Longrightarrow> units ps' = units ps \<and> main_unit ps' = main_unit ps"
proof (induction ms arbitrary: ps)
  case (Cons m ms)
  obtain key js where m: "m = (key, js)" by force
  then obtain r ps1 where "parse_type_object key js ps = (Inr r, ps1)" "parse_members ms ps1 = (Inr (), ps')"
    using Cons.prems by (auto split: prod.splits sum.splits)
  then show ?case using Cons.IH parse_returns by metis
qed simp

text \<open>Whether \<open>parse_type_object\<close> comes back with a result.\<close>

definition returns :: "jval \<Rightarrow> bool" where
  "returns js \<longleftrightarrow>
     (case j_find js ''type'' of
        None \<Rightarrow> True
      | Some (J_str t) \<Rightarrow>
          (case j_find js ''name'' of None \<Rightarrow> True | Some (J_str n) \<Rightarrow> t \<noteq> ''enum'' | Some _ \<Rightarrow> False)
      | Some _ \<Rightarrow> False)"

lemma parse_returns_iff: "(\<exists>r ps'. parse_type_object key js ps = (Inr r, ps')) \<longleftrightarrow> returns js"
  by (auto simp: returns_def idl_defs split: option.splits jval.splits if_splits)

lemma parse_members_iff: "fst (parse_members ms ps) = Inr () \<longleftrightarrow> (\<forall>m \<in> set ms. returns (snd m))"
proof (induction ms arbitrary: ps)
  case (Cons m ms)
  obtain key js where m: "m = (key, js)" by force
  obtain o1 ps1 where p: "parse_type_object key js ps = (o1, ps1)" by force
  then show ?case using Cons.IH [of ps1] parse_returns_iff [of key js ps] by (cases o1) (auto simp: m)
qed simp

lemma enum_registered:
  assumes "describes js Enum_type name" "current_unit ps = Some u" "u < length (units ps)"
  shows "un_types (units (snd (parse_type_object key js ps)) ! u) name \<noteq> None"
  using assms by (auto simp: describes_def idl_defs)

section \<open>Properties\<close>



end
