(* ===== verification/Actor.thy ===== *)
theory Actor
  imports Id_Sequence Channel
begin

text \<open>
  Actors and their components (\<open>include/lax/actor/\<close>, \<open>src/actor/\<close>): objects that carry
  the list of their types, the container that finds them by type, the life cycle of a component
  and of an actor.

  \<open>std::type_info\<close> is the type \<open>'t\<close>; the classes of the program are a parameter: \<open>derives c t\<close>
  says that the class \<open>c\<close> is \<open>t\<close> or derived from it. Pointers are addresses in a store. The
  virtual functions a program overrides are arguments.
\<close>

section \<open>type\_object\<close>

record 't tobject =
  to_class :: 't                \<comment> \<open>the class it was constructed as\<close>
  to_types :: "'t list"         \<comment> \<open>\<open>types_\<close>\<close>

definition push_type :: "'t \<Rightarrow> 't tobject \<Rightarrow> 't tobject" where
  "push_type t ob = ob\<lparr>to_types := to_types ob @ [t]\<rparr>"

definition is_a :: "'t \<Rightarrow> 't tobject \<Rightarrow> bool" where
  "is_a t ob \<longleftrightarrow> t \<in> set (to_types ob)"

text \<open>
  The constructors along a chain of classes, from the base to the class itself: each pushes its
  own type (\<open>component::component\<close>, \<open>actor::actor\<close> and those of the program).
\<close>

definition construct :: "'t \<Rightarrow> 't list \<Rightarrow> 't tobject" where
  "construct c chain = fold push_type chain \<lparr>to_class = c, to_types = []\<rparr>"

text \<open>An object does not name a type its class does not have.\<close>

definition honest :: "('t \<Rightarrow> 't \<Rightarrow> bool) \<Rightarrow> 't tobject \<Rightarrow> bool" where
  "honest derives ob \<longleftrightarrow> (\<forall>t \<in> set (to_types ob). derives (to_class ob) t)"

section \<open>type\_object\_container\<close>

type_synonym addr = nat

type_synonym 't type_map = "'t \<Rightarrow> addr list option"

definition add_type :: "'t \<Rightarrow> addr \<Rightarrow> 't type_map \<Rightarrow> 't type_map" where
  "add_type t p m = (case m t of Some ps \<Rightarrow> m(t \<mapsto> ps @ [p]) | None \<Rightarrow> m(t \<mapsto> [p]))"

text \<open>\<open>add<Type>\<close>: a null pointer and an object without the type \<open>Base\<close> are refused.\<close>

definition container_add ::
  "'t \<Rightarrow> (addr \<Rightarrow> 't tobject) \<Rightarrow> addr option \<Rightarrow> 't type_map \<Rightarrow> fault + 't type_map" where
  "container_add base store ptr m =
     (case ptr of
        None \<Rightarrow> Inl (Thrown ''Type must be derived from Base class!'')
      | Some p \<Rightarrow>
          (if \<not> is_a base (store p) then Inl (Thrown ''Type must be derived from Base class! 2nd check.'')
           else Inr (fold (\<lambda>t m. add_type t p m) (to_types (store p)) m)))"

definition container_types_of :: "'t \<Rightarrow> 't type_map \<Rightarrow> addr list" where
  "container_types_of t m = (case m t of None \<Rightarrow> [] | Some ps \<Rightarrow> ps)"

text \<open>\<open>get_type\<close> takes the first; a vector in the map is never empty.\<close>

definition container_get_type :: "'t \<Rightarrow> 't type_map \<Rightarrow> fault + addr option" where
  "container_get_type t m =
     (case m t of None \<Rightarrow> Inr None | Some ps \<Rightarrow> (if ps = [] then Inl Out_of_bounds else Inr (Some (ps ! 0))))"

definition container_has :: "'t \<Rightarrow> 't type_map \<Rightarrow> fault + bool" where
  "container_has t m = (case container_get_type t m of Inl f \<Rightarrow> Inl f | Inr p \<Rightarrow> Inr (p \<noteq> None))"

definition container_size :: "'t \<Rightarrow> 't type_map \<Rightarrow> nat" where
  "container_size t m = length (container_types_of t m)"

text \<open>\<open>apply<Type>\<close>: the function works on the state \<open>'s\<close>; the number of times it returned true.\<close>

fun apply_loop :: "(addr \<Rightarrow> 's \<Rightarrow> bool \<times> 's) \<Rightarrow> addr list \<Rightarrow> nat \<Rightarrow> 's \<Rightarrow> nat \<times> 's" where
  "apply_loop func [] count s = (count, s)"
| "apply_loop func (p # ps) count s =
     (case func p s of (b, s') \<Rightarrow> apply_loop func ps (if b then count + 1 else count) s')"

definition container_apply :: "'t \<Rightarrow> (addr \<Rightarrow> 's \<Rightarrow> bool \<times> 's) \<Rightarrow> 't type_map \<Rightarrow> 's \<Rightarrow> nat \<times> 's" where
  "container_apply t func m s = (case m t of None \<Rightarrow> (0, s) | Some ps \<Rightarrow> apply_loop func ps 0 s)"

section \<open>component\<close>

text \<open>What a program overrides: on an address and the world.\<close>

record 'w overrides =
  do_start :: "addr \<Rightarrow> 'w \<Rightarrow> bool \<times> 'w"
  do_execute :: "addr \<Rightarrow> 'w \<Rightarrow> 'w"
  do_finish :: "addr \<Rightarrow> 'w \<Rightarrow> 'w"

text \<open>The flags \<open>started_\<close> of the components, by address.\<close>

definition component_start :: "'w overrides \<Rightarrow> addr \<Rightarrow> (addr \<Rightarrow> bool) \<times> 'w \<Rightarrow> bool \<times> (addr \<Rightarrow> bool) \<times> 'w" where
  "component_start ov p st =
     (case do_start ov p (snd st) of (b, w) \<Rightarrow> (b, (fst st)(p := b), w))"

definition component_execute :: "'w overrides \<Rightarrow> addr \<Rightarrow> (addr \<Rightarrow> bool) \<times> 'w \<Rightarrow> (addr \<Rightarrow> bool) \<times> 'w" where
  "component_execute ov p st = (fst st, do_execute ov p (snd st))"

definition component_finish :: "'w overrides \<Rightarrow> addr \<Rightarrow> (addr \<Rightarrow> bool) \<times> 'w \<Rightarrow> (addr \<Rightarrow> bool) \<times> 'w" where
  "component_finish ov p st = ((fst st)(p := False), do_finish ov p (snd st))"

section \<open>actor\<close>

datatype actor_state = Constructed | Started | Finished

record 't actor =
  ac_id :: u32
  ac_state :: actor_state
  ac_comps :: "'t type_map"

record 'w actor_overrides =
  on_start :: "'w \<Rightarrow> bool \<times> 'w"
  on_execute :: "'w \<Rightarrow> 'w"
  on_finish :: "'w \<Rightarrow> 'w"

text \<open>The overrides of the class \<open>actor\<close> itself, those in force in its destructor.\<close>

definition no_overrides :: "'w actor_overrides" where
  "no_overrides = \<lparr>on_start = Pair True, on_execute = id, on_finish = id\<rparr>"

definition actor_new :: "u32 sequence \<Rightarrow> fault + ('t actor \<times> u32 sequence)" where
  "actor_new sq =
     (case sequence_next sq of
        Inl f \<Rightarrow> Inl f
      | Inr (i, sq') \<Rightarrow> Inr (\<lparr>ac_id = i, ac_state = Constructed, ac_comps = Map.empty\<rparr>, sq'))"

definition add_component ::
  "'t \<Rightarrow> (addr \<Rightarrow> 't tobject) \<Rightarrow> addr \<Rightarrow> 't actor \<Rightarrow> fault + 't actor" where
  "add_component base store p a = map_sum id (\<lambda>m. a\<lparr>ac_comps := m\<rparr>) (container_add base store (Some p) (ac_comps a))"

definition actor_start ::
  "'t \<Rightarrow> 'w actor_overrides \<Rightarrow> 'w overrides \<Rightarrow> 't actor \<times> (addr \<Rightarrow> bool) \<times> 'w \<Rightarrow> bool \<times> 't actor \<times> (addr \<Rightarrow> bool) \<times> 'w" where
  "actor_start base ov cov st =
     (case st of
        (a, flags, w) \<Rightarrow>
          (case on_start ov w of
             (rc, w1) \<Rightarrow>
               (if \<not> rc then (False, a, flags, w1)
                else (case container_apply base (component_start cov) (ac_comps a) (flags, w1) of
                        (n, flags', w2) \<Rightarrow> (True, a\<lparr>ac_state := Started\<rparr>, flags', w2)))))"

definition actor_execute :: "'w actor_overrides \<Rightarrow> 't actor \<times> 'w \<Rightarrow> 't actor \<times> 'w" where
  "actor_execute ov st = (fst st, on_execute ov (snd st))"

definition actor_finish :: "'w actor_overrides \<Rightarrow> 't actor \<times> 'w \<Rightarrow> 't actor \<times> 'w" where
  "actor_finish ov st =
     (case st of
        (a, w) \<Rightarrow>
          (if ac_state a = Constructed then st
           else if ac_state a = Finished then st
           else (a\<lparr>ac_state := Finished\<rparr>, on_finish ov w)))"

text \<open>The destructor: the overrides of the derived classes are gone.\<close>

definition actor_destroy :: "'t actor \<times> 'w \<Rightarrow> u32 sequence \<Rightarrow> ('t actor \<times> 'w) \<times> u32 sequence" where
  "actor_destroy st sq = (actor_finish no_overrides st, sequence_release sq (ac_id (fst st)))"

section \<open>Services\<close>

text \<open>\<open>service_factory\<close>, and the part of \<open>service_actor\<close> that executes the channel.\<close>

type_synonym ('j, 's) service_factory = "string \<Rightarrow> ('j \<Rightarrow> 's) option"

definition sf_add :: "string \<Rightarrow> ('j \<Rightarrow> 's) \<Rightarrow> ('j, 's) service_factory \<Rightarrow> ('j, 's) service_factory" where
  "sf_add name c f = (case f name of Some d \<Rightarrow> f | None \<Rightarrow> f(name \<mapsto> c))"

definition sf_has :: "string \<Rightarrow> ('j, 's) service_factory \<Rightarrow> bool" where
  "sf_has name f \<longleftrightarrow> f name \<noteq> None"

definition sf_create :: "string \<Rightarrow> 'j \<Rightarrow> ('j, 's) service_factory \<Rightarrow> 's option" where
  "sf_create name config f = (case f name of None \<Rightarrow> None | Some c \<Rightarrow> Some (c config))"

definition service_actor_overrides :: "(('a, 'w) channel \<times> 'w) actor_overrides" where
  "service_actor_overrides =
     \<lparr>on_start = Pair True,
      on_execute = (\<lambda>(ch, w). case channel_execute ch w of (n, ch', w') \<Rightarrow> (ch', w')),
      on_finish = id\<rparr>"

section \<open>What the container holds\<close>

lemma fold_push_type: "fold push_type chain ob = ob\<lparr>to_types := to_types ob @ chain\<rparr>"
  by (induction chain arbitrary: ob) (simp_all add: push_type_def)

lemma to_types_construct: "to_types (construct c chain) = chain" "to_class (construct c chain) = c"
  by (simp_all add: construct_def fold_push_type)

lemma construct_honest: "\<forall>t \<in> set chain. derives c t \<Longrightarrow> honest derives (construct c chain)"
  by (simp add: honest_def to_types_construct)

text \<open>The objects added in turn.\<close>

fun container_adds :: "'t \<Rightarrow> (addr \<Rightarrow> 't tobject) \<Rightarrow> addr list \<Rightarrow> 't type_map \<Rightarrow> fault + 't type_map" where
  "container_adds base store [] m = Inr m"
| "container_adds base store (p # ps) m =
     (case container_add base store (Some p) m of Inl f \<Rightarrow> Inl f | Inr m' \<Rightarrow> container_adds base store ps m')"

definition nonempty :: "'t type_map \<Rightarrow> bool" where
  "nonempty m \<longleftrightarrow> (\<forall>t ps. m t = Some ps \<longrightarrow> ps \<noteq> [])"

lemma types_of_add: "container_types_of t (add_type u p m) = container_types_of t m @ (if t = u then [p] else [])"
  by (simp add: container_types_of_def add_type_def split: option.split)

lemma nonempty_add: "nonempty m \<Longrightarrow> nonempty (add_type u p m)"
  by (auto simp: nonempty_def add_type_def split: option.splits)

lemma types_of_fold:
  "container_types_of t (fold (\<lambda>u m. add_type u p m) us m) = container_types_of t m @ replicate (count_list us t) p"
  by (induction us arbitrary: m) (auto simp: types_of_add)

lemma nonempty_fold: "nonempty m \<Longrightarrow> nonempty (fold (\<lambda>u m. add_type u p m) us m)"
  by (induction us arbitrary: m) (simp_all add: nonempty_add)

lemma container_adds_types:
  "container_adds base store ps m = Inr m' \<Longrightarrow> nonempty m \<Longrightarrow>
    nonempty m' \<and> (\<forall>p \<in> set ps. is_a base (store p)) \<and>
    container_types_of t m' = container_types_of t m @ concat (map (\<lambda>p. replicate (count_list (to_types (store p)) t) p) ps)"
proof (induction ps arbitrary: m)
  case (Cons p ps)
  let ?m = "fold (\<lambda>u m. add_type u p m) (to_types (store p)) m"
  have a: "is_a base (store p)" "container_adds base store ps ?m = Inr m'"
    using Cons.prems(1) by (auto simp: container_add_def split: if_splits)
  then show ?case using Cons.IH [OF a(2) nonempty_fold [OF Cons.prems(2)]] by (simp add: types_of_fold)
qed simp

lemma get_type_hd: "nonempty m \<Longrightarrow> container_get_type t m = Inr (case container_types_of t m of [] \<Rightarrow> None | p # ps \<Rightarrow> Some p)"
  by (auto simp: container_get_type_def container_types_of_def nonempty_def split: option.splits list.splits)

lemma hd_concat_replicate:
  "(case concat (map (\<lambda>p. replicate (n p) p) ps) of [] \<Rightarrow> None | p # qs \<Rightarrow> Some p) = find (\<lambda>p. 0 < n p) ps"
proof (induction ps)
  case (Cons p ps)
  then show ?case by (cases "n p") simp_all
qed simp

lemma count_list_pos: "0 < count_list xs x \<longleftrightarrow> x \<in> set xs"
  by (metis count_list_0_iff neq0_conv)

section \<open>Properties\<close>



section \<open>Life cycle\<close>

lemma component_start_eq:
  "component_start ov p (flags, w) = (case do_start ov p w of (b, v) \<Rightarrow> (b, flags(p := b), v))"
  by (simp add: component_start_def)

lemma apply_start_flags:
  "apply_loop (component_start ov) ps n (flags, w) = (k, flags', w') \<Longrightarrow> p \<notin> set ps \<Longrightarrow> flags' p = flags p"
proof (induction ps arbitrary: n flags w)
  case (Cons q ps)
  obtain b v where b: "do_start ov q w = (b, v)" by force
  then have "apply_loop (component_start ov) ps (if b then n + 1 else n) (flags(q := b), v) = (k, flags', w')"
    using Cons.prems(1) by (simp add: component_start_eq)
  from Cons.IH [OF this] show ?case using Cons.prems(2) by simp
qed simp

lemma apply_start_started:
  "apply_loop (component_start ov) ps n (flags, w) = (k, flags', w') \<Longrightarrow> (\<And>q v. fst (do_start ov q v)) \<Longrightarrow> p \<in> set ps \<Longrightarrow> flags' p"
proof (induction ps arbitrary: n flags w)
  case (Cons q ps)
  obtain b v where b: "do_start ov q w = (b, v)" by force
  have "b" using Cons.prems(2) [of q w] b by simp
  then have run: "apply_loop (component_start ov) ps (n + 1) (flags(q := True), v) = (k, flags', w')"
    using Cons.prems(1) b by (simp add: component_start_eq)
  show ?case
  proof (cases "p \<in> set ps")
    case True
    then show ?thesis using Cons.IH [OF run Cons.prems(2)] by blast
  next
    case False
    then show ?thesis using apply_start_flags [OF run False] Cons.prems(3) by simp
  qed
qed simp

text \<open>
  An actor that starts starts its components, and its state is started even when one of them
  does not; finishing the actor, in its destructor too, does not finish a component.
\<close>

lemma actor_start_components:
  assumes "actor_start base ov cov (a, flags, w) = (True, a', flags', w')" "\<And>q v. fst (do_start cov q v)"
    "p \<in> set (container_types_of base (ac_comps a))"
  shows "flags' p \<and> ac_state a' = Started"
proof -
  obtain ps where ps: "ac_comps a base = Some ps" "p \<in> set ps" using assms(3) by (cases "ac_comps a base") (auto simp: container_types_of_def)
  then show ?thesis using assms(1) apply_start_started [OF _ assms(2) ps(2)]
    by (auto simp: actor_start_def container_apply_def split: prod.splits if_splits)
qed

lemma actor_started_anyway:
  assumes "on_start ov w = (True, w)" "\<And>q v. do_start cov q v = (False, v)"
  shows "fst (actor_start base ov cov (a, flags, w)) \<and> ac_state (fst (snd (actor_start base ov cov (a, flags, w)))) = Started"
  using assms by (simp add: actor_start_def split: prod.split)

text \<open>\<open>finish\<close> calls \<open>on_finish\<close> once; the destructor never calls that of the derived class.\<close>

lemma actor_finish_once: "actor_finish ov (actor_finish ov st) = actor_finish ov st"
  by (cases st) (simp add: actor_finish_def)

lemma actor_destroy_silent: "snd (fst (actor_destroy (a, w) sq)) = w"
  by (simp add: actor_destroy_def actor_finish_def no_overrides_def)

end
