(* ===== verification/Task_Scheduler.thy ===== *)
theory Task_Scheduler
  imports Concurrent_Queue "HOL-Library.Multiset"
begin

text \<open>
  \<open>task::task\<close>, \<open>task_runner\<close> and \<open>task_scheduler\<close> (\<open>src/task\<close>): tasks go round from the queue of
  the scheduler to the queue of a runner, whose thread executes them and passes them back.

  Tasks are numbers. The threads are modelled as steps of one state: every access to a queue,
  which holds its lock, and every \<open>execute\<close> is one step, and the steps of the runners and of the
  threads that call the scheduler come in any order. \<open>on_start\<close> and \<open>on_execute\<close> are virtual: the
  event says whether the former succeeds and whether the latter calls \<open>finish\<close> on its task.
  Execution times are not modelled.
\<close>

section \<open>Tasks\<close>

datatype task_state = Constructed | Ready | Finished

record task =
  task_state :: task_state
  affinity :: bool
  last_runner_id :: nat
  executions :: u32

definition task_start :: "bool \<Rightarrow> task \<Rightarrow> task" where
  "task_start ok tk = (if ok then tk\<lparr>task_state := Ready\<rparr> else tk)"

definition has_right_affinity :: "nat \<Rightarrow> task \<Rightarrow> bool" where
  "has_right_affinity runner tk \<longleftrightarrow> affinity tk \<and> (last_runner_id tk = runner \<or> last_runner_id tk = 0)"

definition task_finish :: "task \<Rightarrow> task" where
  "task_finish tk = tk\<lparr>task_state := Finished\<rparr>"

text \<open>\<open>fin\<close>: \<open>on_execute\<close> finishes the task.\<close>

definition task_execute :: "nat \<Rightarrow> bool \<Rightarrow> task \<Rightarrow> fault + task" where
  "task_execute runner fin tk =
     (if task_state tk \<noteq> Ready then Inl (Thrown ''task not ready in execute'')
      else if affinity tk \<and> \<not> has_right_affinity runner tk then Inl (Thrown ''invalid runner affinity'')
      else let tk1 = tk\<lparr>last_runner_id := runner\<rparr>;
               tk2 = (if fin then task_finish tk1 else tk1)
           in Inr (tk2\<lparr>executions := executions tk2 + 1\<rparr>))"

section \<open>Runners and the scheduler\<close>

text \<open>
  Where the thread of a runner is in \<open>run\<close>: before the test of \<open>stop_\<close>, in the inner loop with its
  \<open>loop_count\<close>, with a task popped, with a task executed, at the end.
\<close>

datatype runner_pc = Outer | Inner nat | Popped nat nat | Executed nat nat | Exited

record runner =
  runner_queue :: "nat cqueue"
  stop :: bool
  pc :: runner_pc

record scheduler_config =
  runner_count :: int
  single_loop_run_limit :: nat
  start_task_when_schedule_called :: bool
  run_schedule_when_schedule_called :: bool

text \<open>
  The scheduler with the tasks; \<open>taken\<close> are the tasks that calls of \<open>run_schedule\<close> have popped and
  not pushed yet, and \<open>executed\<close> records the calls of \<open>on_execute\<close>, task and runner id.
\<close>

record scheduler =
  tasks :: "nat \<Rightarrow> task"
  sched_queue :: "nat cqueue"
  runners :: "runner list"
  taken :: "nat list"
  executed :: "(nat \<times> nat) list"

definition scheduler_start :: "scheduler_config \<Rightarrow> (nat \<Rightarrow> task) \<Rightarrow> scheduler" where
  "scheduler_start cfg ts =
     \<lparr>tasks = ts, sched_queue = [],
      runners = replicate (nat (runner_count cfg)) \<lparr>runner_queue = [], stop = False, pc = Outer\<rparr>,
      taken = [], executed = []\<rparr>"

definition get_task_count :: "scheduler \<Rightarrow> nat" where
  "get_task_count s =
     cq_unsafe_size (sched_queue s) + sum_list (map (\<lambda>r. cq_unsafe_size (runner_queue r)) (runners s))"

text \<open>The loop over the runners: the first with the fewest tasks, its index plus one.\<close>

fun min_runner :: "nat \<Rightarrow> nat list \<Rightarrow> nat \<times> int \<Rightarrow> nat \<times> int" where
  "min_runner i [] cm = cm"
| "min_runner i (c # cs) (cand_id, min_task_count) =
     min_runner (i + 1) cs (if int c < min_task_count then (i + 1, int c) else (cand_id, min_task_count))"

definition get_target_runner_id :: "nat \<Rightarrow> scheduler \<Rightarrow> nat" where
  "get_target_runner_id rand s =
     fst (min_runner 0 (map (\<lambda>r. cq_unsafe_size (runner_queue r)) (runners s))
       (rand mod length (runners s), 4294967295))"

definition runner_push :: "nat \<Rightarrow> nat \<Rightarrow> scheduler \<Rightarrow> fault + scheduler" where
  "runner_push i t s =
     (if i < length (runners s)
      then Inr (s\<lparr>runners := (runners s)[i := (runners s ! i)\<lparr>runner_queue := cq_push (runner_queue (runners s ! i)) t\<rparr>]\<rparr>)
      else Inl Out_of_bounds)"

text \<open>
  The body of the loop of \<open>run_schedule\<close> for a popped task. \<open>id\<close> counts from 1; without affinity
  it is used as an index as it is.
\<close>

definition give :: "nat \<Rightarrow> nat \<Rightarrow> scheduler \<Rightarrow> fault + scheduler" where
  "give rand t s =
     (if affinity (tasks s t) then
        (let id0 = last_runner_id (tasks s t);
             id = (if id0 = 0 then get_target_runner_id rand s else id0)
         in if id = 0 then Inl Out_of_bounds else runner_push (id - 1) t s)
      else runner_push (get_target_runner_id rand s) t s)"

definition schedule :: "scheduler_config \<Rightarrow> bool \<Rightarrow> nat \<Rightarrow> scheduler \<Rightarrow> scheduler" where
  "schedule cfg ok t s =
     (let s1 = (if start_task_when_schedule_called cfg \<and> task_state (tasks s t) = Constructed
                then s\<lparr>tasks := (tasks s)(t := task_start ok (tasks s t))\<rparr> else s)
      in if task_state (tasks s1 t) = Ready then s1\<lparr>sched_queue := cq_push (sched_queue s1) t\<rparr> else s1)"

section \<open>Steps\<close>

datatype event =
    Schedule nat bool     \<comment> \<open>\<open>schedule\<close> up to \<open>run_schedule\<close>\<close>
  | Take                  \<comment> \<open>\<open>run_schedule\<close> pops a task\<close>
  | Give nat nat          \<comment> \<open>and gives it to a runner\<close>
  | Loop nat              \<comment> \<open>a runner tests \<open>stop_\<close>\<close>
  | Pop nat               \<comment> \<open>a runner tries to pop a task\<close>
  | Run nat bool          \<comment> \<open>executes it\<close>
  | Pass nat              \<comment> \<open>and passes it to the scheduler\<close>
  | Stop nat              \<comment> \<open>\<open>task_runner::finish\<close> sets \<open>stop_\<close>\<close>
  | Drain nat             \<comment> \<open>and after \<open>join\<close> passes a task that is left\<close>
  | Finish_rest           \<comment> \<open>\<open>task_scheduler::finish\<close> finishes a task that is left\<close>

definition upd_runner :: "nat \<Rightarrow> (runner \<Rightarrow> runner) \<Rightarrow> scheduler \<Rightarrow> scheduler" where
  "upd_runner i f s = s\<lparr>runners := (runners s)[i := f (runners s ! i)]\<rparr>"

definition run_loop :: "nat \<Rightarrow> scheduler \<Rightarrow> scheduler option" where
  "run_loop i s =
     (if i < length (runners s) \<and> pc (runners s ! i) = Outer
      then Some (upd_runner i (\<lambda>r. r\<lparr>pc := if stop r then Exited else Inner 0\<rparr>) s) else None)"

definition run_pop :: "nat \<Rightarrow> scheduler \<Rightarrow> scheduler option" where
  "run_pop i s =
     (if i < length (runners s) then
        (case pc (runners s ! i) of
           Inner n \<Rightarrow>
             (case cq_pop (runner_queue (runners s ! i)) of
                None \<Rightarrow> Some (upd_runner i (\<lambda>r. r\<lparr>pc := Outer\<rparr>) s)
              | Some (t, q) \<Rightarrow> Some (upd_runner i (\<lambda>r. r\<lparr>runner_queue := q, pc := Popped n t\<rparr>) s))
         | _ \<Rightarrow> None)
      else None)"

definition run_execute :: "nat \<Rightarrow> bool \<Rightarrow> scheduler \<Rightarrow> (fault + scheduler) option" where
  "run_execute i fin s =
     (if i < length (runners s) then
        (case pc (runners s ! i) of
           Popped n t \<Rightarrow>
             (case task_execute (i + 1) fin (tasks s t) of
                Inl f \<Rightarrow> Some (Inl f)
              | Inr tk \<Rightarrow> Some (Inr ((upd_runner i (\<lambda>r. r\<lparr>pc := Executed n t\<rparr>) s)
                  \<lparr>tasks := (tasks s)(t := tk), executed := executed s @ [(t, i + 1)]\<rparr>)))
         | _ \<Rightarrow> None)
      else None)"

definition run_pass :: "scheduler_config \<Rightarrow> nat \<Rightarrow> scheduler \<Rightarrow> scheduler option" where
  "run_pass cfg i s =
     (if i < length (runners s) then
        (case pc (runners s ! i) of
           Executed n t \<Rightarrow>
             Some ((upd_runner i (\<lambda>r. r\<lparr>pc := if single_loop_run_limit cfg > 0 \<and> n + 1 \<ge> single_loop_run_limit cfg
                                            then Outer else Inner (n + 1)\<rparr>) s)
               \<lparr>sched_queue := cq_push (sched_queue s) t\<rparr>)
         | _ \<Rightarrow> None)
      else None)"

definition drain_runner :: "nat \<Rightarrow> scheduler \<Rightarrow> scheduler option" where
  "drain_runner i s =
     (if i < length (runners s) \<and> pc (runners s ! i) = Exited then
        (case cq_pop (runner_queue (runners s ! i)) of
           None \<Rightarrow> None
         | Some (t, q) \<Rightarrow> Some ((upd_runner i (\<lambda>r. r\<lparr>runner_queue := q\<rparr>) s)\<lparr>sched_queue := cq_push (sched_queue s) t\<rparr>))
      else None)"

definition finish_rest :: "scheduler \<Rightarrow> (nat \<times> scheduler) option" where
  "finish_rest s =
     (case cq_pop (sched_queue s) of
        None \<Rightarrow> None
      | Some (t, q) \<Rightarrow>
          (let s1 = s\<lparr>sched_queue := q\<rparr>
           in Some (t, if task_state (tasks s t) = Ready then s1\<lparr>tasks := (tasks s)(t := task_finish (tasks s t))\<rparr> else s1)))"

text \<open>\<open>None\<close>: the event is not possible.\<close>

fun sched_step :: "scheduler_config \<Rightarrow> event \<Rightarrow> scheduler \<Rightarrow> (fault + scheduler) option" where
  "sched_step cfg (Schedule t ok) s = Some (Inr (schedule cfg ok t s))"
| "sched_step cfg Take s =
     (case cq_pop (sched_queue s) of None \<Rightarrow> None | Some (t, q) \<Rightarrow> Some (Inr (s\<lparr>sched_queue := q, taken := t # taken s\<rparr>)))"
| "sched_step cfg (Give t rand) s =
     (if t \<in> set (taken s) then
        (case give rand t s of Inl f \<Rightarrow> Some (Inl f) | Inr s1 \<Rightarrow> Some (Inr (s1\<lparr>taken := remove1 t (taken s)\<rparr>)))
      else None)"
| "sched_step cfg (Loop i) s = map_option Inr (run_loop i s)"
| "sched_step cfg (Pop i) s = map_option Inr (run_pop i s)"
| "sched_step cfg (Run i fin) s = run_execute i fin s"
| "sched_step cfg (Pass i) s = map_option Inr (run_pass cfg i s)"
| "sched_step cfg (Stop i) s =
     (if i < length (runners s) then Some (Inr (upd_runner i (\<lambda>r. r\<lparr>stop := True\<rparr>) s)) else None)"
| "sched_step cfg (Drain i) s = map_option Inr (drain_runner i s)"
| "sched_step cfg Finish_rest s = map_option (\<lambda>(t, s1). Inr s1) (finish_rest s)"

section \<open>Where a task is\<close>

definition runner_tasks :: "runner \<Rightarrow> nat list" where
  "runner_tasks r = runner_queue r @ (case pc r of Popped n t \<Rightarrow> [t] | Executed n t \<Rightarrow> [t] | _ \<Rightarrow> [])"

definition places :: "scheduler \<Rightarrow> nat list" where
  "places s = sched_queue s @ taken s @ concat (map runner_tasks (runners s))"

lemma mset_runners_upd:
  "i < length rs \<Longrightarrow> mset (concat (map f (rs[i := r]))) + mset (f (rs ! i)) = mset (concat (map f rs)) + mset (f r)"
proof (induction rs arbitrary: i)
  case Nil
  then show ?case by simp
next
  case (Cons x rs)
  then show ?case by (cases i) (auto simp: add.commute add.left_commute)
qed

lemma mset_swap:
  fixes a :: "'a multiset"
  assumes "a' + b = a + r" "q' + t' + r = q + t + b"
  shows "q' + t' + a' = q + t + a"
proof -
  have "(q' + t' + a') + (b + r) = (q + t + a) + (b + r)"
    using arg_cong2 [where f = "(+)", OF assms] by (simp only: ac_simps)
  then show ?thesis by simp
qed

text \<open>How the tasks in a runner change, as the other places change.\<close>

lemma mset_places_upd:
  assumes "i < length (runners s)" "runners s' = (runners s)[i := r]"
    and "mset (sched_queue s') + mset (taken s') + mset (runner_tasks r) =
      mset (sched_queue s) + mset (taken s) + mset (runner_tasks (runners s ! i))"
  shows "mset (places s') = mset (places s)"
proof -
  have "mset (concat (map runner_tasks (runners s'))) + mset (runner_tasks (runners s ! i)) =
      mset (concat (map runner_tasks (runners s))) + mset (runner_tasks r)"
    using mset_runners_upd [OF assms(1), of runner_tasks r] assms(2) by simp
  then show ?thesis using mset_swap [OF _ assms(3)] by (simp only: places_def mset_append add.assoc)
qed

lemma mset_places_run:
  assumes "i < length (runners s)" "runners s' = runners (upd_runner i f s)"
    and "mset (sched_queue s') + mset (taken s') + mset (runner_tasks (f (runners s ! i))) =
      mset (sched_queue s) + mset (taken s) + mset (runner_tasks (runners s ! i))"
  shows "mset (places s') = mset (places s)"
  by (rule mset_places_upd [OF assms(1) _ assms(3)]) (simp add: assms(2) upd_runner_def)

lemma upd_runner_fields [simp]:
  "tasks (upd_runner i f s) = tasks s" "sched_queue (upd_runner i f s) = sched_queue s"
  "taken (upd_runner i f s) = taken s" "executed (upd_runner i f s) = executed s"
  by (simp_all add: upd_runner_def)

lemma give_runner:
  assumes "give rand t s = Inr s'"
  obtains i where "i < length (runners s)"
    "s' = s\<lparr>runners := (runners s)[i := (runners s ! i)\<lparr>runner_queue := cq_push (runner_queue (runners s ! i)) t\<rparr>]\<rparr>"
  using assms by (auto simp: give_def runner_push_def Let_def split: if_splits)

definition internal :: "event \<Rightarrow> bool" where
  "internal e \<longleftrightarrow> (case e of Schedule t ok \<Rightarrow> False | Finish_rest \<Rightarrow> False | _ \<Rightarrow> True)"

lemma internal_places:
  assumes "internal e" "sched_step cfg e s = Some (Inr s')"
  shows "mset (places s') = mset (places s)"
proof (cases e)
  case Take
  then show ?thesis using assms(2) by (auto simp: places_def cq_pop_def split: option.splits list.splits)
next
  case (Give t rand)
  then obtain s1 where s1: "t \<in> set (taken s)" "give rand t s = Inr s1" "s' = s1\<lparr>taken := remove1 t (taken s)\<rparr>"
    using assms(2) by (cases "give rand t s") (auto split: if_splits)
  obtain i where i: "i < length (runners s)"
    "s1 = s\<lparr>runners := (runners s)[i := (runners s ! i)\<lparr>runner_queue := cq_push (runner_queue (runners s ! i)) t\<rparr>]\<rparr>"
    by (rule give_runner [OF s1(2)])
  show ?thesis
    by (rule mset_places_upd [OF i(1), of s' "(runners s ! i)\<lparr>runner_queue := cq_push (runner_queue (runners s ! i)) t\<rparr>"])
      (use s1 i in \<open>auto simp: runner_tasks_def cq_push_def\<close>)
next
  case (Loop i)
  then have "i < length (runners s)" "pc (runners s ! i) = Outer"
    "s' = upd_runner i (\<lambda>r. r\<lparr>pc := if stop r then Exited else Inner 0\<rparr>) s"
    using assms(2) by (auto simp: run_loop_def split: if_splits)
  then show ?thesis by (intro mset_places_run [of i s s' "\<lambda>r. r\<lparr>pc := if stop r then Exited else Inner 0\<rparr>"])
    (simp_all add: runner_tasks_def split: if_split)
next
  case (Pop i)
  then obtain n where n: "i < length (runners s)" "pc (runners s ! i) = Inner n"
    using assms(2) by (auto simp: run_pop_def split: if_splits runner_pc.splits)
  show ?thesis
  proof (cases "runner_queue (runners s ! i)")
    case Nil
    then show ?thesis using Pop n assms(2) mset_places_run [of i s s' "\<lambda>r. r\<lparr>pc := Outer\<rparr>"]
      by (auto simp: run_pop_def cq_pop_def runner_tasks_def)
  next
    case (Cons u q)
    then show ?thesis using Pop n assms(2) mset_places_run [of i s s' "\<lambda>r. r\<lparr>runner_queue := q, pc := Popped n u\<rparr>"]
      by (auto simp: run_pop_def cq_pop_def runner_tasks_def)
  qed
next
  case (Run i fin)
  then obtain n u tk where n: "i < length (runners s)" "pc (runners s ! i) = Popped n u"
    "s' = (upd_runner i (\<lambda>r. r\<lparr>pc := Executed n u\<rparr>) s)\<lparr>tasks := (tasks s)(u := tk), executed := executed s @ [(u, i + 1)]\<rparr>"
    using assms(2) by (auto simp: run_execute_def split: if_splits runner_pc.splits sum.splits)
  then show ?thesis by (intro mset_places_run [of i s s' "\<lambda>r. r\<lparr>pc := Executed n u\<rparr>"]) (simp_all add: runner_tasks_def)
next
  case (Pass i)
  let ?f = "\<lambda>n r. r\<lparr>pc := if single_loop_run_limit cfg > 0 \<and> n + 1 \<ge> single_loop_run_limit cfg then Outer else Inner (n + 1)\<rparr>"
  obtain n u where n: "i < length (runners s)" "pc (runners s ! i) = Executed n u"
    "s' = (upd_runner i (?f n) s)\<lparr>sched_queue := cq_push (sched_queue s) u\<rparr>"
    using Pass assms(2) by (auto simp: run_pass_def split: if_splits runner_pc.splits)
  then show ?thesis by (intro mset_places_run [of i s s' "?f n"]) (simp_all add: runner_tasks_def cq_push_def)
next
  case (Stop i)
  then have "i < length (runners s)" "s' = upd_runner i (\<lambda>r. r\<lparr>stop := True\<rparr>) s"
    using assms(2) by (auto split: if_splits)
  then show ?thesis by (intro mset_places_run [of i s s' "\<lambda>r. r\<lparr>stop := True\<rparr>"]) (simp_all add: runner_tasks_def)
next
  case (Drain i)
  then obtain u q where n: "i < length (runners s)" "pc (runners s ! i) = Exited" "runner_queue (runners s ! i) = u # q"
    "s' = (upd_runner i (\<lambda>r. r\<lparr>runner_queue := q\<rparr>) s)\<lparr>sched_queue := cq_push (sched_queue s) u\<rparr>"
    using assms(2) by (auto simp: drain_runner_def cq_pop_def split: if_splits option.splits list.splits)
  then show ?thesis by (intro mset_places_run [of i s s' "\<lambda>r. r\<lparr>runner_queue := q\<rparr>"])
    (simp_all add: runner_tasks_def cq_push_def)
qed (use assms(1) in \<open>simp_all add: internal_def\<close>)

text \<open>What \<open>schedule\<close> changes.\<close>

lemma schedule_fields:
  assumes "schedule cfg ok t s = s'"
  shows "runners s' = runners s" "taken s' = taken s" "executed s' = executed s"
    "sched_queue s' = (if task_state (tasks s' t) = Ready then sched_queue s @ [t] else sched_queue s)"
    "affinity (tasks s' u) = affinity (tasks s u)" "last_runner_id (tasks s' u) = last_runner_id (tasks s u)"
proof -
  let ?s1 = "if start_task_when_schedule_called cfg \<and> task_state (tasks s t) = Constructed
    then s\<lparr>tasks := (tasks s)(t := task_start ok (tasks s t))\<rparr> else s"
  have s1: "runners ?s1 = runners s" "taken ?s1 = taken s" "executed ?s1 = executed s" "sched_queue ?s1 = sched_queue s"
    "affinity (tasks ?s1 u) = affinity (tasks s u)" "last_runner_id (tasks ?s1 u) = last_runner_id (tasks s u)"
    by (auto simp: task_start_def)
  have s': "s' = (if task_state (tasks ?s1 t) = Ready then ?s1\<lparr>sched_queue := cq_push (sched_queue ?s1) t\<rparr> else ?s1)"
    using assms unfolding schedule_def Let_def by (rule sym)
  show "runners s' = runners s" "taken s' = taken s" "executed s' = executed s"
    "sched_queue s' = (if task_state (tasks s' t) = Ready then sched_queue s @ [t] else sched_queue s)"
    "affinity (tasks s' u) = affinity (tasks s u)" "last_runner_id (tasks s' u) = last_runner_id (tasks s u)"
    using s1 unfolding s' by (cases "task_state (tasks ?s1 t) = Ready"; simp add: cq_push_def)+
qed

section \<open>Runs\<close>

text \<open>
  The clients schedule a task at most once; \<open>known\<close> are the tasks that were queued by \<open>schedule\<close>
  and not taken out by \<open>finish\<close>.
\<close>

inductive sched_reach :: "scheduler_config \<Rightarrow> nat list \<Rightarrow> scheduler \<Rightarrow> bool" for cfg where
  start: "sched_reach cfg [] (scheduler_start cfg ts)"
| schedule: "sched_reach cfg known s \<Longrightarrow> t \<notin> set known \<Longrightarrow> schedule cfg ok t s = s' \<Longrightarrow>
    sched_reach cfg (if task_state (tasks s' t) = Ready then t # known else known) s'"
| finish: "sched_reach cfg known s \<Longrightarrow> finish_rest s = Some (t, s') \<Longrightarrow> sched_reach cfg (remove1 t known) s'"
| internal: "sched_reach cfg known s \<Longrightarrow> internal e \<Longrightarrow> sched_step cfg e s = Some (Inr s') \<Longrightarrow> sched_reach cfg known s'"

lemma reach_places: "sched_reach cfg known s \<Longrightarrow> mset (places s) = mset known \<and> distinct known"
proof (induction rule: sched_reach.induct)
  case (start ts)
  show ?case by (simp add: scheduler_start_def places_def runner_tasks_def)
next
  case (schedule known s t ok s')
  show ?case using schedule_fields [OF schedule(3)] schedule.IH schedule(2) by (auto simp: places_def)
next
  case (finish known s t s')
  then have "mset (places s) = add_mset t (mset (places s'))"
    by (auto simp: finish_rest_def places_def cq_pop_def Let_def split: list.splits)
  then show ?case using finish.IH by simp
next
  case (internal known s e s')
  then show ?case by (simp add: internal_places)
qed

lemma concat_distinct_unique:
  "distinct (concat (map f rs)) \<Longrightarrow> i < length rs \<Longrightarrow> j < length rs \<Longrightarrow> x \<in> set (f (rs ! i)) \<Longrightarrow>
    x \<in> set (f (rs ! j)) \<Longrightarrow> i = j"
proof (induction rs arbitrary: i j)
  case Nil
  then show ?case by simp
next
  case (Cons r rs)
  have out: "k < length rs \<Longrightarrow> x \<in> set (f (rs ! k)) \<Longrightarrow> x \<in> set (concat (map f rs))" for k by auto
  show ?case
  proof (cases i; cases j)
    fix i' j' assume "i = Suc i'" "j = Suc j'"
    then show ?thesis using Cons by auto
  qed (use Cons.prems out in \<open>auto dest: out\<close>)
qed

lemma reach_one_runner:
  assumes "sched_reach cfg known s" "i < length (runners s)" "j < length (runners s)"
    "t \<in> set (runner_tasks (runners s ! i))" "t \<in> set (runner_tasks (runners s ! j))"
  shows "i = j"
proof -
  have "distinct (places s)" using reach_places [OF assms(1)] by (metis mset_eq_imp_distinct_iff)
  then have "distinct (concat (map runner_tasks (runners s)))" by (simp add: places_def)
  then show ?thesis by (rule concat_distinct_unique [OF _ assms(2-)])
qed

text \<open>Steps other than \<open>give\<close> bring no task to a runner.\<close>

lemma runner_tasks_run:
  assumes "i < length (runners s)" "runners s' = runners (upd_runner i f s)"
    and "set (runner_tasks (f (runners s ! i))) \<subseteq> set (runner_tasks (runners s ! i))"
  shows "length (runners s') = length (runners s) \<and>
    (\<forall>j < length (runners s). set (runner_tasks (runners s' ! j)) \<subseteq> set (runner_tasks (runners s ! j)))"
  using assms by (auto simp: upd_runner_def nth_list_update)

lemma step_runner_tasks:
  assumes "internal e" "sched_step cfg e s = Some (Inr s')" "\<And>t rand. e \<noteq> Give t rand"
  shows "length (runners s') = length (runners s) \<and>
    (\<forall>j < length (runners s). set (runner_tasks (runners s' ! j)) \<subseteq> set (runner_tasks (runners s ! j)))"
proof (cases e)
  case Take
  then show ?thesis using assms(2) by (auto split: option.splits)
next
  case (Run i fin)
  then show ?thesis using assms(2) by (auto simp: run_execute_def upd_runner_def nth_list_update runner_tasks_def
      split: if_splits runner_pc.splits sum.splits)
next
  case (Loop i)
  then show ?thesis using assms(2)
    by (intro runner_tasks_run [of i s s' "\<lambda>r. r\<lparr>pc := if stop r then Exited else Inner 0\<rparr>"])
      (auto simp: run_loop_def runner_tasks_def split: if_splits)
next
  case (Stop i)
  then show ?thesis using assms(2) by (intro runner_tasks_run [of i s s' "\<lambda>r. r\<lparr>stop := True\<rparr>"])
    (auto simp: runner_tasks_def split: if_splits)
next
  case (Pop i)
  then obtain n where n: "i < length (runners s)" "pc (runners s ! i) = Inner n"
    using assms(2) by (auto simp: run_pop_def split: if_splits runner_pc.splits)
  show ?thesis
  proof (cases "runner_queue (runners s ! i)")
    case Nil
    then show ?thesis using Pop n assms(2) by (intro runner_tasks_run [of i s s' "\<lambda>r. r\<lparr>pc := Outer\<rparr>"])
      (auto simp: run_pop_def cq_pop_def runner_tasks_def)
  next
    case (Cons u q)
    then show ?thesis using Pop n assms(2) by (intro runner_tasks_run [of i s s' "\<lambda>r. r\<lparr>runner_queue := q, pc := Popped n u\<rparr>"])
      (auto simp: run_pop_def cq_pop_def runner_tasks_def)
  qed
next
  case (Pass i)
  let ?f = "\<lambda>n r. r\<lparr>pc := if single_loop_run_limit cfg > 0 \<and> n + 1 \<ge> single_loop_run_limit cfg then Outer else Inner (n + 1)\<rparr>"
  obtain n u where n: "i < length (runners s)" "pc (runners s ! i) = Executed n u"
    "s' = (upd_runner i (?f n) s)\<lparr>sched_queue := cq_push (sched_queue s) u\<rparr>"
    using Pass assms(2) by (auto simp: run_pass_def split: if_splits runner_pc.splits)
  then show ?thesis by (intro runner_tasks_run [of i s s' "?f n"]) (auto simp: runner_tasks_def)
next
  case (Drain i)
  then obtain u q where n: "i < length (runners s)" "runner_queue (runners s ! i) = u # q"
    "s' = (upd_runner i (\<lambda>r. r\<lparr>runner_queue := q\<rparr>) s)\<lparr>sched_queue := cq_push (sched_queue s) u\<rparr>"
    using assms(2) by (auto simp: drain_runner_def cq_pop_def split: if_splits option.splits list.splits)
  then show ?thesis by (intro runner_tasks_run [of i s s' "\<lambda>r. r\<lparr>runner_queue := q\<rparr>"]) (auto simp: runner_tasks_def)
qed (use assms(1,3) in \<open>simp_all add: internal_def\<close>)

lemma step_tasks:
  assumes "internal e" "sched_step cfg e s = Some (Inr s')"
  shows "affinity (tasks s' t) = affinity (tasks s t)"
    "(\<And>i fin. e \<noteq> Run i fin) \<Longrightarrow> tasks s' = tasks s \<and> executed s' = executed s"
  using assms
  by (cases e; auto simp: internal_def run_loop_def run_pop_def run_execute_def run_pass_def drain_runner_def
      task_execute_def task_finish_def Let_def runner_push_def give_def
      split: option.splits if_splits runner_pc.splits sum.splits prod.splits)+

section \<open>Affinity\<close>

text \<open>A task with affinity has only been executed by one runner, and is with no other.\<close>

definition affine_ok :: "scheduler \<Rightarrow> bool" where
  "affine_ok s \<longleftrightarrow> (\<forall>t. affinity (tasks s t) \<longrightarrow>
     (\<forall>r. (t, r) \<in> set (executed s) \<longrightarrow> r = last_runner_id (tasks s t) \<and> r \<noteq> 0) \<and>
     (\<forall>i < length (runners s). t \<in> set (runner_tasks (runners s ! i)) \<longrightarrow>
        last_runner_id (tasks s t) \<in> {0, i + 1}))"

lemma affine_okI:
  assumes "\<And>t r. affinity (tasks s t) \<Longrightarrow> (t, r) \<in> set (executed s) \<Longrightarrow> r = last_runner_id (tasks s t) \<and> r \<noteq> 0"
    and "\<And>t i. affinity (tasks s t) \<Longrightarrow> i < length (runners s) \<Longrightarrow> t \<in> set (runner_tasks (runners s ! i)) \<Longrightarrow>
      last_runner_id (tasks s t) \<in> {0, i + 1}"
  shows "affine_ok s"
  unfolding affine_ok_def by (intro allI impI conjI) (blast dest: assms)+

lemma affine_okD:
  assumes "affine_ok s" "affinity (tasks s t)"
  shows "(t, r) \<in> set (executed s) \<Longrightarrow> r = last_runner_id (tasks s t) \<and> r \<noteq> 0"
    "i < length (runners s) \<Longrightarrow> t \<in> set (runner_tasks (runners s ! i)) \<Longrightarrow> last_runner_id (tasks s t) \<in> {0, i + 1}"
  using assms unfolding affine_ok_def by blast+

lemma affine_ok_less:
  assumes ok: "affine_ok s" and eqs: "length (runners s') = length (runners s)" "executed s' = executed s"
    "\<And>t. affinity (tasks s' t) = affinity (tasks s t)" "\<And>t. last_runner_id (tasks s' t) = last_runner_id (tasks s t)"
    and sub: "\<And>i. i < length (runners s) \<Longrightarrow> set (runner_tasks (runners s' ! i)) \<subseteq> set (runner_tasks (runners s ! i))"
  shows "affine_ok s'"
  by (rule affine_okI; unfold eqs) (use affine_okD [OF ok] sub in blast)+

lemma affine_ok_give:
  assumes "affine_ok s" "give rand t s = Inr s'"
  shows "affine_ok s'"
proof -
  obtain i where i: "i < length (runners s)"
    "s' = s\<lparr>runners := (runners s)[i := (runners s ! i)\<lparr>runner_queue := cq_push (runner_queue (runners s ! i)) t\<rparr>]\<rparr>"
    by (rule give_runner [OF assms(2)])
  have new: "last_runner_id (tasks s t) \<in> {0, i + 1}" if "affinity (tasks s t)"
  proof -
    have "last_runner_id (tasks s t) = 0 \<or> runner_push (last_runner_id (tasks s t) - 1) t s = Inr s'"
      using assms(2) that by (auto simp: give_def Let_def split: if_splits)
    moreover have "i = j" if "runner_push j t s = Inr s'" for j
    proof (rule ccontr)
      assume "i \<noteq> j"
      have "s' = s\<lparr>runners := (runners s)[j := (runners s ! j)\<lparr>runner_queue := cq_push (runner_queue (runners s ! j)) t\<rparr>]\<rparr>"
        using that by (auto simp: runner_push_def split: if_splits)
      then have "runner_queue (runners s' ! i) = runner_queue (runners s ! i)" using \<open>i \<noteq> j\<close> by simp
      then show False using i by (simp add: cq_push_def)
    qed
    ultimately show ?thesis by fastforce
  qed
  have eqs: "tasks s' = tasks s" "executed s' = executed s" "length (runners s') = length (runners s)"
    using i(2) by simp_all
  have old: "j = i \<and> u = t \<or> u \<in> set (runner_tasks (runners s ! j))"
    if "j < length (runners s)" "u \<in> set (runner_tasks (runners s' ! j))" for j u
    using i that by (auto simp: nth_list_update runner_tasks_def cq_push_def split: if_splits)
  show ?thesis
  proof (rule affine_okI; unfold eqs)
    fix u r assume "affinity (tasks s u)" "(u, r) \<in> set (executed s)"
    then show "r = last_runner_id (tasks s u) \<and> r \<noteq> 0" by (rule affine_okD(1) [OF assms(1)])
  next
    fix u j assume u: "affinity (tasks s u)" "j < length (runners s)" "u \<in> set (runner_tasks (runners s' ! j))"
    from old [OF u(2,3)] show "last_runner_id (tasks s u) \<in> {0, j + 1}"
      using new affine_okD(2) [OF assms(1) u(1,2)] u(1) by (elim disjE conjE) simp_all
  qed
qed

text \<open>An execution: the task is with this runner only.\<close>

lemma affine_ok_execute:
  assumes "affine_ok s" "sched_reach cfg known s" "run_execute i fin s = Some (Inr s')"
  shows "affine_ok s'"
proof -
  obtain n t tk where i: "i < length (runners s)" "pc (runners s ! i) = Popped n t"
    "task_execute (i + 1) fin (tasks s t) = Inr tk"
    "s' = (upd_runner i (\<lambda>r. r\<lparr>pc := Executed n t\<rparr>) s)\<lparr>tasks := (tasks s)(t := tk), executed := executed s @ [(t, i + 1)]\<rparr>"
    using assms(3) by (auto simp: run_execute_def split: if_splits runner_pc.splits sum.splits)
  have tk: "last_runner_id tk = i + 1" "affinity tk = affinity (tasks s t)"
    using i(3) by (auto simp: task_execute_def task_finish_def Let_def split: if_splits)
  have here: "t \<in> set (runner_tasks (runners s ! i))" using i(2) by (simp add: runner_tasks_def)
  have same: "set (runner_tasks (runners s' ! j)) = set (runner_tasks (runners s ! j))" if "j < length (runners s)" for j
    using i that by (auto simp: nth_list_update runner_tasks_def upd_runner_def)
  have len: "length (runners s') = length (runners s)" using i(4) by (simp add: upd_runner_def)
  have ex: "set (executed s') = insert (t, i + 1) (set (executed s))" using i(4) by simp
  have tasks': "affinity (tasks s' u) = affinity (tasks s u)"
    "last_runner_id (tasks s' u) = (if u = t then i + 1 else last_runner_id (tasks s u))" for u
    using i(4) tk by auto
  have before: "last_runner_id (tasks s t) \<in> {0, i + 1}" if "affinity (tasks s t)"
    by (rule affine_okD(2) [OF assms(1) that i(1) here])
  show ?thesis
  proof (rule affine_okI)
    fix u r assume "affinity (tasks s' u)" "(u, r) \<in> set (executed s')"
    then show "r = last_runner_id (tasks s' u) \<and> r \<noteq> 0"
      using affine_okD(1) [OF assms(1), of u r] before unfolding ex tasks' by auto
  next
    fix u j assume u: "affinity (tasks s' u)" "j < length (runners s')" "u \<in> set (runner_tasks (runners s' ! j))"
    have j: "j < length (runners s)" "u \<in> set (runner_tasks (runners s ! j))" using u(2,3) same len by simp_all
    have "u = t \<Longrightarrow> j = i" using reach_one_runner [OF assms(2) j(1) i(1) j(2)] here by simp
    then show "last_runner_id (tasks s' u) \<in> {0, j + 1}"
      using affine_okD(2) [OF assms(1) _ j] u(1) unfolding tasks' by auto
  qed
qed

lemma reach_affine: "sched_reach cfg known s \<Longrightarrow> affine_ok s"
proof (induction rule: sched_reach.induct)
  case (start ts)
  then show ?case by (intro affine_okI) (auto simp: scheduler_start_def runner_tasks_def)
next
  case (schedule known s t ok s')
  note f = schedule_fields [OF schedule(3)]
  show ?case by (rule affine_ok_less [OF schedule.IH]) (simp_all add: f)
next
  case (finish known s t s')
  then show ?case by (intro affine_ok_less [OF finish.IH])
    (auto simp: finish_rest_def task_finish_def Let_def split: option.splits if_splits)
next
  case (internal known s e s')
  show ?case
  proof (cases e)
    case (Give t rand)
    then obtain s1 where "give rand t s = Inr s1" "s' = s1\<lparr>taken := remove1 t (taken s)\<rparr>"
      using internal(3) by (cases "give rand t s") (auto split: if_splits)
    then show ?thesis by (intro affine_ok_less [OF affine_ok_give [OF internal.IH]]) auto
  next
    case (Run i fin)
    then show ?thesis using affine_ok_execute [OF internal.IH internal(1), of i fin s'] internal(3) by simp
  qed (use step_runner_tasks [OF internal(2,3)] step_tasks [OF internal(2,3)] in
      \<open>auto intro!: affine_ok_less [OF internal.IH]\<close>)
qed

section \<open>Without affinity\<close>

lemma min_runner_zero: "min_runner i cs (c, 0) = (c, 0)"
  by (induction cs arbitrary: i) auto

text \<open>The first runner never gets a task, so it always has the fewest, and its id is used as an index.\<close>

lemma first_runner_idle:
  "sched_reach cfg known s \<Longrightarrow> (\<forall>t. \<not> affinity (tasks s t)) \<longrightarrow> runners s \<noteq> [] \<longrightarrow> runner_tasks (runners s ! 0) = []"
proof (induction rule: sched_reach.induct)
  case (start ts)
  then show ?case by (simp add: scheduler_start_def runner_tasks_def)
next
  case (schedule known s t ok s')
  then show ?case using schedule_fields [OF schedule(3)] by simp
next
  case (finish known s t s')
  then have "runners s' = runners s \<and> (\<forall>u. affinity (tasks s' u) = affinity (tasks s u))"
    by (auto simp: finish_rest_def task_finish_def Let_def split: option.splits if_splits)
  then show ?case using finish.IH by simp
next
  case (internal known s e s')
  show ?case
  proof (intro impI)
    assume none: "\<forall>t. \<not> affinity (tasks s' t)" and ne: "runners s' \<noteq> []"
    have none': "\<forall>t. \<not> affinity (tasks s t)" using none step_tasks(1) [OF internal(2,3)] by simp
    show "runner_tasks (runners s' ! 0) = []"
    proof (cases e)
      case (Give t rand)
      then obtain s1 where s1: "give rand t s = Inr s1" "s' = s1\<lparr>taken := remove1 t (taken s)\<rparr>"
        using internal(3) by (auto split: if_splits sum.splits)
      obtain i where i: "i < length (runners s)"
        "s1 = s\<lparr>runners := (runners s)[i := (runners s ! i)\<lparr>runner_queue := cq_push (runner_queue (runners s ! i)) t\<rparr>]\<rparr>"
        by (rule give_runner [OF s1(1)])
      have idle: "runner_tasks (runners s ! 0) = []" using internal.IH none' i(1) by (metis length_0_conv less_nat_zero_code)
      then have "runner_queue (runners s ! 0) = []" by (simp add: runner_tasks_def)
      then have "get_target_runner_id rand s = 1" using i(1)
        by (cases "runners s") (simp_all add: get_target_runner_id_def cq_unsafe_size_def min_runner_zero)
      then have "runner_push 1 t s = Inr s1" using s1(1) none' by (simp add: give_def)
      then have "runners s1 ! 0 = runners s ! 0" by (auto simp: runner_push_def split: if_splits)
      then show ?thesis using idle s1(2) by simp
    qed (use step_runner_tasks [OF internal(2,3)] internal.IH none' ne in \<open>(force simp: subset_empty)+\<close>)
  qed
qed

section \<open>Properties\<close>


text \<open>A configuration of the examples, and their runs.\<close>

definition example_cfg :: "int \<Rightarrow> scheduler_config" where
  "example_cfg n = \<lparr>runner_count = n, single_loop_run_limit = 0, start_task_when_schedule_called = True,
     run_schedule_when_schedule_called = True\<rparr>"

definition example_task :: "bool \<Rightarrow> task" where
  "example_task aff = \<lparr>task_state = Constructed, affinity = aff, last_runner_id = 0, executions = 0\<rparr>"

fun sched_run :: "scheduler_config \<Rightarrow> event list \<Rightarrow> scheduler \<Rightarrow> (fault + scheduler) option" where
  "sched_run cfg [] s = Some (Inr s)"
| "sched_run cfg (e # es) s =
     (case sched_step cfg e s of None \<Rightarrow> None | Some (Inl f) \<Rightarrow> Some (Inl f) | Some (Inr s1) \<Rightarrow> sched_run cfg es s1)"

lemma sched_run_reach:
  "sched_reach cfg known s \<Longrightarrow> \<forall>e\<in>set es. internal e \<Longrightarrow> sched_run cfg es s = Some (Inr s') \<Longrightarrow> sched_reach cfg known s'"
proof (induction es arbitrary: s)
  case Nil
  then show ?case by simp
next
  case (Cons e es)
  then obtain s1 where s1: "sched_step cfg e s = Some (Inr s1)" "sched_run cfg es s1 = Some (Inr s')"
    by (auto split: option.splits sum.splits)
  have "sched_reach cfg known s1" by (rule sched_reach.internal [OF Cons.prems(1) _ s1(1)]) (use Cons.prems(2) in simp)
  then show ?case by (rule Cons.IH) (use Cons.prems(2) s1(2) in simp_all)
qed

text \<open>Task 0, with affinity and two runners, scheduled and executed twice.\<close>

lemma example_reach:
  "\<exists>s. sched_reach (example_cfg 2) [0] s \<and> executed s = [(0, 1), (0, 1)] \<and> affinity (tasks s 0) \<and>
    last_runner_id (tasks s 0) = 1 \<and> places s = [0]"
proof -
  let ?cfg = "example_cfg 2" and ?s0 = "scheduler_start (example_cfg 2) (\<lambda>_. example_task True)"
  let ?s1 = "schedule ?cfg True 0 ?s0"
  let ?es = "[Take, Give 0 7, Loop 0, Pop 0, Run 0 False, Pass 0, Take, Give 0 8, Loop 1, Pop 1, Pop 0, Run 0 False, Pass 0]"
  have "sched_reach ?cfg (if task_state (tasks ?s1 0) = Ready then [0] else []) ?s1"
    using sched_reach.schedule [OF sched_reach.start] by simp
  moreover have "task_state (tasks ?s1 0) = Ready" by code_simp
  ultimately have r: "sched_reach ?cfg [0] ?s1" by simp
  define o' where "o' = sched_run ?cfg ?es ?s1"
  have "(case o' of Some (Inr s) \<Rightarrow> executed s = [(0, 1), (0, 1)] \<and> affinity (tasks s 0) \<and>
      last_runner_id (tasks s 0) = 1 \<and> places s = [0] | _ \<Rightarrow> False)"
    unfolding o'_def by code_simp
  then obtain s where s: "o' = Some (Inr s)" "executed s = [(0, 1), (0, 1)] \<and> affinity (tasks s 0) \<and>
      last_runner_id (tasks s 0) = 1 \<and> places s = [0]"
    by (auto split: option.splits sum.splits)
  have "sched_reach ?cfg [0] s" by (rule sched_run_reach [OF r _ s(1) [unfolded o'_def]]) (simp add: internal_def)
  then show ?thesis using s(2) by blast
qed




text \<open>
  Tasks without affinity are never given to the first runner: with one runner the first such
  task is pushed to a runner that is not there, and with more of them every task goes to the
  second runner, however many wait for it.
\<close>

theorem no_affinity_misses_first_runner:
  assumes "sched_reach cfg known s" "\<forall>t. \<not> affinity (tasks s t)" "t \<in> set (taken s)" "runners s \<noteq> []"
  shows "if length (runners s) = 1 then sched_step cfg (Give t rand) s = Some (Inl Out_of_bounds)
    else \<exists>s'. sched_step cfg (Give t rand) s = Some (Inr s') \<and>
      runners s' = (runners s)[1 := (runners s ! 1)\<lparr>runner_queue := runner_queue (runners s ! 1) @ [t]\<rparr>]"
proof -
  have "runner_queue (runners s ! 0) = []"
    using first_runner_idle [OF assms(1)] assms(2,4) by (simp add: runner_tasks_def)
  then have "get_target_runner_id rand s = 1" using assms(4)
    by (cases "runners s") (simp_all add: get_target_runner_id_def cq_unsafe_size_def min_runner_zero)
  then have g: "give rand t s = runner_push 1 t s" using assms(2) by (simp add: give_def)
  show ?thesis
  proof (cases "length (runners s) = 1")
    case True
    then show ?thesis using g assms(3) by (simp add: runner_push_def)
  next
    case False
    then have "1 < length (runners s)" using assms(4) by (cases "runners s") auto
    then show ?thesis using g assms(3) False by (auto simp: runner_push_def cq_push_def)
  qed
qed

theorem no_affinity_misses_first_runner_witness:
  "\<exists>s. sched_reach (example_cfg 1) [0] s \<and> sched_step (example_cfg 1) (Give 0 5) s = Some (Inl Out_of_bounds)"
proof -
  let ?cfg = "example_cfg 1" and ?s0 = "scheduler_start (example_cfg 1) (\<lambda>_. example_task False)"
  let ?s1 = "schedule ?cfg True 0 ?s0"
  let ?s2 = "?s1\<lparr>sched_queue := [], taken := [0]\<rparr>"
  have "sched_reach ?cfg (if task_state (tasks ?s1 0) = Ready then [0] else []) ?s1"
    using sched_reach.schedule [OF sched_reach.start] by simp
  moreover have s1: "task_state (tasks ?s1 0) = Ready" "sched_queue ?s1 = [0]" "taken ?s1 = []" by code_simp+
  ultimately have r: "sched_reach ?cfg [0] ?s1" by simp
  have "sched_step ?cfg Take ?s1 = Some (Inr ?s2)" using s1 by (simp add: cq_pop_def)
  then have r2: "sched_reach ?cfg [0] ?s2" using sched_reach.internal [OF r, of Take] by (simp add: internal_def)
  have f: "\<forall>t. \<not> affinity (tasks ?s2 t)" "runners ?s2 \<noteq> []" "length (runners ?s2) = 1"
    using schedule_fields [of ?cfg True 0 ?s0] by (simp_all add: scheduler_start_def example_task_def example_cfg_def)
  show ?thesis using no_affinity_misses_first_runner [OF r2 f(1) _ f(2), of 0 5] f(3) r2 by auto
qed

text \<open>A task that finishes itself in \<open>on_execute\<close> is passed on like any other and throws next time.\<close>

lemma self_finish_throws:
  "case sched_run (example_cfg 1) [Schedule 0 True, Take, Give 0 0, Loop 0, Pop 0, Run 0 True, Pass 0, Take, Give 0 0, Pop 0, Run 0 False]
     (scheduler_start (example_cfg 1) (\<lambda>_. example_task True)) of
     Some (Inl f) \<Rightarrow> f = Thrown ''task not ready in execute'' | _ \<Rightarrow> False"
  by code_simp

end
