(* ===== verification/Task_Adaptor.thy ===== *)
theory Task_Adaptor
  imports Actor Task_Scheduler
begin

text \<open>
  \<open>actor::task_adaptor\<close> (\<open>src/actor/task_adaptor.cpp\<close>): an actor that a scheduler runs. The virtual
  functions of the task are those of the actor; \<open>task::start\<close>, \<open>execute\<close> and \<open>finish\<close> are as in
  \<open>Task_Scheduler\<close>, with what they call.
\<close>

section \<open>The model\<close>

text \<open>The task, the actor, the flags of its components and the world.\<close>

type_synonym ('t, 'w) adaptor = "task \<times> 't actor \<times> (addr \<Rightarrow> bool) \<times> 'w"

definition adaptor_new :: "'t actor \<Rightarrow> 'w \<Rightarrow> ('t, 'w) adaptor" where
  "adaptor_new a w =
     (\<lparr>task_state = task_state.Constructed, affinity = False, last_runner_id = 0, executions = 0\<rparr>, a, (\<lambda>_. False), w)"

definition adaptor_start ::
  "'t \<Rightarrow> 'w actor_overrides \<Rightarrow> 'w overrides \<Rightarrow> ('t, 'w) adaptor \<Rightarrow> bool \<times> ('t, 'w) adaptor" where
  "adaptor_start base ov cov ad =
     (case ad of (tk, st) \<Rightarrow>
        (case actor_start base ov cov st of (ok, st') \<Rightarrow> (let tk' = task_start ok tk in (task_state tk' = Ready, tk', st'))))"

definition adaptor_finish :: "'w actor_overrides \<Rightarrow> ('t, 'w) adaptor \<Rightarrow> ('t, 'w) adaptor" where
  "adaptor_finish ov ad =
     (case ad of (tk, a, flags, w) \<Rightarrow>
        (case actor_finish ov (a, w) of (a', w') \<Rightarrow> (task_finish tk, a', flags, w')))"

definition adaptor_execute :: "nat \<Rightarrow> 'w actor_overrides \<Rightarrow> ('t, 'w) adaptor \<Rightarrow> fault + ('t, 'w) adaptor" where
  "adaptor_execute runner ov ad =
     (case ad of (tk, a, flags, w) \<Rightarrow>
        (case task_execute runner False tk of
           Inl f \<Rightarrow> Inl f
         | Inr tk' \<Rightarrow> (case actor_execute ov (a, w) of (a', w') \<Rightarrow> Inr (tk', a', flags, w'))))"

section \<open>What the two states have to do with each other\<close>

datatype adaptor_op = Adaptor_start | Adaptor_execute nat | Adaptor_finish

text \<open>What becomes of the adaptor; an exception leaves it as it is.\<close>

fun adaptor_step ::
  "'t \<Rightarrow> 'w actor_overrides \<Rightarrow> 'w overrides \<Rightarrow> adaptor_op \<Rightarrow> ('t, 'w) adaptor \<Rightarrow> ('t, 'w) adaptor" where
  "adaptor_step base ov cov Adaptor_start ad = snd (adaptor_start base ov cov ad)"
| "adaptor_step base ov cov (Adaptor_execute r) ad = (case adaptor_execute r ov ad of Inl f \<Rightarrow> ad | Inr ad' \<Rightarrow> ad')"
| "adaptor_step base ov cov Adaptor_finish ad = adaptor_finish ov ad"

definition adaptor_agrees :: "('t, 'w) adaptor \<Rightarrow> bool" where
  "adaptor_agrees ad \<longleftrightarrow> (task_state (fst ad) = Ready \<longleftrightarrow> ac_state (fst (snd ad)) = Started)"

lemma actor_start_state:
  "actor_start base ov cov st = (ok, a', r) \<Longrightarrow> ac_state a' = (if ok then Started else ac_state (fst st))"
  by (auto simp: actor_start_def split: prod.splits if_splits)

lemma adaptor_step_agrees: "adaptor_agrees ad \<Longrightarrow> adaptor_agrees (adaptor_step base ov cov op ad)"
proof (cases op)
  case Adaptor_start
  then show "adaptor_agrees ad \<Longrightarrow> ?thesis"
    by (auto simp: adaptor_agrees_def adaptor_start_def task_start_def Let_def dest: actor_start_state split: prod.splits)
next
  case (Adaptor_execute r)
  then show "adaptor_agrees ad \<Longrightarrow> ?thesis"
    by (auto simp: adaptor_agrees_def adaptor_execute_def task_execute_def actor_execute_def Let_def split: prod.splits sum.splits if_splits)
next
  case Adaptor_finish
  then show "adaptor_agrees ad \<Longrightarrow> ?thesis"
    by (auto simp: adaptor_agrees_def adaptor_finish_def task_finish_def actor_finish_def split: prod.splits if_splits)
qed

text \<open>
  However a scheduler starts, executes and finishes an adaptor, its actor is started exactly when the task
  is ready; so \<open>on_execute\<close> of the actor is only reached in an actor that has started and not finished.
\<close>

theorem adaptor_in_step:
  assumes "ac_state a = actor_state.Constructed" "ad = fold (adaptor_step base ov cov) ops (adaptor_new a w)"
  shows "adaptor_agrees ad" "adaptor_execute r ov ad = Inr ad' \<Longrightarrow> ac_state (fst (snd ad)) = Started"
proof -
  have "adaptor_agrees (fold (adaptor_step base ov cov) ops b)" if "adaptor_agrees b" for b
    using that by (induction ops arbitrary: b) (simp_all add: adaptor_step_agrees)
  moreover have "adaptor_agrees (adaptor_new a w)" using assms(1) by (simp add: adaptor_agrees_def adaptor_new_def)
  ultimately show i: "adaptor_agrees ad" using assms(2) by simp
  show "adaptor_execute r ov ad = Inr ad' \<Longrightarrow> ac_state (fst (snd ad)) = Started"
    using i by (auto simp: adaptor_agrees_def adaptor_execute_def task_execute_def split: prod.splits sum.splits if_splits)
qed

end
