(* ===== verification/Object_Pool.thy ===== *)
theory Object_Pool
  imports Concurrent_Queue Id_Sequence
begin

text \<open>
  \<open>util::object_pool\<close> (\<open>include/lax/util/object_pool.hpp\<close>): a free list of object cells
  in front of an allocator. An object is its address; the allocator
  (\<open>std::allocator::allocate\<close>) gives an address that was never given before. The pool is an
  \<open>id_pool\<close>: a cell handed out is never handed out again while it is in use.
\<close>

section \<open>The model\<close>

record object_pool =
  op_queue :: "nat cqueue"      \<comment> \<open>\<open>q_\<close>, the cells waiting for reuse\<close>
  op_fresh :: nat               \<comment> \<open>the allocator: the next address it gives\<close>

definition op_alloc :: "object_pool \<Rightarrow> nat \<times> object_pool" where
  "op_alloc p =
     (case cq_pop (op_queue p) of
        Some (obj, q) \<Rightarrow> (obj, p\<lparr>op_queue := q\<rparr>)
      | None \<Rightarrow> (op_fresh p, p\<lparr>op_fresh := Suc (op_fresh p)\<rparr>))"

text \<open>\<open>construct_raw\<close> runs the constructor in the cell; only the cell matters here.\<close>

definition op_construct_raw :: "object_pool \<Rightarrow> nat \<times> object_pool" where
  "op_construct_raw p = op_alloc p"

definition op_dealloc :: "object_pool \<Rightarrow> nat \<Rightarrow> object_pool" where
  "op_dealloc p obj = p\<lparr>op_queue := cq_push (op_queue p) obj\<rparr>"

definition op_destroy :: "object_pool \<Rightarrow> nat \<Rightarrow> object_pool" where
  "op_destroy p obj = op_dealloc p obj"

definition op_unsafe_size :: "object_pool \<Rightarrow> nat" where
  "op_unsafe_size p = cq_unsafe_size (op_queue p)"

text \<open>
  \<open>cleanup\<close>, which the destructor of the pool calls: the cells given back to the allocator, in
  order. The loop ends because every \<open>pop\<close> shortens the queue.
\<close>

function op_cleanup :: "object_pool \<Rightarrow> nat list \<times> object_pool" where
  "op_cleanup p =
     (case cq_pop (op_queue p) of
        None \<Rightarrow> ([], p)
      | Some (obj, q) \<Rightarrow> (let (freed, p') = op_cleanup (p\<lparr>op_queue := q\<rparr>) in (obj # freed, p')))"
  by pat_completeness auto
termination
  by (relation "measure (\<lambda>p. length (op_queue p))") (auto simp: cq_pop_def split: list.splits)

declare op_cleanup.simps [simp del]

text \<open>
  \<open>object_pool::ref\<close>, the owning reference: \<open>None\<close> is one whose pointers are null. The
  references of a program are its variables, by number.
\<close>

type_synonym op_ref = "nat option"

definition op_construct :: "object_pool \<Rightarrow> op_ref \<times> object_pool" where
  "op_construct p = (let (obj, p') = op_alloc p in (Some obj, p'))"

definition op_construct_shared :: "object_pool \<Rightarrow> op_ref \<times> object_pool" where
  "op_construct_shared p = (let (obj, p') = op_alloc p in (Some obj, p'))"

definition ref_destructor :: "op_ref \<Rightarrow> object_pool \<Rightarrow> object_pool" where
  "ref_destructor r p = (case r of None \<Rightarrow> p | Some obj \<Rightarrow> op_destroy p obj)"

text \<open>
  \<open>ref::move\<close>, with the references \<open>this\<close> and \<open>rhs\<close>. The assignment operator is this function,
  with nothing done for the object \<open>this\<close> held before; the copy constructor is this function on
  a null reference.
\<close>

definition ref_move :: "nat \<Rightarrow> nat \<Rightarrow> (nat \<Rightarrow> op_ref) \<Rightarrow> (nat \<Rightarrow> op_ref)" where
  "ref_move this rhs refs =
     (if this = rhs then refs else refs(this := refs rhs, rhs := None))"

section \<open>Invariant and interpretation\<close>

definition object_pool_inv :: "object_pool \<Rightarrow> bool" where
  "object_pool_inv p \<longleftrightarrow> distinct (op_queue p) \<and> set (op_queue p) \<subseteq> {..<op_fresh p}"

definition op_live :: "object_pool \<Rightarrow> nat set" where
  "op_live p = {..<op_fresh p} - set (op_queue p)"

lemmas op_defs = op_alloc_def op_construct_raw_def op_dealloc_def op_destroy_def cq_pop_def cq_push_def
  object_pool_inv_def op_live_def

lemma finite_op_live [simp]: "finite (op_live p)"
  by (simp add: op_live_def)

interpretation cells: id_pool "\<lambda>p. Inr (op_construct_raw p)" op_destroy op_live "\<lambda>_. UNIV" object_pool_inv
proof (unfold_locales, goal_cases)
  case (5 p)
  have "op_live p \<noteq> UNIV" using finite_op_live [of p] infinite_UNIV_nat by metis
  then show ?case by simp
qed (auto simp: op_defs split: list.splits)

text \<open>The references of a program own the live cells: one each, and all of them live.\<close>

definition owned :: "(nat \<Rightarrow> op_ref) \<Rightarrow> object_pool \<Rightarrow> bool" where
  "owned refs p \<longleftrightarrow> object_pool_inv p \<and>
     (\<forall>i a. refs i = Some a \<longrightarrow> a \<in> op_live p) \<and>
     (\<forall>i j a. refs i = Some a \<longrightarrow> refs j = Some a \<longrightarrow> i = j)"

lemma owned_construct:
  assumes "owned refs p" "refs i = None" "op_construct p = (r, p')"
  shows "owned (refs(i := r)) p'"
proof -
  obtain a where a: "r = Some a" "op_construct_raw p = (a, p')"
    using assms(3) by (auto simp: op_construct_def op_construct_raw_def split: prod.splits)
  have new: "a \<notin> op_live p" "op_live p' = insert a (op_live p)" "object_pool_inv p'"
    using a(2) assms(1) by (auto simp: owned_def op_defs split: list.splits)
  show ?thesis using assms(1) a(1) new unfolding owned_def by (auto split: if_splits)
qed

lemma owned_move: "owned refs p \<Longrightarrow> owned (ref_move i j refs) p"
  unfolding owned_def ref_move_def by (auto split: if_splits)

lemma owned_destructor: "owned refs p \<Longrightarrow> owned (refs(i := None)) (ref_destructor (refs i) p)"
proof (cases "refs i")
  case None
  moreover have "refs(i := None) = refs" using None by (simp add: fun_upd_idem)
  moreover assume "owned refs p"
  ultimately show ?thesis by (simp add: ref_destructor_def)
next
  case (Some a)
  assume o: "owned refs p"
  then have "a \<in> op_live p" "object_pool_inv p" using Some by (auto simp: owned_def)
  then have "object_pool_inv (op_destroy p a)" "op_live (op_destroy p a) = op_live p - {a}"
    by (auto simp: op_defs)
  then show ?thesis using o Some by (auto simp: owned_def ref_destructor_def split: if_splits)
qed

lemma cleanup_frees: "op_cleanup p = (op_queue p, p\<lparr>op_queue := []\<rparr>)"
proof (induction p rule: op_cleanup.induct)
  case (1 p)
  then show ?case by (subst op_cleanup.simps) (auto simp: cq_pop_def split: list.splits)
qed

section \<open>Properties\<close>

text \<open>
  The destructor of the pool gives exactly the free cells back to the allocator, each once; a
  cell a reference still owns is not among them, and is never given back when that reference
  dies later.
\<close>

lemma cleanup_keeps_owned:
  assumes "owned refs p" "op_cleanup p = (freed, p')"
  shows "distinct freed" "set freed = {..<op_fresh p} - op_live p"
    "refs i = Some a \<Longrightarrow> a \<notin> set freed" "op_unsafe_size p' = 0"
  using assms by (auto simp: cleanup_frees owned_def op_defs op_unsafe_size_def cq_unsafe_size_def)

text \<open>
  Assigning one owning reference to another forgets the object the left one held: it stays
  in use, and no destructor of the two references will ever give its cell back.
\<close>

lemma ref_assign_leaks:
  assumes "owned refs p" "refs i = Some a" "refs j = Some b" "i \<noteq> j"
    and "refs' = ref_move i j refs"
  shows "a \<in> op_live (ref_destructor (refs' i) (ref_destructor (refs' j) p))"
proof -
  have "a \<noteq> b" "a \<in> op_live p" "b \<in> op_live p" using assms(1-4) by (auto simp: owned_def)
  then show ?thesis using assms(3-5) by (auto simp: ref_move_def ref_destructor_def op_defs)
qed

end
