(* ===== verification/State_Tree.thy ===== *)
theory State_Tree
  imports Lax_Prelude "HOL-Library.Sublist"
begin

text \<open>
  \<open>util::state\<close> (\<open>include/lax/util/state.hpp\<close>): the states of a hierarchical state machine.

  The states hang together by shared pointers, \<open>childs_\<close> downwards and \<open>parent_\<close> upwards. The
  model is the tree they form; a pointer to a state is the path of keys that leads to it from
  the root, the parent of a path is \<open>butlast\<close> of it and \<open>active_child_\<close> is the key of the child.
  A state is added to one parent only and before it is entered. \<open>on_enter\<close>, \<open>on_execute\<close> and
  \<open>on_exit\<close> are parameters (\<open>state_lambda.hpp\<close> sets them): they work on a world of their own and
  may ask the machine for safe transitions.
\<close>

section \<open>States\<close>

record stats =
  enter_count :: u32
  exit_count :: u32
  execution_count :: u32

datatype 'k state = State (skey: 'k) (active: bool) (active_child: "'k option") (stat: stats) (childs: "'k state list")

type_synonym 'k path = "'k list"

definition state_new :: "'k \<Rightarrow> 'k state" where
  "state_new k = State k False None \<lparr>enter_count = 0, exit_count = 0, execution_count = 0\<rparr> []"

fun has :: "'k \<Rightarrow> 'k state \<Rightarrow> bool" where
  "has t (State k a ac st cs) \<longleftrightarrow> k = t \<or> list_ex (has t) cs"

fun find_state :: "'k \<Rightarrow> 'k state \<Rightarrow> 'k path option"
  and find_child :: "'k \<Rightarrow> 'k state list \<Rightarrow> 'k path option" where
  "find_state t (State k a ac st cs) = (if k = t then Some [] else find_child t cs)"
| "find_child t [] = None"
| "find_child t (c # cs) = (case find_state t c of Some p \<Rightarrow> Some (skey c # p) | None \<Rightarrow> find_child t cs)"

text \<open>\<open>std::map::insert\<close>: the children stay sorted by their keys; a key that is there is kept.\<close>

definition insert_child :: "'k::linorder state \<Rightarrow> 'k state list \<Rightarrow> 'k state list" where
  "insert_child c cs =
     (if skey c \<in> skey ` set cs then cs
      else takeWhile (\<lambda>d. skey d < skey c) cs @ [c] @ dropWhile (\<lambda>d. skey d < skey c) cs)"

definition add_state :: "'k::linorder state \<Rightarrow> 'k state \<Rightarrow> bool \<times> 'k state" where
  "add_state c s =
     (if has (skey c) s then (False, s)
      else (True, State (skey s) (active s) (active_child s) (stat s) (insert_child c (childs s))))"

section \<open>Following and updating a path\<close>

fun node_at :: "'k path \<Rightarrow> 'k state \<Rightarrow> 'k state option" where
  "node_at [] s = Some s"
| "node_at (k # p) s = (case find (\<lambda>c. skey c = k) (childs s) of None \<Rightarrow> None | Some c \<Rightarrow> node_at p c)"

fun update_child :: "'k \<Rightarrow> ('k state \<Rightarrow> 'k state) \<Rightarrow> 'k state list \<Rightarrow> 'k state list" where
  "update_child k f [] = []"
| "update_child k f (c # cs) = (if skey c = k then f c # cs else c # update_child k f cs)"

fun update_at :: "'k path \<Rightarrow> ('k state \<Rightarrow> 'k state) \<Rightarrow> 'k state \<Rightarrow> 'k state" where
  "update_at [] f s = f s"
| "update_at (k # p) f s =
     State (skey s) (active s) (active_child s) (stat s) (update_child k (update_at p f) (childs s))"

definition set_active :: "bool \<Rightarrow> 'k state \<Rightarrow> 'k state" where
  "set_active a s = State (skey s) a (active_child s) (stat s) (childs s)"

definition set_active_child :: "'k option \<Rightarrow> 'k state \<Rightarrow> 'k state" where
  "set_active_child ac s = State (skey s) (active s) ac (stat s) (childs s)"

definition set_stat :: "(stats \<Rightarrow> stats) \<Rightarrow> 'k state \<Rightarrow> 'k state" where
  "set_stat f s = State (skey s) (active s) (active_child s) (f (stat s)) (childs s)"

section \<open>enter, exit and execute\<close>

record ('k, 'w) hooks =
  on_enter :: "'k path \<Rightarrow> 'w \<Rightarrow> 'w \<times> 'k list"
  on_execute :: "'k path \<Rightarrow> 'w \<Rightarrow> 'w \<times> 'k list"
  on_exit :: "'k path \<Rightarrow> 'w \<Rightarrow> 'w \<times> 'k list"

text \<open>What a hook acts on: its world, and the queue of the machine it may append to.\<close>

type_synonym ('k, 'w) ctx = "'w \<times> 'k list"

definition call_hook :: "('k path \<Rightarrow> 'w \<Rightarrow> 'w \<times> 'k list) \<Rightarrow> 'k path \<Rightarrow> ('k, 'w) ctx \<Rightarrow> ('k, 'w) ctx" where
  "call_hook f p c = (case f p (fst c) of (w, ts) \<Rightarrow> (w, snd c @ ts))"

text \<open>\<open>enter\<close> and \<open>exit\<close> of the state \<open>p\<close> of the tree.\<close>

definition enter_state :: "('k, 'w) hooks \<Rightarrow> 'k path \<Rightarrow> 'k state \<times> ('k, 'w) ctx \<Rightarrow> 'k state \<times> ('k, 'w) ctx" where
  "enter_state h p rc =
     (let r1 = update_at p (set_active True) (fst rc);
          r2 = (if p \<noteq> [] then update_at (butlast p) (set_active_child (Some (last p))) r1 else r1);
          r3 = update_at p (set_stat (\<lambda>st. st\<lparr>enter_count := enter_count st + 1\<rparr>)) r2
      in (r3, call_hook (on_enter h) p (snd rc)))"

definition exit_state :: "('k, 'w) hooks \<Rightarrow> 'k path \<Rightarrow> 'k state \<times> ('k, 'w) ctx \<Rightarrow> 'k state \<times> ('k, 'w) ctx" where
  "exit_state h p rc =
     (let r1 = update_at p (set_active False) (fst rc);
          r2 = (if p \<noteq> [] then update_at (butlast p)
                  (\<lambda>s. if active_child s = Some (last p) then set_active_child None s else s) r1 else r1);
          r3 = update_at p (set_stat (\<lambda>st. st\<lparr>exit_count := exit_count st + 1\<rparr>)) r2
      in (r3, call_hook (on_exit h) p (snd rc)))"

fun execute_state :: "('k, 'w) hooks \<Rightarrow> 'k path \<Rightarrow> 'k state \<Rightarrow> ('k, 'w) ctx \<Rightarrow> 'k state \<times> ('k, 'w) ctx"
  and execute_child :: "('k, 'w) hooks \<Rightarrow> 'k path \<Rightarrow> 'k \<Rightarrow> 'k state list \<Rightarrow> ('k, 'w) ctx \<Rightarrow>
    'k state list \<times> ('k, 'w) ctx" where
  "execute_state h p (State k a ac st cs) c =
     (if \<not> a then (State k a ac st cs, c)
      else (let c1 = call_hook (on_execute h) p c;
                (cs', c2) = (case ac of None \<Rightarrow> (cs, c1) | Some ck \<Rightarrow> execute_child h p ck cs c1)
            in (State k a ac (st\<lparr>execution_count := execution_count st + 1\<rparr>) cs', c2)))"
| "execute_child h p ck [] c = ([], c)"
| "execute_child h p ck (s # cs) c =
     (if skey s = ck then (let (s', c') = execute_state h (p @ [ck]) s c in (s' # cs, c'))
      else (let (cs', c') = execute_child h p ck cs c in (s # cs', c')))"

section \<open>Transition paths\<close>

datatype code = Noop | Exit | Enter | Target | Target_noop

type_synonym 'k transition_node = "code \<times> 'k path"

text \<open>
  \<open>get_transition_path\<close> where the target is in the subtree, with \<open>get_child_path\<close>: down to the
  first child, in the order of the keys, that has it.
\<close>

fun path_down :: "'k \<Rightarrow> 'k path \<Rightarrow> 'k state \<Rightarrow> bool \<times> 'k transition_node list"
  and get_child_path :: "'k \<Rightarrow> 'k path \<Rightarrow> 'k state list \<Rightarrow> bool \<times> 'k transition_node list" where
  "path_down t p (State k a ac st cs) =
     (if k = t then (True, [(if a then Noop else Target, p)])
      else (let (rc, ns) = get_child_path t p cs in (rc, (if a then Noop else Enter, p) # ns)))"
| "get_child_path t p [] = (False, [])"
| "get_child_path t p (c # cs) =
     (if has t c then path_down t (p @ [skey c]) c else get_child_path t p cs)"

text \<open>The whole of it, from the state \<open>p\<close>: up, exiting, until the target is below.\<close>

function get_transition_path :: "'k \<Rightarrow> 'k state \<Rightarrow> 'k path \<Rightarrow> bool \<times> 'k transition_node list" where
  "get_transition_path t root p =
     (case node_at p root of
        None \<Rightarrow> (False, [])
      | Some s \<Rightarrow>
          if has t s then path_down t p s
          else if p \<noteq> [] then (let (rc, ns) = get_transition_path t root (butlast p) in (rc, (Exit, p) # ns))
          else (False, []))"
  by pat_completeness auto
termination
  by (relation "measure (\<lambda>(t, root, p). length p)") auto

declare get_transition_path.simps [simp del]

section \<open>Paths of a tree\<close>

text \<open>The keys of children of one state differ (they are the keys of a \<open>std::map\<close>).\<close>

fun tree_ok :: "'k state \<Rightarrow> bool" where
  "tree_ok (State k a ac st cs) \<longleftrightarrow> distinct (map skey cs) \<and> list_all tree_ok cs"

lemma tree_ok_iff: "tree_ok s \<longleftrightarrow> distinct (map skey (childs s)) \<and> (\<forall>c\<in>set (childs s). tree_ok c)"
  by (cases s) (auto simp: list_all_iff)

lemma find_SomeD: "find P xs = Some x \<Longrightarrow> x \<in> set xs \<and> P x"
  by (induction xs) (auto split: if_splits)

lemma find_key:
  assumes "distinct (map skey cs)"
  shows "find (\<lambda>c. skey c = k) cs = Some c \<longleftrightarrow> c \<in> set cs \<and> skey c = k"
  using assms by (induction cs) (auto simp: image_iff)

lemma node_at_append:
  "node_at (p @ q) s = (case node_at p s of None \<Rightarrow> None | Some s' \<Rightarrow> node_at q s')"
  by (induction p s rule: node_at.induct) (auto split: option.splits)

lemma node_at_tree_ok: "node_at p s = Some s' \<Longrightarrow> tree_ok s \<Longrightarrow> tree_ok s'"
proof (induction p s rule: node_at.induct)
  case (1 s)
  then show ?case by simp
next
  case (2 k p s)
  then obtain c where c: "find (\<lambda>c. skey c = k) (childs s) = Some c" "node_at p c = Some s'"
    by (auto split: option.splits)
  then have "tree_ok c" using 2(3) tree_ok_iff [of s] by (auto dest: find_SomeD)
  then show ?case using 2(1) c by blast
qed

lemma node_at_snoc:
  assumes "tree_ok s" "node_at p s = Some s'"
  shows "node_at (p @ [k]) s = Some c \<longleftrightarrow> c \<in> set (childs s') \<and> skey c = k"
  using find_key [OF node_at_tree_ok [OF assms(2,1), unfolded tree_ok_iff [of s'], THEN conjunct1], of k c] assms(2)
  by (auto simp: node_at_append split: option.splits)

lemma node_at_prefix: "node_at (p @ q) s \<noteq> None \<Longrightarrow> node_at p s \<noteq> None"
  by (auto simp: node_at_append split: option.splits)

lemma node_at_key: "node_at p s = Some s' \<Longrightarrow> skey s' = (if p = [] then skey s else last p)"
  by (induction p s rule: node_at.induct) (auto split: option.splits dest!: find_SomeD)

lemma has_def': "has t s \<longleftrightarrow> skey s = t \<or> (\<exists>c\<in>set (childs s). has t c)"
  by (cases s) (auto simp: list_ex_iff)

lemma has_node: "node_at p s = Some s' \<Longrightarrow> has t s' \<Longrightarrow> has t s"
proof (induction p s rule: node_at.induct)
  case (1 s)
  then show ?case by simp
next
  case (2 k p s)
  then obtain c where "find (\<lambda>c. skey c = k) (childs s) = Some c" "node_at p c = Some s'"
    by (auto split: option.splits)
  then show ?case using 2 by (auto simp: has_def' [of t s] dest!: find_SomeD)
qed

section \<open>Updates along a path\<close>

text \<open>An update that keeps the key and the children of the state.\<close>

definition shape :: "('k state \<Rightarrow> 'k state) \<Rightarrow> bool" where
  "shape f \<longleftrightarrow> (\<forall>s. skey (f s) = skey s \<and> childs (f s) = childs s)"

lemma shape_intros [intro!]:
  "shape (set_active a)" "shape (set_active_child ac)" "shape (set_stat g)"
  "shape (\<lambda>s. if active_child s = x then set_active_child None s else s)"
  by (auto simp: shape_def set_active_def set_active_child_def set_stat_def)

lemma skey_update_at: "shape f \<Longrightarrow> skey (update_at p f s) = skey s"
  by (cases p) (auto simp: shape_def)

lemma find_update_child:
  assumes "\<And>c. skey (f c) = skey c"
  shows "find (\<lambda>c. skey c = k') (update_child k f cs) =
    (if k' = k then map_option f (find (\<lambda>c. skey c = k) cs) else find (\<lambda>c. skey c = k') cs)"
  by (induction cs) (auto simp: assms)

lemma node_at_childs: "childs s = childs s' \<Longrightarrow> p \<noteq> [] \<Longrightarrow> node_at p s = node_at p s'"
  by (cases p) auto

text \<open>Where an update lies strictly below, the state on the way is the same up to its children.\<close>

lemma node_at_update_same:
  assumes "shape f"
  shows "node_at p (update_at p f s) = map_option f (node_at p s)"
proof (induction p arbitrary: s)
  case Nil
  then show ?case by simp
next
  case (Cons k p)
  then show ?case using find_update_child [of "update_at p f" k k "childs s"] skey_update_at [OF assms]
    by (auto split: option.splits)
qed

lemma node_at_update_other:
  assumes "shape f" "node_at q s = Some s'"
  shows "\<exists>t. node_at q (update_at p f s) = Some t \<and>
    (if q = p then t = f s' else skey t = skey s' \<and> active t = active s' \<and> active_child t = active_child s' \<and>
      stat t = stat s')"
  using assms(2)
proof (induction q arbitrary: p s)
  case Nil
  then show ?case by (cases p) auto
next
  case (Cons k q)
  obtain c where c: "find (\<lambda>c. skey c = k) (childs s) = Some c" "node_at q c = Some s'"
    using Cons.prems by (auto split: option.splits)
  show ?case
  proof (cases p)
    case Nil
    then show ?thesis using Cons.prems assms(1) by (auto simp: shape_def)
  next
    case (Cons k' p')
    show ?thesis
    proof (cases "k' = k")
      case True
      then show ?thesis using Cons.IH [OF c(2), of p'] c(1) Cons find_update_child [of "update_at p' f" k k' "childs s"]
        skey_update_at [OF assms(1)] by auto
    next
      case False
      then show ?thesis using c Cons find_update_child [of "update_at p' f" k k' "childs s"]
        skey_update_at [OF assms(1)] by auto
    qed
  qed
qed

lemma node_at_update_None:
  assumes "shape f"
  shows "node_at q (update_at p f s) = None \<longleftrightarrow> node_at q s = None"
proof (induction q arbitrary: p s)
  case Nil
  then show ?case by simp
next
  case (Cons k q)
  show ?case
  proof (cases p)
    case Nil
    then show ?thesis using assms by (auto simp: shape_def)
  next
    case (Cons k' p')
    then show ?thesis using Cons.IH find_update_child [of "update_at p' f" k k' "childs s"]
        skey_update_at [OF assms] by (auto split: option.splits)
  qed
qed

lemma map_skey_update_child: "(\<And>c. skey (f c) = skey c) \<Longrightarrow> map skey (update_child k f cs) = map skey cs"
  by (induction cs) auto

lemma list_all_update_child: "list_all P cs \<Longrightarrow> (\<And>c. P c \<Longrightarrow> P (f c)) \<Longrightarrow> list_all P (update_child k f cs)"
  by (induction cs) auto

lemma tree_ok_update_at: "shape f \<Longrightarrow> tree_ok s \<Longrightarrow> tree_ok (update_at p f s)"
proof (induction p arbitrary: s)
  case Nil
  then show ?case by (simp add: tree_ok_iff [of s] tree_ok_iff [of "f s"] shape_def)
next
  case (Cons k p)
  then show ?case by (cases s)
    (auto simp: map_skey_update_child skey_update_at intro!: list_all_update_child)
qed

lemma has_update_child:
  "(\<And>c. has t (f c) = has t c) \<Longrightarrow> list_ex (has t) (update_child k f cs) = list_ex (has t) cs"
  by (induction cs) auto

lemma has_update_at: "shape f \<Longrightarrow> has t (update_at p f s) = has t s"
proof (induction p arbitrary: s)
  case Nil
  then show ?case by (auto simp: has_def' [of t s] has_def' [of t "f s"] shape_def)
next
  case (Cons k p)
  then show ?case by (cases s) (auto simp: has_update_child)
qed

end
