(* ===== verification/State_Machine.thy ===== *)
theory State_Machine
  imports State_Tree
begin

text \<open>
  \<open>util::state_machine\<close> (\<open>include/lax/util/state_machine.hpp\<close>): transitions between the states of
  a tree. What a hook asks for with \<open>tran\<close> is a safe transition, which waits in \<open>q_\<close>; a hook
  that calls \<open>tran\<close> with \<open>immediate\<close> re-enters \<open>tran_to\<close> and is not modelled.
\<close>

section \<open>The machine\<close>

record ('k, 'w) machine =
  root :: "'k state"
  current :: "'k path"
  ctx :: "('k, 'w) ctx"

abbreviation queue :: "('k, 'w) machine \<Rightarrow> 'k list" where
  "queue m \<equiv> snd (ctx m)"

definition no_stats :: stats where
  "no_stats = \<lparr>enter_count = 0, exit_count = 0, execution_count = 0\<rparr>"

text \<open>The constructor: the root has the key 0, is entered, and does nothing on it.\<close>

definition machine_new :: "'w \<Rightarrow> ('k::zero, 'w) machine" where
  "machine_new w =
     \<lparr>root = State 0 True None (no_stats\<lparr>enter_count := 1\<rparr>) [], current = [], ctx = (w, [])\<rparr>"

definition machine_add :: "'k::linorder \<Rightarrow> 'k state \<Rightarrow> ('k, 'w) machine \<Rightarrow> ('k, 'w) machine" where
  "machine_add parent c m =
     (case find_state parent (root m) of
        None \<Rightarrow> m
      | Some p \<Rightarrow> m\<lparr>root := update_at p (\<lambda>s. snd (add_state c s)) (root m)\<rparr>)"

definition run_node :: "('k, 'w) hooks \<Rightarrow> 'k transition_node \<Rightarrow> ('k, 'w) machine \<Rightarrow> ('k, 'w) machine" where
  "run_node h n m =
     (case n of
        (Enter, p) \<Rightarrow> (case enter_state h p (root m, ctx m) of (r, c) \<Rightarrow> m\<lparr>root := r, ctx := c\<rparr>)
      | (Target, p) \<Rightarrow> (case enter_state h p (root m, ctx m) of (r, c) \<Rightarrow> m\<lparr>root := r, ctx := c, current := p\<rparr>)
      | (Exit, p) \<Rightarrow> (case exit_state h p (root m, ctx m) of (r, c) \<Rightarrow> m\<lparr>root := r, ctx := c\<rparr>)
      | (Noop, p) \<Rightarrow> m\<lparr>current := p\<rparr>
      | (Target_noop, p) \<Rightarrow> m)"

definition current_key :: "('k, 'w) machine \<Rightarrow> 'k" where
  "current_key m = (if current m = [] then skey (root m) else last (current m))"

definition tran_to :: "('k, 'w) hooks \<Rightarrow> 'k \<Rightarrow> ('k, 'w) machine \<Rightarrow> ('k, 'w) machine" where
  "tran_to h t m =
     (if current_key m = t then m
      else (case get_transition_path t (root m) (current m) of
              (rc, path) \<Rightarrow> if \<not> rc then m else fold (run_node h) path m))"

datatype transition_option = safe | immediate

definition tran :: "('k, 'w) hooks \<Rightarrow> 'k \<Rightarrow> transition_option \<Rightarrow> ('k, 'w) machine \<Rightarrow> ('k, 'w) machine" where
  "tran h t opt m =
     (if opt = immediate then tran_to h t m else m\<lparr>ctx := (fst (ctx m), queue m @ [t])\<rparr>)"

text \<open>The loop does not end when the hooks keep asking for transitions.\<close>

partial_function (option) process_transitions ::
  "('k, 'w) hooks \<Rightarrow> ('k, 'w) machine \<Rightarrow> ('k, 'w) machine option" where
  "process_transitions h m =
     (case queue m of
        [] \<Rightarrow> Some m
      | t # ts \<Rightarrow>
          (let m1 = tran_to h t m
           in process_transitions h (m1\<lparr>ctx := (fst (ctx m1), tl (queue m1))\<rparr>)))"

definition machine_execute :: "('k, 'w) hooks \<Rightarrow> ('k, 'w) machine \<Rightarrow> ('k, 'w) machine option" where
  "machine_execute h m =
     (case process_transitions h m of
        None \<Rightarrow> None
      | Some m1 \<Rightarrow> (case execute_state h [] (root m1) (ctx m1) of (r, c) \<Rightarrow> Some (m1\<lparr>root := r, ctx := c\<rparr>)))"

section \<open>The active chain\<close>

text \<open>
  Active are the current state and the states above it, and each of them points to the next.
\<close>

definition on_chain :: "'k path \<Rightarrow> 'k state \<Rightarrow> bool" where
  "on_chain cur r \<longleftrightarrow> node_at cur r \<noteq> None \<and>
     (\<forall>p s. node_at p r = Some s \<longrightarrow> active s = prefix p cur \<and>
        active_child s = (if strict_prefix p cur then Some (cur ! length p) else None))"

definition machine_ok :: "('k, 'w) machine \<Rightarrow> bool" where
  "machine_ok m \<longleftrightarrow> tree_ok (root m) \<and> on_chain (current m) (root m)"

lemma on_chainD: "on_chain cur r \<Longrightarrow> node_at p r = Some s \<Longrightarrow>
    active s = prefix p cur \<and> active_child s = (if strict_prefix p cur then Some (cur ! length p) else None)"
  by (simp add: on_chain_def)

lemma set_fields [simp]:
  "active (set_active a s) = a" "active_child (set_active a s) = active_child s"
  "active (set_active_child x s) = active s" "active_child (set_active_child x s) = x"
  "active (set_stat f s) = active s" "active_child (set_stat f s) = active_child s"
  by (simp_all add: set_active_def set_active_child_def set_stat_def)

text \<open>What an update does to the flags of every state.\<close>

lemma flags_update:
  assumes "shape f" "node_at q (update_at p f r) = Some s"
  obtains s0 where "node_at q r = Some s0"
    "active s = active (if q = p then f s0 else s0)" "active_child s = active_child (if q = p then f s0 else s0)"
proof -
  obtain s0 where s0: "node_at q r = Some s0"
    using assms node_at_update_None [OF assms(1), of q p r] by (cases "node_at q r") auto
  show thesis using node_at_update_other [OF assms(1) s0, of p] assms(2) by (intro that [OF s0]) (auto split: if_splits)
qed

lemma flags_active:
  assumes "node_at q (update_at p (set_active a) r) = Some s"
  shows "\<exists>s0. node_at q r = Some s0 \<and> active s = (if q = p then a else active s0) \<and> active_child s = active_child s0"
  by (rule flags_update [OF shape_intros(1) assms]) (auto split: if_splits)

lemma flags_active_child:
  assumes "node_at q (update_at p (set_active_child x) r) = Some s"
  shows "\<exists>s0. node_at q r = Some s0 \<and> active s = active s0 \<and> active_child s = (if q = p then x else active_child s0)"
  by (rule flags_update [OF shape_intros(2) assms]) (auto split: if_splits)

lemma flags_stat:
  assumes "node_at q (update_at p (set_stat f) r) = Some s"
  shows "\<exists>s0. node_at q r = Some s0 \<and> active s = active s0 \<and> active_child s = active_child s0"
  by (rule flags_update [OF shape_intros(3) assms]) (auto split: if_splits)

lemma flags_reset:
  assumes "node_at q (update_at p (\<lambda>s. if active_child s = x then set_active_child None s else s) r) = Some s"
  shows "\<exists>s0. node_at q r = Some s0 \<and> active s = active s0 \<and>
    active_child s = (if q = p \<and> active_child s0 = x then None else active_child s0)"
  by (rule flags_update [OF shape_intros(4) assms]) (auto split: if_splits)

lemma prefix_snoc': "prefix p (q @ [k]) \<longleftrightarrow> p = q @ [k] \<or> prefix p q"
  by (simp add: prefix_snoc)

lemma strict_prefix_snoc: "strict_prefix p (q @ [k]) \<longleftrightarrow> prefix p q"
  by (auto simp: strict_prefix_def prefix_snoc)

lemma nth_chain: "strict_prefix p q \<Longrightarrow> (q @ [k]) ! length p = q ! length p"
  by (auto simp: strict_prefix_def prefix_def nth_append)

lemma enter_chain:
  assumes "on_chain q (fst rc)" "node_at (q @ [k]) (fst rc) \<noteq> None"
  shows "on_chain (q @ [k]) (fst (enter_state h (q @ [k]) rc))"
proof -
  let ?p = "q @ [k]"
  let ?r1 = "update_at ?p (set_active True) (fst rc)"
  let ?r2 = "update_at q (set_active_child (Some k)) ?r1"
  let ?g = "set_stat (\<lambda>st. st\<lparr>enter_count := enter_count st + 1\<rparr>)"
  have r: "fst (enter_state h ?p rc) = update_at ?p ?g ?r2" by (simp add: enter_state_def)
  have "node_at ?p (update_at ?p ?g ?r2) \<noteq> None"
    using assms(2) by (simp add: node_at_update_None shape_intros)
  moreover have "active s = prefix p ?p \<and> active_child s = (if strict_prefix p ?p then Some (?p ! length p) else None)"
    if s: "node_at p (update_at ?p ?g ?r2) = Some s" for p s
  proof -
    obtain s2 where s2: "node_at p ?r2 = Some s2" "active s = active s2" "active_child s = active_child s2"
      using flags_stat [OF s] by blast
    obtain s1 where s1: "node_at p ?r1 = Some s1" "active s2 = active s1"
      "active_child s2 = (if p = q then Some k else active_child s1)"
      using flags_active_child [OF s2(1)] by blast
    obtain s0 where s0: "node_at p (fst rc) = Some s0" "active s1 = (if p = ?p then True else active s0)"
      "active_child s1 = active_child s0"
      using flags_active [OF s1(1)] by blast
    note c = on_chainD [OF assms(1) s0(1)]
    show ?thesis
    proof (cases "p = q")
      case True
      then show ?thesis using c s2 s1 s0 by (simp add: strict_prefix_snoc)
    next
      case False
      then have "strict_prefix p q \<longleftrightarrow> prefix p q" by (auto simp: strict_prefix_def)
      then show ?thesis using c s2 s1 s0 False by (auto simp: prefix_snoc' strict_prefix_snoc nth_chain)
    qed
  qed
  ultimately show ?thesis unfolding r on_chain_def by blast
qed

lemma exit_chain:
  assumes "on_chain (q @ [k]) (fst rc)"
  shows "on_chain q (fst (exit_state h (q @ [k]) rc))"
proof -
  let ?p = "q @ [k]"
  let ?f = "\<lambda>s. if active_child s = Some k then set_active_child None s else s"
  let ?r1 = "update_at ?p (set_active False) (fst rc)"
  let ?r2 = "update_at q ?f ?r1"
  let ?g = "set_stat (\<lambda>st. st\<lparr>exit_count := exit_count st + 1\<rparr>)"
  have r: "fst (exit_state h ?p rc) = update_at ?p ?g ?r2" by (simp add: exit_state_def)
  have "node_at q (fst rc) \<noteq> None" using assms node_at_prefix [of q "[k]"] by (auto simp: on_chain_def)
  then have "node_at q (update_at ?p ?g ?r2) \<noteq> None"
    by (simp add: node_at_update_None shape_intros)
  moreover have "active s = prefix p q \<and> active_child s = (if strict_prefix p q then Some (q ! length p) else None)"
    if s: "node_at p (update_at ?p ?g ?r2) = Some s" for p s
  proof -
    obtain s2 where s2: "node_at p ?r2 = Some s2" "active s = active s2" "active_child s = active_child s2"
      using flags_stat [OF s] by blast
    obtain s1 where s1: "node_at p ?r1 = Some s1" "active s2 = active s1"
      "active_child s2 = (if p = q \<and> active_child s1 = Some k then None else active_child s1)"
      using flags_reset [OF s2(1)] by blast
    obtain s0 where s0: "node_at p (fst rc) = Some s0" "active s1 = (if p = ?p then False else active s0)"
      "active_child s1 = active_child s0"
      using flags_active [OF s1(1)] by blast
    note c = on_chainD [OF assms s0(1)]
    have "\<not> prefix ?p q" by (auto dest: prefix_length_le)
    show ?thesis
    proof (cases "p = q")
      case True
      then show ?thesis using c s2 s1 s0 by (simp add: strict_prefix_snoc)
    next
      case False
      then have "strict_prefix p q \<longleftrightarrow> prefix p q" by (auto simp: strict_prefix_def)
      then show ?thesis using c s2 s1 s0 False \<open>\<not> prefix ?p q\<close>
        by (auto simp: prefix_snoc' strict_prefix_snoc nth_chain)
    qed
  qed
  ultimately show ?thesis unfolding r on_chain_def by blast
qed

section \<open>The shape of a transition path\<close>

text \<open>The states from below \<open>a\<close> down to \<open>a @ x\<close>.\<close>

fun downs :: "'k path \<Rightarrow> 'k path \<Rightarrow> 'k path list" where
  "downs a [] = []"
| "downs a (k # x) = (a @ [k]) # downs (a @ [k]) x"

lemma downs_snoc: "downs a (x @ [k]) = downs a x @ [a @ x @ [k]]"
  by (induction a x rule: downs.induct) auto

lemma downs_eq_Nil [simp]: "downs a x = [] \<longleftrightarrow> x = []"
  by (cases x) auto

lemma last_downs: "x \<noteq> [] \<Longrightarrow> last (downs a x) = a @ x"
  by (induction a x rule: downs.induct) auto

definition enters :: "'k path list \<Rightarrow> 'k transition_node list" where
  "enters ps = (if ps = [] then [] else map (Pair Enter) (butlast ps) @ [(Target, last ps)])"

lemma enters_Cons: "enters (p # ps) = (if ps = [] then Target else Enter, p) # enters ps"
  by (simp add: enters_def)

definition inactive :: "'k state \<Rightarrow> bool" where
  "inactive s \<longleftrightarrow> (\<forall>p s'. node_at p s = Some s' \<longrightarrow> \<not> active s')"

lemma get_child_path_first:
  "list_ex (has t) cs \<Longrightarrow> \<exists>c\<in>set cs. has t c \<and> get_child_path t p cs = path_down t (p @ [skey c]) c"
  by (induction cs) auto

lemma path_down_inactive:
  "tree_ok s \<Longrightarrow> inactive s \<Longrightarrow> has t s \<Longrightarrow>
    \<exists>y s'. path_down t p s = (True, enters (p # downs p y)) \<and> node_at y s = Some s' \<and> skey s' = t"
proof (induction s arbitrary: p)
  case (State k a ac st cs)
  have "node_at [] (State k a ac st cs) = Some (State k a ac st cs)" by simp
  then have a: "\<not> a" using State.prems(2) unfolding inactive_def by fastforce
  show ?case
  proof (cases "k = t")
    case True
    then show ?thesis using a by (intro exI [of _ "[]"]) (simp add: enters_def)
  next
    case False
    then obtain c where c: "c \<in> set cs" "has t c" "get_child_path t p cs = path_down t (p @ [skey c]) c"
      using State.prems(3) get_child_path_first [of t cs p] by auto
    have ok: "tree_ok c" using State.prems(1) c(1) by (simp add: list_all_iff)
    have f: "find (\<lambda>d. skey d = skey c) cs = Some c" using State.prems(1) c(1) find_key [of cs "skey c" c] by simp
    have "inactive c" unfolding inactive_def
    proof (intro allI impI)
      fix q s' assume "node_at q c = Some s'"
      then have "node_at (skey c # q) (State k a ac st cs) = Some s'" using f by simp
      then show "\<not> active s'" using State.prems(2) unfolding inactive_def by blast
    qed
    from State.IH [OF c(1) ok this c(2), of "p @ [skey c]"]
    obtain y s' where y: "path_down t (p @ [skey c]) c = (True, enters ((p @ [skey c]) # downs (p @ [skey c]) y))"
      "node_at y c = Some s'" "skey s' = t" by blast
    then show ?thesis using False a c(3) f
      by (intro exI [of _ "skey c # y"] exI [of _ s']) (simp add: enters_Cons)
  qed
qed

text \<open>Where the target is below the state \<open>p\<close> of the chain, but not below the next one.\<close>

lemma path_here:
  assumes "tree_ok r" "on_chain (p @ z) r" "node_at p r = Some s" "has t s"
    and z: "z = [] \<or> (\<exists>s'. node_at (p @ [hd z]) r = Some s' \<and> \<not> has t s')"
  shows "\<exists>y s'. get_transition_path t r p = (True, (Noop, p) # enters (downs p y)) \<and>
    node_at (p @ y) r = Some s' \<and> skey s' = t \<and> (y = [] \<or> z = [] \<or> hd y \<noteq> hd z)"
proof (cases "skey s = t")
  case True
  have "active s" using on_chainD [OF assms(2,3)] by simp
  then have "path_down t p s = (True, [(Noop, p)])" using True by (cases s) simp
  then have "get_transition_path t r p = (True, (Noop, p) # enters (downs p []))"
    using assms(3,4) by (subst get_transition_path.simps) (simp add: enters_def)
  then show ?thesis using assms(3) True by (intro exI [of _ "[]"] exI [of _ s]) simp
next
  case False
  have ok: "tree_ok s" by (rule node_at_tree_ok [OF assms(3,1)])
  obtain c where c: "c \<in> set (childs s)" "has t c" "get_child_path t p (childs s) = path_down t (p @ [skey c]) c"
    using get_child_path_first [of t "childs s" p] assms(4) False by (auto simp: has_def' [of t s] list_ex_iff)
  have nc: "node_at (p @ [skey c]) r = Some c" using node_at_snoc [OF assms(1,3), of "skey c" c] c(1) by simp
  have ne: "z = [] \<or> skey c \<noteq> hd z" using z nc c(2) by auto
  have "inactive c" unfolding inactive_def
  proof (intro allI impI)
    fix q s' assume "node_at q c = Some s'"
    then have "node_at (p @ skey c # q) r = Some s'" using nc node_at_append [of "p @ [skey c]" q r] by simp
    moreover have "\<not> prefix (p @ skey c # q) (p @ z)" using ne by (cases z) auto
    ultimately show "\<not> active s'" using on_chainD [OF assms(2)] by blast
  qed
  moreover have "tree_ok c" using ok c(1) tree_ok_iff [of s] by blast
  ultimately obtain y s' where y: "path_down t (p @ [skey c]) c = (True, enters ((p @ [skey c]) # downs (p @ [skey c]) y))"
      "node_at y c = Some s'" "skey s' = t"
    using path_down_inactive [of c t "p @ [skey c]"] c(2) by blast
  have "active s" using on_chainD [OF assms(2,3)] by simp
  then have "get_transition_path t r p = (True, (Noop, p) # enters (downs p (skey c # y)))"
    using assms(3,4) False c(3) y(1) by (subst get_transition_path.simps, cases s) simp
  moreover have "node_at (p @ skey c # y) r = Some s'"
    using nc y(2) node_at_append [of "p @ [skey c]" y r] by simp
  ultimately show ?thesis using y(3) ne by (intro exI [of _ "skey c # y"] exI [of _ s']) auto
qed

text \<open>From a state of the chain: exits up to \<open>a\<close>, nothing there, enters down from it.\<close>

lemma transition_path:
  assumes "tree_ok r" "has t r"
  shows "on_chain (p @ z) r \<Longrightarrow> z = [] \<or> (\<exists>s. node_at (p @ [hd z]) r = Some s \<and> \<not> has t s) \<Longrightarrow>
    \<exists>a x y s. p = a @ x \<and> get_transition_path t r p = (True, map (Pair Exit) (rev (downs a x)) @ (Noop, a) # enters (downs a y)) \<and>
      node_at (a @ y) r = Some s \<and> skey s = t \<and> (y = [] \<or> x @ z = [] \<or> hd y \<noteq> hd (x @ z))"
proof (induction p arbitrary: z rule: rev_induct)
  case Nil
  from path_here [OF assms(1) Nil(1) _ assms(2) Nil(2)]
  obtain y s' where "get_transition_path t r [] = (True, (Noop, []) # enters (downs [] y))"
    "node_at ([] @ y) r = Some s'" "skey s' = t" "y = [] \<or> z = [] \<or> hd y \<noteq> hd z" by auto
  then show ?case by (intro exI [of _ "[]"] exI [of _ y] exI [of _ s']) simp
next
  case (snoc k p)
  have "node_at ((p @ [k]) @ z) r \<noteq> None" using snoc.prems(1) by (simp add: on_chain_def)
  then obtain s where s: "node_at (p @ [k]) r = Some s" using node_at_prefix by blast
  show ?case
  proof (cases "has t s")
    case True
    from path_here [OF assms(1) snoc.prems(1) s True snoc.prems(2)]
    obtain y s' where "get_transition_path t r (p @ [k]) = (True, (Noop, p @ [k]) # enters (downs (p @ [k]) y))"
      "node_at ((p @ [k]) @ y) r = Some s'" "skey s' = t" "y = [] \<or> z = [] \<or> hd y \<noteq> hd z" by blast
    then show ?thesis by (intro exI [of _ "p @ [k]"] exI [of _ "[]"] exI [of _ y] exI [of _ s']) simp
  next
    case False
    have chain: "on_chain (p @ k # z) r" using snoc.prems(1) by simp
    from snoc.IH [OF this] s False obtain a x y s' where ax: "p = a @ x"
      "get_transition_path t r p = (True, map (Pair Exit) (rev (downs a x)) @ (Noop, a) # enters (downs a y))"
      "node_at (a @ y) r = Some s'" "skey s' = t" "y = [] \<or> x @ k # z = [] \<or> hd y \<noteq> hd (x @ k # z)" by auto
    have "get_transition_path t r (p @ [k]) =
        (True, map (Pair Exit) (rev (downs a (x @ [k]))) @ (Noop, a) # enters (downs a y))"
      using s False ax(1,2) butlast_snoc [of "a @ x" k] by (subst get_transition_path.simps) (simp add: downs_snoc)
    then show ?thesis using ax by (intro exI [of _ a] exI [of _ "x @ [k]"] exI [of _ y] exI [of _ s']) simp
  qed
qed

section \<open>Running a path\<close>

text \<open>What a transition leaves alone: which states there are, and their keys.\<close>

definition same_shape :: "'k state \<Rightarrow> 'k state \<Rightarrow> bool" where
  "same_shape r r' \<longleftrightarrow> skey r' = skey r \<and> (tree_ok r \<longrightarrow> tree_ok r') \<and>
     (\<forall>t. has t r' = has t r) \<and> (\<forall>p. node_at p r' = None \<longleftrightarrow> node_at p r = None)"

lemma same_shape_refl [simp]: "same_shape r r"
  by (simp add: same_shape_def)

lemma same_shape_node: "same_shape r r' \<Longrightarrow> node_at p r' \<noteq> None \<longleftrightarrow> node_at p r \<noteq> None"
  by (simp add: same_shape_def)

lemma same_shape_trans: "same_shape r r' \<Longrightarrow> same_shape r' r'' \<Longrightarrow> same_shape r r''"
  by (simp add: same_shape_def)

lemma same_shape_update: "shape f \<Longrightarrow> same_shape r (update_at p f r)"
  by (simp add: same_shape_def skey_update_at tree_ok_update_at has_update_at node_at_update_None)

lemma same_shape_enter: "same_shape (fst rc) (fst (enter_state h p rc))"
  unfolding enter_state_def Let_def fst_conv
  by (rule same_shape_trans [OF _ same_shape_update])
    (auto intro!: same_shape_trans [OF same_shape_update same_shape_update] same_shape_update simp del: update_at.simps)

lemma same_shape_exit: "same_shape (fst rc) (fst (exit_state h p rc))"
  unfolding exit_state_def Let_def fst_conv
  by (rule same_shape_trans [OF _ same_shape_update])
    (auto intro!: same_shape_trans [OF same_shape_update same_shape_update] same_shape_update simp del: update_at.simps)

lemma ctx_enter [simp]: "snd (enter_state h p rc) = call_hook (on_enter h) p (snd rc)"
  by (simp add: enter_state_def Let_def)

lemma ctx_exit [simp]: "snd (exit_state h p rc) = call_hook (on_exit h) p (snd rc)"
  by (simp add: exit_state_def Let_def)

lemma run_exits:
  "on_chain (a @ x) (root m) \<Longrightarrow>
    \<exists>r. fold (run_node h) (map (Pair Exit) (rev (downs a x))) m =
        m\<lparr>root := r, ctx := fold (call_hook (on_exit h)) (rev (downs a x)) (ctx m)\<rparr> \<and>
      on_chain a r \<and> same_shape (root m) r"
proof (induction x arbitrary: m rule: rev_induct)
  case Nil
  then show ?case by (intro exI [of _ "root m"]) simp
next
  case (snoc k x)
  let ?e = "exit_state h (a @ x @ [k]) (root m, ctx m)"
  let ?m = "m\<lparr>root := fst ?e, ctx := snd ?e\<rparr>"
  have "on_chain (a @ x) (root ?m)"
    using exit_chain [of "a @ x" k "(root m, ctx m)" h] snoc.prems by simp
  from snoc.IH [OF this] obtain r where r: "fold (run_node h) (map (Pair Exit) (rev (downs a x))) ?m =
      ?m\<lparr>root := r, ctx := fold (call_hook (on_exit h)) (rev (downs a x)) (ctx ?m)\<rparr>"
    "on_chain a r" "same_shape (root ?m) r" by blast
  moreover have "run_node h (Exit, a @ x @ [k]) m = ?m" by (simp add: run_node_def case_prod_beta)
  moreover have "same_shape (root m) r"
    using same_shape_trans [OF same_shape_exit [of "(root m, ctx m)" h "a @ x @ [k]"]] r(3) by simp
  ultimately show ?case by (intro exI [of _ r]) (simp add: downs_snoc)
qed

lemma run_enters:
  "on_chain a (root m) \<Longrightarrow> node_at (a @ y) (root m) \<noteq> None \<Longrightarrow> current m = a \<Longrightarrow>
    \<exists>r. fold (run_node h) (enters (downs a y)) m =
        m\<lparr>root := r, ctx := fold (call_hook (on_enter h)) (downs a y) (ctx m), current := a @ y\<rparr> \<and>
      on_chain (a @ y) r \<and> same_shape (root m) r"
proof -
  have gen: "\<exists>r. fold (run_node h) (enters (downs a y)) m =
        m\<lparr>root := r, ctx := fold (call_hook (on_enter h)) (downs a y) (ctx m),
          current := (if y = [] then current m else a @ y)\<rparr> \<and>
      on_chain (a @ y) r \<and> same_shape (root m) r"
    if "on_chain a (root m)" "node_at (a @ y) (root m) \<noteq> None" for a m
    using that
  proof (induction a y arbitrary: m rule: downs.induct)
    case (1 a)
    then show ?case by (intro exI [of _ "root m"]) (simp add: enters_def)
  next
    case (2 a k x)
    let ?e = "enter_state h (a @ [k]) (root m, ctx m)"
    let ?m = "m\<lparr>root := fst ?e, ctx := snd ?e, current := (if x = [] then a @ [k] else current m)\<rparr>"
    have "node_at (a @ [k]) (root m) \<noteq> None"
      using 2(3) node_at_prefix [of "a @ [k]" x "root m"] by simp
    then have "on_chain (a @ [k]) (root ?m)"
      using enter_chain [of a "(root m, ctx m)" k h] 2(2) by simp
    moreover have sh: "same_shape (root m) (root ?m)" using same_shape_enter [of "(root m, ctx m)"] by simp
    then have "node_at ((a @ [k]) @ x) (root ?m) \<noteq> None" using 2(3) by (simp add: same_shape_def)
    ultimately obtain r where r: "fold (run_node h) (enters (downs (a @ [k]) x)) ?m =
        ?m\<lparr>root := r, ctx := fold (call_hook (on_enter h)) (downs (a @ [k]) x) (ctx ?m),
          current := (if x = [] then current ?m else (a @ [k]) @ x)\<rparr>"
      "on_chain ((a @ [k]) @ x) r" "same_shape (root ?m) r" using 2(1) by blast
    moreover have "run_node h (if downs (a @ [k]) x = [] then Target else Enter, a @ [k]) m = ?m"
      by (simp add: run_node_def case_prod_beta)
    ultimately show ?case using same_shape_trans [OF sh]
      by (intro exI [of _ r]) (simp add: enters_Cons split: if_splits)
  qed
  assume "on_chain a (root m)" "node_at (a @ y) (root m) \<noteq> None" "current m = a"
  then show ?thesis using gen [of a m] by (cases "y = []") auto
qed

section \<open>tran\_to\<close>

lemma key_of_path: "node_at p r = Some s \<Longrightarrow> (if p = [] then skey r else last p) = skey s"
  by (simp add: node_at_key)

lemma tran_to_run:
  assumes "machine_ok m" "has t (root m)"
  obtains a x y r where "current m = a @ x" "x = [] \<or> y = [] \<or> hd x \<noteq> hd y"
    "tran_to h t m = m\<lparr>root := r,
       ctx := fold (call_hook (on_enter h)) (downs a y) (fold (call_hook (on_exit h)) (rev (downs a x)) (ctx m)),
       current := a @ y\<rparr>"
    "on_chain (a @ y) r" "same_shape (root m) r" "current_key (tran_to h t m) = t"
proof (cases "current_key m = t")
  case True
  show thesis
    by (rule that [of "current m" "[]" "[]" "root m"]) (use assms(1) True in \<open>auto simp: tran_to_def machine_ok_def\<close>)
next
  case False
  have ok: "tree_ok (root m)" "on_chain (current m @ []) (root m)" using assms(1) by (simp_all add: machine_ok_def)
  from transition_path [OF ok(1) assms(2) ok(2)]
  obtain a x y s where p: "current m = a @ x"
    "get_transition_path t (root m) (current m) =
      (True, map (Pair Exit) (rev (downs a x)) @ (Noop, a) # enters (downs a y))"
    "node_at (a @ y) (root m) = Some s" "skey s = t" "y = [] \<or> x @ [] = [] \<or> hd y \<noteq> hd (x @ [])" by blast
  let ?c = "fold (call_hook (on_exit h)) (rev (downs a x)) (ctx m)"
  have "on_chain (a @ x) (root m)" using ok(2) p(1) by simp
  from run_exits [OF this, of h] obtain r1 where r1:
    "fold (run_node h) (map (Pair Exit) (rev (downs a x))) m = m\<lparr>root := r1, ctx := ?c\<rparr>"
    "on_chain a r1" "same_shape (root m) r1" by blast
  let ?m = "m\<lparr>root := r1, ctx := ?c, current := a\<rparr>"
  have noop: "run_node h (Noop, a) (m\<lparr>root := r1, ctx := ?c\<rparr>) = ?m" by (simp add: run_node_def)
  have "on_chain a (root ?m)" "node_at (a @ y) (root ?m) \<noteq> None" "current ?m = a"
    using r1(2,3) p(3) by (simp_all add: same_shape_def)
  from run_enters [OF this, of h] obtain r where r:
    "fold (run_node h) (enters (downs a y)) ?m =
       ?m\<lparr>root := r, ctx := fold (call_hook (on_enter h)) (downs a y) (ctx ?m), current := a @ y\<rparr>"
    "on_chain (a @ y) r" "same_shape (root ?m) r" by blast
  have sh: "same_shape (root m) r" using same_shape_trans [OF r1(3)] r(3) by simp
  have run: "tran_to h t m = m\<lparr>root := r, ctx := fold (call_hook (on_enter h)) (downs a y) ?c, current := a @ y\<rparr>"
    using False p(2) r1(1) noop r(1) by (simp add: tran_to_def)
  have "current_key (tran_to h t m) = t"
    using key_of_path [OF p(3)] p(4) sh by (auto simp: run current_key_def same_shape_def)
  then show thesis using p(1,5) r(2) sh run by (intro that [of a x y r]) auto
qed

lemma tran_to_unknown:
  assumes "machine_ok m" "\<not> has t (root m)"
  shows "tran_to h t m = m"
proof -
  have "fst (get_transition_path t (root m) p) = False" for p
  proof (induction p rule: rev_induct)
    case Nil
    then show ?case using assms(2) by (subst get_transition_path.simps) simp
  next
    case (snoc k p)
    have "\<not> has t s" if "node_at (p @ [k]) (root m) = Some s" for s using has_node [OF that] assms(2) by blast
    then show ?case using snoc by (subst get_transition_path.simps)
      (auto split: option.splits prod.splits)
  qed
  then show ?thesis by (auto simp: tran_to_def split: prod.splits) (metis fst_conv)
qed

lemma tran_to_ok [lax_inv]: "machine_ok m \<Longrightarrow> machine_ok (tran_to h t m)"
proof (cases "has t (root m)")
  case True
  assume ok: "machine_ok m"
  show ?thesis by (rule tran_to_run [OF ok True, of h]) (use ok in \<open>auto simp: machine_ok_def same_shape_def\<close>)
qed (simp add: tran_to_unknown)

lemma has_tran_to: "machine_ok m \<Longrightarrow> has k (root (tran_to h t m)) = has k (root m)"
proof (cases "has t (root m)")
  case True
  assume ok: "machine_ok m"
  show ?thesis by (rule tran_to_run [OF ok True, of h]) (auto simp: same_shape_def)
qed (simp add: tran_to_unknown)

lemma machine_ok_ctx [simp]: "machine_ok (m\<lparr>ctx := c\<rparr>) = machine_ok m"
  by (simp add: machine_ok_def)

section \<open>Building a machine\<close>

lemma node_at_leaf: "childs s = [] \<Longrightarrow> node_at p s = Some s' \<longleftrightarrow> p = [] \<and> s' = s"
  by (cases p) auto

lemma machine_new_ok [lax_inv]: "machine_ok (machine_new w)"
  by (auto simp: machine_ok_def machine_new_def on_chain_def node_at_leaf)

text \<open>A state that may be added: never entered, neither it nor a state below it.\<close>

definition fresh_state :: "'k state \<Rightarrow> bool" where
  "fresh_state c \<longleftrightarrow> tree_ok c \<and> (\<forall>p s. node_at p c = Some s \<longrightarrow> \<not> active s \<and> active_child s = None)"

lemma fresh_state_new [simp]: "fresh_state (state_new k)"
  by (auto simp: fresh_state_def state_new_def node_at_leaf)

lemma find_append: "find P (xs @ ys) = (case find P xs of None \<Rightarrow> find P ys | Some x \<Rightarrow> Some x)"
  by (induction xs) auto

lemma find_insert_child:
  assumes "skey c \<notin> skey ` set cs"
  shows "find (\<lambda>d. skey d = k) (insert_child c cs) = (if k = skey c then Some c else find (\<lambda>d. skey d = k) cs)"
proof -
  let ?P = "\<lambda>d. skey d < skey c"
  have "skey c \<notin> skey ` set (takeWhile ?P cs)" by (auto dest: set_takeWhileD)
  then have none: "find (\<lambda>d. skey d = skey c) (takeWhile ?P cs) = None"
    by (metis (mono_tags, lifting) find_None_iff image_eqI)
  have "find (\<lambda>d. skey d = k) cs = (case find (\<lambda>d. skey d = k) (takeWhile ?P cs) of
      None \<Rightarrow> find (\<lambda>d. skey d = k) (dropWhile ?P cs) | Some x \<Rightarrow> Some x)"
    using find_append [of _ "takeWhile ?P cs" "dropWhile ?P cs"] by simp
  then show ?thesis using assms none by (auto simp: insert_child_def find_append split: option.splits)
qed

lemma set_insert_child: "skey c \<notin> skey ` set cs \<Longrightarrow> set (insert_child c cs) = insert c (set cs)"
proof -
  assume n: "skey c \<notin> skey ` set cs"
  have "set cs = set (takeWhile P cs) \<union> set (dropWhile P cs)" for P
    by (metis set_append takeWhile_dropWhile_id)
  then show ?thesis using n by (auto simp: insert_child_def)
qed

lemma distinct_insert_child:
  assumes "skey c \<notin> skey ` set cs" "distinct (map skey cs)"
  shows "distinct (map skey (insert_child c cs))"
proof -
  let ?t = "takeWhile (\<lambda>d. skey d < skey c) cs" and ?d = "dropWhile (\<lambda>d. skey d < skey c) cs"
  have "distinct (map skey ?t @ map skey ?d)" using assms(2) by (metis map_append takeWhile_dropWhile_id)
  moreover have "skey c \<notin> skey ` set ?t" "skey c \<notin> skey ` set ?d"
    using assms(1) by (auto dest: set_takeWhileD set_dropWhileD)
  ultimately show ?thesis using assms(1) by (simp add: insert_child_def)
qed

text \<open>\<open>add_state\<close> as an update: it keeps the key and the flags.\<close>

abbreviation adding :: "'k::linorder state \<Rightarrow> 'k state \<Rightarrow> 'k state" where
  "adding c \<equiv> \<lambda>s. snd (add_state c s)"

lemma adding_fields [simp]:
  "skey (adding c s) = skey s" "active (adding c s) = active s" "active_child (adding c s) = active_child s"
  by (simp_all add: add_state_def)

lemma childs_adding: "childs (adding c s) = (if has (skey c) s then childs s else insert_child c (childs s))"
  by (simp add: add_state_def)

lemma not_has_keys: "\<not> has k s \<Longrightarrow> k \<notin> skey ` set (childs s)"
  by (auto simp: has_def' [of k s]) (metis has_def')

lemma tree_ok_adding: "tree_ok c \<Longrightarrow> tree_ok s \<Longrightarrow> tree_ok (adding c s)"
  using not_has_keys [of "skey c" s]
  by (simp add: tree_ok_iff [of s] tree_ok_iff [of "adding c s"] childs_adding set_insert_child distinct_insert_child)

lemma skey_update_adding: "skey (update_at p (adding c) s) = skey s"
  by (cases p) auto

lemma tree_ok_update_adding: "tree_ok c \<Longrightarrow> tree_ok s \<Longrightarrow> tree_ok (update_at p (adding c) s)"
proof (induction p arbitrary: s)
  case Nil
  then show ?case by (simp add: tree_ok_adding)
next
  case (Cons k p)
  then show ?case by (cases s)
    (auto simp: map_skey_update_child skey_update_adding intro!: list_all_update_child)
qed

text \<open>The states of the tree a state was added to: those that were there, and the new ones.\<close>

lemma node_at_adding:
  assumes "tree_ok s" "fresh_state c"
  shows "(node_at q s = Some s0 \<longrightarrow> (\<exists>s1. node_at q (update_at p (adding c) s) = Some s1 \<and>
      active s1 = active s0 \<and> active_child s1 = active_child s0)) \<and>
    (node_at q s = None \<longrightarrow> node_at q (update_at p (adding c) s) = Some s1 \<longrightarrow> \<not> active s1 \<and> active_child s1 = None)"
  using assms(1)
proof (induction q arbitrary: p s)
  case Nil
  then show ?case by (cases p) auto
next
  case (Cons k q)
  show ?case
  proof (cases p)
    case Nil
    show ?thesis
    proof (cases "has (skey c) s")
      case True
      then show ?thesis using Nil by (simp add: childs_adding)
    next
      case False
      note n = not_has_keys [OF False]
      then have "k = skey c \<Longrightarrow> find (\<lambda>d. skey d = k) (childs s) = None"
        by (metis (mono_tags, lifting) find_None_iff image_eqI)
      then show ?thesis using Nil False find_insert_child [OF n, of k] assms(2)
        by (auto simp: childs_adding fresh_state_def)
    qed
  next
    case (Cons k' p')
    have f: "find (\<lambda>c. skey c = k) (update_child k' (update_at p' (adding c)) (childs s)) =
        (if k = k' then map_option (update_at p' (adding c)) (find (\<lambda>c. skey c = k) (childs s))
         else find (\<lambda>c. skey c = k) (childs s))"
      by (simp add: find_update_child skey_update_adding)
    show ?thesis
    proof (cases "find (\<lambda>c. skey c = k) (childs s)")
      case None
      then show ?thesis using f Cons by (auto split: option.splits)
    next
      case (Some d)
      then have "tree_ok d" using Cons.prems tree_ok_iff [of s] by (auto dest: find_SomeD)
      then show ?thesis using Cons.IH [of d p'] f Some \<open>p = k' # p'\<close> by auto
    qed
  qed
qed

lemma machine_add_fields [simp]:
  "current (machine_add parent c m) = current m" "ctx (machine_add parent c m) = ctx m"
  by (simp_all add: machine_add_def split: option.split)

lemma machine_add_ok [lax_inv]:
  assumes "machine_ok m" "fresh_state c"
  shows "machine_ok (machine_add parent c m)"
proof (cases "find_state parent (root m)")
  case None
  then show ?thesis using assms(1) by (simp add: machine_add_def)
next
  case (Some p)
  let ?r = "update_at p (adding c) (root m)"
  have ok: "tree_ok (root m)" "on_chain (current m) (root m)" using assms(1) by (simp_all add: machine_ok_def)
  note n = node_at_adding [OF ok(1) assms(2), of _ _ p]
  have "node_at (current m) ?r \<noteq> None" using ok(2) n by (fastforce simp: on_chain_def)
  moreover have "active s1 = prefix q (current m) \<and>
      active_child s1 = (if strict_prefix q (current m) then Some (current m ! length q) else None)"
    if s1: "node_at q ?r = Some s1" for q s1
  proof (cases "node_at q (root m)")
    case None
    then have "\<not> prefix q (current m)" using ok(2) node_at_prefix by (metis on_chain_def prefixE)
    then show ?thesis using n [of q] None s1 by (auto simp: strict_prefix_def)
  next
    case (Some s0)
    then show ?thesis using n [of q] s1 on_chainD [OF ok(2) Some] by auto
  qed
  ultimately have "on_chain (current m) ?r" unfolding on_chain_def by blast
  then show ?thesis using Some ok(1) assms(2) tree_ok_update_adding [of c "root m" p]
    by (simp add: machine_add_def machine_ok_def fresh_state_def)
qed

section \<open>execute\<close>

definition count_execution :: "stats \<Rightarrow> stats" where
  "count_execution st = st\<lparr>execution_count := execution_count st + 1\<rparr>"

text \<open>What executing the chain \<open>z\<close> below a state does to the tree.\<close>

fun counted :: "'k path \<Rightarrow> 'k state \<Rightarrow> 'k state" where
  "counted [] s = set_stat count_execution s"
| "counted (k # z) s = State (skey s) (active s) (active_child s) (count_execution (stat s))
     (update_child k (counted z) (childs s))"

lemma skey_counted [simp]: "skey (counted z s) = skey s"
  by (cases z) (simp_all add: set_stat_def)

lemma execute_child_find:
  "find (\<lambda>d. skey d = ck) cs = Some d \<Longrightarrow> execute_state h (p @ [ck]) d c = (f d, c') \<Longrightarrow>
    execute_child h p ck cs c = (update_child ck f cs, c')"
  by (induction cs) (auto split: if_splits)

lemma on_chain_child:
  assumes "on_chain (k # z) s"
  obtains d where "find (\<lambda>d. skey d = k) (childs s) = Some d" "on_chain z d" "active s" "active_child s = Some k"
proof -
  obtain d where d: "find (\<lambda>d. skey d = k) (childs s) = Some d" "node_at z d \<noteq> None"
    using assms by (auto simp: on_chain_def split: option.splits)
  have "on_chain z d" unfolding on_chain_def
  proof (intro conjI allI impI)
    show "node_at z d \<noteq> None" by (rule d(2))
    fix p s' assume "node_at p d = Some s'"
    then have "node_at (k # p) s = Some s'" using d(1) by simp
    from on_chainD [OF assms this] show "active s' = prefix p z"
      "active_child s' = (if strict_prefix p z then Some (z ! length p) else None)" by simp_all
  qed
  moreover have "node_at [] s = Some s" by simp
  from on_chainD [OF assms this] have "active s" "active_child s = Some k" by simp_all
  ultimately show thesis using that d(1) by blast
qed

lemma execute_chain:
  "on_chain z s \<Longrightarrow> execute_state h p s c = (counted z s, fold (call_hook (on_execute h)) (p # downs p z) c)"
proof (induction z arbitrary: p s c)
  case Nil
  have "active s" "active_child s = None" using on_chainD [OF Nil, of "[]" s] by simp_all
  then show ?case by (cases s) (simp add: set_stat_def count_execution_def)
next
  case (Cons k z)
  obtain d where d: "find (\<lambda>d. skey d = k) (childs s) = Some d" "on_chain z d" "active s" "active_child s = Some k"
    by (rule on_chain_child [OF Cons.prems])
  note e = execute_child_find [where f = "counted z", OF d(1) Cons.IH [OF d(2), of "p @ [k]" "call_hook (on_execute h) p c"]]
  show ?case using d e by (cases s) (simp add: count_execution_def)
qed

lemma node_at_counted:
  "node_at q s = Some s0 \<Longrightarrow> \<exists>s1. node_at q (counted z s) = Some s1 \<and> active s1 = active s0 \<and>
    active_child s1 = active_child s0 \<and> stat s1 = (if prefix q z then count_execution (stat s0) else stat s0)"
proof (induction q arbitrary: z s)
  case Nil
  then show ?case by (cases z) (auto simp: set_stat_def)
next
  case (Cons k q)
  obtain d where d: "find (\<lambda>d. skey d = k) (childs s) = Some d" "node_at q d = Some s0"
    using Cons.prems by (auto split: option.splits)
  show ?case
  proof (cases z)
    case Nil
    then show ?thesis using Cons.prems by (simp add: set_stat_def)
  next
    case (Cons k' z')
    then show ?thesis using Cons.IH [OF d(2), of z'] d find_update_child [of "counted z'" k k' "childs s"] by auto
  qed
qed

lemma node_at_counted_None: "node_at q s = None \<Longrightarrow> node_at q (counted z s) = None"
proof (induction q arbitrary: z s)
  case (Cons k q)
  show ?case
  proof (cases z)
    case Nil
    then show ?thesis using Cons.prems by (simp add: set_stat_def)
  next
    case (Cons k' z')
    then show ?thesis using Cons.IH Cons.prems find_update_child [of "counted z'" k k' "childs s"]
      by (auto split: option.splits)
  qed
qed simp

lemma tree_ok_counted: "tree_ok s \<Longrightarrow> tree_ok (counted z s)"
proof (induction z arbitrary: s)
  case Nil
  then show ?case by (cases s) (simp add: set_stat_def)
next
  case (Cons k z)
  then show ?case by (cases s) (auto simp: map_skey_update_child intro!: list_all_update_child)
qed

lemma on_chain_counted: "on_chain cur s \<Longrightarrow> on_chain cur (counted z s)"
proof -
  assume c: "on_chain cur s"
  have "\<exists>s0. node_at p s = Some s0 \<and> active s1 = active s0 \<and> active_child s1 = active_child s0"
    if "node_at p (counted z s) = Some s1" for p s1
    using that node_at_counted [of p s _ z] node_at_counted_None [of p s z] by (cases "node_at p s") auto
  then show ?thesis using c node_at_counted [of cur s _ z] unfolding on_chain_def by (metis option.exhaust option.simps(3))
qed

text \<open>\<open>process_transitions\<close> keeps the machine well formed and leaves no transition.\<close>

lemma process_transitions_ok:
  "process_transitions h m = Some m' \<Longrightarrow> machine_ok m \<longrightarrow> machine_ok m' \<and> queue m' = []"
proof (induction rule: process_transitions.raw_induct [rotated 1, consumes 1, case_names Step])
  case (Step process h m m')
  show ?case
  proof (cases "queue m")
    case Nil
    then show ?thesis using Step(2) by simp
  next
    case (Cons t ts)
    then show ?thesis using Step tran_to_ok [of m h t] by (auto simp: Let_def)
  qed
qed

section \<open>Use of a machine\<close>

datatype 'k command = Add 'k "'k state" | Tran 'k transition_option | Execute

fun run_command :: "('k::linorder, 'w) hooks \<Rightarrow> 'k command \<Rightarrow> ('k, 'w) machine \<Rightarrow> ('k, 'w) machine option" where
  "run_command h (Add parent c) m = Some (machine_add parent c m)"
| "run_command h (Tran t opt) m = Some (tran h t opt m)"
| "run_command h Execute m = machine_execute h m"

text \<open>The machines a client gets to: fresh states are added, transitions asked for and executed.\<close>

inductive used :: "('k::{linorder,zero}, 'w) hooks \<Rightarrow> ('k, 'w) machine \<Rightarrow> bool" for h where
  new: "used h (machine_new w)"
| command: "used h m \<Longrightarrow> (\<forall>parent c. cmd = Add parent c \<longrightarrow> fresh_state c) \<Longrightarrow>
    run_command h cmd m = Some m' \<Longrightarrow> used h m'"

lemma machine_execute_run:
  assumes "machine_ok m" "process_transitions h m = Some m1"
  shows "machine_execute h m = Some (m1\<lparr>root := counted (current m1) (root m1),
      ctx := fold (call_hook (on_execute h)) ([] # downs [] (current m1)) (ctx m1)\<rparr>)"
    "machine_ok (m1\<lparr>root := counted (current m1) (root m1), ctx := c\<rparr>)"
proof -
  have ok: "tree_ok (root m1)" "on_chain (current m1) (root m1)"
    using process_transitions_ok [OF assms(2)] assms(1) by (simp_all add: machine_ok_def)
  show "machine_execute h m = Some (m1\<lparr>root := counted (current m1) (root m1),
      ctx := fold (call_hook (on_execute h)) ([] # downs [] (current m1)) (ctx m1)\<rparr>)"
    using execute_chain [OF ok(2), of h "[]" "ctx m1"] assms(2) by (simp add: machine_execute_def)
  show "machine_ok (m1\<lparr>root := counted (current m1) (root m1), ctx := c\<rparr>)"
    using ok by (simp add: machine_ok_def tree_ok_counted on_chain_counted)
qed

lemma used_ok [lax_inv]: "used h m \<Longrightarrow> machine_ok m"
proof (induction rule: used.induct)
  case (new w)
  show ?case by (rule machine_new_ok)
next
  case (command m cmd m')
  show ?case
  proof (cases cmd)
    case (Add parent c)
    then show ?thesis using command machine_add_ok [OF command.IH] by auto
  next
    case (Tran t opt)
    then show ?thesis using command tran_to_ok by (auto simp: tran_def split: if_splits)
  next
    case Execute
    then obtain m1 where "process_transitions h m = Some m1"
      using command(3) by (auto simp: machine_execute_def split: option.splits)
    then show ?thesis using machine_execute_run [OF command.IH] command(3) Execute by fastforce
  qed
qed

text \<open>Hooks that never ask for a transition.\<close>

definition quiet :: "('k, 'w) hooks \<Rightarrow> bool" where
  "quiet h \<longleftrightarrow> (\<forall>p w. snd (on_enter h p w) = [] \<and> snd (on_exit h p w) = [])"

lemma queue_fold_call:
  "(\<And>p w. snd (f p w) = []) \<Longrightarrow> snd (fold (call_hook f) ps c) = snd c"
  by (induction ps arbitrary: c) (simp_all add: call_hook_def case_prod_beta)

lemma queue_tran_to: "machine_ok m \<Longrightarrow> quiet h \<Longrightarrow> queue (tran_to h t m) = queue m"
proof (cases "has t (root m)")
  case True
  assume ok: "machine_ok m" "quiet h"
  show ?thesis by (rule tran_to_run [OF ok(1) True, of h]) (use ok(2) in \<open>simp add: quiet_def queue_fold_call\<close>)
qed (simp add: tran_to_unknown)

lemma current_key_tran_to:
  "machine_ok m \<Longrightarrow> current_key (tran_to h t m) = (if has t (root m) then t else current_key m)"
  by (cases "has t (root m)") (auto elim: tran_to_run [of m t h] simp: tran_to_unknown)

lemma current_key_ctx [simp]: "current_key (m\<lparr>ctx := c\<rparr>) = current_key m"
  by (simp add: current_key_def)

section \<open>Properties\<close>

text \<open>
  C17. \<open>tran_to\<close> of a key the machine has exits the states from the current one up to, and without,
  the lowest state that is above both or is one of them, and then enters the states below it
  down to one with that key, which becomes the current state; \<open>on_exit\<close> and \<open>on_enter\<close> are called
  in this order and for no other state. An unknown key changes nothing. Either way active stay
  exactly the current state and those above it.
\<close>

theorem tran_to_exits_and_enters:
  assumes "machine_ok m"
  shows "machine_ok (tran_to h t m) \<and>
    (if has t (root m) then
       current_key (tran_to h t m) = t \<and>
       (\<exists>a x y. current m = a @ x \<and> current (tran_to h t m) = a @ y \<and> (x = [] \<or> y = [] \<or> hd x \<noteq> hd y) \<and>
          ctx (tran_to h t m) =
            fold (call_hook (on_enter h)) (downs a y) (fold (call_hook (on_exit h)) (rev (downs a x)) (ctx m)))
     else tran_to h t m = m)"
proof (cases "has t (root m)")
  case True
  show ?thesis
  proof (rule tran_to_run [OF assms True, of h])
    fix a x y r
    assume path: "current m = a @ x" "x = [] \<or> y = [] \<or> hd x \<noteq> hd y" and key: "current_key (tran_to h t m) = t"
      and run: "tran_to h t m = m\<lparr>root := r,
       ctx := fold (call_hook (on_enter h)) (downs a y) (fold (call_hook (on_exit h)) (rev (downs a x)) (ctx m)),
       current := a @ y\<rparr>"
    have "current (tran_to h t m) = a @ y" "ctx (tran_to h t m) =
        fold (call_hook (on_enter h)) (downs a y) (fold (call_hook (on_exit h)) (rev (downs a x)) (ctx m))"
      by (simp_all add: run)
    then show ?thesis using True tran_to_ok [OF assms] path key by auto
  qed
qed (simp add: tran_to_unknown assms)

text \<open>
  The hooks of the examples write down what is called, and a machine of two states below the root.
\<close>

definition log_hooks :: "(nat, (code \<times> nat path) list) hooks" where
  "log_hooks = \<lparr>on_enter = (\<lambda>p w. (w @ [(Enter, p)], [])), on_execute = (\<lambda>p w. (w @ [(Noop, p)], [])),
     on_exit = (\<lambda>p w. (w @ [(Exit, p)], []))\<rparr>"

definition two_states :: "'w \<Rightarrow> (nat, 'w) machine" where
  "two_states w = machine_add 0 (state_new 2) (machine_add 1 (state_new 3) (machine_add 0 (state_new 1) (machine_new w)))"

lemma two_states_ok: "machine_ok (two_states w)"
  unfolding two_states_def by (intro machine_add_ok machine_new_ok fresh_state_new)

theorem tran_to_exits_and_enters_witness:
  "machine_ok (two_states []) \<and>
   (let m = tran_to log_hooks 2 (tran_to log_hooks 3 (two_states [])) in
     machine_ok m \<and> current m = [2] \<and>
     fst (ctx m) = [(Enter, [1]), (Enter, [1, 3]), (Exit, [1, 3]), (Exit, [1]), (Enter, [2])])"
proof -
  have "fst (ctx (tran_to log_hooks 2 (tran_to log_hooks 3 (two_states [])))) =
      [(Enter, [1]), (Enter, [1, 3]), (Exit, [1, 3]), (Exit, [1]), (Enter, [2])]"
    "current (tran_to log_hooks 2 (tran_to log_hooks 3 (two_states []))) = [2]"
    by code_simp+
  then show ?thesis
    using two_states_ok [of "[]"] tran_to_exits_and_enters [OF two_states_ok, of log_hooks 3 "[]"]
      tran_to_exits_and_enters [where m = "tran_to log_hooks 3 (two_states [])" and h = log_hooks and t = 2]
    by (simp add: Let_def)
qed



text \<open>Two states that ask for each other when they are entered.\<close>

definition ping_pong :: "(nat, 'w) hooks" where
  "ping_pong = \<lparr>on_enter = (\<lambda>p w. (w, if p = [1] then [2] else if p = [2] then [1] else [])),
     on_execute = (\<lambda>p w. (w, [])), on_exit = (\<lambda>p w. (w, []))\<rparr>"

lemma root_two_states: "root (two_states w) = State 0 True None (no_stats\<lparr>enter_count := 1\<rparr>)
    [State 1 False None no_stats [State 3 False None no_stats []], State 2 False None no_stats []]"
  by (simp add: two_states_def machine_add_def machine_new_def state_new_def add_state_def insert_child_def no_stats_def)

text \<open>One of the two is current or none, and the other one is asked for.\<close>

definition ping_pong_at :: "(nat, 'w) machine \<Rightarrow> bool" where
  "ping_pong_at m \<longleftrightarrow> machine_ok m \<and> skey (root m) = 0 \<and>
     (\<forall>p. node_at p (root m) \<noteq> None \<longleftrightarrow> p \<in> {[], [1], [2], [1, 3]}) \<and>
     (\<exists>t\<in>{1, 2}. queue m = [t] \<and> \<not> prefix [t] (current m))"

lemma has_child: "node_at [k] r \<noteq> None \<Longrightarrow> has k r"
proof -
  assume "node_at [k] r \<noteq> None"
  then obtain s where s: "node_at [k] r = Some s" by blast
  then have "has k s" using node_at_key [OF s] by (simp add: has_def' [of k s])
  then show ?thesis by (rule has_node [OF s])
qed

lemma ping_pong_step:
  assumes "ping_pong_at m"
  shows "\<exists>t. queue m = [t] \<and> (let m1 = tran_to ping_pong t m in
    ping_pong_at (m1\<lparr>ctx := (fst (ctx m1), tl (queue m1))\<rparr>))"
proof -
  obtain t where t: "t = 1 \<or> t = 2" "queue m = [t]" "\<not> prefix [t] (current m)"
    using assms unfolding ping_pong_at_def by blast
  have ok: "machine_ok m" "skey (root m) = 0" and nodes: "\<And>p. node_at p (root m) \<noteq> None \<longleftrightarrow> p \<in> {[], [1], [2], [1, 3]}"
    using assms unfolding ping_pong_at_def by blast+
  have "node_at [t] (root m) \<noteq> None" using nodes t(1) by blast
  then have "has t (root m)" by (rule has_child)
  then obtain a x y r where run: "current m = a @ x"
    "tran_to ping_pong t m = m\<lparr>root := r,
       ctx := fold (call_hook (on_enter ping_pong)) (downs a y) (fold (call_hook (on_exit ping_pong)) (rev (downs a x)) (ctx m)),
       current := a @ y\<rparr>"
    "on_chain (a @ y) r" "same_shape (root m) r" "current_key (tran_to ping_pong t m) = t"
    by (rule tran_to_run [OF ok(1)]) blast
  let ?m1 = "tran_to ping_pong t m"
  have m0: "root ?m1 = r" "current ?m1 = a @ y" by (simp_all add: run(2))
  have "node_at (a @ y) r \<noteq> None" using run(3) by (rule on_chain_def [THEN iffD1, THEN conjunct1])
  then have "node_at (a @ y) (root m) \<noteq> None" by (rule same_shape_node [OF run(4), THEN iffD1])
  then have "a @ y \<in> {[], [1], [2], [1, 3]}" by (rule nodes [THEN iffD1])
  moreover have "(if a @ y = [] then 0 else last (a @ y)) = t"
    using run(4,5) ok(2) unfolding current_key_def m0 by (simp only: same_shape_def)
  ultimately have ay: "a @ y = [t]" using t(1) by (cases "a @ y = []") auto
  have "a \<noteq> [t]" using t(3) run(1) by auto
  then have a: "a = []" "y = [t]" using ay by (auto simp: append_eq_Cons_conv)
  have m1: "root ?m1 = r" "current ?m1 = [t]" using m0 ay by simp_all
  have "snd (fold (call_hook (on_exit ping_pong)) ps (ctx m)) = [t]" for ps
    using queue_fold_call [of "on_exit ping_pong" ps "ctx m"] t(2) by (simp add: ping_pong_def)
  moreover have "queue ?m1 = snd (call_hook (on_enter ping_pong) [t] (fold (call_hook (on_exit ping_pong)) (rev (downs a x)) (ctx m)))"
    using run(2) by (simp add: a)
  ultimately have q: "queue ?m1 = [t, 3 - t]"
    using t(1) by (auto simp: call_hook_def ping_pong_def)
  have r2: "root (?m1\<lparr>ctx := c\<rparr>) = r" for c using m1(1) by simp
  have "ping_pong_at (?m1\<lparr>ctx := (fst (ctx ?m1), tl (queue ?m1))\<rparr>)"
    unfolding ping_pong_at_def
  proof (intro conjI)
    show "machine_ok (?m1\<lparr>ctx := (fst (ctx ?m1), tl (queue ?m1))\<rparr>)" using tran_to_ok [OF ok(1)] by simp
    show "skey (root (?m1\<lparr>ctx := (fst (ctx ?m1), tl (queue ?m1))\<rparr>)) = 0"
      using run(4) ok(2) by (simp add: m1 same_shape_def)
    show "\<forall>p. node_at p (root (?m1\<lparr>ctx := (fst (ctx ?m1), tl (queue ?m1))\<rparr>)) \<noteq> None \<longleftrightarrow> p \<in> {[], [1], [2], [1, 3]}"
      using same_shape_node [OF run(4)] nodes by (simp only: r2 simp_thms)
    show "\<exists>u\<in>{1, 2}. queue (?m1\<lparr>ctx := (fst (ctx ?m1), tl (queue ?m1))\<rparr>) = [u] \<and>
        \<not> prefix [u] (current (?m1\<lparr>ctx := (fst (ctx ?m1), tl (queue ?m1))\<rparr>))"
      by (rule bexI [of _ "3 - t"]) (use t(1) in \<open>auto simp: q m1(2)\<close>)
  qed
  then have "let m1 = ?m1 in ping_pong_at (m1\<lparr>ctx := (fst (ctx m1), tl (queue m1))\<rparr>)" unfolding Let_def .
  then show ?thesis using t(2) by (intro exI conjI)
qed

lemma ping_pong_never:
  "process_transitions h m = Some m' \<Longrightarrow> h = ping_pong \<longrightarrow> \<not> ping_pong_at m"
proof (induction rule: process_transitions.raw_induct [rotated 1, consumes 1, case_names Step])
  case (Step process h m m')
  show ?case
  proof (intro impI notI)
    assume h: "h = ping_pong" and "ping_pong_at m"
    then obtain t where t: "queue m = [t]" "let m1 = tran_to ping_pong t m in
        ping_pong_at (m1\<lparr>ctx := (fst (ctx m1), tl (queue m1))\<rparr>)"
      using ping_pong_step by blast
    then show False using Step h by (auto simp: Let_def)
  qed
qed

lemma nodes_two_states: "node_at p (root (two_states w)) \<noteq> None \<longleftrightarrow> p \<in> {[], [1], [2], [1, 3]}"
proof (cases p rule: remdups_adj.cases)
  case (3 k k' q)
  then show ?thesis by (cases q) (auto simp: root_two_states)
qed (auto simp: root_two_states)

lemma ping_pong_start: "ping_pong_at (tran ping_pong 1 safe (two_states w))"
proof -
  have q: "queue (two_states w) = []" "current (two_states w) = []" "skey (root (two_states w)) = 0"
    by (simp_all add: root_two_states) (simp_all add: two_states_def machine_new_def)
  show ?thesis using nodes_two_states [of _ w] two_states_ok [of w] q
    unfolding ping_pong_at_def by (simp add: tran_def)
qed



end
