(* ===== verification/String_Util.thy ===== *)
theory String_Util
  imports Lax_Prelude "HOL-Library.Monad_Syntax"
begin

text \<open>
  \<open>util::string_util\<close> (\<open>src/util/string_util.cpp\<close>) on lists of characters. The narrow and the
  wide version of a function differ in the type of the characters only, so the functions are
  polymorphic and take the characters they look for as arguments. A position is a \<open>nat option\<close>,
  \<open>None\<close> for \<open>npos\<close>. The \<open>convert\<close> functions call the Windows API and are not modelled.
\<close>

section \<open>Searches of std::string\<close>

definition find_from :: "('a \<Rightarrow> bool) \<Rightarrow> 'a list \<Rightarrow> nat option \<Rightarrow> nat option" where
  "find_from P s i = (case i of None \<Rightarrow> None | Some i \<Rightarrow> find (\<lambda>j. P (s ! j)) [i..<length s])"

definition find_first_of :: "'a list \<Rightarrow> 'a list \<Rightarrow> nat option \<Rightarrow> nat option" where
  "find_first_of ds = find_from (\<lambda>c. c \<in> set ds)"

definition find_first_not_of :: "'a list \<Rightarrow> 'a list \<Rightarrow> nat option \<Rightarrow> nat option" where
  "find_first_not_of ds = find_from (\<lambda>c. c \<notin> set ds)"

definition find_last :: "('a \<Rightarrow> bool) \<Rightarrow> 'a list \<Rightarrow> nat option" where
  "find_last P s = find (\<lambda>j. P (s ! j)) (rev [0..<length s])"

text \<open>\<open>pos + 1\<close>, where \<open>npos + 1\<close> is 0.\<close>

definition next_pos :: "nat option \<Rightarrow> nat" where
  "next_pos pos = (case pos of None \<Rightarrow> 0 | Some i \<Rightarrow> i + 1)"

section \<open>trim\<close>

definition trim_right :: "'a list \<Rightarrow> 'a list \<Rightarrow> 'a list" where
  "trim_right ds s = take (next_pos (find_last (\<lambda>c. c \<notin> set ds) s)) s"

definition trim_left :: "'a list \<Rightarrow> 'a list \<Rightarrow> 'a list" where
  "trim_left ds s = (case find_first_not_of ds s (Some 0) of None \<Rightarrow> [] | Some n \<Rightarrow> drop n s)"

definition trim :: "'a list \<Rightarrow> 'a list \<Rightarrow> bool \<Rightarrow> bool \<Rightarrow> 'a list" where
  "trim ds s left right =
     (let s1 = (if right then trim_right ds s else s) in if left then trim_left ds s1 else s1)"

text \<open>The characters of the narrow \<open>trim\<close>: blank, tab and carriage return, but no newline.\<close>

definition trim_delims :: string where
  "trim_delims = [CHR '' '', CHR 0x09, CHR 0x0D]"

section \<open>tokenize, narrow\<close>

text \<open>A search from a position finds nothing before it.\<close>

lemma find_from_Some:
  "find_from P s i = Some j \<Longrightarrow> \<exists>k. i = Some k \<and> k \<le> j \<and> j < length s \<and> P (s ! j)"
  by (auto simp: find_from_def split: option.splits dest!: find_Some_iff [THEN iffD1] simp del: upt_Suc)

text \<open>The \<open>do\<close> loop; \<open>substr\<close> of a position beyond the end throws.\<close>

function tokenize_loop :: "'a list \<Rightarrow> 'a list \<Rightarrow> u32 \<Rightarrow> nat option \<Rightarrow> u32 \<Rightarrow> 'a list list \<Rightarrow> fault + 'a list list" where
  "tokenize_loop str delims max_splits start num_splits ret =
     (if find_first_of delims str start = start then
        (case start of
           None \<Rightarrow> Inr ret
         | Some i \<Rightarrow> tokenize_loop str delims max_splits (find_first_not_of delims str (Some (i + 1))) (num_splits + 1) ret)
      else
        (case find_first_of delims str start of
           None \<Rightarrow>
             if the start > length str then Inl (Thrown ''out_of_range'') else Inr (ret @ [drop (the start) str])
         | Some pos \<Rightarrow>
             if max_splits > 0 \<and> num_splits = max_splits then Inr (ret @ [drop (the start) str])
             else tokenize_loop str delims max_splits (find_first_not_of delims str (Some (pos + 1))) (num_splits + 1)
                    (ret @ [take (pos - the start) (drop (the start) str)])))"
  by pat_completeness auto

termination
proof (relation "measure (\<lambda>(str, delims, max_splits, start, num_splits, ret).
    case start of None \<Rightarrow> 0 | Some i \<Rightarrow> Suc (length str - i))", goal_cases)
  case 1
  then show ?case by simp
next
  case (2 str delims max_splits start num_splits ret i)
  then show ?case
    by (auto simp: find_first_of_def find_first_not_of_def split: option.splits dest!: find_from_Some)
next
  case (3 str delims max_splits start num_splits ret pos)
  then show ?case
    by (auto simp: find_first_of_def find_first_not_of_def split: option.splits dest!: find_from_Some)
qed

declare tokenize_loop.simps [simp del]

definition tokenize :: "'a list \<Rightarrow> 'a list \<Rightarrow> u32 \<Rightarrow> fault + 'a list list" where
  "tokenize str delims max_splits = tokenize_loop str delims max_splits (Some 0) 0 []"

section \<open>tokenize, wide\<close>

text \<open>
  The \<open>while\<close> loop from \<open>last_pos\<close>, where \<open>substr\<close> of a position beyond the end throws. It
  steps over as many characters as there are delimiters.
\<close>

partial_function (option) wide_loop ::
  "'a list \<Rightarrow> 'a list \<Rightarrow> nat option \<Rightarrow> nat option \<Rightarrow> 'a list list \<Rightarrow> (fault + 'a list list) option" where
  "wide_loop msg delimiter pos last_pos tokens =
     (if pos = None \<and> last_pos = None then Some (Inr tokens)
      else if the last_pos > length msg then Some (Inl (Thrown ''out_of_range''))
      else
        (let var = (case pos of None \<Rightarrow> drop (the last_pos) msg
                    | Some p \<Rightarrow> take (p - the last_pos) (drop (the last_pos) msg));
             last' = the last_pos + length var + length delimiter
         in if last' > length msg then Some (Inr (tokens @ [var]))
            else wide_loop msg delimiter (find_first_of delimiter msg (Some last')) (Some last') (tokens @ [var])))"

definition wide_tokenize :: "'a list \<Rightarrow> 'a list \<Rightarrow> (fault + 'a list list) option" where
  "wide_tokenize msg delimiter =
     (let last_pos = find_first_not_of delimiter msg (Some 0)
      in wide_loop msg delimiter (find_first_of delimiter msg last_pos) last_pos [])"

section \<open>Paths\<close>

text \<open>\<open>std::replace\<close> of the one separator by the other.\<close>

definition replace_all :: "'a \<Rightarrow> 'a \<Rightarrow> 'a list \<Rightarrow> 'a list" where
  "replace_all old new = map (\<lambda>c. if c = old then new else c)"

text \<open>\<open>path[path.length() - 1]\<close> of an empty path is out of bounds.\<close>

definition standardize_path :: "'a \<Rightarrow> 'a \<Rightarrow> 'a list \<Rightarrow> fault + 'a list" where
  "standardize_path backslash slash init =
     (let path = replace_all backslash slash init in
      if path = [] then Inl Out_of_bounds
      else if path ! (length path - 1) \<noteq> slash then Inr (path @ [slash]) else Inr path)"

text \<open>The base name and the path.\<close>

definition split_path :: "'a \<Rightarrow> 'a \<Rightarrow> 'a list \<Rightarrow> 'a list \<times> 'a list" where
  "split_path backslash slash qualifiedName =
     (let path = replace_all backslash slash qualifiedName in
      case find_last (\<lambda>c. c = slash) path of
        None \<Rightarrow> (qualifiedName, [])
      | Some i \<Rightarrow> (take (length path - i - 1) (drop (i + 1) path), take (i + 1) path))"

text \<open>The base name and the extension.\<close>

definition split_filename :: "'a \<Rightarrow> 'a list \<Rightarrow> 'a list \<times> 'a list" where
  "split_filename dot fullName =
     (case find_last (\<lambda>c. c = dot) fullName of
        None \<Rightarrow> (fullName, [])
      | Some i \<Rightarrow> (take i fullName, drop (i + 1) fullName))"

section \<open>Searches on what is left of the string\<close>

lemma find_from_drop:
  "i \<le> length s \<Longrightarrow> find_from P s (Some i) =
    (if i + length (takeWhile (\<lambda>c. \<not> P c) (drop i s)) < length s
     then Some (i + length (takeWhile (\<lambda>c. \<not> P c) (drop i s))) else None)"
proof (induction "length s - i" arbitrary: i)
  case 0
  then show ?case by (simp add: find_from_def)
next
  case (Suc n)
  then have i: "i < length s" by simp
  have "find_from P s (Some i) = (if P (s ! i) then Some i else find_from P s (Some (Suc i)))"
    using i by (simp add: find_from_def upt_conv_Cons)
  moreover have "drop i s = s ! i # drop (Suc i) s" using i by (simp add: Cons_nth_drop_Suc)
  ultimately show ?case using Suc.hyps(1) [of "Suc i"] Suc.hyps(2) i by auto
qed

lemma find_from_None [simp]: "find_from P s None = None"
  by (simp add: find_from_def)

lemma find_last_None: "find_last P s = None \<longleftrightarrow> (\<forall>c\<in>set s. \<not> P c)"
  by (auto simp: find_last_def find_None_iff in_set_conv_nth) (metis nth_mem)

lemma find_last_Some:
  "find_last P s = Some i \<longleftrightarrow> i < length s \<and> P (s ! i) \<and> (\<forall>c\<in>set (drop (i + 1) s). \<not> P c)"
proof (induction s rule: rev_induct)
  case Nil
  then show ?case by (simp add: find_last_def)
next
  case (snoc c s)
  have "find (\<lambda>j. P ((s @ [c]) ! j)) (rev [0..<length s]) = find (\<lambda>j. P (s ! j)) (rev [0..<length s])"
    by (rule find_cong) (auto simp: nth_append)
  then have "find_last P (s @ [c]) = (if P c then Some (length s) else find_last P s)"
    by (simp add: find_last_def)
  then show ?case using snoc by (auto simp: nth_append less_Suc_eq)
qed

section \<open>What trim and split\_filename return\<close>

lemma trim_right_rev: "trim_right ds s = rev (dropWhile (\<lambda>c. c \<in> set ds) (rev s))"
proof (cases "find_last (\<lambda>c. c \<notin> set ds) s")
  case None
  then have "\<forall>c\<in>set (rev s). c \<in> set ds" by (auto simp: find_last_None)
  then show ?thesis using None by (simp add: trim_right_def next_pos_def)
next
  case (Some i)
  then have i: "i < length s" "s ! i \<notin> set ds" "\<forall>c\<in>set (drop (i + 1) s). c \<in> set ds" by (auto simp: find_last_Some)
  have "rev s = rev (drop (i + 1) s) @ s ! i # rev (take i s)"
    using i(1) by (metis id_take_nth_drop rev_append rev.simps(2) append_assoc append_Cons append_Nil Suc_eq_plus1)
  then have "dropWhile (\<lambda>c. c \<in> set ds) (rev s) = s ! i # rev (take i s)"
    using i(2,3) by (simp only:) (subst dropWhile_append2, auto)
  then show ?thesis using Some i(1) by (simp add: trim_right_def next_pos_def take_Suc_conv_app_nth)
qed

lemma trim_left_dropWhile: "trim_left ds s = dropWhile (\<lambda>c. c \<in> set ds) s"
  using find_from_drop [of 0 s "\<lambda>c. c \<notin> set ds"] length_takeWhile_le [of "\<lambda>c. c \<in> set ds" s]
  by (auto simp: trim_left_def find_first_not_of_def dropWhile_eq_drop)

lemma split_filename_join:
  "dot \<in> set s \<Longrightarrow> (case split_filename dot s of (base, ext) \<Rightarrow> base @ [dot] @ ext = s \<and> dot \<notin> set ext)"
proof -
  assume "dot \<in> set s"
  then obtain i where i: "find_last (\<lambda>c. c = dot) s = Some i"
    using find_last_None [of "\<lambda>c. c = dot" s] by auto
  then have "i < length s" "s ! i = dot" "\<forall>c\<in>set (drop (i + 1) s). c \<noteq> dot" by (auto simp: find_last_Some)
  then show ?thesis using i id_take_nth_drop [of i s] by (auto simp: split_filename_def)
qed

section \<open>What tokenize returns\<close>

text \<open>
  The tokens: the runs of characters that are no delimiters; after \<open>k\<close> of them, when \<open>k\<close> is a
  number, whatever follows as one token.
\<close>

function tokens_of :: "'a list \<Rightarrow> nat option \<Rightarrow> 'a list \<Rightarrow> 'a list list" where
  "tokens_of ds k s =
     (case dropWhile (\<lambda>c. c \<in> set ds) s of
        [] \<Rightarrow> []
      | xs \<Rightarrow> if k = Some 0 then [xs]
          else takeWhile (\<lambda>c. c \<notin> set ds) xs # tokens_of ds (map_option (\<lambda>n. n - 1) k) (dropWhile (\<lambda>c. c \<notin> set ds) xs))"
  by pat_completeness auto
termination
proof (relation "measure (\<lambda>(ds, k, s). length s)", goal_cases)
  case 1
  then show ?case by simp
next
  case (2 ds k s c cs)
  then have "c \<notin> set ds" using hd_dropWhile [of "\<lambda>c. c \<in> set ds" s] by auto
  moreover have "length (c # cs) \<le> length s" using length_dropWhile_le [of "\<lambda>c. c \<in> set ds" s] 2(1) by metis
  ultimately show ?case using length_dropWhile_le [of "\<lambda>c. c \<notin> set ds" cs] by auto
qed

declare tokens_of.simps [simp del]

lemma tokens_of_skip: "tokens_of ds k (dropWhile (\<lambda>c. c \<in> set ds) s) = tokens_of ds k s"
  by (subst (1 2) tokens_of.simps) simp

lemma skip_delims:
  assumes "p < length s" "s ! p \<in> set ds"
  shows "dropWhile (\<lambda>c. c \<in> set ds) (drop p s) =
    drop (p + 1 + length (takeWhile (\<lambda>c. c \<in> set ds) (drop (p + 1) s))) s"
proof -
  have "drop p s = s ! p # drop (p + 1) s" using assms(1) by (simp add: Cons_nth_drop_Suc)
  then show ?thesis using assms(2) by (simp add: dropWhile_eq_drop add.commute)
qed

lemma loop_start_None: "tokenize_loop s ds m None n ret = Inr ret"
  by (subst tokenize_loop.simps) (simp add: find_first_of_def)

lemma takeWhile_long: "length xs \<le> length (takeWhile P xs) \<Longrightarrow> takeWhile P xs = xs"
  using takeWhile_eq_take [of P xs] by simp

lemma tokens_of_start:
  assumes "i < length s" "s ! i \<notin> set ds"
  shows "tokens_of ds k (drop i s) =
    (if k = Some 0 then [drop i s]
     else takeWhile (\<lambda>c. c \<notin> set ds) (drop i s) # tokens_of ds (map_option (\<lambda>n. n - 1) k) (dropWhile (\<lambda>c. c \<notin> set ds) (drop i s)))"
proof -
  obtain c cs where c: "drop i s = c # cs" "c \<notin> set ds"
    using assms by (metis Cons_nth_drop_Suc)
  show ?thesis unfolding c(1) by (subst tokens_of.simps) (simp add: c(2))
qed

text \<open>What the loop does from the start of a token.\<close>

lemma tokenize_loop_run:
  assumes "i < length s" "s ! i \<notin> set ds" "m = 0 \<or> n \<le> m"
  shows "tokenize_loop s ds m (Some i) n ret =
    Inr (ret @ tokens_of ds (if m = 0 then None else Some (unat (m - n))) (drop i s))"
  using assms
proof (induction "length s - i" arbitrary: i n ret rule: less_induct)
  case less
  let ?tok = "takeWhile (\<lambda>c. c \<notin> set ds) (drop i s)"
  have d: "drop i s = s ! i # drop (Suc i) s" using less.prems(1) by (simp add: Cons_nth_drop_Suc)
  have skip: "dropWhile (\<lambda>c. c \<in> set ds) (drop i s) = drop i s" using d less.prems(2) by simp
  have pos: "find_first_of ds s (Some i) = (if i + length ?tok < length s then Some (i + length ?tok) else None)"
    using find_from_drop [of i s "\<lambda>c. c \<in> set ds"] less.prems(1) by (simp add: find_first_of_def)
  have ne: "length ?tok > 0" using d less.prems(2) by simp
  show ?case
  proof (cases "i + length ?tok < length s")
    case False
    then have all: "?tok = drop i s" by (intro takeWhile_long) simp
    have "tokens_of ds k (drop i s) = [drop i s]" for k
    proof -
      have nil: "dropWhile (\<lambda>c. c \<notin> set ds) (drop i s) = []" using all by (metis dropWhile_eq_Nil_conv takeWhile_eq_all_conv)
      show ?thesis unfolding tokens_of_start [OF less.prems(1,2)] all nil
        by (simp add: tokens_of.simps [of ds _ "[]"])
    qed
    then show ?thesis using pos False less.prems(1) by (subst tokenize_loop.simps) simp
  next
    case True
    let ?pos = "i + length ?tok"
    have hdp: "s ! ?pos \<in> set ds" using find_from_Some [of "\<lambda>c. c \<in> set ds" s "Some i" ?pos] pos True
      by (simp add: find_first_of_def)
    show ?thesis
    proof (cases "m > 0 \<and> n = m")
      case last: True
      have "tokens_of ds (Some 0) (drop i s) = [drop i s]" by (simp add: tokens_of_start [OF less.prems(1,2)])
      moreover have "m \<noteq> 0" using last by auto
      ultimately show ?thesis using last pos True ne by (subst tokenize_loop.simps) simp
    next
      case more: False
      let ?k = "if m = 0 then None else Some (unat (m - n))"
      let ?k' = "if m = 0 then None else Some (unat (m - (n + 1)))"
      have rest: "dropWhile (\<lambda>c. c \<notin> set ds) (drop i s) = drop ?pos s"
        by (simp add: dropWhile_eq_drop add.commute)
      have k: "?k \<noteq> Some 0" "map_option (\<lambda>n. n - 1) ?k = ?k'" "m = 0 \<or> n + 1 \<le> m"
      proof -
        have "n < m" if "m \<noteq> 0" using that less.prems(3) more by (auto simp: word_neq_0_conv)
        then have "unat (m - n) = unat m - unat n" "unat (m - (n + 1)) = unat m - Suc (unat n)" "n + 1 \<le> m" "unat n < unat m"
          if "m \<noteq> 0"
          using that by (simp_all add: unat_sub unat_plus1 word_plus1_le word_less_nat_alt less_imp_le)
        then show "?k \<noteq> Some 0" "map_option (\<lambda>n. n - 1) ?k = ?k'" "m = 0 \<or> n + 1 \<le> m" by auto
      qed
      have tokens: "tokens_of ds ?k (drop i s) = ?tok # tokens_of ds ?k' (drop ?pos s)"
        unfolding tokens_of_start [OF less.prems(1,2)] rest k(2) using k(1) by (simp only: if_False)
      let ?next = "find_first_not_of ds s (Some (?pos + 1))"
      have loop: "tokenize_loop s ds m (Some i) n ret = tokenize_loop s ds m ?next (n + 1) (ret @ [?tok])"
        using pos True ne more by (subst tokenize_loop.simps) (auto simp: takeWhile_eq_take [symmetric])
      let ?skip = "takeWhile (\<lambda>c. c \<in> set ds) (drop (?pos + 1) s)"
      have nxt: "?next = (if ?pos + 1 + length ?skip < length s then Some (?pos + 1 + length ?skip) else None)"
        using find_from_drop [of "?pos + 1" s "\<lambda>c. c \<notin> set ds"] True by (simp add: find_first_not_of_def)
      have dw: "dropWhile (\<lambda>c. c \<in> set ds) (drop ?pos s) = drop (?pos + 1 + length ?skip) s"
        by (rule skip_delims [OF True hdp])
      have "tokenize_loop s ds m ?next (n + 1) (ret @ [?tok]) = Inr ((ret @ [?tok]) @ tokens_of ds ?k' (drop ?pos s))"
      proof (cases "?pos + 1 + length ?skip < length s")
        case True
        let ?j = "?pos + 1 + length ?skip"
        have j: "?next = Some ?j" using nxt True by simp
        then have "s ! ?j \<notin> set ds"
          using find_from_Some [of "\<lambda>c. c \<notin> set ds" s "Some (?pos + 1)"] by (simp add: find_first_not_of_def)
        moreover have "length s - ?j < length s - i" using True by linarith
        ultimately have "tokenize_loop s ds m (Some ?j) (n + 1) (ret @ [?tok]) =
            Inr ((ret @ [?tok]) @ tokens_of ds ?k' (drop ?j s))"
          by (intro less.hyps [OF _ True _ k(3)])
        then show ?thesis unfolding j dw [symmetric] tokens_of_skip .
      next
        case False
        then have "drop (?pos + 1 + length ?skip) s = []" by simp
        then have "tokens_of ds ?k' (drop ?pos s) = []"
          using dw by (subst tokens_of_skip [symmetric]) (simp only: tokens_of.simps [of ds _ "[]"] dropWhile.simps list.case)
        then show ?thesis using nxt False by (simp only: if_False loop_start_None append_Nil2)
      qed
      then show ?thesis unfolding loop tokens by simp
    qed
  qed
qed

section \<open>What the wide tokenize returns\<close>

text \<open>All the pieces between the \<open>d\<close>s, empty ones included.\<close>

function pieces :: "'a \<Rightarrow> 'a list \<Rightarrow> 'a list list" where
  "pieces d s =
     (case dropWhile (\<lambda>c. c \<noteq> d) s of [] \<Rightarrow> [s] | _ # rest \<Rightarrow> takeWhile (\<lambda>c. c \<noteq> d) s # pieces d rest)"
  by pat_completeness auto
termination
proof (relation "measure (\<lambda>(d, s). length s)", goal_cases)
  case 1
  then show ?case by simp
next
  case (2 d s c rest)
  then show ?case using length_dropWhile_le [of "\<lambda>c. c \<noteq> d" s] by simp
qed

declare pieces.simps [simp del]

lemma wide_loop_one:
  "i \<le> length s \<Longrightarrow> wide_loop s [d] (find_first_of [d] s (Some i)) (Some i) toks = Some (Inr (toks @ pieces d (drop i s)))"
proof (induction "length s - i" arbitrary: i toks rule: less_induct)
  case less
  let ?tok = "takeWhile (\<lambda>c. c \<noteq> d) (drop i s)"
  have pos: "find_first_of [d] s (Some i) = (if i + length ?tok < length s then Some (i + length ?tok) else None)"
    using find_from_drop [OF less.prems, of "\<lambda>c. c \<in> set [d]"] by (simp add: find_first_of_def)
  show ?case
  proof (cases "i + length ?tok < length s")
    case False
    then have all: "?tok = drop i s" by (intro takeWhile_long) simp
    have nil: "dropWhile (\<lambda>c. c \<noteq> d) (drop i s) = []" using all by (metis dropWhile_eq_Nil_conv takeWhile_eq_all_conv)
    have "pieces d (drop i s) = [drop i s]" by (subst pieces.simps) (simp only: nil list.case)
    then show ?thesis using pos False less.prems by (subst wide_loop.simps) (simp add: Let_def)
  next
    case True
    let ?p = "i + length ?tok"
    have rest: "dropWhile (\<lambda>c. c \<noteq> d) (drop i s) = s ! ?p # drop (?p + 1) s"
      using True by (simp add: dropWhile_eq_drop add.commute Cons_nth_drop_Suc)
    have tok: "take (?p - i) (drop i s) = ?tok" by (simp add: takeWhile_eq_take [symmetric])
    have "wide_loop s [d] (find_first_of [d] s (Some i)) (Some i) toks =
        wide_loop s [d] (find_first_of [d] s (Some (?p + 1))) (Some (?p + 1)) (toks @ [?tok])"
      unfolding pos using True less.prems by (subst wide_loop.simps) (simp add: tok [simplified] Let_def)
    also have "\<dots> = Some (Inr ((toks @ [?tok]) @ pieces d (drop (?p + 1) s)))"
      using True by (intro less.hyps) linarith+
    also have "\<dots> = Some (Inr (toks @ pieces d (drop i s)))"
      by (subst (2) pieces.simps) (simp only: rest list.case append_assoc append_Cons append_Nil)
    finally show ?thesis .
  qed
qed

lemma wide_loop_ends:
  "ds \<noteq> [] \<Longrightarrow> i \<le> length s \<Longrightarrow> \<exists>r. wide_loop s ds pos (Some i) toks = Some (Inr r)"
proof (induction "length s - i" arbitrary: i pos toks rule: less_induct)
  case less
  let ?var = "case pos of None \<Rightarrow> drop i s | Some p \<Rightarrow> take (p - i) (drop i s)"
  let ?j = "i + length ?var + length ds"
  show ?case
  proof (cases "?j > length s")
    case True
    then show ?thesis using less.prems by (subst wide_loop.simps) (simp add: Let_def cong: option.case_cong)
  next
    case False
    then have "\<exists>r. wide_loop s ds (find_first_of ds s (Some ?j)) (Some ?j) (toks @ [?var]) = Some (Inr r)"
      using less.prems(1) by (intro less.hyps) (cases ds; simp)+
    then show ?thesis using False less.prems by (subst wide_loop.simps) (simp add: Let_def cong: option.case_cong)
  qed
qed

lemma find_first_of_nothing [simp]: "find_first_of [] s i = None"
  by (auto simp: find_first_of_def find_from_def find_None_iff split: option.split)

lemma wide_loop_stuck:
  "wide_loop s ds pos last_pos toks = Some y \<Longrightarrow>
    ds = [] \<longrightarrow> pos = None \<longrightarrow> \<not> (\<exists>i \<le> length s. last_pos = Some i)"
proof (induction rule: wide_loop.raw_induct [rotated 1, consumes 1, case_names Step])
  case (Step loop s ds pos last_pos toks y)
  show ?case
  proof (intro impI notI)
    assume ds: "ds = []" "pos = None" and "\<exists>i \<le> length s. last_pos = Some i"
    then obtain i where "i \<le> length s" "last_pos = Some i" by blast
    then have "loop s [] None (Some (length s)) (toks @ [drop i s]) = Some y"
      using Step(2) ds by (simp add: Let_def)
    then show False using Step(1) by blast
  qed
qed

text \<open>With two delimiters a piece is followed by a step over two characters, whatever they are.\<close>

lemma wide_tokenize_skips: "wide_tokenize ''x,yz'' '',;'' = Some (Inr [''x'', ''z''])"
  by (simp add: wide_tokenize_def wide_loop.simps find_first_of_def find_first_not_of_def find_from_def upt_conv_Cons)

section \<open>Properties\<close>

text \<open>
  The narrow \<open>tokenize\<close> always returns, and returns the runs of characters that are no
  delimiters; with a limit it returns at most that many of them and then the rest of the string
  from the next run on, delimiters included. A delimiter at the start of the string uses up one
  of the splits, and the empty string gives one empty token.
\<close>

theorem tokenize_tokens:
  "tokenize s ds m = Inr
     (if s = [] then [[]]
      else tokens_of ds (if m = 0 then None else Some (unat m - (if hd s \<in> set ds then 1 else 0))) s)"
proof (cases s)
  case Nil
  have "find_first_of ds [] (Some 0) = None" by (simp add: find_first_of_def find_from_def)
  then show ?thesis using Nil by (simp add: tokenize_def tokenize_loop.simps)
next
  case (Cons c cs)
  show ?thesis
  proof (cases "c \<in> set ds")
    case False
    then show ?thesis using tokenize_loop_run [of 0 s ds m 0 "[]"] Cons by (simp add: tokenize_def)
  next
    case True
    let ?skip = "takeWhile (\<lambda>c. c \<in> set ds) cs"
    let ?next = "find_first_not_of ds s (Some 1)"
    let ?k = "if m = 0 then None else Some (unat m - 1)"
    have "find_first_of ds s (Some 0) = Some 0"
      using find_from_drop [of 0 s "\<lambda>c. c \<in> set ds"] True Cons by (simp add: find_first_of_def)
    then have loop: "tokenize s ds m = tokenize_loop s ds m ?next 1 []"
      unfolding tokenize_def by (subst tokenize_loop.simps) simp
    have nxt: "?next = (if 1 + length ?skip < length s then Some (1 + length ?skip) else None)"
      using find_from_drop [of 1 s "\<lambda>c. c \<notin> set ds"] Cons by (simp add: find_first_not_of_def)
    have dw: "dropWhile (\<lambda>c. c \<in> set ds) s = drop (1 + length ?skip) s"
      using True Cons by (simp add: dropWhile_eq_drop)
    have one: "m = 0 \<or> (1 \<le> m \<and> unat (m - 1) = unat m - 1)"
    proof (cases "m = 0")
      case False
      then have "1 \<le> m" by (simp add: word_le_nat_alt unat_eq_zero Suc_le_eq flip: unat_gt_0)
      then show ?thesis by (simp add: unat_sub)
    qed simp
    have "tokenize_loop s ds m ?next 1 [] = Inr (tokens_of ds ?k s)"
    proof (cases "1 + length ?skip < length s")
      case True
      have j: "?next = Some (1 + length ?skip)" using nxt True by simp
      then have "s ! (1 + length ?skip) \<notin> set ds"
        using find_from_Some [of "\<lambda>c. c \<notin> set ds" s "Some 1"] by (simp add: find_first_not_of_def)
      then have "tokenize_loop s ds m (Some (1 + length ?skip)) 1 [] =
          Inr ([] @ tokens_of ds (if m = 0 then None else Some (unat (m - 1))) (drop (1 + length ?skip) s))"
        using one by (intro tokenize_loop_run [OF True]) auto
      then show ?thesis using one unfolding j dw [symmetric] tokens_of_skip by auto
    next
      case False
      then have "dropWhile (\<lambda>c. c \<in> set ds) s = []" unfolding dw by simp
      then have "tokens_of ds ?k s = []" by (subst tokens_of.simps) (simp only: list.case)
      then show ?thesis using nxt False by (simp only: if_False loop_start_None)
    qed
    then show ?thesis using loop True Cons by simp
  qed
qed

text \<open>
  The wide \<open>tokenize\<close> returns for every string and every delimiters but for no delimiters at
  all, when it never does unless the string is empty too. With one delimiter it returns all the
  pieces between delimiters, empty ones and a last empty one included, after those at the start
  are skipped.
\<close>

theorem wide_tokenize_pieces:
  "(wide_tokenize s ds = None \<longleftrightarrow> ds = [] \<and> s \<noteq> []) \<and>
    wide_tokenize s [d] = Some (Inr
      (case dropWhile (\<lambda>c. c = d) s of [] \<Rightarrow> [] | c # cs \<Rightarrow> pieces d (c # cs)))"
proof
  have start: "find_first_not_of ds s (Some 0) =
      (if dropWhile (\<lambda>c. c \<in> set ds) s = [] then None else Some (length (takeWhile (\<lambda>c. c \<in> set ds) s)))" for ds
  proof -
    have "length (takeWhile P s) < length s \<longleftrightarrow> dropWhile P s \<noteq> []" for P
      by (metis dropWhile_eq_drop drop_eq_Nil linorder_not_le)
    then show ?thesis using find_from_drop [of 0 s "\<lambda>c. c \<notin> set ds"] by (simp add: find_first_not_of_def)
  qed
  have no: "find_first_of ds s None = None" for ds by (simp add: find_first_of_def)
  have le: "length (takeWhile P s) \<le> length s" for P by (rule length_takeWhile_le)
  have "(\<exists>r. wide_tokenize s ds = Some r) \<longleftrightarrow> ds \<noteq> [] \<or> s = []"
  proof (cases "dropWhile (\<lambda>c. c \<in> set ds) s = []")
    case True
    then have "wide_tokenize s ds = Some (Inr [])" unfolding wide_tokenize_def start Let_def
      by (subst wide_loop.simps) (simp only: True if_True no simp_thms)
    moreover have "ds = [] \<Longrightarrow> s = []" using True by (cases s) auto
    ultimately show ?thesis by auto
  next
    case False
    then have w: "wide_tokenize s ds = wide_loop s ds (find_first_of ds s (Some (length (takeWhile (\<lambda>c. c \<in> set ds) s))))
        (Some (length (takeWhile (\<lambda>c. c \<in> set ds) s))) []"
      unfolding wide_tokenize_def start Let_def by (simp only: if_False)
    have "s \<noteq> []" using False by auto
    moreover have "\<exists>r. wide_tokenize s ds = Some r" if "ds \<noteq> []"
      unfolding w using wide_loop_ends [OF that le] by blast
    moreover have "wide_tokenize s ds \<noteq> Some r" if "ds = []" for r
      using w wide_loop_stuck [of s "[]" None "Some (length (takeWhile (\<lambda>c. c \<in> set ds) s))"] le that
      by (metis find_first_of_nothing)
    ultimately show ?thesis by blast
  qed
  then show "wide_tokenize s ds = None \<longleftrightarrow> ds = [] \<and> s \<noteq> []" by (cases "wide_tokenize s ds") auto
  show "wide_tokenize s [d] = Some (Inr (case dropWhile (\<lambda>c. c = d) s of [] \<Rightarrow> [] | c # cs \<Rightarrow> pieces d (c # cs)))"
  proof (cases "dropWhile (\<lambda>c. c = d) s")
    case Nil
    then have "dropWhile (\<lambda>c. c \<in> set [d]) s = []" by simp
    then have "wide_tokenize s [d] = Some (Inr [])" unfolding wide_tokenize_def Let_def start
      by (subst wide_loop.simps) (simp only: if_True no simp_thms)
    then show ?thesis unfolding Nil by simp
  next
    case (Cons c cs)
    have "drop (length (takeWhile (\<lambda>c. c = d) s)) s = c # cs" using Cons by (simp add: dropWhile_eq_drop)
    then show ?thesis using wide_loop_one [OF le, of d "\<lambda>c. c = d" "[]"] Cons
      unfolding wide_tokenize_def Let_def start [of "[d]"] by simp
  qed
qed

text \<open>
  For two different separators: \<open>standardize_path\<close> of a path that is not empty ends with the
  separator, and splitting it with a file name behind gives the name and the path back. The
  empty path is read out of bounds. Whatever is split, the two parts put together are the name
  with its separators replaced, unless there are none; the base name holds no separator.
\<close>

theorem path_split_join:
  assumes "b \<noteq> sl" "b \<notin> set name" "sl \<notin> set name"
  shows "standardize_path b sl [] = Inl Out_of_bounds \<and>
    (p \<noteq> [] \<longrightarrow> (\<exists>q. standardize_path b sl p = Inr q \<and> last q = sl \<and> split_path b sl (q @ name) = (name, q))) \<and>
    (let (base, path) = split_path b sl p in
       sl \<notin> set base \<and> (if sl \<in> set (replace_all b sl p) then path @ base = replace_all b sl p else base = p \<and> path = []))"
proof (intro conjI impI)
  show "standardize_path b sl [] = Inl Out_of_bounds" by (simp add: standardize_path_def replace_all_def)
next
  assume p: "p \<noteq> []"
  let ?r = "replace_all b sl p"
  let ?q = "if last ?r \<noteq> sl then ?r @ [sl] else ?r"
  have r: "?r \<noteq> []" "replace_all b sl ?r = ?r" using p by (auto simp: replace_all_def)
  have q: "standardize_path b sl p = Inr ?q" "?q \<noteq> []" "last ?q = sl"
    using r(1) by (auto simp: standardize_path_def last_conv_nth)
  have "replace_all b sl name = name" using assms(2) by (induction name) (auto simp: replace_all_def)
  then have same: "replace_all b sl (?q @ name) = ?q @ name"
    using r(2) assms(1) by (auto simp: replace_all_def)
  have "find_last (\<lambda>c. c = sl) (?q @ name) = Some (length ?q - 1)"
    unfolding find_last_Some using r(1) q(2,3) assms(3) by (auto simp: nth_append last_conv_nth intro: trans_less_add1)
  then have "split_path b sl (?q @ name) = (name, ?q)" unfolding split_path_def Let_def same
    using q(2) by simp
  then show "\<exists>q. standardize_path b sl p = Inr q \<and> last q = sl \<and> split_path b sl (q @ name) = (name, q)"
    using q by blast
next
  show "let (base, path) = split_path b sl p in
       sl \<notin> set base \<and> (if sl \<in> set (replace_all b sl p) then path @ base = replace_all b sl p else base = p \<and> path = [])"
  proof (cases "find_last (\<lambda>c. c = sl) (replace_all b sl p)")
    case None
    then have "sl \<notin> set (replace_all b sl p)" by (auto simp: find_last_None)
    then show ?thesis using None by (auto simp: split_path_def replace_all_def)
  next
    case (Some i)
    then have i: "i < length (replace_all b sl p)" "replace_all b sl p ! i = sl"
      "\<forall>c\<in>set (drop (i + 1) (replace_all b sl p)). c \<noteq> sl" by (auto simp: find_last_Some)
    then show ?thesis using Some nth_mem [OF i(1)] by (auto simp: split_path_def Let_def)
  qed
qed

theorem path_split_join_witness:
  "standardize_path CHR 0x5C CHR ''/'' [CHR ''a'', CHR 0x5C, CHR ''b''] = Inr ''a/b/'' \<and>
   split_path CHR 0x5C CHR ''/'' ''a/b/c.txt'' = (''c.txt'', ''a/b/'')"
proof -
  have "standardize_path CHR 0x5C CHR ''/'' [CHR ''a'', CHR 0x5C, CHR ''b''] = Inr ''a/b/''" by code_simp
  then show ?thesis
    using path_split_join [of "CHR 0x5C" "CHR ''/''" "''c.txt''" "[CHR ''a'', CHR 0x5C, CHR ''b'']"] by simp
qed

end
