(* ===== verification/Subs_Close.thy ===== *)
theory Subs_Close
  imports Id_Sequence
begin

text \<open>
  \<open>net::subs_close\<close> (\<open>src/net/detail/subs_close.cpp\<close>): who wants to be told when a session closes.

  The lock is held for every operation. A callback works on the world of the program and on the
  message (session id and error code); a callback that subscribes or unsubscribes while \<open>post\<close>
  runs through the vector is not modelled.
\<close>

section \<open>The model\<close>

type_synonym ('e, 'w) close_cb = "u32 \<times> 'e \<Rightarrow> 'w \<Rightarrow> 'w"

type_synonym ('e, 'w) close_entry = "u32 \<times> ('e, 'w) close_cb"

record ('e, 'w) subs_close =
  sc_subs :: "u32 \<Rightarrow> ('e, 'w) close_entry list option"
  sc_index :: "u32 \<Rightarrow> u32 option"
  sc_seq :: "u32 sequence"

definition subs_close_new :: "('e, 'w) subs_close" where
  "subs_close_new = \<lparr>sc_subs = Map.empty, sc_index = Map.empty, sc_seq = sequence_new 1 0xFFFF 1000\<rparr>"

definition sc_subscribe :: "u32 \<Rightarrow> ('e, 'w) close_cb \<Rightarrow> ('e, 'w) subs_close \<Rightarrow> fault + (u32 \<times> ('e, 'w) subs_close)" where
  "sc_subscribe sid cb sc =
     (case sequence_next (sc_seq sc) of
        Inl f \<Rightarrow> Inl f
      | Inr (key, sq) \<Rightarrow>
          (let vs = (case sc_subs sc sid of Some v \<Rightarrow> v @ [(key, cb)] | None \<Rightarrow> [(key, cb)])
           in Inr (key, sc\<lparr>sc_subs := (sc_subs sc)(sid \<mapsto> vs), sc_index := (sc_index sc)(key \<mapsto> sid), sc_seq := sq\<rparr>)))"

definition sc_unsubscribe :: "u32 \<Rightarrow> ('e, 'w) subs_close \<Rightarrow> ('e, 'w) subs_close" where
  "sc_unsubscribe key sc =
     (case sc_index sc key of
        None \<Rightarrow> sc
      | Some sid \<Rightarrow>
          (case sc_subs sc sid of
             None \<Rightarrow> sc
           | Some v \<Rightarrow> sc\<lparr>sc_subs := (sc_subs sc)(sid \<mapsto> filter (\<lambda>e. fst e \<noteq> key) v)\<rparr>))"

definition sc_post :: "u32 \<Rightarrow> 'e \<Rightarrow> ('e, 'w) subs_close \<Rightarrow> 'w \<Rightarrow> nat \<times> ('e, 'w) subs_close \<times> 'w" where
  "sc_post sid ec sc w =
     (case sc_subs sc sid of
        None \<Rightarrow> (0, sc, w)
      | Some v \<Rightarrow>
          (length v,
           sc\<lparr>sc_subs := (sc_subs sc)(sid := None), sc_index := fold (\<lambda>e m. m(fst e := None)) v (sc_index sc)\<rparr>,
           fold (\<lambda>e w. snd e (sid, ec) w) v w))"

section \<open>A sequence whose ids are not released\<close>

text \<open>The next id is \<open>n\<close>, and those after it follow in order.\<close>

definition seq_at :: "nat \<Rightarrow> 'w::len word sequence \<Rightarrow> bool" where
  "seq_at n s \<longleftrightarrow> n \<le> unat (sq_current s) \<and> map unat (sq_seqs s) = [n..<unat (sq_current s)] \<and> sq_current s \<le> sq_end s"

lemma seq_at_acquire: "seq_at n s \<Longrightarrow> seq_at n (acquire k s)"
proof (induction k arbitrary: s)
  case 0
  then show ?case by simp
next
  case (Suc k)
  let ?s = "if sq_current s < sq_end s
      then s\<lparr>sq_seqs := sq_seqs s @ [sq_current s], sq_current := sq_current s + 1\<rparr> else s"
  have "seq_at n ?s" using Suc.prems unat_plus1 [of "sq_current s" "sq_end s"] word_plus1_le [of "sq_current s" "sq_end s"]
    by (auto simp: seq_at_def)
  then show ?case by (simp add: Suc.IH)
qed

lemma seq_at_next:
  assumes "seq_at n s"
  shows "if n < unat (sq_end s) then \<exists>s'. sequence_next s = Inr (of_nat n, s') \<and> seq_at (n + 1) s' \<and> sq_end s' = sq_end s
    else sequence_next s = Inl (Thrown ''no sequence to use'')"
proof -
  define s1 where "s1 = (if length (sq_seqs s) < unat (sq_reserve s) then acquire (unat (sq_reserve s) - length (sq_seqs s)) s else s)"
  have at: "seq_at n s1" and e: "sq_end s1 = sq_end s" using assms by (simp_all add: seq_at_acquire s1_def)
  have nx: "sequence_next s = (case sq_seqs s1 of v # vs \<Rightarrow> Inr (v, s1\<lparr>sq_seqs := vs\<rparr>)
      | [] \<Rightarrow> (if sq_current s1 = sq_end s1 then Inl (Thrown ''no sequence to use'')
              else Inr (sq_current s1, s1\<lparr>sq_current := sq_current s1 + 1\<rparr>)))"
    unfolding sequence_next_def Let_def s1_def [symmetric] by (rule refl)
  have le: "sq_current s1 \<le> sq_end s" using at e by (simp add: seq_at_def)
  show ?thesis
  proof (cases "sq_seqs s1")
    case Nil
    then have "[n..<unat (sq_current s1)] = []" using at by (simp add: seq_at_def)
    then have n: "n = unat (sq_current s1)" using at by (auto simp: seq_at_def)
    show ?thesis
    proof (cases "sq_current s1 = sq_end s")
      case True
      then have "\<not> n < unat (sq_end s)" using n by simp
      then show ?thesis using Nil True e nx by simp
    next
      case False
      then have lt: "sq_current s1 < sq_end s" using le by simp
      then have "n < unat (sq_end s)" using n by (simp add: word_less_nat_alt)
      moreover have "seq_at (n + 1) (s1\<lparr>sq_current := sq_current s1 + 1\<rparr>)"
        using Nil n lt e unat_plus1 [OF lt] word_plus1_le [OF lt] by (simp add: seq_at_def)
      moreover have "sequence_next s = Inr (of_nat n, s1\<lparr>sq_current := sq_current s1 + 1\<rparr>)"
        using Nil False e n nx by simp
      ultimately show ?thesis using e by auto
    qed
  next
    case (Cons v vs)
    then have "unat v # map unat vs = [n..<unat (sq_current s1)]" using at by (simp add: seq_at_def)
    then have v: "n < unat (sq_current s1)" "unat v = n" "map unat vs = [n + 1..<unat (sq_current s1)]"
      by (auto simp: upt_eq_Cons_conv dest!: sym [of "_ # _"])
    have "n < unat (sq_end s)" using v(1) le by (simp add: word_le_nat_alt)
    moreover have "sequence_next s = Inr (of_nat n, s1\<lparr>sq_seqs := vs\<rparr>)"
      using Cons nx by (simp flip: v(2))
    moreover have "seq_at (n + 1) (s1\<lparr>sq_seqs := vs\<rparr>)" using v at by (simp add: seq_at_def)
    ultimately show ?thesis using e by auto
  qed
qed

lemma seq_at_new: "b \<le> e \<Longrightarrow> seq_at (unat b) (sequence_new b e r)"
  unfolding sequence_new_def Let_def by (rule seq_at_acquire) (simp add: seq_at_def)

section \<open>The registry it implements\<close>

datatype ('e, 'w) close_cmd = Sub_close u32 "('e, 'w) close_cb" | Unsub_close u32 | Post_close u32 'e

datatype close_result = Key u32 | No_key fault | Done | Count nat

fun run_close :: "('e, 'w) close_cmd \<Rightarrow> ('e, 'w) subs_close \<times> 'w \<Rightarrow> close_result \<times> ('e, 'w) subs_close \<times> 'w" where
  "run_close (Sub_close sid cb) (sc, w) =
     (case sc_subscribe sid cb sc of Inl f \<Rightarrow> (No_key f, sc, w) | Inr (key, sc') \<Rightarrow> (Key key, sc', w))"
| "run_close (Unsub_close key) (sc, w) = (Done, sc_unsubscribe key sc, w)"
| "run_close (Post_close sid ec) (sc, w) = (case sc_post sid ec sc w of (n, sc', w') \<Rightarrow> (Count n, sc', w'))"

text \<open>The registry: the subscriptions in order, and the number of the next key.\<close>

type_synonym ('e, 'w) close_reg = "nat \<times> (u32 \<times> u32 \<times> ('e, 'w) close_cb) list"

fun spec_close :: "('e, 'w) close_cmd \<Rightarrow> ('e, 'w) close_reg \<times> 'w \<Rightarrow> close_result \<times> ('e, 'w) close_reg \<times> 'w" where
  "spec_close (Sub_close sid cb) ((n, reg), w) =
     (if n < 65535 then (Key (of_nat n), (n + 1, reg @ [(of_nat n, sid, cb)]), w)
      else (No_key (Thrown ''no sequence to use''), (n, reg), w))"
| "spec_close (Unsub_close key) ((n, reg), w) = (Done, (n, filter (\<lambda>(k, s, cb). k \<noteq> key) reg), w)"
| "spec_close (Post_close sid ec) ((n, reg), w) =
     (let mine = filter (\<lambda>(k, s, cb). s = sid) reg
      in (Count (length mine), (n, filter (\<lambda>(k, s, cb). s \<noteq> sid) reg), fold (\<lambda>(k, s, cb) w. cb (sid, ec) w) mine w))"

fun run_all :: "('c \<Rightarrow> 's \<times> 'w \<Rightarrow> close_result \<times> 's \<times> 'w) \<Rightarrow> 'c list \<Rightarrow> 's \<times> 'w \<Rightarrow> close_result list \<times> 's \<times> 'w" where
  "run_all run [] sw = ([], sw)"
| "run_all run (c # cs) sw =
     (case run c sw of (r, sw1) \<Rightarrow> (case run_all run cs sw1 of (rs, sw2) \<Rightarrow> (r # rs, sw2)))"

definition entries :: "('e, 'w) subs_close \<Rightarrow> u32 \<Rightarrow> ('e, 'w) close_entry list" where
  "entries sc sid = (case sc_subs sc sid of None \<Rightarrow> [] | Some v \<Rightarrow> v)"

definition reg_entries :: "(u32 \<times> u32 \<times> ('e, 'w) close_cb) list \<Rightarrow> u32 \<Rightarrow> ('e, 'w) close_entry list" where
  "reg_entries reg sid = map (\<lambda>(k, s, cb). (k, cb)) (filter (\<lambda>(k, s, cb). s = sid) reg)"

definition close_rel :: "('e, 'w) subs_close \<Rightarrow> ('e, 'w) close_reg \<Rightarrow> bool" where
  "close_rel sc nr \<longleftrightarrow> seq_at (fst nr) (sc_seq sc) \<and> sq_end (sc_seq sc) = 0xFFFF \<and>
     (\<forall>sid. entries sc sid = reg_entries (snd nr) sid) \<and> distinct (map fst (snd nr)) \<and>
     (\<forall>(k, s, cb) \<in> set (snd nr). unat k < fst nr \<and> sc_index sc k = Some s)"

lemma reg_entries_simps [simp]:
  "reg_entries [] sid = []"
  "reg_entries ((k, s, cb) # reg) sid = (if s = sid then (k, cb) # reg_entries reg sid else reg_entries reg sid)"
  "reg_entries (reg @ reg') sid = reg_entries reg sid @ reg_entries reg' sid"
  by (simp_all add: reg_entries_def)

lemma reg_entries_filter_key:
  "reg_entries (filter (\<lambda>(k, s, cb). k \<noteq> key) reg) sid = filter (\<lambda>e. fst e \<noteq> key) (reg_entries reg sid)"
  by (induction reg) (auto split: if_splits)

lemma reg_entries_filter_sid:
  "reg_entries (filter (\<lambda>(k, s, cb). s \<noteq> sid') reg) sid = (if sid = sid' then [] else reg_entries reg sid)"
  by (induction reg) auto

lemma reg_entries_key: "(k, cb) \<in> set (reg_entries reg sid) \<longleftrightarrow> (k, sid, cb) \<in> set reg"
  by (force simp: reg_entries_def)

lemma distinct_keysD: "distinct (map fst reg) \<Longrightarrow> (k, x) \<in> set reg \<Longrightarrow> (k, y) \<in> set reg \<Longrightarrow> x = y"
  by (metis eq_key_imp_eq_value)

lemma fold_erase: "fold (\<lambda>e m. m(fst e := None)) v m k = (if k \<in> fst ` set v then None else m k)"
  by (induction v arbitrary: m) auto

lemma run_close_spec:
  assumes "close_rel sc nr"
  obtains r sc' nr' w' where "run_close c (sc, w) = (r, sc', w')" "spec_close c (nr, w) = (r, nr', w')" "close_rel sc' nr'"
proof (cases c)
  case (Sub_close sid cb)
  obtain n reg where nr: "nr = (n, reg)" by force
  have a: "seq_at n (sc_seq sc)" "sq_end (sc_seq sc) = 0xFFFF" "\<forall>sid. entries sc sid = reg_entries reg sid"
    "distinct (map fst reg)" "\<forall>(k, s, cb) \<in> set reg. unat k < n \<and> sc_index sc k = Some s"
    using assms by (simp_all add: close_rel_def nr)
  show thesis
  proof (cases "n < 65535")
    case True
    then obtain sq where sq: "sequence_next (sc_seq sc) = Inr (of_nat n, sq)" "seq_at (n + 1) sq" "sq_end sq = 0xFFFF"
      using seq_at_next [OF a(1)] a(2) by auto
    let ?vs = "case sc_subs sc sid of Some v \<Rightarrow> v @ [(of_nat n, cb)] | None \<Rightarrow> [(of_nat n, cb)]"
    let ?sc = "sc\<lparr>sc_subs := (sc_subs sc)(sid \<mapsto> ?vs), sc_index := (sc_index sc)(of_nat n \<mapsto> sid), sc_seq := sq\<rparr>"
    have n: "unat (of_nat n :: u32) = n" using True by (simp add: unat_of_nat)
    have new: "(of_nat n :: u32) \<notin> fst ` set reg" using a(5) n by fastforce
    have vs: "?vs = entries sc sid @ [(of_nat n, cb)]" by (simp add: entries_def split: option.split)
    have "close_rel ?sc (n + 1, reg @ [(of_nat n, sid, cb)])"
      unfolding close_rel_def
    proof (intro conjI)
      show "\<forall>sid'. entries ?sc sid' = reg_entries (snd (n + 1, reg @ [(of_nat n, sid, cb)])) sid'"
        using a(3) vs by (simp add: entries_def [of ?sc]) (simp add: entries_def)
      show "\<forall>(k, s, cb') \<in> set (snd (n + 1, reg @ [(of_nat n, sid, cb)])).
          unat k < fst (n + 1, reg @ [(of_nat n, sid, cb)]) \<and> sc_index ?sc k = Some s"
        using a(5) n new by fastforce
    qed (use sq a(4) new in auto)
    then show thesis using True sq(1) by (intro that) (auto simp: Sub_close nr sc_subscribe_def Let_def)
  next
    case False
    then have "sequence_next (sc_seq sc) = Inl (Thrown ''no sequence to use'')"
      using seq_at_next [OF a(1)] a(2) by simp
    then show thesis using False assms by (intro that) (auto simp: Sub_close nr sc_subscribe_def)
  qed
next
  case (Unsub_close key)
  obtain n reg where nr: "nr = (n, reg)" by force
  let ?reg = "filter (\<lambda>(k, s, cb). k \<noteq> key) reg"
  have a: "seq_at n (sc_seq sc)" "sq_end (sc_seq sc) = 0xFFFF" "\<forall>sid. entries sc sid = reg_entries reg sid"
    "distinct (map fst reg)" "\<forall>(k, s, cb) \<in> set reg. unat k < n \<and> sc_index sc k = Some s"
    using assms by (simp_all add: close_rel_def nr)
  have same: "sc_seq (sc_unsubscribe key sc) = sc_seq sc" "sc_index (sc_unsubscribe key sc) = sc_index sc"
    by (simp_all add: sc_unsubscribe_def split: option.split)
  have "entries (sc_unsubscribe key sc) sid = reg_entries ?reg sid" for sid
  proof -
    have only: "filter (\<lambda>e. fst e \<noteq> key) (entries sc sid) = entries sc sid" if "sc_index sc key \<noteq> Some sid"
      using that a(3,5) by (intro filter_True) (auto simp: reg_entries_key)
    have "entries (sc_unsubscribe key sc) sid = filter (\<lambda>e. fst e \<noteq> key) (entries sc sid)"
      using only by (cases "sc_index sc key = Some sid") (auto simp: sc_unsubscribe_def entries_def split: option.splits)
    then show ?thesis using a(3) by (simp add: reg_entries_filter_key)
  qed
  then have "close_rel (sc_unsubscribe key sc) (n, ?reg)"
    using a same by (auto simp: close_rel_def distinct_map_filter)
  then show thesis by (intro that) (auto simp: Unsub_close nr)
next
  case (Post_close sid ec)
  obtain n reg where nr: "nr = (n, reg)" by force
  let ?reg = "filter (\<lambda>(k, s, cb). s \<noteq> sid) reg" and ?mine = "filter (\<lambda>(k, s, cb). s = sid) reg"
  have a: "seq_at n (sc_seq sc)" "sq_end (sc_seq sc) = 0xFFFF" "\<forall>sid. entries sc sid = reg_entries reg sid"
    "distinct (map fst reg)" "\<forall>(k, s, cb) \<in> set reg. unat k < n \<and> sc_index sc k = Some s"
    using assms by (simp_all add: close_rel_def nr)
  have mine: "entries sc sid = map (\<lambda>(k, s, cb). (k, cb)) ?mine" using a(3) by (simp add: reg_entries_def)
  have cbs: "fold (\<lambda>e w. snd e (sid, ec) w) (map (\<lambda>(k, s, cb). (k, cb)) xs) w = fold (\<lambda>(k, s, cb) w. cb (sid, ec) w) xs w" for xs
    by (induction xs arbitrary: w) auto
  show thesis
  proof (cases "sc_subs sc sid")
    case None
    then have "?mine = []" using mine by (simp add: entries_def)
    moreover have "?reg = reg" using \<open>?mine = []\<close> by (auto simp: filter_empty_conv filter_id_conv)
    ultimately show thesis using None assms by (intro that) (auto simp: Post_close nr sc_post_def)
  next
    case (Some v)
    then have v: "v = map (\<lambda>(k, s, cb). (k, cb)) ?mine" using mine by (simp add: entries_def)
    let ?sc = "sc\<lparr>sc_subs := (sc_subs sc)(sid := None), sc_index := fold (\<lambda>e m. m(fst e := None)) v (sc_index sc)\<rparr>"
    have "close_rel ?sc (n, ?reg)"
      unfolding close_rel_def
    proof (intro conjI)
      show "\<forall>sid'. entries ?sc sid' = reg_entries (snd (n, ?reg)) sid'"
        using a(3) by (auto simp: entries_def reg_entries_filter_sid)
      show "\<forall>(k, s, cb) \<in> set (snd (n, ?reg)). unat k < fst (n, ?reg) \<and> sc_index ?sc k = Some s"
      proof -
        have "unat k < n \<and> sc_index ?sc k = Some s" if k: "(k, s, cb) \<in> set reg" "s \<noteq> sid" for k s cb
        proof -
          have "k \<notin> fst ` set v"
          proof
            assume "k \<in> fst ` set v"
            then obtain cb' where "(k, sid, cb') \<in> set reg" by (auto simp: v)
            then show False using distinct_keysD [OF a(4) k(1)] k(2) by blast
          qed
          then show ?thesis using a(5) k(1) by (auto simp: fold_erase)
        qed
        then show ?thesis by auto
      qed
    qed (use a in \<open>auto simp: distinct_map_filter\<close>)
    then show thesis using Some v cbs by (intro that) (auto simp: Post_close nr sc_post_def Let_def)
  qed
qed

lemma close_rel_new: "close_rel subs_close_new (1, [])"
  using seq_at_new [of "1 :: u32" "0xFFFF" "1000"]
  by (simp add: close_rel_def subs_close_new_def entries_def reg_entries_def) (simp add: sequence_new_def Let_def)

lemma run_all_spec:
  "close_rel sc nr \<Longrightarrow> \<exists>rs sc' nr' w'. run_all run_close cs (sc, w) = (rs, sc', w') \<and>
    run_all spec_close cs (nr, w) = (rs, nr', w') \<and> close_rel sc' nr'"
proof (induction cs arbitrary: sc nr w)
  case Nil
  then show ?case by simp
next
  case (Cons c cs)
  obtain r sc1 nr1 w1 where one: "run_close c (sc, w) = (r, sc1, w1)" "spec_close c (nr, w) = (r, nr1, w1)" "close_rel sc1 nr1"
    by (rule run_close_spec [OF Cons.prems])
  from Cons.IH [OF one(3), of w1] show ?case using one(1,2) by auto
qed

section \<open>Property\<close>

text \<open>
  C22. \<open>subs_close\<close> is the registry of subscriptions: every sequence of subscriptions,
  unsubscriptions and closed sessions gives the same results and the same calls of callbacks as
  the list of the subscriptions in force; closing a session calls the callbacks of that session
  in the order they came, once. Keys count up from 1 and are never used again: the 65535th
  subscription throws, however many of the earlier ones are gone.
\<close>

theorem subs_close_registry:
  "\<exists>rs sc' nr' w'. run_all run_close cs (subs_close_new, w) = (rs, sc', w') \<and>
     run_all spec_close cs ((1, []), w) = (rs, nr', w') \<and> close_rel sc' nr'"
  by (rule run_all_spec [OF close_rel_new])

text \<open>Subscribing and unsubscribing again and again uses up the keys.\<close>

definition sub_unsub :: "nat \<Rightarrow> (nat, unit) close_cmd list" where
  "sub_unsub k = [Sub_close 7 (\<lambda>m w. w), Unsub_close (of_nat k)]"

lemma run_all_append:
  "run_all run (xs @ ys) sw =
    (case run_all run xs sw of (rs, sw1) \<Rightarrow> (case run_all run ys sw1 of (rs2, sw2) \<Rightarrow> (rs @ rs2, sw2)))"
  by (induction xs arbitrary: sw) (auto split: prod.splits)

lemma sub_unsub_spec:
  "n \<le> 65535 \<Longrightarrow> \<exists>rs. run_all spec_close (concat (map sub_unsub [1..<n])) ((1, []), ()) = (rs, (max 1 n, []), ())"
proof (induction n)
  case 0
  then show ?case by simp
next
  case (Suc n)
  then show ?case by (cases "n = 0") (auto simp: run_all_append sub_unsub_def)
qed

lemma subs_close_exhausted:
  "\<exists>rs sc' w'. run_all run_close (concat (map sub_unsub [1..<65535]) @ [Sub_close 7 (\<lambda>m w. w)]) (subs_close_new, ()) =
      (rs, sc', w') \<and> last rs = No_key (Thrown ''no sequence to use'')"
proof -
  define cs where "cs = concat (map sub_unsub [1..<65535])"
  obtain rs where "run_all spec_close cs ((1, []), ()) = (rs, (65535, []), ())"
    using sub_unsub_spec [of 65535] by (auto simp: max_def cs_def simp del: upt_Suc)
  then have "run_all spec_close (cs @ [Sub_close 7 (\<lambda>m w. w)]) ((1, []), ()) =
      (rs @ [No_key (Thrown ''no sequence to use'')], (65535, []), ())" by (simp add: run_all_append)
  then show ?thesis using run_all_spec [OF close_rel_new, of "cs @ [Sub_close 7 (\<lambda>m w. w)]" "()"]
    unfolding cs_def [symmetric] by auto
qed

end
