(* ===== verification/Segment_Buffer.thy ===== *)
theory Segment_Buffer
  imports Resize_Buffer Object_Pool
begin

text \<open>
  \<open>net::segment\<close> and \<open>net::segment_buffer\<close> (\<open>include/lax/net/detail/buffer\<close>), the send
  buffer of a session: a list of fixed size segments taken from an object pool. \<open>L\<close> is the
  template parameter \<open>Length\<close>. Of a segment the model keeps the bytes written so far, so a
  read past them, which would see uninitialised memory, is a fault.
\<close>

section \<open>segment\<close>

record seg =
  sg_addr :: nat
  sg_data :: "byte list"

definition sg_size :: "seg \<Rightarrow> nat" where
  "sg_size s = length (sg_data s)"

definition sg_append :: "nat \<Rightarrow> seg \<Rightarrow> byte list \<Rightarrow> nat \<times> seg" where
  "sg_append L s p =
     (let n = min (length p) (L - sg_size s)
      in if n = 0 then (0, s) else (n, s\<lparr>sg_data := sg_data s @ take n p\<rparr>))"

definition sg_rewind :: "seg \<Rightarrow> seg" where
  "sg_rewind s = s\<lparr>sg_data := []\<rparr>"

definition sg_pop_front :: "seg \<Rightarrow> nat \<Rightarrow> seg" where
  "sg_pop_front s n = s\<lparr>sg_data := drop (min n (sg_size s)) (sg_data s)\<rparr>"

section \<open>segment\_buffer\<close>

record segbuf =
  sb_pool :: object_pool       \<comment> \<open>the static member \<open>pool_\<close>\<close>
  sb_segs :: "seg list"
  sb_pos :: nat

definition segbuf_new :: "object_pool \<Rightarrow> segbuf" where
  "segbuf_new p = \<lparr>sb_pool = p, sb_segs = [], sb_pos = 0\<rparr>"

definition get_write_seg :: "nat \<Rightarrow> segbuf \<Rightarrow> nat" where
  "get_write_seg L sb = sb_pos sb div L"

definition get_data_seg :: "nat \<Rightarrow> segbuf \<Rightarrow> nat" where
  "get_data_seg L sb = (if sb_pos sb > 0 then sb_pos sb - 1 else 0) div L"

text \<open>\<open>n\<close> rounds of \<open>segs_.push_back(pool_.construct_raw())\<close>.\<close>

fun push_segs :: "nat \<Rightarrow> segbuf \<Rightarrow> segbuf" where
  "push_segs 0 sb = sb"
| "push_segs (Suc n) sb =
     (case op_construct_raw (sb_pool sb) of
        (a, p) \<Rightarrow> push_segs n (sb\<lparr>sb_pool := p, sb_segs := sb_segs sb @ [\<lparr>sg_addr = a, sg_data = []\<rparr>]\<rparr>))"

text \<open>
  The difference in \<open>reserve\<close> is taken in \<open>size_t\<close>: with more segments than needed it wraps
  around and the loop allocates until the allocator throws.
\<close>

definition sb_reserve :: "nat \<Rightarrow> segbuf \<Rightarrow> nat \<Rightarrow> fault + segbuf" where
  "sb_reserve L sb len =
     (let total_segs = (sb_pos sb + len) div L + 1
      in if length (sb_segs sb) \<le> total_segs
         then Inr (push_segs (total_segs - length (sb_segs sb)) sb)
         else Inl (Thrown ''bad_alloc''))"

text \<open>The loop of \<open>append\<close> on the bytes not yet written. It goes on for ever if nothing fits.\<close>

partial_function (option) append_loop :: "nat \<Rightarrow> segbuf \<Rightarrow> byte list \<Rightarrow> (fault + segbuf) option" where
  "append_loop L sb rest =
     (if rest = [] then Some (Inr sb)
      else let k = get_write_seg L sb in
           if \<not> k < length (sb_segs sb) then Some (Inl Out_of_bounds)
           else let j = (if sg_size (sb_segs sb ! k) = L then k + 1 else k) in
                if \<not> j < length (sb_segs sb) then Some (Inl Out_of_bounds)
                else let r = sg_append L (sb_segs sb ! j) rest in
                     append_loop L
                       (sb\<lparr>sb_segs := (sb_segs sb)[j := snd r], sb_pos := sb_pos sb + fst r\<rparr>)
                       (drop (fst r) rest))"

definition sb_append :: "nat \<Rightarrow> segbuf \<Rightarrow> byte list \<Rightarrow> (fault + segbuf) option" where
  "sb_append L sb p =
     (case sb_reserve L sb (length p) of Inl f \<Rightarrow> Some (Inl f) | Inr sb1 \<Rightarrow> append_loop L sb1 p)"

definition sb_size :: "segbuf \<Rightarrow> nat" where
  "sb_size sb = sb_pos sb"

definition sb_at :: "nat \<Rightarrow> segbuf \<Rightarrow> nat \<Rightarrow> fault + byte" where
  "sb_at L sb pos =
     (if pos \<ge> sb_pos sb then Inr 0
      else if sb_segs sb = [] then Inr 0
      else if pos div L < length (sb_segs sb) \<and> pos mod L < sg_size (sb_segs sb ! (pos div L))
           then Inr (sg_data (sb_segs sb ! (pos div L)) ! (pos mod L))
           else Inl Out_of_bounds)"

definition sb_rewind :: "segbuf \<Rightarrow> segbuf" where
  "sb_rewind sb = sb\<lparr>sb_segs := map sg_rewind (sb_segs sb), sb_pos := 0\<rparr>"

text \<open>\<open>transfer\<close>: the iterator stops at the end of the vector, as \<open>take\<close> does.\<close>

definition sb_transfer :: "nat \<Rightarrow> segbuf \<Rightarrow> seg list \<times> segbuf" where
  "sb_transfer L sb =
     (if sb_pos sb = 0 then ([], sb)
      else let n = get_data_seg L sb + 1
           in (take n (sb_segs sb), sb_rewind (sb\<lparr>sb_segs := drop n (sb_segs sb)\<rparr>)))"

definition sb_release :: "segbuf \<Rightarrow> seg list \<Rightarrow> segbuf" where
  "sb_release sb segs = sb\<lparr>sb_pool := fold (\<lambda>s p. op_destroy p (sg_addr s)) segs (sb_pool sb)\<rparr>"

definition sb_cleanup :: "segbuf \<Rightarrow> segbuf" where
  "sb_cleanup sb = sb_release sb (sb_segs sb)"

section \<open>Invariant and contents\<close>

text \<open>
  The segments are filled from the front: all before the write segment are full, the write
  segment holds the rest, the ones behind it are empty.
\<close>

definition fill_of :: "nat \<Rightarrow> nat \<Rightarrow> nat \<Rightarrow> nat" where
  "fill_of L pos i = (if i < pos div L then L else if i = pos div L then pos mod L else 0)"

definition sb_inv :: "nat \<Rightarrow> segbuf \<Rightarrow> bool" where
  "sb_inv L sb \<longleftrightarrow>
     map sg_size (sb_segs sb) = map (fill_of L (sb_pos sb)) [0..<length (sb_segs sb)] \<and>
     length (sb_segs sb) \<le> sb_pos sb div L + 1 \<and> sb_pos sb \<le> L * length (sb_segs sb)"

definition sb_bytes :: "segbuf \<Rightarrow> byte list" where
  "sb_bytes sb = concat (map sg_data (sb_segs sb))"

lemma segbuf_new_inv [lax_inv]: "sb_inv L (segbuf_new p)"
  by (simp add: sb_inv_def segbuf_new_def)

lemma segbuf_new_bytes [simp]: "sb_bytes (segbuf_new p) = []"
  by (simp add: sb_bytes_def segbuf_new_def)

lemma push_segs_eq:
  "\<exists>p as. length as = n \<and> push_segs n sb =
     sb\<lparr>sb_pool := p, sb_segs := sb_segs sb @ map (\<lambda>a. \<lparr>sg_addr = a, sg_data = []\<rparr>) as\<rparr>"
proof (induction n arbitrary: sb)
  case 0
  show ?case by (intro exI [of _ "sb_pool sb"] exI [of _ "[]"]) simp
next
  case (Suc n)
  obtain a p where a: "op_construct_raw (sb_pool sb) = (a, p)" by force
  let ?sb = "sb\<lparr>sb_pool := p, sb_segs := sb_segs sb @ [\<lparr>sg_addr = a, sg_data = []\<rparr>]\<rparr>"
  obtain q as where q: "length as = n" "push_segs n ?sb =
      ?sb\<lparr>sb_pool := q, sb_segs := sb_segs ?sb @ map (\<lambda>a. \<lparr>sg_addr = a, sg_data = []\<rparr>) as\<rparr>"
    using Suc.IH [of ?sb] by blast
  then show ?case using a by (intro exI [of _ q] exI [of _ "a # as"]) simp
qed

text \<open>While appending, the number of segments may exceed what is filled.\<close>

definition sb_filled :: "nat \<Rightarrow> segbuf \<Rightarrow> bool" where
  "sb_filled L sb \<longleftrightarrow>
     map sg_size (sb_segs sb) = map (fill_of L (sb_pos sb)) [0..<length (sb_segs sb)]"

lemma filled_nth: "sb_filled L sb \<Longrightarrow> i < length (sb_segs sb) \<Longrightarrow> sg_size (sb_segs sb ! i) = fill_of L (sb_pos sb) i"
proof -
  assume f: "sb_filled L sb" and i: "i < length (sb_segs sb)"
  have "map sg_size (sb_segs sb) ! i = map (fill_of L (sb_pos sb)) [0..<length (sb_segs sb)] ! i"
    using f by (simp add: sb_filled_def)
  then show ?thesis using i by simp
qed

lemma filledI:
  "(\<And>i. i < length (sb_segs sb) \<Longrightarrow> sg_size (sb_segs sb ! i) = fill_of L (sb_pos sb) i) \<Longrightarrow> sb_filled L sb"
  by (auto simp: sb_filled_def intro!: nth_equalityI)

text \<open>The bytes behind the write segment are nothing.\<close>

lemma filled_bytes_update:
  assumes f: "sb_filled L sb" and k: "k = sb_pos sb div L" "k < length (sb_segs sb)"
  shows "concat (map sg_data ((sb_segs sb)[k := (sb_segs sb ! k)\<lparr>sg_data := sg_data (sb_segs sb ! k) @ xs\<rparr>])) =
    sb_bytes sb @ xs"
proof -
  have "sg_size (sb_segs sb ! i) = 0" if "k < i" "i < length (sb_segs sb)" for i
    using filled_nth [OF f that(2)] that(1) k(1) by (simp add: fill_of_def)
  then have "\<forall>s \<in> set (drop (Suc k) (sb_segs sb)). sg_data s = []"
    by (auto simp: in_set_conv_nth sg_size_def)
  then have tail: "concat (map sg_data (drop (Suc k) (sb_segs sb))) = []" by simp
  have split: "sb_segs sb = take k (sb_segs sb) @ sb_segs sb ! k # drop (Suc k) (sb_segs sb)"
    by (rule id_take_nth_drop [OF k(2)])
  have "sb_bytes sb = concat (map sg_data (take k (sb_segs sb))) @ sg_data (sb_segs sb ! k)"
    using arg_cong [OF split, of "\<lambda>l. concat (map sg_data l)"] tail by (simp add: sb_bytes_def)
  then show ?thesis
    by (simp add: upd_conv_take_nth_drop [OF k(2)] tail)
qed

lemma div_mod_fill:
  assumes "0 < L" "r \<le> L"
  shows "(L * k + r) div L = (if r = L then Suc k else k) \<and> (L * k + r) mod L = (if r = L then 0 else r)"
proof (cases "r = L")
  case True
  then have "L * k + r = L * Suc k" by simp
  then show ?thesis using True assms(1) by (simp only: nonzero_mult_div_cancel_left mod_mult_self1_is_0) simp
next
  case False
  then show ?thesis using assms by simp
qed

lemma append_loop_ok:
  assumes L: "0 < L"
  shows "sb_filled L sb \<Longrightarrow> (sb_pos sb + length rest) div L < length (sb_segs sb) \<Longrightarrow>
    \<exists>sb'. append_loop L sb rest = Some (Inr sb') \<and> sb_filled L sb' \<and> sb_bytes sb' = sb_bytes sb @ rest \<and>
      sb_pos sb' = sb_pos sb + length rest \<and> length (sb_segs sb') = length (sb_segs sb)"
proof (induction "length rest" arbitrary: sb rest rule: less_induct)
  case less
  show ?case
  proof (cases "rest = []")
    case True
    then show ?thesis using less.prems by (subst append_loop.simps) simp
  next
    case False
    define k where "k = sb_pos sb div L"
    define n where "n = min (length rest) (L - sb_pos sb mod L)"
    let ?s = "(sb_segs sb ! k)\<lparr>sg_data := sg_data (sb_segs sb ! k) @ take n rest\<rparr>"
    let ?sb = "sb\<lparr>sb_segs := (sb_segs sb)[k := ?s], sb_pos := sb_pos sb + n\<rparr>"
    have m: "sb_pos sb mod L < L" using L by simp
    have pos: "sb_pos sb = L * k + sb_pos sb mod L" by (simp add: k_def)
    have k: "k < length (sb_segs sb)"
      using less.prems(2) div_le_mono [of "sb_pos sb" "sb_pos sb + length rest" L] by (simp add: k_def)
    have size_k: "sg_size (sb_segs sb ! k) = sb_pos sb mod L"
      using filled_nth [OF less.prems(1) k] by (simp add: fill_of_def k_def)
    have n: "0 < n" "n \<le> length rest" "sb_pos sb mod L + n \<le> L" using False m by (auto simp: n_def)
    have app: "sg_append L (sb_segs sb ! k) rest = (n, ?s)"
      using size_k n(1) by (simp add: sg_append_def Let_def n_def)
    have step: "append_loop L sb rest = append_loop L ?sb (drop n rest)"
      using False k size_k m app
      by (subst append_loop.simps) (simp add: get_write_seg_def k_def [symmetric] Let_def)
    have f: "sb_filled L ?sb"
    proof (rule filledI)
      fix i assume "i < length (sb_segs ?sb)"
      then have i: "i < length (sb_segs sb)" by simp
      have nd: "(sb_pos sb + n) div L = (if sb_pos sb mod L + n = L then Suc k else k)"
        and nm: "(sb_pos sb + n) mod L = (if sb_pos sb mod L + n = L then 0 else sb_pos sb mod L + n)"
        using div_mod_fill [OF L, of "sb_pos sb mod L + n" k] n(3) pos by (auto simp: add.assoc [symmetric])
      show "sg_size (sb_segs ?sb ! i) = fill_of L (sb_pos ?sb) i"
      proof (cases "i = k")
        case True
        then show ?thesis using size_k n(2) nd nm i k by (simp add: fill_of_def sg_size_def)
      next
        case False
        then show ?thesis using filled_nth [OF less.prems(1) i] n nd nm
          by (auto simp: fill_of_def k_def [symmetric])
      qed
    qed
    have b: "sb_bytes ?sb = sb_bytes sb @ take n rest"
      using filled_bytes_update [OF less.prems(1) k_def k, of "take n rest"] by (simp add: sb_bytes_def)
    have "(sb_pos ?sb + length (drop n rest)) div L < length (sb_segs ?sb)" using less.prems(2) n(2) by simp
    from less.hyps [OF _ f this] n False obtain sb' where "append_loop L ?sb (drop n rest) = Some (Inr sb')"
      "sb_filled L sb'" "sb_bytes sb' = sb_bytes ?sb @ drop n rest" "sb_pos sb' = sb_pos ?sb + length (drop n rest)"
      "length (sb_segs sb') = length (sb_segs ?sb)" by auto
    then show ?thesis using b n step by simp
  qed
qed


lemma sb_append_ok:
  assumes L: "0 < L" and inv: "sb_inv L sb"
  shows "\<exists>sb'. sb_append L sb xs = Some (Inr sb') \<and> sb_inv L sb' \<and> sb_bytes sb' = sb_bytes sb @ xs"
proof -
  define total where "total = (sb_pos sb + length xs) div L + 1"
  have le: "length (sb_segs sb) \<le> total"
    using inv div_le_mono [of "sb_pos sb" "sb_pos sb + length xs" L] by (simp add: sb_inv_def total_def)
  obtain p as where push: "length as = total - length (sb_segs sb)"
    "push_segs (total - length (sb_segs sb)) sb =
      sb\<lparr>sb_pool := p, sb_segs := sb_segs sb @ map (\<lambda>a. \<lparr>sg_addr = a, sg_data = []\<rparr>) as\<rparr>"
    using push_segs_eq by blast
  define sb1 where "sb1 = sb\<lparr>sb_pool := p, sb_segs := sb_segs sb @ map (\<lambda>a. \<lparr>sg_addr = a, sg_data = []\<rparr>) as\<rparr>"
  have len: "length (sb_segs sb1) = total" "sb_pos sb1 = sb_pos sb" using push(1) le by (simp_all add: sb1_def)
  have f0: "sb_filled L sb" using inv by (simp add: sb_filled_def sb_inv_def)
  have full: "sb_pos sb \<le> L * length (sb_segs sb)" using inv by (simp add: sb_inv_def)
  have f1: "sb_filled L sb1"
  proof (rule filledI)
    fix i assume i: "i < length (sb_segs sb1)"
    show "sg_size (sb_segs sb1 ! i) = fill_of L (sb_pos sb1) i"
    proof (cases "i < length (sb_segs sb)")
      case True
      then show ?thesis using filled_nth [OF f0 True] by (simp add: sb1_def nth_append)
    next
      case False
      then have "sg_size (sb_segs sb1 ! i) = 0" using i by (simp add: sb1_def nth_append sg_size_def)
      moreover have "fill_of L (sb_pos sb) i = 0"
      proof -
        have "sb_pos sb \<le> L * i" using full False by (meson le_trans mult_le_mono2 not_less)
        then have "sb_pos sb div L \<le> i" using L by (metis div_le_mono nonzero_mult_div_cancel_left not_gr_zero)
        moreover have "sb_pos sb mod L = 0" if "i = sb_pos sb div L"
          using \<open>sb_pos sb \<le> L * i\<close> that by (metis add_diff_cancel_left' diff_is_0_eq mult_div_mod_eq)
        ultimately show ?thesis by (simp add: fill_of_def)
      qed
      ultimately show ?thesis using len(2) by simp
    qed
  qed
  have "(sb_pos sb1 + length xs) div L < length (sb_segs sb1)" using len by (simp add: total_def)
  from append_loop_ok [OF L f1 this] obtain sb' where l: "append_loop L sb1 xs = Some (Inr sb')"
    "sb_filled L sb'" "sb_bytes sb' = sb_bytes sb1 @ xs" "sb_pos sb' = sb_pos sb1 + length xs"
    "length (sb_segs sb') = length (sb_segs sb1)" by blast
  have "sb_append L sb xs = Some (Inr sb')"
    using l(1) le push(2) by (simp add: sb_append_def sb_reserve_def Let_def total_def sb1_def)
  moreover have "sb_inv L sb'"
  proof -
    have "sb_pos sb + length xs < L * total"
      using L by (simp add: total_def) (metis add.commute dividend_less_times_div mult.commute mult_Suc_right)
    then show ?thesis using l(2,4,5) len by (simp add: sb_inv_def sb_filled_def total_def)
  qed
  moreover have "sb_bytes sb1 = sb_bytes sb" by (simp add: sb1_def sb_bytes_def comp_def)
  ultimately show ?thesis using l(3) by simp
qed

lemma sb_transfer_ok:
  assumes L: "0 < L" and inv: "sb_inv L sb" and tr: "sb_transfer L sb = (out, sb')"
  shows "concat (map sg_data out) = sb_bytes sb" "sb_inv L sb'" "sb_bytes sb' = []"
    "[] \<notin> sg_data ` set out"
proof -
  have f: "sb_filled L sb" using inv by (simp add: sb_inv_def sb_filled_def)
  have "concat (map sg_data out) = sb_bytes sb \<and> sb_inv L sb' \<and> sb_bytes sb' = [] \<and> [] \<notin> sg_data ` set out"
  proof (cases "sb_pos sb = 0")
    case True
    then have "fill_of L (sb_pos sb) i = 0" for i by (simp add: fill_of_def)
    then have "sg_data (sb_segs sb ! i) = []" if "i < length (sb_segs sb)" for i
      using filled_nth [OF f that] by (simp add: sg_size_def)
    then have "\<forall>s \<in> set (sb_segs sb). sg_data s = []" by (auto simp: in_set_conv_nth)
    then show ?thesis using True tr inv by (auto simp: sb_transfer_def sb_bytes_def)
  next
    case False
    define q where "q = (sb_pos sb - 1) div L"
    define r where "r = (sb_pos sb - 1) mod L"
    have r: "r < L" "sb_pos sb = L * q + Suc r" using L False by (simp_all add: q_def r_def)
    have d: "sb_pos sb div L = (if Suc r = L then Suc q else q)" "sb_pos sb mod L = (if Suc r = L then 0 else Suc r)"
      using div_mod_fill [OF L, of "Suc r" q] r by auto
    have fill: "fill_of L (sb_pos sb) i = (if i < q then L else if i = q then Suc r else 0)" for i
      using r(1) by (auto simp: fill_of_def d)
    have out: "out = take (Suc q) (sb_segs sb)"
      and sb': "sb' = sb_rewind (sb\<lparr>sb_segs := drop (Suc q) (sb_segs sb)\<rparr>)"
      using tr False by (simp_all add: sb_transfer_def get_data_seg_def Let_def q_def)
    have "sg_data (sb_segs sb ! i) = []" if "q < i" "i < length (sb_segs sb)" for i
      using filled_nth [OF f that(2)] fill [of i] that(1) by (simp add: sg_size_def)
    then have "\<forall>s \<in> set (drop (Suc q) (sb_segs sb)). sg_data s = []"
      by (auto simp: in_set_conv_nth)
    then have "concat (map sg_data (drop (Suc q) (sb_segs sb))) = []" by simp
    moreover have "sb_bytes sb = concat (map sg_data out) @ concat (map sg_data (drop (Suc q) (sb_segs sb)))"
      by (simp only: out sb_bytes_def concat_append [symmetric] map_append [symmetric] append_take_drop_id)
    ultimately have bytes: "concat (map sg_data out) = sb_bytes sb" by simp
    have "0 < sg_size s" if s: "s \<in> set out" for s
    proof -
      obtain i where i: "i < length (sb_segs sb)" "i < Suc q" "s = sb_segs sb ! i"
        using s by (auto simp: out in_set_conv_nth)
      then show ?thesis using filled_nth [OF f i(1)] fill [of i] L by (auto simp: less_Suc_eq)
    qed
    then have ne: "[] \<notin> sg_data ` set out" by (force simp: sg_size_def)
    have len: "length (drop (Suc q) (sb_segs sb)) \<le> 1" using inv d(1) by (auto simp: sb_inv_def split: if_splits)
    have "map sg_size (sb_segs sb') = map (fill_of L 0) [0..<length (sb_segs sb')]"
      by (rule nth_equalityI) (auto simp: sb' sb_rewind_def sg_rewind_def sg_size_def fill_of_def)
    then have "sb_inv L sb'" using len by (simp add: sb_inv_def sb' sb_rewind_def)
    moreover have "sb_bytes sb' = []" by (simp add: sb_bytes_def sb' sb_rewind_def sg_rewind_def o_def)
    ultimately show ?thesis using bytes ne by simp
  qed
  then show "concat (map sg_data out) = sb_bytes sb" "sb_inv L sb'" "sb_bytes sb' = []"
    "[] \<notin> sg_data ` set out" by simp_all
qed

section \<open>The send buffer of a session\<close>

text \<open>\<open>session::segment_buffer\<close> is \<open>segment_buffer<32 * 1024>\<close>.\<close>

definition send_seg_len :: nat where
  "send_seg_len = 32 * 1024"

lemma send_seg_len_pos [simp]: "0 < send_seg_len"
  by (simp add: send_seg_len_def)

interpretation send_buf: byte_sink "\<lambda>sb xs. the (sb_append send_seg_len sb xs)" sb_bytes "sb_inv send_seg_len"
proof unfold_locales
  fix b xs assume "sb_inv send_seg_len b"
  from sb_append_ok [OF send_seg_len_pos this, of xs]
  show "\<exists>b'. the (sb_append send_seg_len b xs) = Inr b' \<and> sb_inv send_seg_len b' \<and> sb_bytes b' = sb_bytes b @ xs"
    by auto
qed

text \<open>Appending and transferring, with everything transferred so far.\<close>

datatype seg_op = Seg_append "byte list" | Seg_transfer

fun sb_run :: "nat \<Rightarrow> seg_op list \<Rightarrow> segbuf \<times> seg list \<Rightarrow> (fault + (segbuf \<times> seg list)) option" where
  "sb_run L [] st = Some (Inr st)"
| "sb_run L (Seg_append xs # ops) (sb, out) =
     (case sb_append L sb xs of
        None \<Rightarrow> None
      | Some (Inl f) \<Rightarrow> Some (Inl f)
      | Some (Inr sb') \<Rightarrow> sb_run L ops (sb', out))"
| "sb_run L (Seg_transfer # ops) (sb, out) =
     (case sb_transfer L sb of (segs, sb') \<Rightarrow> sb_run L ops (sb', out @ segs))"

fun appended :: "seg_op list \<Rightarrow> byte list" where
  "appended [] = []"
| "appended (Seg_append xs # ops) = xs @ appended ops"
| "appended (Seg_transfer # ops) = appended ops"

lemma sb_run_bytes:
  assumes L: "0 < L"
  shows "sb_inv L sb \<Longrightarrow> [] \<notin> sg_data ` set out \<Longrightarrow>
    \<exists>sb' out'. sb_run L ops (sb, out) = Some (Inr (sb', out')) \<and> sb_inv L sb' \<and>
      concat (map sg_data out') @ sb_bytes sb' = concat (map sg_data out) @ sb_bytes sb @ appended ops \<and>
      [] \<notin> sg_data ` set out'"
proof (induction ops arbitrary: sb out)
  case Nil
  then show ?case by simp
next
  case (Cons oper ops)
  show ?case
  proof (cases oper)
    case (Seg_append xs)
    obtain sb1 where "sb_append L sb xs = Some (Inr sb1)" "sb_inv L sb1" "sb_bytes sb1 = sb_bytes sb @ xs"
      using sb_append_ok [OF L Cons.prems(1)] by blast
    then show ?thesis using Cons.IH [of sb1 out] Cons.prems(2) Seg_append by simp
  next
    case Seg_transfer
    obtain segs sb1 where tr: "sb_transfer L sb = (segs, sb1)" by force
    note t = sb_transfer_ok [OF L Cons.prems(1) tr]
    have "[] \<notin> sg_data ` set (out @ segs)" using Cons.prems(2) t(4) by auto
    from Cons.IH [OF t(2) this] show ?thesis using tr t(1,3) Seg_transfer by simp
  qed
qed

section \<open>Properties\<close>

text \<open>
  C30. The segment buffer is a stream: any sequence of appends and transfers on a new buffer
  returns (the append loop ends and never leaves the segments), and the bytes of the segments
  handed out, followed by what is left, are the bytes appended, in order. No segment handed
  out is empty.
\<close>

theorem segment_buffer_stream:
  assumes "0 < L"
  shows "\<exists>sb out. sb_run L ops (segbuf_new p, []) = Some (Inr (sb, out)) \<and>
    concat (map sg_data out) @ sb_bytes sb = appended ops \<and> [] \<notin> sg_data ` set out"
  using sb_run_bytes [OF assms segbuf_new_inv, of "[]" ops p] by auto

theorem segment_buffer_stream_witness:
  "\<forall>p. \<exists>sb out. sb_run 3 [Seg_append [1, 2], Seg_append [3, 4, 5, 6], Seg_transfer, Seg_append [7]]
      (segbuf_new p, []) = Some (Inr (sb, out)) \<and>
    concat (map sg_data out) @ sb_bytes sb = [1, 2, 3, 4, 5, 6, 7]"
proof -
  have "0 < (3 :: nat)" by simp
  from segment_buffer_stream [OF this, of "[Seg_append [1, 2], Seg_append [3, 4, 5, 6], Seg_transfer, Seg_append [7]]"]
  show ?thesis by fastforce
qed

text \<open>
  Rewinding a buffer that spans more than one segment breaks it: the next append that
  needs fewer segments than there are computes a negative number of segments to add, and
  allocates until memory is exhausted.
\<close>

theorem rewind_then_append_faults:
  assumes "length xs div L + 1 < length (sb_segs sb)"
  shows "sb_append L (sb_rewind sb) xs = Some (Inl (Thrown ''bad_alloc''))"
  using assms by (simp add: sb_append_def sb_reserve_def sb_rewind_def Let_def)

theorem rewind_then_append_faults_witness:
  "\<exists>sb. sb_append 2 (segbuf_new \<lparr>op_queue = [], op_fresh = 0\<rparr>) [1, 2, 3] = Some (Inr sb) \<and>
    sb_append 2 (sb_rewind sb) [9] = Some (Inl (Thrown ''bad_alloc''))"
proof -
  have "0 < (2 :: nat)" by simp
  from sb_append_ok [OF this segbuf_new_inv, of "\<lparr>op_queue = [], op_fresh = 0\<rparr>" "[1, 2, 3]"]
  obtain sb where sb: "sb_append 2 (segbuf_new \<lparr>op_queue = [], op_fresh = 0\<rparr>) [1, 2, 3] = Some (Inr sb)"
    "sb_inv 2 sb" "sb_bytes sb = [1, 2, 3]" by auto
  have "length (sb_bytes sb) = sum_list (map sg_size (sb_segs sb))"
    by (simp add: sb_bytes_def length_concat sg_size_def [abs_def] o_def)
  also have "\<dots> \<le> 2 * length (sb_segs sb)"
  proof -
    have "map sg_size (sb_segs sb) = map (fill_of 2 (sb_pos sb)) [0..<length (sb_segs sb)]"
      using sb(2) by (simp add: sb_inv_def)
    moreover have "fill_of 2 (sb_pos sb) i \<le> 2" for i by (simp add: fill_of_def)
    ultimately show ?thesis
      using sum_list_mono [of "[0..<length (sb_segs sb)]" "fill_of 2 (sb_pos sb)" "\<lambda>_. 2"]
      by (simp add: sum_list_triv)
  qed
  finally have "length [9 :: byte] div 2 + 1 < length (sb_segs sb)" using sb(3) by simp
  from rewind_then_append_faults [OF this] sb(1) show ?thesis by blast
qed

end
