(* ===== verification/Session.thy ===== *)
theory Session
  imports Segment_Buffer
begin

text \<open>
  \<open>net::session\<close> (\<open>src/net/session.cpp\<close>): one socket with its send buffer.

  The threads of the program, those that send or close and those that run the completion
  handlers, are modelled as steps of one state: a step is what happens under one lock, or one
  test of \<open>socket_.is_open()\<close>, and the steps of different threads come in any order. What a
  thread is about to do is counted in the state. The socket is a parameter in the sense that its
  completions are events: whether an operation succeeds is up to it, as is what the protocol
  says to the bytes received. The session, like the code, does not look at the number of bytes
  written, which \<open>asio::async_write\<close> makes all of them.
\<close>

section \<open>State\<close>

record session =
  ss_open :: bool                   \<comment> \<open>\<open>socket_.is_open()\<close>\<close>
  ss_recving :: bool
  ss_sending :: bool
  ss_destroyed :: bool
  ss_buf :: segbuf
  ss_segs :: "seg list"             \<comment> \<open>\<open>sending_segs_\<close>\<close>
  ss_request_size :: nat
  at_append :: "byte list list"     \<comment> \<open>the data of threads that found the socket open in \<open>send\<close>\<close>
  at_request_send :: nat            \<comment> \<open>threads about to call \<open>request_send\<close>\<close>
  at_send_lock :: nat               \<comment> \<open>those that found the socket open in it\<close>
  at_transfer :: nat                \<comment> \<open>those that have set \<open>sending_\<close>\<close>
  at_send_unlock :: "bool list"     \<comment> \<open>write handlers that have released the segments; success?\<close>
  at_request_recv :: nat
  at_recv_lock :: nat
  at_close :: nat
  at_destroy :: nat                 \<comment> \<open>threads about to test \<open>sending_ || recving_\<close>\<close>
  at_notify :: nat                  \<comment> \<open>those that found neither\<close>
  writes :: "byte list list"        \<comment> \<open>calls of \<open>async_write\<close> not completed\<close>
  reads :: nat                      \<comment> \<open>calls of \<open>async_read_some\<close> not completed\<close>
  wire :: "byte list"               \<comment> \<open>all the bytes given to \<open>async_write\<close>\<close>
  notified :: nat                   \<comment> \<open>calls of \<open>notify_session_closed\<close> and \<open>service::error\<close>\<close>

text \<open>After the constructor has announced the session, about to request the first receive.\<close>

definition session_new :: "object_pool \<Rightarrow> session" where
  "session_new p =
     \<lparr>ss_open = True, ss_recving = False, ss_sending = False, ss_destroyed = False,
      ss_buf = segbuf_new p, ss_segs = [], ss_request_size = 0,
      at_append = [], at_request_send = 0, at_send_lock = 0, at_transfer = 0, at_send_unlock = [],
      at_request_recv = 1, at_recv_lock = 0, at_close = 0, at_destroy = 0, at_notify = 0,
      writes = [], reads = 0, wire = [], notified = 0\<rparr>"

section \<open>Sending\<close>

text \<open>
  \<open>send(data, len)\<close>: a thread whose test finds the socket open goes on, in another step, to
  append its bytes to the buffer under \<open>send_segs_mutex_\<close>.
\<close>

definition session_send :: "byte list \<Rightarrow> session \<Rightarrow> session" where
  "session_send xs s = (if ss_open s then s\<lparr>at_append := at_append s @ [xs]\<rparr> else s)"

definition session_append :: "nat \<Rightarrow> session \<Rightarrow> (fault + session) option" where
  "session_append i s =
     (if length (at_append s) \<le> i then None
      else (case sb_append send_seg_len (ss_buf s) (at_append s ! i) of
              None \<Rightarrow> None
            | Some (Inl f) \<Rightarrow> Some (Inl f)
            | Some (Inr b) \<Rightarrow>
                Some (Inr (s\<lparr>at_append := take i (at_append s) @ drop (Suc i) (at_append s),
                             ss_buf := b, at_request_send := at_request_send s + 1\<rparr>))))"

definition request_send_open :: "session \<Rightarrow> session option" where
  "request_send_open s =
     (if at_request_send s = 0 then None
      else let s1 = s\<lparr>at_request_send := at_request_send s - 1\<rparr>
           in Some (if ss_open s then s1\<lparr>at_send_lock := at_send_lock s + 1\<rparr> else s1))"

definition request_send_lock :: "session \<Rightarrow> session option" where
  "request_send_lock s =
     (if at_send_lock s = 0 then None
      else let s1 = s\<lparr>at_send_lock := at_send_lock s - 1\<rparr>
           in Some (if ss_sending s then s1
                    else if sb_size (ss_buf s) = 0 then s1
                    else s1\<lparr>ss_sending := True, at_transfer := at_transfer s + 1\<rparr>))"

definition request_send_transfer :: "session \<Rightarrow> session option" where
  "request_send_transfer s =
     (if at_transfer s = 0 then None
      else (case sb_transfer send_seg_len (ss_buf s) of
              (segs, b) \<Rightarrow>
                Some (s\<lparr>at_transfer := at_transfer s - 1, ss_buf := b, ss_segs := segs,
                        ss_request_size := sum_list (map sg_size segs),
                        writes := writes s @ [concat (map sg_data segs)],
                        wire := wire s @ concat (map sg_data segs)\<rparr>)))"

definition on_send_completed :: "bool \<Rightarrow> session \<Rightarrow> session option" where
  "on_send_completed ok s =
     (case writes s of
        [] \<Rightarrow> None
      | _ # ws \<Rightarrow>
          Some (s\<lparr>writes := ws, ss_buf := sb_release (ss_buf s) (ss_segs s), ss_segs := [], ss_request_size := 0,
                  at_send_unlock := at_send_unlock s @ [ok]\<rparr>))"

definition on_send_unlock :: "session \<Rightarrow> session option" where
  "on_send_unlock s =
     (case at_send_unlock s of
        [] \<Rightarrow> None
      | ok # oks \<Rightarrow>
          (let s1 = s\<lparr>at_send_unlock := oks, ss_sending := False\<rparr>
           in Some (if ok then s1\<lparr>at_request_send := at_request_send s + 1\<rparr>
                    else s1\<lparr>at_close := at_close s + 1\<rparr>)))"

section \<open>Receiving\<close>

definition request_recv_open :: "session \<Rightarrow> session option" where
  "request_recv_open s =
     (if at_request_recv s = 0 then None
      else let s1 = s\<lparr>at_request_recv := at_request_recv s - 1\<rparr>
           in Some (if ss_open s then s1\<lparr>at_recv_lock := at_recv_lock s + 1\<rparr> else s1))"

definition request_recv_lock :: "session \<Rightarrow> session option" where
  "request_recv_lock s =
     (if at_recv_lock s = 0 then None
      else let s1 = s\<lparr>at_recv_lock := at_recv_lock s - 1\<rparr>
           in Some (if ss_recving s then s1 else s1\<lparr>ss_recving := True, reads := reads s + 1\<rparr>))"

text \<open>\<open>ok\<close>: no error; \<open>rc\<close>: the protocol accepts the bytes.\<close>

definition on_recv_completed :: "bool \<Rightarrow> bool \<Rightarrow> session \<Rightarrow> session option" where
  "on_recv_completed ok rc s =
     (if reads s = 0 then None
      else let s1 = s\<lparr>reads := reads s - 1, ss_recving := False\<rparr>
           in Some (if ok \<and> rc then s1\<lparr>at_request_recv := at_request_recv s + 1\<rparr>
                    else s1\<lparr>at_close := at_close s + 1\<rparr>))"

section \<open>Closing\<close>

definition session_close :: "session \<Rightarrow> session option" where
  "session_close s =
     (if at_close s = 0 then None
      else let s1 = s\<lparr>at_close := at_close s - 1\<rparr>
           in Some (if ss_destroyed s then s1 else s1\<lparr>ss_open := False, at_destroy := at_destroy s + 1\<rparr>))"

definition destroy_lock :: "session \<Rightarrow> session option" where
  "destroy_lock s =
     (if at_destroy s = 0 then None
      else let s1 = s\<lparr>at_destroy := at_destroy s - 1\<rparr>
           in Some (if ss_sending s \<or> ss_recving s then s1 else s1\<lparr>at_notify := at_notify s + 1\<rparr>))"

definition destroy_notify :: "session \<Rightarrow> session option" where
  "destroy_notify s =
     (if at_notify s = 0 then None
      else Some (s\<lparr>at_notify := at_notify s - 1, ss_destroyed := True, notified := notified s + 1\<rparr>))"

section \<open>Steps\<close>

datatype session_event =
    App_send "byte list" | Append nat | App_close
  | Request_send_open | Request_send_lock | Request_send_transfer | Send_completed bool | Send_unlock
  | Request_recv_open | Request_recv_lock | Recv_completed bool bool
  | Close | Destroy_lock | Destroy_notify

fun session_step :: "session_event \<Rightarrow> session \<Rightarrow> (fault + session) option" where
  "session_step (App_send xs) s = Some (Inr (session_send xs s))"
| "session_step (Append i) s = session_append i s"
| "session_step App_close s = Some (Inr (s\<lparr>at_close := at_close s + 1\<rparr>))"
| "session_step Request_send_open s = map_option Inr (request_send_open s)"
| "session_step Request_send_lock s = map_option Inr (request_send_lock s)"
| "session_step Request_send_transfer s = map_option Inr (request_send_transfer s)"
| "session_step (Send_completed ok) s = map_option Inr (on_send_completed ok s)"
| "session_step Send_unlock s = map_option Inr (on_send_unlock s)"
| "session_step Request_recv_open s = map_option Inr (request_recv_open s)"
| "session_step Request_recv_lock s = map_option Inr (request_recv_lock s)"
| "session_step (Recv_completed ok rc) s = map_option Inr (on_recv_completed ok rc s)"
| "session_step Close s = map_option Inr (session_close s)"
| "session_step Destroy_lock s = map_option Inr (destroy_lock s)"
| "session_step Destroy_notify s = map_option Inr (destroy_notify s)"

text \<open>
  The states reached, with the bytes of all the calls of \<open>send\<close> that found the socket open,
  in the order in which they took the lock of the buffer.
\<close>

definition sent_by :: "session_event \<Rightarrow> session \<Rightarrow> byte list" where
  "sent_by e s = (case e of Append i \<Rightarrow> at_append s ! i | _ \<Rightarrow> [])"

inductive session_reach :: "byte list \<Rightarrow> session \<Rightarrow> bool" where
  new: "session_reach [] (session_new p)"
| step: "session_reach sent s \<Longrightarrow> session_step e s = Some (Inr s') \<Longrightarrow>
    session_reach (sent @ sent_by e s) s'"

section \<open>Invariant\<close>

lemma sb_size_zero:
  assumes "0 < L" "sb_inv L sb"
  shows "sb_size sb = 0 \<longleftrightarrow> sb_bytes sb = []"
proof -
  have sz: "sg_size (sb_segs sb ! i) = fill_of L (sb_pos sb) i" if "i < length (sb_segs sb)" for i
    using filled_nth [OF _ that] assms(2) by (simp add: sb_filled_def sb_inv_def)
  show ?thesis
  proof
    assume "sb_size sb = 0"
    then have "sg_data (sb_segs sb ! i) = []" if "i < length (sb_segs sb)" for i
      using sz [OF that] assms(1) by (simp add: sb_size_def fill_of_def sg_size_def split: if_splits)
    then show "sb_bytes sb = []" by (auto simp: sb_bytes_def in_set_conv_nth)
  next
    assume b: "sb_bytes sb = []"
    show "sb_size sb = 0"
    proof (rule ccontr)
      assume "sb_size sb \<noteq> 0"
      then have pos: "0 < sb_pos sb" by (simp add: sb_size_def)
      let ?i = "(sb_pos sb - 1) div L"
      have "sb_pos sb \<le> L * length (sb_segs sb)" using assms(2) by (simp add: sb_inv_def)
      then have "sb_pos sb - 1 < L * length (sb_segs sb)" using pos by linarith
      then have i: "?i < length (sb_segs sb)" using assms(1) by (simp add: less_mult_imp_div_less mult.commute)
      then have "sg_data (sb_segs sb ! ?i) = []" using b by (simp add: sb_bytes_def)
      then have f: "fill_of L (sb_pos sb) ?i = 0" using sz [OF i] by (simp add: sg_size_def)
      have "?i \<le> sb_pos sb div L" by (simp add: div_le_mono)
      moreover have "?i = sb_pos sb div L \<Longrightarrow> sb_pos sb mod L \<noteq> 0"
      proof
        assume e: "?i = sb_pos sb div L" "sb_pos sb mod L = 0"
        then have "sb_pos sb = L * ?i" by (metis add.right_neutral mult_div_mod_eq)
        moreover have "L * ?i \<le> sb_pos sb - 1" by simp
        ultimately show False using pos by linarith
      qed
      ultimately show False using f assms(1) by (auto simp: fill_of_def split: if_splits)
    qed
  qed
qed

definition session_inv :: "byte list \<Rightarrow> session \<Rightarrow> bool" where
  "session_inv sent s \<longleftrightarrow>
     sb_inv send_seg_len (ss_buf s) \<and> wire s @ sb_bytes (ss_buf s) = sent \<and>
     at_transfer s + length (writes s) + length (at_send_unlock s) = (if ss_sending s then 1 else 0) \<and>
     reads s = (if ss_recving s then 1 else 0) \<and>
     (sb_bytes (ss_buf s) = [] \<longrightarrow> at_transfer s = 0) \<and>
     [] \<notin> set (writes s) \<and>
     (sb_bytes (ss_buf s) \<noteq> [] \<longrightarrow>
        ss_sending s \<or> at_request_send s > 0 \<or> at_send_lock s > 0 \<or> at_close s > 0 \<or> \<not> ss_open s) \<and>
     (ss_recving s \<or> at_request_recv s > 0 \<or> at_recv_lock s > 0 \<or> at_close s > 0 \<or> \<not> ss_open s) \<and>
     (ss_open s \<longrightarrow> at_destroy s = 0 \<and> at_notify s = 0 \<and> \<not> ss_destroyed s)"

lemma session_new_inv: "session_inv [] (session_new p)"
  using segbuf_new_inv [of send_seg_len p] by (simp add: session_inv_def session_new_def)

text \<open>The parts of the invariant.\<close>

lemma session_invD:
  assumes "session_inv sent s"
  shows "sb_inv send_seg_len (ss_buf s)" "wire s @ sb_bytes (ss_buf s) = sent"
    "at_transfer s + length (writes s) + length (at_send_unlock s) = (if ss_sending s then 1 else 0)"
    "reads s = (if ss_recving s then 1 else 0)" "sb_bytes (ss_buf s) = [] \<Longrightarrow> at_transfer s = 0" "[] \<notin> set (writes s)"
    "sb_bytes (ss_buf s) \<noteq> [] \<Longrightarrow>
        ss_sending s \<or> at_request_send s > 0 \<or> at_send_lock s > 0 \<or> at_close s > 0 \<or> \<not> ss_open s"
    "ss_recving s \<or> at_request_recv s > 0 \<or> at_recv_lock s > 0 \<or> at_close s > 0 \<or> \<not> ss_open s"
    "ss_open s \<Longrightarrow> at_destroy s = 0 \<and> at_notify s = 0 \<and> \<not> ss_destroyed s"
  using assms by (simp_all add: session_inv_def)

lemma send_inv: "session_inv sent s \<Longrightarrow> session_inv sent (session_send xs s)"
  by (auto simp: session_inv_def session_send_def)

lemma append_inv:
  assumes "session_inv sent s" "i < length (at_append s)"
  shows "\<exists>s'. session_append i s = Some (Inr s') \<and> session_inv (sent @ at_append s ! i) s'"
proof -
  note d = session_invD [OF assms(1)]
  obtain b where b: "sb_append send_seg_len (ss_buf s) (at_append s ! i) = Some (Inr b)" "sb_inv send_seg_len b"
    "sb_bytes b = sb_bytes (ss_buf s) @ at_append s ! i"
    using sb_append_ok [OF send_seg_len_pos d(1)] by blast
  have "session_inv (sent @ at_append s ! i) (s\<lparr>at_append := take i (at_append s) @ drop (Suc i) (at_append s),
      ss_buf := b, at_request_send := at_request_send s + 1\<rparr>)"
    using assms(1) b(2,3) by (auto simp: session_inv_def)
  then show ?thesis using b(1) assms(2) by (simp add: session_append_def)
qed

lemma transfer_inv:
  assumes "session_inv sent s" "request_send_transfer s = Some s'"
  shows "session_inv sent s'"
proof -
  note i = session_invD [OF assms(1)]
  obtain segs b where tr: "sb_transfer send_seg_len (ss_buf s) = (segs, b)" by force
  have n: "0 < at_transfer s" and s': "s' = s\<lparr>at_transfer := at_transfer s - 1, ss_buf := b, ss_segs := segs,
      ss_request_size := sum_list (map sg_size segs), writes := writes s @ [concat (map sg_data segs)],
      wire := wire s @ concat (map sg_data segs)\<rparr>"
    using assms(2) tr by (auto simp: request_send_transfer_def split: if_splits)
  note t = sb_transfer_ok [OF send_seg_len_pos i(1) tr]
  have sn: "ss_sending s" using i(3) n by (cases "ss_sending s") auto
  then have "at_transfer s + length (writes s) + length (at_send_unlock s) = 1" using i(3) by simp
  then have "at_transfer s = 1" "length (writes s) = 0" "length (at_send_unlock s) = 0" using n by linarith+
  then have one: "at_transfer s = 1" "writes s = []" "at_send_unlock s = []" by simp_all
  have ne: "sb_bytes (ss_buf s) \<noteq> []" using i(5) n by auto
  show ?thesis using i(2,4,8,9) t ne sn one unfolding session_inv_def s' by auto
qed

lemma sb_release_same [simp]: "sb_bytes (sb_release b segs) = sb_bytes b" "sb_inv L (sb_release b segs) = sb_inv L b"
  by (simp_all add: sb_release_def sb_bytes_def sb_inv_def)

lemma send_completed_inv:
  assumes "session_inv sent s" "on_send_completed ok s = Some s'"
  shows "session_inv sent s'"
proof -
  note i = session_invD [OF assms(1)]
  obtain w ws where w: "writes s = w # ws" "s' = s\<lparr>writes := ws, ss_buf := sb_release (ss_buf s) (ss_segs s), ss_segs := [],
      ss_request_size := 0, at_send_unlock := at_send_unlock s @ [ok]\<rparr>"
    using assms(2) by (auto simp: on_send_completed_def split: list.splits)
  show ?thesis using i w(1) unfolding session_inv_def w(2) by (simp split: if_splits)
qed

lemma send_unlock_inv:
  assumes "session_inv sent s" "on_send_unlock s = Some s'"
  shows "session_inv sent s'"
proof -
  note i = session_invD [OF assms(1)]
  obtain ok oks where w: "at_send_unlock s = ok # oks"
    "s' = (if ok then s\<lparr>at_send_unlock := oks, ss_sending := False, at_request_send := at_request_send s + 1\<rparr>
           else s\<lparr>at_send_unlock := oks, ss_sending := False, at_close := at_close s + 1\<rparr>)"
    using assms(2) by (auto simp: on_send_unlock_def Let_def split: list.splits)
  have "at_transfer s + length (writes s) + length oks = 0" using i(3) w(1) by (cases "ss_sending s") auto
  then have z: "at_transfer s = 0" "writes s = []" "oks = []" by simp_all
  show ?thesis using i(1,2,4,8,9) z w(1) unfolding session_inv_def w(2) by (cases ok) simp_all
qed

lemma request_send_open_inv:
  assumes "session_inv sent s" "request_send_open s = Some s'"
  shows "session_inv sent s'"
proof -
  note i = session_invD [OF assms(1)]
  have s': "s' = (if ss_open s then s\<lparr>at_request_send := at_request_send s - 1, at_send_lock := at_send_lock s + 1\<rparr>
      else s\<lparr>at_request_send := at_request_send s - 1\<rparr>)"
    using assms(2) by (simp add: request_send_open_def Let_def split: if_splits)
  show ?thesis using i unfolding session_inv_def s' by (cases "ss_open s") simp_all
qed

lemma request_send_lock_inv:
  assumes "session_inv sent s" "request_send_lock s = Some s'"
  shows "session_inv sent s'"
proof -
  note i = session_invD [OF assms(1)]
  have z: "sb_size (ss_buf s) = 0 \<longleftrightarrow> sb_bytes (ss_buf s) = []" by (rule sb_size_zero [OF send_seg_len_pos i(1)])
  consider (no) "ss_sending s \<or> sb_bytes (ss_buf s) = []" "s' = s\<lparr>at_send_lock := at_send_lock s - 1\<rparr>"
    | (yes) "\<not> ss_sending s" "sb_bytes (ss_buf s) \<noteq> []"
        "s' = s\<lparr>at_send_lock := at_send_lock s - 1, ss_sending := True, at_transfer := at_transfer s + 1\<rparr>"
    using assms(2) by (auto simp: request_send_lock_def Let_def z split: if_splits)
  then show ?thesis
  proof cases
    case no
    then show ?thesis using i unfolding session_inv_def no(2) by auto
  next
    case yes
    then show ?thesis using i unfolding session_inv_def yes(3) by simp
  qed
qed

lemma request_recv_open_inv:
  assumes "session_inv sent s" "request_recv_open s = Some s'"
  shows "session_inv sent s'"
proof -
  note i = session_invD [OF assms(1)]
  have s': "s' = (if ss_open s then s\<lparr>at_request_recv := at_request_recv s - 1, at_recv_lock := at_recv_lock s + 1\<rparr>
      else s\<lparr>at_request_recv := at_request_recv s - 1\<rparr>)"
    using assms(2) by (simp add: request_recv_open_def Let_def split: if_splits)
  show ?thesis using i unfolding session_inv_def s' by (cases "ss_open s") simp_all
qed

lemma request_recv_lock_inv:
  assumes "session_inv sent s" "request_recv_lock s = Some s'"
  shows "session_inv sent s'"
proof -
  note i = session_invD [OF assms(1)]
  have s': "s' = (if ss_recving s then s\<lparr>at_recv_lock := at_recv_lock s - 1\<rparr>
      else s\<lparr>at_recv_lock := at_recv_lock s - 1, ss_recving := True, reads := reads s + 1\<rparr>)"
    using assms(2) by (simp add: request_recv_lock_def Let_def split: if_splits)
  show ?thesis using i unfolding session_inv_def s' by (cases "ss_recving s") simp_all
qed

lemma recv_completed_inv:
  assumes "session_inv sent s" "on_recv_completed ok rc s = Some s'"
  shows "session_inv sent s'"
proof -
  note i = session_invD [OF assms(1)]
  have s': "reads s > 0" "s' = (if ok \<and> rc then s\<lparr>reads := reads s - 1, ss_recving := False, at_request_recv := at_request_recv s + 1\<rparr>
      else s\<lparr>reads := reads s - 1, ss_recving := False, at_close := at_close s + 1\<rparr>)"
    using assms(2) by (auto simp: on_recv_completed_def Let_def split: if_splits)
  show ?thesis using i s'(1) unfolding session_inv_def s'(2) by (cases "ok \<and> rc") (simp_all split: if_splits)
qed

lemma session_close_inv:
  assumes "session_inv sent s" "session_close s = Some s'"
  shows "session_inv sent s'"
proof -
  note i = session_invD [OF assms(1)]
  have s': "s' = (if ss_destroyed s then s\<lparr>at_close := at_close s - 1\<rparr>
      else s\<lparr>at_close := at_close s - 1, ss_open := False, at_destroy := at_destroy s + 1\<rparr>)"
    using assms(2) by (simp add: session_close_def Let_def split: if_splits)
  show ?thesis
  proof (cases "ss_destroyed s")
    case True
    then have "\<not> ss_open s" using i(9) by auto
    then show ?thesis using i True unfolding session_inv_def s' by simp
  next
    case False
    then show ?thesis using i unfolding session_inv_def s' by simp
  qed
qed

lemma destroy_lock_inv:
  assumes "session_inv sent s" "destroy_lock s = Some s'"
  shows "session_inv sent s'"
proof -
  note i = session_invD [OF assms(1)]
  have s': "at_destroy s > 0" "s' = (if ss_sending s \<or> ss_recving s then s\<lparr>at_destroy := at_destroy s - 1\<rparr>
      else s\<lparr>at_destroy := at_destroy s - 1, at_notify := at_notify s + 1\<rparr>)"
    using assms(2) by (auto simp: destroy_lock_def Let_def split: if_splits)
  have "\<not> ss_open s" using i(9) s'(1) by auto
  then show ?thesis using i unfolding session_inv_def s'(2) by (cases "ss_sending s \<or> ss_recving s") simp_all
qed

lemma destroy_notify_inv:
  assumes "session_inv sent s" "destroy_notify s = Some s'"
  shows "session_inv sent s'"
proof -
  note i = session_invD [OF assms(1)]
  have s': "at_notify s > 0" "s' = s\<lparr>at_notify := at_notify s - 1, ss_destroyed := True, notified := notified s + 1\<rparr>"
    using assms(2) by (simp_all add: destroy_notify_def split: if_splits)
  have "\<not> ss_open s" using i(9) s'(1) by auto
  then show ?thesis using i unfolding session_inv_def s'(2) by simp
qed

lemma app_close_inv: "session_inv sent s \<Longrightarrow> session_inv sent (s\<lparr>at_close := at_close s + 1\<rparr>)"
  by (auto simp: session_inv_def)

lemmas session_invs = transfer_inv send_completed_inv send_unlock_inv request_send_open_inv request_send_lock_inv
  request_recv_open_inv request_recv_lock_inv recv_completed_inv session_close_inv destroy_lock_inv destroy_notify_inv

lemma session_step_inv:
  assumes "session_inv sent s" "session_step e s = Some r"
  shows "\<exists>s'. r = Inr s' \<and> session_inv (sent @ sent_by e s) s'"
proof (cases e)
  case (App_send xs)
  then show ?thesis using send_inv [OF assms(1), of xs] assms(2) by (auto simp: sent_by_def)
next
  case (Append i)
  then have "i < length (at_append s)" using assms(2) by (auto simp: session_append_def split: if_splits)
  then obtain s' where "session_append i s = Some (Inr s')" "session_inv (sent @ at_append s ! i) s'"
    using append_inv [OF assms(1)] by blast
  then show ?thesis using assms(2) Append by (auto simp: sent_by_def)
next
  case App_close
  then show ?thesis using app_close_inv [OF assms(1)] assms(2) by (auto simp: sent_by_def)
qed (use assms session_invs [OF assms(1)] in \<open>auto simp: sent_by_def\<close>)

lemma session_reach_inv: "session_reach sent s \<Longrightarrow> session_inv sent s"
proof (induction rule: session_reach.induct)
  case (new p)
  show ?case by (rule session_new_inv)
next
  case (step sent s e s')
  then show ?case using session_step_inv [OF step.IH step(2)] by auto
qed

section \<open>Runs\<close>

fun session_run :: "session_event list \<Rightarrow> session \<Rightarrow> (byte list \<times> session) option" where
  "session_run [] s = Some ([], s)"
| "session_run (e # es) s =
     (case session_step e s of
        Some (Inr s') \<Rightarrow> map_option (\<lambda>(xs, t). (sent_by e s @ xs, t)) (session_run es s')
      | _ \<Rightarrow> None)"

lemma session_run_reach: "session_reach sent s \<Longrightarrow> session_run es s = Some (xs, t) \<Longrightarrow> session_reach (sent @ xs) t"
proof (induction es arbitrary: sent s xs)
  case (Cons e es)
  then obtain s' ys where "session_step e s = Some (Inr s')" "session_run es s' = Some (ys, t)" "xs = sent_by e s @ ys"
    by (auto split: option.splits sum.splits)
  then show ?case using Cons.IH [OF session_reach.step [OF Cons.prems(1)]] by simp
qed simp

section \<open>Sending drains the buffer\<close>

text \<open>The steps of the threads that send, while the writes succeed.\<close>

fun drain_event :: "session_event \<Rightarrow> bool" where
  "drain_event (Append i) = True"
| "drain_event Request_send_open = True"
| "drain_event Request_send_lock = True"
| "drain_event Request_send_transfer = True"
| "drain_event (Send_completed ok) = ok"
| "drain_event Send_unlock = True"
| "drain_event e = False"

definition drain_measure :: "session \<Rightarrow> nat" where
  "drain_measure s =
     8 * length (at_append s) + 2 * at_request_send s + at_send_lock s + 5 * at_transfer s +
     4 * length (writes s) + 3 * length (at_send_unlock s) +
     (if sb_bytes (ss_buf s) \<noteq> [] \<and> at_transfer s = 0 then 5 else 0)"

lemma drain_step_less:
  assumes "session_inv sent s" "drain_event e" "session_step e s = Some (Inr s')"
  shows "drain_measure s' < drain_measure s"
proof (cases e)
  case (Append i)
  then show ?thesis using assms(3)
    by (auto simp: session_append_def drain_measure_def split: if_splits option.splits sum.splits)
next
  case Request_send_open
  then show ?thesis using assms(3) by (auto simp: request_send_open_def drain_measure_def Let_def split: if_splits)
next
  case Request_send_lock
  then show ?thesis
    using assms(3) sb_size_zero [OF send_seg_len_pos session_invD(1) [OF assms(1)]] session_invD(3) [OF assms(1)]
    by (auto simp: request_send_lock_def drain_measure_def Let_def split: if_splits)
next
  case Request_send_transfer
  obtain segs b where tr: "sb_transfer send_seg_len (ss_buf s) = (segs, b)" by force
  then have "sb_bytes b = []" using sb_transfer_ok(3) [OF send_seg_len_pos session_invD(1) [OF assms(1)]] by blast
  then show ?thesis using assms(3) tr Request_send_transfer
    by (auto simp: request_send_transfer_def drain_measure_def split: if_splits)
next
  case (Send_completed ok)
  then show ?thesis using assms(3) by (auto simp: on_send_completed_def drain_measure_def split: list.splits)
next
  case Send_unlock
  then show ?thesis using assms(3)
    by (auto simp: on_send_unlock_def drain_measure_def Let_def split: list.splits if_splits)
qed (use assms(2) in auto)

lemma drain_bound:
  "session_inv sent s \<Longrightarrow> list_all drain_event es \<Longrightarrow> session_run es s = Some (xs, t) \<Longrightarrow> length es \<le> drain_measure s"
proof (induction es arbitrary: sent s xs)
  case (Cons e es)
  then obtain s' ys where s': "session_step e s = Some (Inr s')" "session_run es s' = Some (ys, t)"
    by (auto split: option.splits sum.splits)
  have "session_inv (sent @ sent_by e s) s'" using session_step_inv [OF Cons.prems(1) s'(1)] by simp
  then have "length es \<le> drain_measure s'" using Cons.IH s'(2) Cons.prems(2) by simp
  then show ?case using drain_step_less [OF Cons.prems(1) _ s'(1)] Cons.prems(2) by simp
qed simp

lemma drained:
  assumes i: "session_inv sent s" and st: "\<And>e. drain_event e \<Longrightarrow> session_step e s = None"
    and o: "ss_open s" "at_close s = 0"
  shows "at_append s = [] \<and> wire s = sent"
proof -
  have "at_append s = []"
  proof (rule ccontr)
    assume "at_append s \<noteq> []"
    then obtain s' where "session_append 0 s = Some (Inr s')" using append_inv [OF i, of 0] by auto
    then show False using st [of "Append 0"] by simp
  qed
  moreover have "at_request_send s = 0" "at_send_lock s = 0" "at_transfer s = 0"
    using st [of Request_send_open] st [of Request_send_lock] st [of Request_send_transfer]
    by (auto simp: request_send_open_def request_send_lock_def request_send_transfer_def Let_def
      split: if_splits prod.splits)
  moreover have "writes s = []" "at_send_unlock s = []"
    using st [of "Send_completed True"] st [of Send_unlock]
    by (auto simp: on_send_completed_def on_send_unlock_def Let_def split: list.splits)
  ultimately show ?thesis using session_invD(2,3,7) [OF i] o by (auto split: if_splits)
qed

section \<open>Properties\<close>

text \<open>
  C3. The bytes given to the socket are the bytes sent, in the order in which the calls of
  \<open>send\<close> took the lock of the buffer, with nothing lost, repeated or mixed: together with those
  still in the buffer they are all of them, however the threads interleave. There is never more
  than one write outstanding, none is empty, there is never more than one read, and no step of any thread goes wrong.
\<close>

theorem session_stream:
  assumes "session_reach sent s"
  shows "wire s @ sb_bytes (ss_buf s) = sent \<and> length (writes s) \<le> 1 \<and> [] \<notin> set (writes s) \<and> reads s \<le> 1 \<and>
    session_step e s \<noteq> Some (Inl f)"
proof -
  note i = session_invD [OF session_reach_inv [OF assms]]
  show ?thesis using i(2,3,4,6) session_step_inv [OF session_reach_inv [OF assms], of e] by (auto split: if_splits)
qed


text \<open>
  C26. A session that is open and not about to be closed listens: a read is outstanding or a
  thread is about to request one. And one with bytes in its buffer has somebody to send them.
\<close>

theorem session_stays_active:
  assumes "session_reach sent s" "ss_open s" "at_close s = 0"
  shows "(reads s = 1 \<or> 0 < at_request_recv s \<or> 0 < at_recv_lock s) \<and>
    (sb_bytes (ss_buf s) \<noteq> [] \<longrightarrow>
       0 < at_request_send s \<or> 0 < at_send_lock s \<or> at_transfer s + length (writes s) + length (at_send_unlock s) = 1) \<and>
    \<not> ss_destroyed s \<and> at_notify s = 0"
proof -
  note i = session_invD [OF session_reach_inv [OF assms(1)]]
  show ?thesis using i(3,4,7,8,9) assms(2,3) by (cases "ss_sending s"; cases "ss_recving s") auto
qed

section \<open>Traces\<close>

lemma append_fresh:
  assumes "xs \<noteq> []"
  obtains b segs b' where "sb_append send_seg_len (segbuf_new p) xs = Some (Inr b)" "sb_bytes b = xs" "sb_size b \<noteq> 0"
    "sb_transfer send_seg_len b = (segs, b')" "concat (map sg_data segs) = xs" "sb_bytes b' = []" "sb_size b' = 0"
proof -
  obtain b where b: "sb_append send_seg_len (segbuf_new p) xs = Some (Inr b)" "sb_inv send_seg_len b" "sb_bytes b = xs"
    using sb_append_ok [OF send_seg_len_pos segbuf_new_inv, of p xs] by auto
  obtain segs b' where tr: "sb_transfer send_seg_len b = (segs, b')" by force
  note t = sb_transfer_ok [OF send_seg_len_pos b(2) tr]
  show thesis using that [OF b(1,3) _ tr] t b(3) assms sb_size_zero [OF send_seg_len_pos b(2)]
      sb_size_zero [OF send_seg_len_pos t(2)] by simp
qed

lemmas session_ops = session_new_def session_send_def session_append_def request_send_open_def request_send_lock_def
  request_send_transfer_def on_send_completed_def on_send_unlock_def request_recv_open_def request_recv_lock_def
  on_recv_completed_def session_close_def destroy_lock_def destroy_notify_def sent_by_def

definition after_send :: "byte list \<Rightarrow> object_pool \<Rightarrow> session" where
  "after_send xs p = session_send xs (session_new p)"

lemma after_send_reach: "session_reach [] (after_send xs p)"
  using session_run_reach [OF session_reach.new, of "[App_send xs]"] by (simp add: after_send_def sent_by_def)

definition one_sent :: "session_event list" where
  "one_sent = [Append 0, Request_send_open, Request_send_lock, Request_send_transfer,
     Send_completed True, Send_unlock, Request_send_open, Request_send_lock]"

lemma all_drain_events:
  "(\<forall>e. drain_event e \<longrightarrow> P e) \<longleftrightarrow> (\<forall>i. P (Append i)) \<and> P Request_send_open \<and> P Request_send_lock \<and>
     P Request_send_transfer \<and> P (Send_completed True) \<and> P Send_unlock"
  by (auto elim: drain_event.elims)

lemma one_sent_run:
  assumes "xs \<noteq> []"
  shows "\<exists>t. session_run one_sent (after_send xs p) = Some (xs, t) \<and> wire t = xs \<and> ss_open t \<and> at_close t = 0 \<and>
    (\<forall>e. drain_event e \<longrightarrow> session_step e t = None)"
proof -
  obtain b segs b' where b: "sb_append send_seg_len (segbuf_new p) xs = Some (Inr b)" "sb_bytes b = xs" "sb_size b \<noteq> 0"
    "sb_transfer send_seg_len b = (segs, b')" "concat (map sg_data segs) = xs" "sb_bytes b' = []" "sb_size b' = 0"
    by (rule append_fresh [OF assms])
  have r: "sb_size (sb_release b' segs) = 0" using b(7) by (simp add: sb_release_def sb_size_def)
  show ?thesis using b r by (simp add: one_sent_def after_send_def session_ops Let_def all_drain_events)
qed

theorem session_stream_witness:
  "\<forall>p. \<exists>t. session_reach [7] t \<and> wire t @ sb_bytes (ss_buf t) = [7]"
proof
  fix p
  obtain t where t: "session_run one_sent (after_send [7] p) = Some ([7], t)" using one_sent_run [of "[7]"] by blast
  have "session_reach [7] t" using session_run_reach [OF after_send_reach t] by simp
  then show "\<exists>t. session_reach [7] t \<and> wire t @ sb_bytes (ss_buf t) = [7]" using session_stream by blast
qed


theorem session_stays_active_witness:
  "\<forall>p. \<exists>t. session_run one_sent (after_send [7] p) = Some ([7], t) \<and>
     (reads t = 1 \<or> 0 < at_request_recv t \<or> 0 < at_recv_lock t) \<and> \<not> ss_destroyed t"
proof
  fix p
  obtain t where t: "session_run one_sent (after_send [7] p) = Some ([7], t)" "ss_open t" "at_close t = 0"
    using one_sent_run [of "[7]"] by blast
  have "session_reach [7] t" using session_run_reach [OF after_send_reach t(1)] by simp
  then show "\<exists>t. session_run one_sent (after_send [7] p) = Some ([7], t) \<and>
     (reads t = 1 \<or> 0 < at_request_recv t \<or> 0 < at_recv_lock t) \<and> \<not> ss_destroyed t"
    using session_stays_active [OF _ t(2,3)] t(1) by blast
qed

text \<open>
  Three runs of the closing protocol. A session closed by the program while a completed read
  waits for its handler is never destroyed: nothing is left to do, nothing has been
  announced and the service keeps its slot.
\<close>

lemma close_leaks:
  "\<exists>t. session_run [Request_recv_open, Request_recv_lock, App_close, Close, Destroy_lock, Recv_completed True True,
        Request_recv_open] (session_new p) = Some ([], t) \<and>
     \<not> ss_open t \<and> notified t = 0 \<and> \<not> ss_destroyed t \<and> reads t = 0 \<and> writes t = [] \<and> at_request_send t = 0 \<and>
     at_send_lock t = 0 \<and> at_transfer t = 0 \<and> at_request_recv t = 0 \<and> at_recv_lock t = 0 \<and> at_close t = 0 \<and>
     at_destroy t = 0 \<and> at_notify t = 0"
  by (simp add: session_ops Let_def)

text \<open>Two threads that close at the same time both announce the end of the session.\<close>

lemma closed_twice:
  "\<exists>t. session_run [Request_recv_open, Request_recv_lock, App_close, Close, Destroy_lock, Recv_completed False False,
        App_close, Close, Close, Destroy_lock, Destroy_lock, Destroy_notify, Destroy_notify] (session_new p) = Some ([], t) \<and>
     notified t = 2"
  by (simp add: session_ops Let_def)

text \<open>A thread that tested the socket before it was closed writes to a session already destroyed.\<close>

lemma write_after_destroy:
  "\<exists>t. session_run [Request_recv_open, Request_recv_lock, App_send [7], Append 0, Request_send_open, App_close, Close,
        Destroy_lock, Recv_completed False False, Close, Destroy_lock, Destroy_notify, Request_send_lock,
        Request_send_transfer] (session_new p) = Some ([7], t) \<and>
     ss_destroyed t \<and> notified t = 1 \<and> writes t = [[7]]"
proof -
  obtain b segs b' where b: "sb_append send_seg_len (segbuf_new p) [7] = Some (Inr b)" "sb_size b \<noteq> 0"
    "sb_transfer send_seg_len b = (segs, b')" "concat (map sg_data segs) = [7]" by (rule append_fresh [of "[7]"]) simp_all
  show ?thesis using b by (simp add: session_ops Let_def)
qed

end
