(* ===== verification/Transport.thy ===== *)
theory Transport
  imports Bits_Delivery Session
begin

text \<open>
  The way of a message from one program to another: \<open>bits_protocol::send\<close> turns it into bytes,
  \<open>session::send\<close> and the threads of its socket give them to the network, and
  \<open>bits_protocol::on_recv\<close> of the other side turns the pieces it receives into messages again.
  The models of \<open>Session\<close> and \<open>Bits_Delivery\<close> are put together; nothing is modelled anew.
\<close>

section \<open>A stream that has not arrived in full\<close>

lemma recv_prefix:
  assumes interval: "0 < env_interval env"
  shows "all_sent_as env mws s s' \<Longrightarrow> good_wires env mws \<Longrightarrow> in_step s (receiver_mods bp) \<Longrightarrow>
    rb_inv (bp_recv_buf bp) \<Longrightarrow> prefix (rb_bytes (bp_recv_buf bp) @ concat cs) (concat (map snd mws)) \<Longrightarrow> [] \<notin> set cs \<Longrightarrow>
    (rb_bytes (bp_recv_buf bp) = [] \<or> (\<exists>y ys. mws = y # ys \<and> strict_prefix (rb_bytes (bp_recv_buf bp)) (snd y))) \<Longrightarrow>
    \<exists>xs ys part bp'. mws = xs @ ys \<and> rb_bytes (bp_recv_buf bp) @ concat cs = concat (map snd xs) @ part \<and>
      (part = [] \<or> (\<exists>y ys'. ys = y # ys' \<and> strict_prefix part (snd y))) \<and>
      bits_recv_all env cs bp = Inr (replicate (length cs) (True, success), deliveries env xs, bp')"
proof (induction cs arbitrary: mws s bp)
  case Nil
  then show ?case by (intro exI [of _ "[]"] exI [of _ mws] exI [of _ "rb_bytes (bp_recv_buf bp)"] exI [of _ bp])
      (auto simp: deliveries_def)
next
  case (Cons c cs)
  have ne: "\<forall>mw \<in> set mws. snd mw \<noteq> []" using Cons.prems(2) by (auto simp: good_wires_def)
  have "prefix (rb_bytes (bp_recv_buf bp) @ c) (concat (map snd mws))"
    using Cons.prems(5) by (auto simp: prefix_def)
  from split_stream [OF ne this] obtain xs ys part where x: "mws = xs @ ys"
    "rb_bytes (bp_recv_buf bp) @ c = concat (map snd xs) @ part"
    "part = [] \<or> (\<exists>y ys'. ys = y # ys' \<and> strict_prefix part (snd y))" by blast
  have c: "c \<noteq> []" "[] \<notin> set cs" using Cons.prems(6) by auto
  obtain bp' s1 where r: "bits_on_recv env (Some c) bp = Inr ((True, success), deliveries env xs, bp')"
    "all_sent_as env ys s1 s'" "in_step s1 (receiver_mods bp')" "rb_inv (bp_recv_buf bp')"
    "rb_bytes (bp_recv_buf bp') = part"
    using recv_chunk [OF interval Cons.prems(1) [unfolded x(1)] Cons.prems(2) [unfolded x(1)] Cons.prems(3,4)
        x(2) c(1) x(3)] by metis
  have g: "good_wires env ys" using Cons.prems(2) by (simp add: x(1))
  have "rb_bytes (bp_recv_buf bp) @ concat (c # cs) = concat (map snd xs) @ part @ concat cs"
    using x(2) by (metis append_assoc concat.simps(2))
  then have p: "prefix (rb_bytes (bp_recv_buf bp') @ concat cs) (concat (map snd ys))"
    using Cons.prems(5) unfolding r(5) x(1) by (simp del: concat.simps)
  have h: "rb_bytes (bp_recv_buf bp') = [] \<or> (\<exists>y ys'. ys = y # ys' \<and> strict_prefix (rb_bytes (bp_recv_buf bp')) (snd y))"
    using x(3) by (simp add: r(5))
  from Cons.IH [OF r(2) g r(3,4) p c(2) h] obtain xs2 ys2 part2 bp2 where i: "ys = xs2 @ ys2"
    "part @ concat cs = concat (map snd xs2) @ part2"
    "part2 = [] \<or> (\<exists>y ys'. ys2 = y # ys' \<and> strict_prefix part2 (snd y))"
    "bits_recv_all env cs bp' = Inr (replicate (length cs) (True, success), deliveries env xs2, bp2)"
    by (auto simp: r(5))
  have "rb_bytes (bp_recv_buf bp) @ concat (c # cs) = concat (map snd (xs @ xs2)) @ part2"
    using x(2) i(2) by (metis append_assoc concat.simps(2) concat_append map_append)
  moreover have "bits_recv_all env (c # cs) bp =
      Inr (replicate (length (c # cs)) (True, success), deliveries env (xs @ xs2), bp2)"
    using r(1) i(4) by (simp add: deliveries_def)
  ultimately show ?case using x(1) i(1,3)
    by (intro exI [of _ "xs @ xs2"] exI [of _ ys2] exI [of _ part2] exI [of _ bp2]) simp
qed

text \<open>Whole messages with a strict part of the next one: how many messages that is.\<close>

lemma count_whole:
  assumes "ws = xs @ ys" "p = concat xs @ part" "part = [] \<or> (\<exists>y ys'. ys = y # ys' \<and> strict_prefix part y)"
    "\<forall>w \<in> set ws. w \<noteq> []"
  shows "prefix (concat (take (length xs) ws)) p \<and>
    (length xs < length ws \<longrightarrow> length p < length (concat (take (Suc (length xs)) ws)))"
proof (cases ys)
  case (Cons y ys')
  then have "length part < length y"
    using assms(1,3,4) by (auto dest: prefix_length_less)
  then show ?thesis using assms(1,2) Cons by simp
qed (use assms(1,2) in simp)

lemma deliveries_take:
  assumes "length ms = length wires"
  shows "deliveries env (take k (zip ms wires)) = take k (map2 (\<lambda>m w. delivered env m (length w)) ms wires)"
  by (simp add: deliveries_def take_map)

section \<open>Properties\<close>



end
