(* ===== verification/Net_Service.thy ===== *)
theory Net_Service
  imports Id_Sequence Modifier String_Util "HOL-Library.Multiset"
begin

text \<open>
  \<open>net::service\<close> and \<open>net::service_impl\<close> (\<open>src/net/service.cpp\<close>,
  \<open>src/net/detail/service_impl.cpp\<close>) with what they rest on: session ids
  (\<open>include/lax/net/session.inl\<close>), addresses (\<open>src/net/addr.cpp\<close>), the protocol factory
  (\<open>src/net/protocol/protocol_factory.cpp\<close>), acceptors and connectors
  (\<open>src/net/detail/acceptor.cpp\<close>, \<open>connector.cpp\<close>) and the texts of the reasons
  (\<open>src/net/reason.cpp\<close>).

  The sockets are parameters: whether an endpoint can be opened, bound and listened on is an
  argument of \<open>listen\<close>, and completions are events. What happens under the lock of the service
  is one step; the construction of a session, which runs without it, lies between two steps.
\<close>

section \<open>Texts of the reasons\<close>

definition reason_texts :: "string list" where
  "reason_texts =
     [''success'',
      ''fail_null_pointer'', ''fail_zero_size_data'', ''fail_invalid_parameter'', ''fail_not_implemented'',
      ''fail_invalid_session_index'', ''fail_invalid_address'', ''fail_acceptor_open'', ''fail_acceptor_bind'',
      ''fail_acceptor_listen'',
      ''fail_session_already_recving'', ''success_session_already_sending'', ''success_session_no_data_to_send'',
      ''fail_socket_closed'']"

definition get_reason_desc :: "reason \<Rightarrow> fault + string" where
  "get_reason_desc r =
     (if reason_value r < length reason_texts then Inr (reason_texts ! reason_value r) else Inl Out_of_bounds)"

text \<open>The table has a text for the first five reasons only: it is indexed with the value, and the others are 100 and more.\<close>

lemma get_reason_desc_general:
  "get_reason_desc r = (if reason_value r \<le> 4 then Inr (reason_texts ! reason_value r) else Inl Out_of_bounds)"
  by (cases r) (simp_all add: get_reason_desc_def reason_value_def reason_texts_def)

section \<open>Session ids\<close>

text \<open>The union of a \<open>uint32_t\<close> and the struct of \<open>seq_\<close> and \<open>index_\<close>, on a little endian machine.\<close>

type_synonym session_id = u32

definition session_id :: "u16 \<Rightarrow> u16 \<Rightarrow> session_id" where
  "session_id sq index = word_cat index sq"

definition get_seq :: "session_id \<Rightarrow> u16" where
  "get_seq i = ucast i"

definition get_index :: "session_id \<Rightarrow> u16" where
  "get_index i = ucast (drop_bit 16 i)"

definition id_valid :: "session_id \<Rightarrow> bool" where
  "id_valid i \<longleftrightarrow> get_seq i > 0"

section \<open>Addresses\<close>

text \<open>
  \<open>atoi\<close> of the C library: blanks, a sign, digits. A number that does not fit an \<open>int\<close>, which
  is undefined there, is the number here.
\<close>

definition is_digit :: "char \<Rightarrow> bool" where
  "is_digit c \<longleftrightarrow> of_char c \<ge> (48 :: nat) \<and> of_char c \<le> (57 :: nat)"

definition is_space :: "char \<Rightarrow> bool" where
  "is_space c \<longleftrightarrow> of_char c = (32 :: nat) \<or> (9 \<le> (of_char c :: nat) \<and> of_char c \<le> (13 :: nat))"

definition digits_value :: "string \<Rightarrow> int" where
  "digits_value ds = foldl (\<lambda>n c. 10 * n + (of_char c - 48)) 0 ds"

definition atoi :: "string \<Rightarrow> int" where
  "atoi s =
     (case dropWhile is_space s of
        [] \<Rightarrow> 0
      | c # cs \<Rightarrow>
          (if c = CHR ''-'' then - digits_value (takeWhile is_digit cs)
           else if c = CHR ''+'' then digits_value (takeWhile is_digit cs)
           else digits_value (takeWhile is_digit (c # cs))))"

record 'ip addr =
  ad_raw :: string
  ad_ep :: "('ip \<times> u16) option"     \<comment> \<open>\<open>None\<close>: the endpoint of the default constructor\<close>
  ad_valid :: bool

text \<open>
  \<open>from_string\<close> is \<open>asio::ip::address::from_string\<close>: the address, and whether it set no error.
\<close>

definition addr_of :: "(string \<Rightarrow> 'ip \<times> bool) \<Rightarrow> string \<Rightarrow> 'ip addr" where
  "addr_of from_string s =
     (let none = \<lparr>ad_raw = s, ad_ep = None, ad_valid = False\<rparr>
      in case find_first_of [CHR '':''] s (Some 0) of
           None \<Rightarrow> none
         | Some pos \<Rightarrow>
             (if pos + 1 \<ge> length s then none
              else let port = (of_int (atoi (drop (pos + 1) s)) :: u16)
                   in if port = 0 then none
                      else (case from_string (take pos s) of
                              (a, ok) \<Rightarrow> \<lparr>ad_raw = s, ad_ep = Some (a, port), ad_valid = ok\<rparr>)))"

section \<open>The protocol factory\<close>

type_synonym 'p proto_factory = "string \<Rightarrow> 'p option"

definition proto_factory_add :: "string \<Rightarrow> 'p \<Rightarrow> 'p proto_factory \<Rightarrow> 'p proto_factory" where
  "proto_factory_add name c f = (case f name of Some d \<Rightarrow> f | None \<Rightarrow> f(name \<mapsto> c))"

definition proto_factory_has :: "string \<Rightarrow> 'p proto_factory \<Rightarrow> bool" where
  "proto_factory_has name f \<longleftrightarrow> f name \<noteq> None"

definition proto_factory_create :: "string \<Rightarrow> 'p proto_factory \<Rightarrow> 'p option" where
  "proto_factory_create name f = f name"

section \<open>Acceptors and connectors\<close>

text \<open>What the operating system says to an endpoint: an open, a bind and a listen that do not throw.\<close>

record 'ip endpoint_env =
  from_string :: "string \<Rightarrow> 'ip \<times> bool"
  os_open :: "('ip \<times> u16) option \<Rightarrow> bool"
  os_bind :: "('ip \<times> u16) option \<Rightarrow> bool"
  os_listen :: "('ip \<times> u16) option \<Rightarrow> bool"

record 'ip acceptor =
  ac_id :: u16
  ac_protocol :: string
  ac_addr :: "'ip addr"
  ac_open :: bool
  ac_accepting :: nat            \<comment> \<open>calls of \<open>async_accept\<close> not completed\<close>

record 'ip connector =
  cn_id :: u16
  cn_protocol :: string
  cn_addr :: "'ip addr"
  cn_connecting :: nat           \<comment> \<open>calls of \<open>async_connect\<close> not completed\<close>

definition acceptor_new :: "'ip endpoint_env \<Rightarrow> u16 \<Rightarrow> string \<Rightarrow> string \<Rightarrow> 'ip acceptor" where
  "acceptor_new env i protocol a =
     \<lparr>ac_id = i, ac_protocol = protocol, ac_addr = addr_of (from_string env) a, ac_open = False, ac_accepting = 0\<rparr>"

definition do_accept :: "'ip acceptor \<Rightarrow> 'ip acceptor" where
  "do_accept ac = (if \<not> ac_open ac then ac else ac\<lparr>ac_accepting := ac_accepting ac + 1\<rparr>)"

definition acceptor_listen :: "'ip endpoint_env \<Rightarrow> 'ip acceptor \<Rightarrow> net_result \<times> 'ip acceptor" where
  "acceptor_listen env ac =
     (let ep = ad_ep (ac_addr ac)
      in if \<not> ad_valid (ac_addr ac) then ((False, fail_invalid_address), ac)
         else if \<not> os_open env ep then ((True, fail_acceptor_open), ac)
         else let ac1 = ac\<lparr>ac_open := True\<rparr>
              in if \<not> os_bind env ep then ((True, fail_acceptor_bind), ac1)
                 else if \<not> os_listen env ep then ((True, fail_acceptor_listen), ac1)
                 else ((True, success), do_accept ac1))"

definition connector_new :: "'ip endpoint_env \<Rightarrow> u16 \<Rightarrow> string \<Rightarrow> string \<Rightarrow> 'ip connector" where
  "connector_new env i protocol a =
     \<lparr>cn_id = i, cn_protocol = protocol, cn_addr = addr_of (from_string env) a, cn_connecting = 0\<rparr>"

definition connector_connect :: "'ip connector \<Rightarrow> net_result \<times> 'ip connector" where
  "connector_connect cn = ((True, success), cn\<lparr>cn_connecting := cn_connecting cn + 1\<rparr>)"

section \<open>The service\<close>

text \<open>A session as the service sees it: what its constructor is given.\<close>

record svc_session =
  se_id :: session_id
  se_accepted :: bool
  se_protocol :: string

record slot =
  sl_session :: "svc_session option"
  sl_seq :: u16

datatype origin = Accepted u16 | Connected u16

record incoming =
  in_origin :: origin
  in_slot :: u16
  in_seq :: u16
  in_protocol :: string

datatype 'e sys_msg = Accept_failed string 'e | Connect_failed string 'e

record ('ip, 'e, 'p) service =
  sv_factory :: "'p proto_factory"              \<comment> \<open>the singleton \<open>protocol_factory\<close>\<close>
  sv_acceptors :: "u16 \<Rightarrow> 'ip acceptor option"
  sv_connectors :: "u16 \<Rightarrow> 'ip connector option"
  sv_id_gen :: "u16 sequence"
  sv_sessions :: "slot list"
  sv_free :: "u16 list"                   \<comment> \<open>\<open>free_slots_\<close>\<close>
  sv_stop :: bool
  sv_threads :: nat
  sv_session_count :: u16
  sv_acceptor_count :: u16
  sv_connector_count :: u16
  sv_new :: "incoming list"               \<comment> \<open>threads in \<open>on_new_socket\<close>, without the lock\<close>
  sv_after :: "origin list"               \<comment> \<open>threads that have returned from it\<close>
  sv_posted :: "'e sys_msg list"          \<comment> \<open>messages posted to the channel of the sessions\<close>

definition service_new :: "'p proto_factory \<Rightarrow> ('ip, 'e, 'p) service" where
  "service_new f =
     \<lparr>sv_factory = f, sv_acceptors = Map.empty, sv_connectors = Map.empty, sv_id_gen = sequence_new 1 0xFFFF 1000,
      sv_sessions = [], sv_free = [], sv_stop = True, sv_threads = 0, sv_session_count = 0, sv_acceptor_count = 0,
      sv_connector_count = 0, sv_new = [], sv_after = [], sv_posted = []\<rparr>"

subsection \<open>Listening and connecting\<close>

definition service_listen ::
  "'ip endpoint_env \<Rightarrow> string \<Rightarrow> string \<Rightarrow> ('ip, 'e, 'p) service \<Rightarrow> fault + (net_result \<times> ('ip, 'e, 'p) service)" where
  "service_listen env a protocol sv =
     (if \<not> proto_factory_has protocol (sv_factory sv) then Inr ((False, fail_protocol_not_added), sv)
      else (case sequence_next (sv_id_gen sv) of
              Inl f \<Rightarrow> Inl f
            | Inr (i, sq) \<Rightarrow>
                (case acceptor_listen env (acceptor_new env i protocol a) of
                   (rc, ac) \<Rightarrow>
                     (let sv1 = sv\<lparr>sv_id_gen := sq\<rparr>
                      in if fst rc
                         then Inr (rc, sv1\<lparr>sv_acceptors := (sv_acceptors sv)(i \<mapsto> ac),
                                          sv_acceptor_count := sv_acceptor_count sv + 1\<rparr>)
                         else Inr (rc, sv1)))))"

definition service_connect ::
  "'ip endpoint_env \<Rightarrow> string \<Rightarrow> string \<Rightarrow> ('ip, 'e, 'p) service \<Rightarrow> fault + (net_result \<times> ('ip, 'e, 'p) service)" where
  "service_connect env a protocol sv =
     (if \<not> proto_factory_has protocol (sv_factory sv) then Inr ((False, fail_protocol_not_added), sv)
      else (case sequence_next (sv_id_gen sv) of
              Inl f \<Rightarrow> Inl f
            | Inr (i, sq) \<Rightarrow>
                (case connector_connect (connector_new env i protocol a) of
                   (rc, cn) \<Rightarrow>
                     (let sv1 = sv\<lparr>sv_id_gen := sq\<rparr>
                      in if fst rc
                         then Inr (rc, sv1\<lparr>sv_connectors := (sv_connectors sv)(i \<mapsto> cn),
                                          sv_connector_count := sv_connector_count sv + 1\<rparr>)
                         else Inr (rc, sv1)))))"

subsection \<open>New sockets\<close>

definition get_free_slot :: "('ip, 'e, 'p) service \<Rightarrow> fault + (u16 \<times> ('ip, 'e, 'p) service)" where
  "get_free_slot sv =
     (if length (sv_sessions sv) \<ge> 65535 then Inl (Thrown ''session slot limit reached'')
      else (case sv_free sv of
              [] \<Rightarrow> Inr (of_nat (length (sv_sessions sv)),
                        sv\<lparr>sv_sessions := sv_sessions sv @ [\<lparr>sl_session = None, sl_seq = 0\<rparr>]\<rparr>)
            | i # is \<Rightarrow> Inr (i, sv\<lparr>sv_free := is\<rparr>)))"

text \<open>\<open>on_new_socket\<close> up to where it gives up the lock: the slot and the number of its next session.\<close>

definition next_seq :: "u16 \<Rightarrow> u16 \<times> u16" where
  "next_seq q = (if q = 0 then (q + 1, q + 2) else (q, q + 1))"

definition on_new_socket_begin :: "origin \<Rightarrow> string \<Rightarrow> ('ip, 'e, 'p) service \<Rightarrow> fault + ('ip, 'e, 'p) service" where
  "on_new_socket_begin og protocol sv =
     (case get_free_slot sv of
        Inl f \<Rightarrow> Inl f
      | Inr (i, sv1) \<Rightarrow>
          (if \<not> unat i < length (sv_sessions sv1) then Inl Out_of_bounds
           else let sl = sv_sessions sv1 ! unat i; q = next_seq (sl_seq sl)
                in Inr (sv1\<lparr>sv_sessions := (sv_sessions sv1)[unat i := sl\<lparr>sl_seq := snd q\<rparr>],
                           sv_new := sv_new sv1 @ [\<lparr>in_origin = og, in_slot = i, in_seq = fst q, in_protocol = protocol\<rparr>]\<rparr>)))"

text \<open>The rest of it, with the lock taken again, once the session is constructed.\<close>

definition new_session :: "incoming \<Rightarrow> svc_session" where
  "new_session n =
     \<lparr>se_id = session_id (in_seq n) (in_slot n),
      se_accepted = (case in_origin n of Accepted k \<Rightarrow> True | Connected k \<Rightarrow> False), se_protocol = in_protocol n\<rparr>"

definition on_new_socket_end :: "nat \<Rightarrow> ('ip, 'e, 'p) service \<Rightarrow> (fault + ('ip, 'e, 'p) service) option" where
  "on_new_socket_end j sv =
     (if length (sv_new sv) \<le> j then None
      else let n = sv_new sv ! j; i = unat (in_slot n)
           in if proto_factory_create (in_protocol n) (sv_factory sv) = None then Some (Inl (Thrown ''fail to create protocol''))
              else if \<not> i < length (sv_sessions sv) then Some (Inl Out_of_bounds)
              else Some (Inr (sv\<lparr>sv_new := take j (sv_new sv) @ drop (Suc j) (sv_new sv),
                                sv_after := sv_after sv @ [in_origin n],
                                sv_sessions := (sv_sessions sv)[i := (sv_sessions sv ! i)\<lparr>sl_session := Some (new_session n)\<rparr>],
                                sv_session_count := sv_session_count sv + 1\<rparr>)))"

subsection \<open>Completions\<close>

text \<open>
  \<open>acceptor::on_accepted\<close> and the operation of the service it calls. An accept that fails is
  announced; in both cases the next accept follows.
\<close>

definition on_accepted :: "u16 \<Rightarrow> ('ip, 'e, 'p) service \<Rightarrow> fault + ('ip, 'e, 'p) service" where
  "on_accepted k sv =
     (case sv_acceptors sv k of
        None \<Rightarrow> Inr (sv\<lparr>sv_after := sv_after sv @ [Accepted k]\<rparr>)
      | Some ac \<Rightarrow> on_new_socket_begin (Accepted k) (ac_protocol ac) sv)"

definition on_accept_failed :: "u16 \<Rightarrow> 'e \<Rightarrow> ('ip, 'e, 'p) service \<Rightarrow> ('ip, 'e, 'p) service" where
  "on_accept_failed k ec sv =
     (case sv_acceptors sv k of
        None \<Rightarrow> sv
      | Some ac \<Rightarrow> sv\<lparr>sv_posted := sv_posted sv @ [Accept_failed (ad_raw (ac_addr ac)) ec]\<rparr>)"

definition accept_completed :: "u16 \<Rightarrow> 'e option \<Rightarrow> ('ip, 'e, 'p) service \<Rightarrow> (fault + ('ip, 'e, 'p) service) option" where
  "accept_completed k err sv =
     (case sv_acceptors sv k of
        None \<Rightarrow> None
      | Some ac \<Rightarrow>
          (if ac_accepting ac = 0 then None
           else let sv1 = sv\<lparr>sv_acceptors := (sv_acceptors sv)(k \<mapsto> ac\<lparr>ac_accepting := ac_accepting ac - 1\<rparr>)\<rparr>
                in Some (case err of
                           None \<Rightarrow> on_accepted k sv1
                         | Some ec \<Rightarrow> Inr (let sv2 = on_accept_failed k ec sv1
                                          in sv2\<lparr>sv_after := sv_after sv2 @ [Accepted k]\<rparr>))))"

definition on_connected :: "u16 \<Rightarrow> ('ip, 'e, 'p) service \<Rightarrow> fault + ('ip, 'e, 'p) service" where
  "on_connected k sv =
     (case sv_connectors sv k of
        None \<Rightarrow> Inr sv
      | Some cn \<Rightarrow> on_new_socket_begin (Connected k) (cn_protocol cn) sv)"

definition on_connect_failed :: "u16 \<Rightarrow> 'e \<Rightarrow> ('ip, 'e, 'p) service \<Rightarrow> ('ip, 'e, 'p) service" where
  "on_connect_failed k ec sv =
     (let sv1 = sv\<lparr>sv_connectors := (sv_connectors sv)(k := None), sv_connector_count := sv_connector_count sv - 1\<rparr>
      in (case sv_connectors sv k of
            None \<Rightarrow> sv1
          | Some cn \<Rightarrow> sv1\<lparr>sv_posted := sv_posted sv @ [Connect_failed (ad_raw (cn_addr cn)) ec]\<rparr>))"

definition connect_completed :: "u16 \<Rightarrow> 'e option \<Rightarrow> ('ip, 'e, 'p) service \<Rightarrow> (fault + ('ip, 'e, 'p) service) option" where
  "connect_completed k err sv =
     (case sv_connectors sv k of
        None \<Rightarrow> None
      | Some cn \<Rightarrow>
          (if cn_connecting cn = 0 then None
           else let sv1 = sv\<lparr>sv_connectors := (sv_connectors sv)(k \<mapsto> cn\<lparr>cn_connecting := cn_connecting cn - 1\<rparr>)\<rparr>
                in Some (case err of None \<Rightarrow> on_connected k sv1 | Some ec \<Rightarrow> Inr (on_connect_failed k ec sv1))))"

text \<open>What follows \<open>on_new_socket\<close>, without the lock it has given up.\<close>

definition after_new_socket :: "('ip, 'e, 'p) service \<Rightarrow> ('ip, 'e, 'p) service option" where
  "after_new_socket sv =
     (case sv_after sv of
        [] \<Rightarrow> None
      | Accepted k # os \<Rightarrow>
          Some (sv\<lparr>sv_after := os, sv_acceptors := (sv_acceptors sv)(k := map_option do_accept (sv_acceptors sv k))\<rparr>)
      | Connected k # os \<Rightarrow>
          Some (sv\<lparr>sv_after := os, sv_connectors := (sv_connectors sv)(k := None),
                  sv_connector_count := sv_connector_count sv - 1\<rparr>))"

subsection \<open>Sessions\<close>

definition service_acquire :: "session_id \<Rightarrow> ('ip, 'e, 'p) service \<Rightarrow> fault + svc_session option" where
  "service_acquire i sv =
     (if unat (get_index i) > length (sv_sessions sv) then Inr None
      else if \<not> unat (get_index i) < length (sv_sessions sv) then Inl Out_of_bounds
      else Inr (sl_session (sv_sessions sv ! unat (get_index i))))"

definition service_error :: "session_id \<Rightarrow> ('ip, 'e, 'p) service \<Rightarrow> ('ip, 'e, 'p) service" where
  "service_error i sv =
     (let idx = unat (get_index i)
      in if idx \<ge> length (sv_sessions sv) then sv
         else sv\<lparr>sv_sessions := (sv_sessions sv)[idx := (sv_sessions sv ! idx)\<lparr>sl_session := None\<rparr>],
                sv_free := sv_free sv @ [get_index i], sv_session_count := sv_session_count sv - 1\<rparr>)"

subsection \<open>Starting and finishing\<close>

record service_config =
  use_hardware_concurrency :: bool
  concurrency_level :: nat

definition impl_start :: "service_config \<Rightarrow> nat \<Rightarrow> 'p \<Rightarrow> ('ip, 'e, 'p) service \<Rightarrow> ('ip, 'e, 'p) service" where
  "impl_start cfg hardware bits sv =
     (let sv1 = sv\<lparr>sv_factory := proto_factory_add ''bits'' bits (sv_factory sv)\<rparr>;
          n = (if use_hardware_concurrency cfg then hardware else concurrency_level cfg)
      in if \<not> sv_stop sv then sv1 else sv1\<lparr>sv_stop := False, sv_threads := n\<rparr>)"

definition service_cleanup :: "('ip, 'e, 'p) service \<Rightarrow> ('ip, 'e, 'p) service" where
  "service_cleanup sv =
     sv\<lparr>sv_sessions := [], sv_acceptors := Map.empty, sv_connectors := Map.empty, sv_threads := 0\<rparr>"

text \<open>Joining the threads: their handlers are done.\<close>

definition impl_finish :: "('ip, 'e, 'p) service \<Rightarrow> ('ip, 'e, 'p) service" where
  "impl_finish sv = (if sv_stop sv then sv else service_cleanup (sv\<lparr>sv_stop := True\<rparr>))"

text \<open>
  The singleton \<open>service\<close>: \<open>impl_\<close> is created by the first \<open>start\<close> and reset by \<open>finish\<close>. The
  factory of the protocols is a singleton of its own and stays. Every other operation
  dereferences \<open>impl_\<close>.
\<close>

record ('ip, 'e, 'p) service_single =
  ns_factory :: "'p proto_factory"
  ns_impl :: "('ip, 'e, 'p) service option"

definition service_start ::
  "service_config \<Rightarrow> nat \<Rightarrow> 'p \<Rightarrow> ('ip, 'e, 'p) service_single \<Rightarrow> bool \<times> ('ip, 'e, 'p) service_single" where
  "service_start cfg hardware bits ns =
     (case ns_impl ns of
        None \<Rightarrow> (let sv = impl_start cfg hardware bits (service_new (ns_factory ns))
                 in (True, ns\<lparr>ns_factory := sv_factory sv, ns_impl := Some sv\<rparr>))
      | Some sv \<Rightarrow> (\<not> sv_stop sv, ns))"

definition service_finish :: "('ip, 'e, 'p) service_single \<Rightarrow> fault + ('ip, 'e, 'p) service_single" where
  "service_finish ns =
     (case ns_impl ns of
        None \<Rightarrow> Inl Out_of_bounds
      | Some sv \<Rightarrow> Inr (ns\<lparr>ns_factory := sv_factory (impl_finish sv), ns_impl := None\<rparr>))"

section \<open>Steps\<close>

datatype ('ip, 'e) svc_event =
    Listen "'ip endpoint_env" string string
  | Connect "'ip endpoint_env" string string
  | Accept_completed u16 "'e option"
  | Connect_completed u16 "'e option"
  | Socket_end nat
  | After
  | Error session_id

fun service_step :: "('ip, 'e) svc_event \<Rightarrow> ('ip, 'e, 'p) service \<Rightarrow> (fault + ('ip, 'e, 'p) service) option" where
  "service_step (Listen env a protocol) sv = Some (map_sum id snd (service_listen env a protocol sv))"
| "service_step (Connect env a protocol) sv = Some (map_sum id snd (service_connect env a protocol sv))"
| "service_step (Accept_completed k err) sv = accept_completed k err sv"
| "service_step (Connect_completed k err) sv = connect_completed k err sv"
| "service_step (Socket_end j) sv = on_new_socket_end j sv"
| "service_step After sv = map_option Inr (after_new_socket sv)"
| "service_step (Error i) sv = Some (Inr (service_error i sv))"

text \<open>
  A session reports its end once, when it is in its slot. The ids given, slot and number, in their order, are
  those the steps append to the sockets being made into sessions.
\<close>

definition holds_session :: "session_id \<Rightarrow> ('ip, 'e, 'p) service \<Rightarrow> bool" where
  "holds_session i sv \<longleftrightarrow>
     (\<exists>sl \<in> set (sv_sessions sv). case sl_session sl of None \<Rightarrow> False | Some se \<Rightarrow> se_id se = i)"

fun reported_once :: "('ip, 'e) svc_event \<Rightarrow> ('ip, 'e, 'p) service \<Rightarrow> bool" where
  "reported_once (Error i) sv = holds_session i sv"
| "reported_once e sv = True"

definition ids_given :: "('ip, 'e, 'p) service \<Rightarrow> ('ip, 'e, 'p) service \<Rightarrow> (u16 \<times> u16) list" where
  "ids_given sv sv' = map (\<lambda>n. (in_slot n, in_seq n)) (drop (length (sv_new sv)) (sv_new sv'))"

inductive service_reach :: "(u16 \<times> u16) list \<Rightarrow> ('ip, 'e, 'p) service \<Rightarrow> bool" where
  new: "service_reach [] (service_new f)"
| step: "service_reach ids sv \<Longrightarrow> reported_once e sv \<Longrightarrow> service_step e sv = Some (Inr sv') \<Longrightarrow>
    service_reach (ids @ ids_given sv sv') sv'"

section \<open>Ids\<close>

lemma session_id_parts [simp]: "get_seq (session_id q i) = q" "get_index (session_id q i) = i"
  by (rule bit_word_eqI; auto simp: get_seq_def get_index_def session_id_def bit_simps)+

lemma session_id_of_parts: "session_id (get_seq v) (get_index v) = v"
  by (rule bit_word_eqI) (auto simp: get_seq_def get_index_def session_id_def bit_simps)

text \<open>The number of the \<open>k\<close>-th session of a slot.\<close>

definition seq_no :: "nat \<Rightarrow> u16" where
  "seq_no k = of_nat (k mod 65535 + 1)"

lemma unat_seq_no: "unat (seq_no k) = k mod 65535 + 1"
proof -
  have "k mod 65535 < 65535" by simp
  then have "k mod 65535 + 1 < 65536" by linarith
  then show ?thesis unfolding seq_no_def by (simp only: unat_of_nat) (simp add: take_bit_nat_eq_self)
qed

definition next_no :: "nat \<Rightarrow> u16" where
  "next_no k = (case k of 0 \<Rightarrow> 0 | Suc n \<Rightarrow> seq_no n + 1)"

lemma next_seq_no: "next_seq (next_no k) = (seq_no k, next_no (Suc k))"
proof (cases k)
  case 0
  then show ?thesis by (simp add: next_no_def next_seq_def seq_no_def)
next
  case (Suc n)
  show ?thesis
  proof (cases "n mod 65535 = 65534")
    case True
    then have "seq_no n = -1" "Suc n mod 65535 = 0" by (simp_all add: seq_no_def mod_Suc)
    then show ?thesis using Suc by (simp add: next_no_def next_seq_def) (simp add: seq_no_def)
  next
    case False
    then have m: "Suc n mod 65535 = Suc (n mod 65535)" by (simp add: mod_Suc)
    then have eq: "seq_no (Suc n) = seq_no n + 1" by (simp add: seq_no_def)
    have "seq_no (Suc n) \<noteq> 0" using unat_seq_no [of "Suc n"] by auto
    then show ?thesis using Suc eq by (simp add: next_no_def next_seq_def)
  qed
qed

section \<open>Slots\<close>

text \<open>\<open>L\<close>: the slots without a session, those that are free and those of the sockets being made into sessions.\<close>

definition slots_ok :: "slot list \<Rightarrow> u16 list \<Rightarrow> bool" where
  "slots_ok slots L \<longleftrightarrow>
     length slots \<le> 65535 \<and> distinct L \<and> (\<forall>x \<in> set L. unat x < length slots) \<and>
     (\<forall>x. unat x < length slots \<longrightarrow> (x \<in> set L \<longleftrightarrow> sl_session (slots ! unat x) = None))"

definition live_slots :: "slot list \<Rightarrow> nat" where
  "live_slots slots = length (filter (\<lambda>sl. sl_session sl \<noteq> None) slots)"

lemma slots_okI:
  assumes "length slots \<le> 65535" "distinct L" "\<And>x. x \<in> set L \<longleftrightarrow> unat x < length slots \<and> sl_session (slots ! unat x) = None"
  shows "slots_ok slots L"
  using assms by (simp add: slots_ok_def)

lemma slots_okD:
  assumes "slots_ok slots L"
  shows "length slots \<le> 65535" "distinct L" "x \<in> set L \<longleftrightarrow> unat x < length slots \<and> sl_session (slots ! unat x) = None"
  using assms unfolding slots_ok_def by blast+

lemma slots_ok_perm:
  assumes "slots_ok slots L" "mset L = mset L'"
  shows "slots_ok slots L'"
  using slots_okD [OF assms(1)] mset_eq_setD [OF assms(2)] mset_eq_imp_distinct_iff [OF assms(2)]
  by (intro slots_okI) simp_all

lemma unat_of_length: "n \<le> 65535 \<Longrightarrow> unat (of_nat n :: u16) = n"
  by (simp add: unat_of_nat take_bit_nat_eq_self)

lemma slots_ok_push:
  assumes "slots_ok slots L" "length slots < 65535"
  shows "slots_ok (slots @ [\<lparr>sl_session = None, sl_seq = q\<rparr>]) (L @ [of_nat (length slots)])"
proof -
  let ?n = "of_nat (length slots) :: u16"
  note L = slots_okD [OF assms(1)]
  have n: "unat ?n = length slots" using assms(2) by (intro unat_of_length) simp
  have eq: "x = ?n \<longleftrightarrow> unat x = length slots" for x using n word_unat_eq_iff [of x ?n] by simp
  show ?thesis
  proof (rule slots_okI)
    show "distinct (L @ [?n])" using L n by simp
    show "x \<in> set (L @ [?n]) \<longleftrightarrow> unat x < length (slots @ [\<lparr>sl_session = None, sl_seq = q\<rparr>]) \<and>
        sl_session ((slots @ [\<lparr>sl_session = None, sl_seq = q\<rparr>]) ! unat x) = None" for x
    proof (cases "unat x" "length slots" rule: linorder_cases)
      case less
      then show ?thesis using L(3) [of x] eq [of x] by (simp add: nth_append)
    next
      case equal
      then have "x = ?n" using eq by blast
      then show ?thesis using n by simp
    next
      case greater
      then show ?thesis using L(3) [of x] eq [of x] by simp
    qed
  qed (use assms(2) in simp)
qed

lemma slots_ok_same:
  assumes "slots_ok slots L" "\<And>i. sl_session (slots' ! i) = sl_session (slots ! i)" "length slots' = length slots"
  shows "slots_ok slots' L"
  using assms unfolding slots_ok_def by auto

lemma update_session:
  "unat x < length slots \<Longrightarrow> slots[unat i := sl] ! unat x = (if x = i then sl else slots ! unat x)"
  by (simp add: nth_list_update word_unat_eq_iff)

lemma slots_ok_fill:
  assumes "slots_ok slots L" "mset L = add_mset i (mset L')" "sl_session sl \<noteq> None"
  shows "slots_ok (slots[unat i := sl]) L'"
proof -
  note L = slots_okD [OF assms(1)]
  have m: "mset L = mset (i # L')" using assms(2) by simp
  have s: "set L = insert i (set L')" using mset_eq_setD [OF m] by simp
  have d: "i \<notin> set L'" "distinct L'" using L(2) mset_eq_imp_distinct_iff [OF m] by simp_all
  show ?thesis
  proof (rule slots_okI)
    show "x \<in> set L' \<longleftrightarrow> unat x < length (slots[unat i := sl]) \<and> sl_session (slots[unat i := sl] ! unat x) = None" for x
    proof (cases "x = i")
      case True
      then show ?thesis using d(1) assms(3) update_session [of x slots i sl] by simp
    next
      case False
      then have "x \<in> set L' \<longleftrightarrow> x \<in> set L" using s by simp
      then show ?thesis using L(3) [of x] False by (simp add: update_session cong: conj_cong)
    qed
  qed (use L(1) d(2) in simp_all)
qed

lemma slots_ok_free:
  assumes "slots_ok slots L" "unat i < length slots" "sl_session (slots ! unat i) \<noteq> None" "sl_session sl = None"
  shows "slots_ok (slots[unat i := sl]) (L @ [i])"
proof -
  note L = slots_okD [OF assms(1)]
  have i: "i \<notin> set L" using assms(3) by (simp add: L(3))
  show ?thesis
  proof (rule slots_okI)
    show "x \<in> set (L @ [i]) \<longleftrightarrow> unat x < length (slots[unat i := sl]) \<and> sl_session (slots[unat i := sl] ! unat x) = None" for x
    proof (cases "x = i")
      case True
      then show ?thesis using assms(2,4) update_session [of x slots i sl] by simp
    next
      case False
      then show ?thesis using L(3) [of x] by (simp add: update_session cong: conj_cong)
    qed
  qed (use L(1,2) i in simp_all)
qed

lemma live_slots_simps [simp]:
  "live_slots [] = 0" "live_slots (sl # slots) = (if sl_session sl = None then 0 else 1) + live_slots slots"
  "live_slots (slots @ slots') = live_slots slots + live_slots slots'"
  by (auto simp: live_slots_def)

lemma live_slots_update:
  "i < length slots \<Longrightarrow> live_slots (slots[i := sl]) + (if sl_session (slots ! i) = None then 0 else 1) =
     live_slots slots + (if sl_session sl = None then 0 else 1)"
proof (induction slots arbitrary: i)
  case (Cons s slots)
  show ?case
  proof (cases i)
    case (Suc j)
    then have "live_slots (slots[j := sl]) + (if sl_session (slots ! j) = None then 0 else 1) =
        live_slots slots + (if sl_session sl = None then 0 else 1)" using Cons by simp
    then show ?thesis using Suc by simp
  qed simp
qed simp

section \<open>Invariant\<close>

definition slot_nos :: "(u16 \<times> u16) list \<Rightarrow> u16 \<Rightarrow> u16 list" where
  "slot_nos ids x = map snd (filter (\<lambda>p. fst p = x) ids)"

lemma slot_nos_simps [simp]:
  "slot_nos [] x = []" "slot_nos ((y, q) # ids) x = (if y = x then [q] else []) @ slot_nos ids x"
  "slot_nos (ids @ ids') x = slot_nos ids x @ slot_nos ids' x"
  by (auto simp: slot_nos_def)

text \<open>The last number of a slot is that of its session, or of the socket that will be its session.\<close>

definition name_ok :: "u16 list \<Rightarrow> slot option \<Rightarrow> u16 \<Rightarrow> bool" where
  "name_ok qs so x \<longleftrightarrow>
     qs = map seq_no [0..<length qs] \<and>
     (case so of
        None \<Rightarrow> qs = []
      | Some sl \<Rightarrow>
          sl_seq sl = next_no (length qs) \<and>
          (case sl_session sl of
             None \<Rightarrow> True
           | Some se \<Rightarrow> qs \<noteq> [] \<and> se_id se = session_id (last qs) x))"

definition slot_at :: "slot list \<Rightarrow> u16 \<Rightarrow> slot option" where
  "slot_at slots x = (if unat x < length slots then Some (slots ! unat x) else None)"

definition names_ok :: "(u16 \<times> u16) list \<Rightarrow> slot list \<Rightarrow> incoming list \<Rightarrow> bool" where
  "names_ok ids slots news \<longleftrightarrow>
     (\<forall>x. name_ok (slot_nos ids x) (slot_at slots x) x) \<and>
     (\<forall>n \<in> set news. slot_nos ids (in_slot n) \<noteq> [] \<and> in_seq n = last (slot_nos ids (in_slot n)))"

lemma names_okD:
  "names_ok ids slots news \<Longrightarrow> unat i < length slots \<Longrightarrow> name_ok (slot_nos ids i) (Some (slots ! unat i)) i"
  unfolding names_ok_def slot_at_def by (metis (full_types))

lemma slot_at_update:
  "unat i < length slots \<Longrightarrow> slot_at (slots[unat i := sl]) x = (if x = i then Some sl else slot_at slots x)"
  by (simp add: slot_at_def update_session)

lemma slot_at_push:
  "length slots < 65535 \<Longrightarrow> slot_at (slots @ [sl]) x = (if x = of_nat (length slots) then Some sl else slot_at slots x)"
  using unat_of_length [of "length slots"] word_unat_eq_iff [of x "of_nat (length slots)"]
  by (auto simp: slot_at_def nth_append)

lemma names_ok_push:
  assumes "names_ok ids slots news" "length slots < 65535"
  shows "names_ok ids (slots @ [\<lparr>sl_session = None, sl_seq = 0\<rparr>]) news"
proof -
  have "name_ok (slot_nos ids x) (slot_at slots x) x" for x using assms(1) by (simp add: names_ok_def)
  from this [of "of_nat (length slots)"] have "slot_nos ids (of_nat (length slots)) = []"
    using unat_of_length [of "length slots"] assms(2) by (simp add: name_ok_def slot_at_def)
  then show ?thesis using assms by (auto simp: names_ok_def slot_at_push name_ok_def next_no_def)
qed

lemma names_ok_take:
  assumes "names_ok ids slots news" "unat i < length slots" "sl_session (slots ! unat i) = None" "i \<notin> in_slot ` set news"
    and q: "q = next_seq (sl_seq (slots ! unat i))"
    and n: "in_slot n = i" "in_seq n = fst q"
  shows "names_ok (ids @ [(i, fst q)]) (slots[unat i := (slots ! unat i)\<lparr>sl_seq := snd q\<rparr>]) (news @ [n])"
proof -
  note i = names_okD [OF assms(1,2)]
  then have "sl_seq (slots ! unat i) = next_no (length (slot_nos ids i))" by (simp add: name_ok_def)
  then have q': "q = (seq_no (length (slot_nos ids i)), next_no (Suc (length (slot_nos ids i))))"
    using q by (simp add: next_seq_no)
  have "name_ok (slot_nos ids i @ [fst q]) (Some ((slots ! unat i)\<lparr>sl_seq := snd q\<rparr>)) i"
    using i assms(3) q' by (simp add: name_ok_def)
  then show ?thesis using assms(1,4) n
    by (auto simp: names_ok_def slot_at_update [OF assms(2)])
qed

lemma names_ok_fill:
  assumes "names_ok ids slots news" "n \<in> set news" "set news' \<subseteq> set news" "unat (in_slot n) < length slots"
  shows "names_ok ids (slots[unat (in_slot n) := (slots ! unat (in_slot n))\<lparr>sl_session := Some (new_session n)\<rparr>]) news'"
proof -
  let ?i = "in_slot n"
  have i: "name_ok (slot_nos ids ?i) (Some (slots ! unat ?i)) ?i" "slot_nos ids ?i \<noteq> []" "in_seq n = last (slot_nos ids ?i)"
    using assms(1,2) names_okD [OF assms(1,4)] by (auto simp: names_ok_def)
  have "name_ok (slot_nos ids ?i) (Some ((slots ! unat ?i)\<lparr>sl_session := Some (new_session n)\<rparr>)) ?i"
    using i by (simp add: name_ok_def new_session_def)
  then show ?thesis using assms(1,3) by (auto simp: names_ok_def slot_at_update [OF assms(4)])
qed

lemma names_ok_free:
  assumes "names_ok ids slots news" "unat (i :: u16) < length slots"
  shows "names_ok ids (slots[unat i := (slots ! unat i)\<lparr>sl_session := None\<rparr>]) news"
proof -
  note i = names_okD [OF assms]
  then show ?thesis using assms(1) by (auto simp: names_ok_def slot_at_update [OF assms(2)] name_ok_def)
qed

definition service_inv :: "(u16 \<times> u16) list \<Rightarrow> ('ip, 'e, 'p) service \<Rightarrow> bool" where
  "service_inv ids sv \<longleftrightarrow>
     slots_ok (sv_sessions sv) (sv_free sv @ map in_slot (sv_new sv)) \<and>
     names_ok ids (sv_sessions sv) (sv_new sv) \<and>
     sv_session_count sv = of_nat (live_slots (sv_sessions sv))"

lemma service_inv_same:
  "service_inv ids sv \<Longrightarrow> sv_sessions sv' = sv_sessions sv \<Longrightarrow> sv_free sv' = sv_free sv \<Longrightarrow> sv_new sv' = sv_new sv \<Longrightarrow>
    sv_session_count sv' = sv_session_count sv \<Longrightarrow> service_inv (ids @ ids_given sv sv') sv'"
  by (simp add: service_inv_def ids_given_def)

lemma service_new_inv: "service_inv [] (service_new f)"
  by (simp add: service_inv_def service_new_def slots_ok_def names_ok_def name_ok_def slot_at_def)

lemma get_free_slot_ok:
  assumes "service_inv ids sv" "get_free_slot sv = Inr (i, sv1)"
  shows "slots_ok (sv_sessions sv1) (sv_free sv1 @ map in_slot (sv_new sv1) @ [i])" "names_ok ids (sv_sessions sv1) (sv_new sv1)"
    "live_slots (sv_sessions sv1) = live_slots (sv_sessions sv)" "sv_session_count sv1 = sv_session_count sv"
    "sv_new sv1 = sv_new sv"
proof -
  have inv: "slots_ok (sv_sessions sv) (sv_free sv @ map in_slot (sv_new sv))" "names_ok ids (sv_sessions sv) (sv_new sv)"
    using assms(1) by (simp_all add: service_inv_def)
  have len: "length (sv_sessions sv) < 65535" using assms(2) by (simp add: get_free_slot_def split: if_splits)
  have "slots_ok (sv_sessions sv1) (sv_free sv1 @ map in_slot (sv_new sv1) @ [i]) \<and> names_ok ids (sv_sessions sv1) (sv_new sv1) \<and>
    live_slots (sv_sessions sv1) = live_slots (sv_sessions sv) \<and> sv_session_count sv1 = sv_session_count sv \<and> sv_new sv1 = sv_new sv"
  proof (cases "sv_free sv")
    case Nil
    then have "i = of_nat (length (sv_sessions sv))" "sv1 = sv\<lparr>sv_sessions := sv_sessions sv @ [\<lparr>sl_session = None, sl_seq = 0\<rparr>]\<rparr>"
      using assms(2) len by (auto simp: get_free_slot_def)
    then show ?thesis using slots_ok_push [OF inv(1) len] names_ok_push [OF inv(2) len] Nil by simp
  next
    case (Cons j js)
    then have j: "i = j" "sv1 = sv\<lparr>sv_free := js\<rparr>" using assms(2) len by (auto simp: get_free_slot_def)
    have "slots_ok (sv_sessions sv) (js @ map in_slot (sv_new sv) @ [j])"
      by (rule slots_ok_perm [OF inv(1)]) (simp add: Cons)
    then show ?thesis using j inv(2) by simp
  qed
  then show "slots_ok (sv_sessions sv1) (sv_free sv1 @ map in_slot (sv_new sv1) @ [i])" "names_ok ids (sv_sessions sv1) (sv_new sv1)"
    "live_slots (sv_sessions sv1) = live_slots (sv_sessions sv)" "sv_session_count sv1 = sv_session_count sv"
    "sv_new sv1 = sv_new sv" by blast+
qed

lemma on_new_socket_begin_inv:
  assumes inv: "service_inv ids sv"
  shows "case on_new_socket_begin og protocol sv of
      Inl f \<Rightarrow> f = Thrown ''session slot limit reached'' \<and> length (sv_sessions sv) = 65535
    | Inr sv' \<Rightarrow> service_inv (ids @ ids_given sv sv') sv'"
proof (cases "get_free_slot sv")
  case (Inl f)
  then have "f = Thrown ''session slot limit reached''" "65535 \<le> length (sv_sessions sv)"
    by (auto simp: get_free_slot_def split: if_splits list.splits)
  moreover have "length (sv_sessions sv) \<le> 65535" using inv by (simp add: service_inv_def slots_ok_def)
  ultimately show ?thesis using Inl by (simp add: on_new_socket_begin_def)
next
  case (Inr r)
  obtain i sv1 where r: "r = (i, sv1)" by force
  note g = get_free_slot_ok [OF inv Inr [unfolded r]]
  have i: "unat i < length (sv_sessions sv1)" "sl_session (sv_sessions sv1 ! unat i) = None" "i \<notin> in_slot ` set (sv_new sv1)"
    using slots_okD(2,3) [OF g(1)] by force+
  let ?q = "next_seq (sl_seq (sv_sessions sv1 ! unat i))"
  let ?n = "\<lparr>in_origin = og, in_slot = i, in_seq = fst ?q, in_protocol = protocol\<rparr>"
  let ?sl = "(sv_sessions sv1 ! unat i)\<lparr>sl_seq := snd ?q\<rparr>"
  let ?sv = "sv1\<lparr>sv_sessions := (sv_sessions sv1)[unat i := ?sl], sv_new := sv_new sv1 @ [?n]\<rparr>"
  have b: "on_new_socket_begin og protocol sv = Inr ?sv" using Inr r i(1) by (simp add: on_new_socket_begin_def Let_def)
  have s: "slots_ok (sv_sessions ?sv) (sv_free ?sv @ map in_slot (sv_new ?sv))"
    using slots_ok_same [OF g(1), of "sv_sessions ?sv"] i(1) by (simp add: nth_list_update)
  have l: "live_slots (sv_sessions ?sv) = live_slots (sv_sessions sv)"
    using live_slots_update [OF i(1), of ?sl] i(2) g(3) by simp
  have g': "ids_given sv ?sv = [(i, fst ?q)]" using g(5) by (simp add: ids_given_def)
  have "names_ok (ids @ [(i, fst ?q)]) (sv_sessions ?sv) (sv_new ?sv)"
    using names_ok_take [OF g(2) i refl, of ?n] by simp
  then show ?thesis using b s l g(4) g' inv by (simp add: service_inv_def)
qed

lemma on_new_socket_end_inv:
  assumes inv: "service_inv ids sv" and e: "on_new_socket_end j sv = Some r"
  shows "case r of Inl f \<Rightarrow> f = Thrown ''fail to create protocol'' | Inr sv' \<Rightarrow> service_inv (ids @ ids_given sv sv') sv'"
proof -
  have j: "j < length (sv_new sv)" using e by (simp add: on_new_socket_end_def split: if_splits)
  let ?n = "sv_new sv ! j" and ?news = "take j (sv_new sv) @ drop (Suc j) (sv_new sv)"
  have inv': "slots_ok (sv_sessions sv) (sv_free sv @ map in_slot (sv_new sv))" "names_ok ids (sv_sessions sv) (sv_new sv)"
    "sv_session_count sv = of_nat (live_slots (sv_sessions sv))"
    using inv by (simp_all add: service_inv_def)
  have "in_slot ?n \<in> set (sv_free sv @ map in_slot (sv_new sv))" using j by simp
  then have i: "unat (in_slot ?n) < length (sv_sessions sv)" "sl_session (sv_sessions sv ! unat (in_slot ?n)) = None"
    using slots_okD(3) [OF inv'(1), of "in_slot ?n"] by blast+
  let ?sl = "(sv_sessions sv ! unat (in_slot ?n))\<lparr>sl_session := Some (new_session ?n)\<rparr>"
  have m: "mset (sv_new sv) = add_mset ?n (mset ?news)"
    using arg_cong [OF id_take_nth_drop [OF j], of mset] by simp
  have s: "slots_ok ((sv_sessions sv)[unat (in_slot ?n) := ?sl]) (sv_free sv @ map in_slot ?news)"
    by (rule slots_ok_fill [OF inv'(1)]) (use arg_cong [OF m, of "image_mset in_slot"] in simp_all)
  have "set ?news \<subseteq> set (sv_new sv)" using set_take_subset [of j "sv_new sv"] set_drop_subset [of "Suc j" "sv_new sv"] by simp
  then have nm: "names_ok ids ((sv_sessions sv)[unat (in_slot ?n) := ?sl]) ?news"
    using names_ok_fill [OF inv'(2) _ _ i(1)] j by simp
  have l: "live_slots ((sv_sessions sv)[unat (in_slot ?n) := ?sl]) = live_slots (sv_sessions sv) + 1"
    using live_slots_update [OF i(1), of ?sl] i(2) by simp
  show ?thesis
  proof (cases "proto_factory_create (in_protocol ?n) (sv_factory sv)")
    case None
    then have "r = Inl (Thrown ''fail to create protocol'')" using e j by (simp add: on_new_socket_end_def Let_def)
    then show ?thesis by simp
  next
    case (Some p)
    then have r: "r = Inr (sv\<lparr>sv_new := ?news, sv_after := sv_after sv @ [in_origin ?n],
        sv_sessions := (sv_sessions sv)[unat (in_slot ?n) := ?sl], sv_session_count := sv_session_count sv + 1\<rparr>)"
      using e i(1) j by (simp add: on_new_socket_end_def Let_def)
    show ?thesis using s nm l inv'(3) j unfolding r by (simp add: service_inv_def ids_given_def)
  qed
qed

lemma service_error_inv:
  assumes inv: "service_inv ids sv" and h: "holds_session i sv"
  shows "service_inv (ids @ ids_given sv (service_error i sv)) (service_error i sv)"
proof -
  have inv': "slots_ok (sv_sessions sv) (sv_free sv @ map in_slot (sv_new sv))" "names_ok ids (sv_sessions sv) (sv_new sv)"
    "sv_session_count sv = of_nat (live_slots (sv_sessions sv))"
    using inv by (simp_all add: service_inv_def)
  obtain m se where m: "m < length (sv_sessions sv)" "sl_session (sv_sessions sv ! m) = Some se" "se_id se = i"
    using h by (auto simp: holds_session_def in_set_conv_nth split: option.splits)
  let ?x = "of_nat m :: u16"
  have x: "unat ?x = m" using m(1) slots_okD(1) [OF inv'(1)] by (intro unat_of_length) simp
  have "get_index i = ?x" using names_okD [OF inv'(2), of ?x] m x by (auto simp: name_ok_def)
  then have idx: "unat (get_index i) = m" using x by simp
  let ?sl = "(sv_sessions sv ! m)\<lparr>sl_session := None\<rparr>"
  have e: "service_error i sv = sv\<lparr>sv_sessions := (sv_sessions sv)[m := ?sl], sv_free := sv_free sv @ [get_index i],
      sv_session_count := sv_session_count sv - 1\<rparr>"
    using m(1) idx by (simp add: service_error_def Let_def)
  have "slots_ok ((sv_sessions sv)[m := ?sl]) ((sv_free sv @ map in_slot (sv_new sv)) @ [get_index i])"
    using slots_ok_free [OF inv'(1), of "get_index i" ?sl] m idx by simp
  then have s: "slots_ok ((sv_sessions sv)[m := ?sl]) ((sv_free sv @ [get_index i]) @ map in_slot (sv_new sv))"
    by (rule slots_ok_perm) simp
  have nm: "names_ok ids ((sv_sessions sv)[m := ?sl]) (sv_new sv)"
    using names_ok_free [OF inv'(2), of "get_index i"] m(1) idx by simp
  have "live_slots ((sv_sessions sv)[m := ?sl]) + 1 = live_slots (sv_sessions sv)"
    using live_slots_update [OF m(1), of ?sl] m(2) by simp
  then have "sv_session_count sv - 1 = of_nat (live_slots ((sv_sessions sv)[m := ?sl]))"
    using inv'(3) by (metis add_diff_cancel_right' of_nat_1 of_nat_add)
  then show ?thesis using s nm unfolding e by (simp add: service_inv_def ids_given_def)
qed

lemma service_step_inv:
  assumes "service_inv ids sv" "reported_once e sv" "service_step e sv = Some r"
  shows "case r of Inl f \<Rightarrow> f \<noteq> Out_of_bounds | Inr sv' \<Rightarrow> service_inv (ids @ ids_given sv sv') sv'"
proof (cases e)
  case (Listen env a protocol)
  then show ?thesis using assms(1,3) service_inv_same [OF assms(1)]
    by (auto simp: service_listen_def Let_def sequence_next_def split: sum.splits prod.splits if_splits list.splits)
next
  case (Connect env a protocol)
  then show ?thesis using assms(1,3) service_inv_same [OF assms(1)]
    by (auto simp: service_connect_def Let_def sequence_next_def split: sum.splits prod.splits if_splits list.splits)
next
  case (Accept_completed k err)
  obtain ac where ac: "sv_acceptors sv k = Some ac" and r: "r = (case err of
      None \<Rightarrow> on_accepted k (sv\<lparr>sv_acceptors := (sv_acceptors sv)(k \<mapsto> ac\<lparr>ac_accepting := ac_accepting ac - 1\<rparr>)\<rparr>)
    | Some ec \<Rightarrow> Inr (sv\<lparr>sv_acceptors := (sv_acceptors sv)(k \<mapsto> ac\<lparr>ac_accepting := ac_accepting ac - 1\<rparr>),
        sv_posted := sv_posted sv @ [Accept_failed (ad_raw (ac_addr ac)) ec], sv_after := sv_after sv @ [Accepted k]\<rparr>))"
    using assms(3) Accept_completed
    by (auto simp: accept_completed_def on_accept_failed_def Let_def split: option.splits if_splits)
  let ?sv = "sv\<lparr>sv_acceptors := (sv_acceptors sv)(k \<mapsto> ac\<lparr>ac_accepting := ac_accepting ac - 1\<rparr>)\<rparr>"
  have i: "service_inv ids ?sv" using assms(1) by (simp add: service_inv_def)
  have g: "ids_given ?sv sv' = ids_given sv sv'" for sv' by (simp add: ids_given_def)
  show ?thesis
  proof (cases err)
    case None
    then show ?thesis using on_new_socket_begin_inv [OF i, of "Accepted k" "ac_protocol ac"] r g
      by (auto simp: on_accepted_def split: sum.splits)
  next
    case (Some ec)
    then show ?thesis using service_inv_same [OF assms(1)] r by simp
  qed
next
  case (Connect_completed k err)
  obtain cn where cn: "sv_connectors sv k = Some cn" and r: "r = (case err of
      None \<Rightarrow> on_connected k (sv\<lparr>sv_connectors := (sv_connectors sv)(k \<mapsto> cn\<lparr>cn_connecting := cn_connecting cn - 1\<rparr>)\<rparr>)
    | Some ec \<Rightarrow> Inr (on_connect_failed k ec
        (sv\<lparr>sv_connectors := (sv_connectors sv)(k \<mapsto> cn\<lparr>cn_connecting := cn_connecting cn - 1\<rparr>)\<rparr>)))"
    using assms(3) Connect_completed
    by (auto simp: connect_completed_def Let_def split: option.splits if_splits)
  let ?sv = "sv\<lparr>sv_connectors := (sv_connectors sv)(k \<mapsto> cn\<lparr>cn_connecting := cn_connecting cn - 1\<rparr>)\<rparr>"
  have i: "service_inv ids ?sv" using assms(1) by (simp add: service_inv_def)
  have g: "ids_given ?sv sv' = ids_given sv sv'" for sv' by (simp add: ids_given_def)
  show ?thesis
  proof (cases err)
    case None
    then show ?thesis using on_new_socket_begin_inv [OF i, of "Connected k" "cn_protocol cn"] r g
      by (auto simp: on_connected_def split: sum.splits)
  next
    case (Some ec)
    then show ?thesis using service_inv_same [OF assms(1)] r by (simp add: on_connect_failed_def Let_def)
  qed
next
  case (Socket_end j)
  then show ?thesis using on_new_socket_end_inv [OF assms(1), of j r] assms(3) by (auto split: sum.splits)
next
  case After
  then show ?thesis using assms(3) service_inv_same [OF assms(1)]
    by (auto simp: after_new_socket_def split: list.splits origin.splits)
next
  case (Error i)
  then show ?thesis using service_error_inv [OF assms(1)] assms(2,3) by auto
qed

lemma service_reach_inv: "service_reach ids sv \<Longrightarrow> service_inv ids sv"
proof (induction rule: service_reach.induct)
  case (new f)
  show ?case by (rule service_new_inv)
next
  case (step ids sv e sv')
  show ?case using service_step_inv [OF step.IH step(2,3)] by simp
qed

section \<open>Properties\<close>


lemma mod_eq_near:
  fixes a b m :: nat
  assumes "a mod m = b mod m" "a < b + m" "b < a + m"
  shows "a = b"
proof -
  have *: "a = b" if "a \<le> b" "b < a + m" "a mod m = b mod m" for a b :: nat
  proof -
    have "m dvd b - a" using that(1,3) mod_eq_dvd_iff_nat by metis
    moreover have "b - a < m" using that(1,2) by linarith
    ultimately show ?thesis using that(1) nat_dvd_not_less [of "b - a" m] by fastforce
  qed
  show ?thesis using assms * [of a b] * [of b a] by (cases "a \<le> b") auto
qed

text \<open>
  C23. The ids of the sessions. The sessions of one slot are numbered 1, 2, ..., 65535, 1, 2 and
  so on: the number 0, which makes an id invalid, is never given, through the wrap-around of
  the 16 bit counter too, and among any 65535 sessions in a row of a slot no two have the same id.
\<close>

theorem service_ids:
  assumes "service_reach ids sv"
  shows "slot_nos ids x = map seq_no [0..<length (slot_nos ids x)] \<and>
    (\<forall>(i, q) \<in> set ids. id_valid (session_id q i)) \<and>
    (\<forall>k n. n \<le> 65535 \<longrightarrow> k + n \<le> length (slot_nos ids x) \<longrightarrow> distinct (take n (drop k (slot_nos ids x))))"
proof -
  have nos: "slot_nos ids y = map seq_no [0..<length (slot_nos ids y)]" for y
    using service_reach_inv [OF assms] by (simp add: service_inv_def names_ok_def name_ok_def)
  have "0 < q" if "(i, q) \<in> set ids" for i q
  proof -
    have "q \<in> set (slot_nos ids i)" using that by (force simp: slot_nos_def)
    then obtain k where "q = seq_no k" using nos [of i] by (metis (no_types, lifting) image_iff set_map)
    then show ?thesis using unat_seq_no [of k] by (metis add_is_0 one_neq_zero unat_0 word_gt_0)
  qed
  moreover have "distinct (take n (drop k (slot_nos ids x)))" if n: "n \<le> 65535" "k + n \<le> length (slot_nos ids x)" for k n
  proof -
    have "take n (drop k (slot_nos ids x)) = map seq_no [k..<k + n]"
      using n(2) by (subst nos) (simp add: drop_map take_map)
    moreover have "inj_on seq_no {k..<k + n}"
    proof (rule inj_onI)
      fix a b assume ab: "a \<in> {k..<k + n}" "b \<in> {k..<k + n}" "seq_no a = seq_no b"
      then have "a mod 65535 = b mod 65535" using unat_seq_no [of a] unat_seq_no [of b] by simp
      moreover have "a < b + 65535" "b < a + 65535" using ab(1,2) n(1) by auto
      ultimately show "a = b" by (rule mod_eq_near)
    qed
    ultimately show ?thesis by (simp add: distinct_map)
  qed
  ultimately show ?thesis using nos by (auto simp: id_valid_def)
qed

section \<open>Traces\<close>

fun service_run :: "('ip, 'e) svc_event list \<Rightarrow> ('ip, 'e, 'p) service \<Rightarrow> ('ip, 'e, 'p) service option" where
  "service_run [] sv = Some sv"
| "service_run (e # es) sv =
     (case service_step e sv of Some (Inr sv') \<Rightarrow> service_run es sv' | _ \<Rightarrow> None)"

text \<open>A machine on which every endpoint can be listened on; a service that listens on one.\<close>

definition test_env :: "nat endpoint_env" where
  "test_env = \<lparr>from_string = (\<lambda>s. (length s, True)), os_open = (\<lambda>ep. True), os_bind = (\<lambda>ep. True), os_listen = (\<lambda>ep. True)\<rparr>"

definition fresh :: "(nat, unit, unit) service" where
  "fresh = service_new [''bits'' \<mapsto> ()]"

lemma test_addr: "addr_of (from_string test_env) ''ip:80'' = \<lparr>ad_raw = ''ip:80'', ad_ep = Some (2, 80), ad_valid = True\<rparr>"
  by code_simp

definition listening :: "(nat, unit, unit) service \<Rightarrow> bool" where
  "listening sv \<longleftrightarrow> sv_sessions sv = [] \<and> sv_free sv = [] \<and> sv_new sv = [] \<and> sv_session_count sv = 0 \<and> sv_after sv = [] \<and>
     (\<exists>a. sv_acceptors sv = [1 \<mapsto> \<lparr>ac_id = 1, ac_protocol = ''bits'', ac_addr = a, ac_open = True, ac_accepting = 1\<rparr>]) \<and>
     sv_factory sv = [''bits'' \<mapsto> ()]"

lemma fresh_listen:
  obtains sv where "service_step (Listen test_env ''ip:80'' ''bits'') fresh = Some (Inr sv)" "listening sv"
    "ids_given fresh sv = []"
proof -
  obtain s1 s2 :: "u16 sequence" where s: "sequence_next (sequence_new 1 0xFFFF 1000) = Inr (1, s1)"
    by (rule sequence_new_first_two [of "1 :: u16" "0xFFFF" "1000"]) auto
  let ?ac = "\<lparr>ac_id = 1, ac_protocol = ''bits'', ac_addr = addr_of (from_string test_env) ''ip:80'', ac_open = True, ac_accepting = 1\<rparr>"
  let ?sv = "fresh\<lparr>sv_id_gen := s1, sv_acceptors := [1 \<mapsto> ?ac], sv_acceptor_count := 1\<rparr>"
  have l: "acceptor_listen test_env (acceptor_new test_env 1 ''bits'' ''ip:80'') = ((True, success), ?ac)"
    by (simp add: acceptor_listen_def acceptor_new_def test_addr do_accept_def Let_def) (simp add: test_env_def)
  have "service_step (Listen test_env ''ip:80'' ''bits'') fresh = Some (Inr ?sv)"
    by (simp add: service_listen_def fresh_def service_new_def proto_factory_has_def s l)
  moreover have "listening ?sv" unfolding listening_def
    by (intro conjI exI [of _ "addr_of (from_string test_env) ''ip:80''"]) (simp_all add: fresh_def service_new_def)
  moreover have "ids_given fresh ?sv = []" by (simp add: fresh_def service_new_def ids_given_def)
  ultimately show thesis by (rule that)
qed

lemmas service_ops = accept_completed_def on_accepted_def on_new_socket_begin_def get_free_slot_def on_new_socket_end_def
  proto_factory_create_def after_new_socket_def service_error_def service_acquire_def new_session_def next_seq_def do_accept_def

text \<open>
  Three runs outside what the service can rely on. A session whose end is reported before
  the service has put it into its slot, which happens when the first read fails at once, ends up
  in a slot that is free as well; one whose end is reported twice makes its slot free twice, so
  that two sessions share it; and an id that was good once gets the session that has the slot now.
\<close>

lemma early_error:
  assumes "listening sv"
  shows "\<exists>sv'. service_run [Accept_completed 1 None, Error (session_id 1 0), Socket_end 0] sv = Some sv' \<and>
    sv_free sv' = [0] \<and> sl_session (sv_sessions sv' ! 0) \<noteq> None"
  using assms by (auto simp: listening_def service_ops Let_def)

lemma double_error:
  assumes "listening sv"
  shows "\<exists>sv'. service_run [Accept_completed 1 None, Socket_end 0, After, Error (session_id 1 0), Error (session_id 1 0),
      Accept_completed 1 None, Socket_end 0, After, Accept_completed 1 None] sv = Some sv' \<and>
    map in_slot (sv_new sv') = [0] \<and> sl_session (sv_sessions sv' ! 0) \<noteq> None \<and> sv_session_count sv' = 0"
  using assms by (auto simp: listening_def service_ops Let_def)

lemma stale_id:
  assumes "listening sv"
  shows "case service_run [Accept_completed 1 None, Socket_end 0, After, Error (session_id 1 0),
      Accept_completed 1 None, Socket_end 0] sv of
      None \<Rightarrow> False
    | Some sv' \<Rightarrow> map_sum id (map_option se_id) (service_acquire (session_id 1 0) sv') = Inr (Some (session_id 2 0)) \<and>
        service_acquire (session_id 1 1) sv' = Inl Out_of_bounds"
  using assms by (auto simp: listening_def service_ops Let_def)

lemma listen_failed_succeeds:
  assumes "proto_factory_has ''bits'' (sv_factory sv)" "sequence_next (sv_id_gen sv) = Inr (i, sq)"
  shows "service_listen (test_env\<lparr>os_bind := (\<lambda>ep. False)\<rparr>) ''ip:80'' ''bits'' sv = Inr (rc, sv') \<Longrightarrow>
    rc = (True, fail_acceptor_bind) \<and> sv_acceptor_count sv' = sv_acceptor_count sv + 1"
proof -
  have "addr_of (from_string (test_env\<lparr>os_bind := (\<lambda>ep. False)\<rparr>)) ''ip:80'' = addr_of (from_string test_env) ''ip:80''"
    by simp
  then show "service_listen (test_env\<lparr>os_bind := (\<lambda>ep. False)\<rparr>) ''ip:80'' ''bits'' sv = Inr (rc, sv') \<Longrightarrow>
    rc = (True, fail_acceptor_bind) \<and> sv_acceptor_count sv' = sv_acceptor_count sv + 1"
    using assms test_addr by (auto simp: service_listen_def acceptor_listen_def acceptor_new_def Let_def) (auto simp: test_env_def)
qed

text \<open>A run of the whole way: listen, two sockets, one of them closed.\<close>

lemma reach_step:
  "service_reach ids sv \<Longrightarrow> reported_once e sv \<Longrightarrow> service_step e sv = Some (Inr sv') \<Longrightarrow> ids_given sv sv' = new \<Longrightarrow>
    service_reach (ids @ new) sv'"
  using service_reach.step by blast

lemma two_sessions:
  obtains sv :: "(nat, unit, unit) service" where "service_reach [(0, 1), (1, 1)] sv" "holds_session (session_id 1 0) sv"
proof -
  obtain sv1 where l: "service_step (Listen test_env ''ip:80'' ''bits'') fresh = Some (Inr sv1)" "listening sv1"
    "ids_given fresh sv1 = []" by (rule fresh_listen)
  have r1: "service_reach [] sv1" using reach_step [OF service_reach.new _ l(1) [unfolded fresh_def]] l(3) by (simp add: fresh_def)
  obtain sv2 where s2: "service_step (Accept_completed 1 (None :: unit option)) sv1 = Some (Inr sv2)"
      "ids_given sv1 sv2 = [(0, 1)]" "sv_sessions sv2 = [\<lparr>sl_session = None, sl_seq = 2\<rparr>]" "sv_free sv2 = []"
      "sv_new sv2 = [\<lparr>in_origin = Accepted 1, in_slot = 0, in_seq = 1, in_protocol = ''bits''\<rparr>]"
      "sv_acceptors sv2 1 = map_option (\<lambda>a. a\<lparr>ac_accepting := 0\<rparr>) (sv_acceptors sv1 1)" "sv_after sv2 = []"
      "sv_factory sv2 = [''bits'' \<mapsto> ()]"
    using l(2) by (auto simp: listening_def service_ops Let_def ids_given_def)
  have r2: "service_reach [(0, 1)] sv2" using reach_step [OF r1 _ s2(1,2)] by simp
  obtain sv3 where s3: "service_step (Socket_end 0 :: (nat, unit) svc_event) sv2 = Some (Inr sv3)"
      "ids_given sv2 sv3 = []" "sv_new sv3 = []" "sv_free sv3 = []" "sv_after sv3 = [Accepted 1]"
      "sv_sessions sv3 = [\<lparr>sl_session = Some \<lparr>se_id = session_id 1 0, se_accepted = True, se_protocol = ''bits''\<rparr>, sl_seq = 2\<rparr>]"
      "sv_acceptors sv3 = sv_acceptors sv2" "sv_factory sv3 = [''bits'' \<mapsto> ()]"
    using s2 by (auto simp: service_ops Let_def ids_given_def)
  have r3: "service_reach [(0, 1)] sv3" using reach_step [OF r2 _ s3(1,2)] by simp
  obtain sv4 where s4: "service_step (After :: (nat, unit) svc_event) sv3 = Some (Inr sv4)"
      "ids_given sv3 sv4 = []" "sv_new sv4 = []" "sv_free sv4 = []" "sv_sessions sv4 = sv_sessions sv3"
      "sv_acceptors sv4 1 = map_option do_accept (sv_acceptors sv3 1)"
    using s3 by (auto simp: service_ops Let_def ids_given_def)
  have r4: "service_reach [(0, 1)] sv4" using reach_step [OF r3 _ s4(1,2)] by simp
  obtain ac where ac: "sv_acceptors sv4 1 = Some ac" "ac_accepting ac = 1"
    using s4(6) s3(7) s2(6) l(2) by (auto simp: listening_def do_accept_def)
  obtain sv5 where s5: "service_step (Accept_completed 1 (None :: unit option)) sv4 = Some (Inr sv5)"
      "ids_given sv4 sv5 = [(1, 1)]" "sv_sessions sv5 ! 0 = sv_sessions sv4 ! 0" "length (sv_sessions sv5) = 2"
    using ac s4 s3 by (auto simp: service_ops Let_def ids_given_def)
  have r5: "service_reach [(0, 1), (1, 1)] sv5" using reach_step [OF r4 _ s5(1,2)] by simp
  have "sv_sessions sv5 ! 0 \<in> set (sv_sessions sv5)" using s5(4) by simp
  then have "holds_session (session_id 1 0) sv5" using s5(3) s4(5) s3(6) by (auto simp: holds_session_def intro!: bexI)
  then show thesis using that r5 by blast
qed


theorem service_ids_witness:
  "\<exists>sv :: (nat, unit, unit) service. service_reach [(0, 1), (1, 1)] sv \<and> slot_nos [(0, 1), (1, 1)] 1 = map seq_no [0..<1] \<and>
     id_valid (session_id 1 1)"
proof -
  obtain sv :: "(nat, unit, unit) service" where sv: "service_reach [(0, 1), (1, 1)] sv" by (rule two_sessions)
  then show ?thesis using service_ids [OF sv, of 1] by auto
qed

end
