(* ===== verification/Server.thy ===== *)
theory Server
  imports Net_Service Task_Scheduler Actor Json_Value
begin

text \<open>
  \<open>server::server\<close> (\<open>src/server/server.cpp\<close>) and the peers of \<open>server::peer_service\<close>
  (\<open>src/server/service/peer_service.cpp\<close>): a configuration is read, the scheduler, the network
  service, the listeners and the peer service are started in this order, and \<open>finish\<close> ends them.

  The configuration is a JSON value (\<open>Json_Value\<close>). The steps by which the scheduler finishes are those of
  \<open>Task_Scheduler\<close>; here they are the argument \<open>fin\<close>.
\<close>

section \<open>Peers\<close>

datatype peer_state = Peer_constructed | Peer_connecting | Peer_connected | Peer_disconnected

record peer =
  pr_remote_addr :: string
  pr_protocol :: string
  pr_state :: peer_state
  pr_reconnect_interval :: int

type_synonym peers = "string \<Rightarrow> peer option"

definition check_interval :: int where
  "check_interval = 1"

definition add_peer :: "string \<Rightarrow> string \<Rightarrow> int \<Rightarrow> peers \<Rightarrow> peers" where
  "add_peer addr protocol interval ps =
     ps(addr \<mapsto> \<lparr>pr_remote_addr = addr, pr_protocol = protocol, pr_state = Peer_constructed,
                  pr_reconnect_interval = max interval check_interval\<rparr>)"

fun add_peers :: "jval list \<Rightarrow> peers \<Rightarrow> fault + peers" where
  "add_peers [] ps = Inr ps"
| "add_peers (j # js) ps =
     bind (bind (j_at j ''address'') j_str) (\<lambda>addr.
     bind (bind (j_at j ''protocol'') j_str) (\<lambda>protocol.
     bind (bind (j_at j ''reconnect_interval'') j_float) (\<lambda>interval.
     add_peers js (add_peer addr protocol interval ps))))"

section \<open>The server\<close>

record ('ip, 'e, 'p) server =
  sr_config :: jval
  sr_id :: u32
  sr_state :: actor_state                 \<comment> \<open>\<open>constructed\<close>, \<open>started\<close>, \<open>finished\<close>\<close>
  sr_sched_config :: scheduler_config
  sr_sched :: scheduler
  sr_peers :: "peers option"              \<comment> \<open>\<open>peer_service_\<close>, by its peers\<close>
  sr_peer_state :: actor_state
  sr_net :: "('ip, 'e, 'p) service_single"  \<comment> \<open>the singleton \<open>net::service\<close>\<close>

definition default_config :: scheduler_config where
  "default_config =
     \<lparr>runner_count = 1, single_loop_run_limit = 0, start_task_when_schedule_called = True,
      run_schedule_when_schedule_called = True\<rparr>"

definition no_runners :: scheduler_config where
  "no_runners = default_config\<lparr>runner_count := 0\<rparr>"

definition server_new ::
  "jval \<Rightarrow> (nat \<Rightarrow> task) \<Rightarrow> ('ip, 'e, 'p) service_single \<Rightarrow> fault + ('ip, 'e, 'p) server" where
  "server_new config ts net =
     bind (j_ref config ''id'') (\<lambda>(jid, config).
     bind (j_word jid) (\<lambda>i.
     (let sr = \<lparr>sr_config = config, sr_id = i, sr_state = Constructed, sr_sched_config = default_config,
                sr_sched = scheduler_start no_runners ts, sr_peers = None, sr_peer_state = Constructed, sr_net = net\<rparr>
      in case j_find config ''peer_service'' of
           None \<Rightarrow> Inr sr
         | Some jp \<Rightarrow>
             bind (j_at jp ''name'') (\<lambda>jn. bind (j_str jn) (\<lambda>_.
             bind (j_at jp ''peers'') (\<lambda>js.
             bind (add_peers (j_items js) Map.empty) (\<lambda>ps. Inr (sr\<lparr>sr_peers := Some ps\<rparr>))))))))"

text \<open>One optional value of the configuration of the scheduler.\<close>

definition read_opt :: "jval \<Rightarrow> string \<Rightarrow> (jval \<Rightarrow> fault + 'a) \<Rightarrow> ('a \<Rightarrow> 'c \<Rightarrow> 'c) \<Rightarrow> 'c \<Rightarrow> fault + 'c" where
  "read_opt j key get put c = (case j_find j key of None \<Rightarrow> Inr c | Some v \<Rightarrow> bind (get v) (\<lambda>x. Inr (put x c)))"

definition read_scheduler_config :: "jval \<Rightarrow> fault + scheduler_config" where
  "read_scheduler_config j =
     bind (read_opt j ''runner_count'' j_word (\<lambda>n c. c\<lparr>runner_count := sint n\<rparr>) default_config) (\<lambda>c1.
     bind (read_opt j ''idle_check_threshold_time'' j_float (\<lambda>_ c. c) c1) (\<lambda>c2.
     bind (read_opt j ''single_loop_run_limie'' j_word (\<lambda>n c. c\<lparr>single_loop_run_limit := unat n\<rparr>) c2) (\<lambda>c3.
     read_opt j ''start_task_when_schedule_called'' j_bool (\<lambda>b c. c\<lparr>start_task_when_schedule_called := b\<rparr>) c3)))"

text \<open>\<open>task_scheduler::start\<close>: runners are added to those there are.\<close>

definition scheduler_restart :: "scheduler_config \<Rightarrow> scheduler \<Rightarrow> scheduler" where
  "scheduler_restart cfg s = s\<lparr>runners := runners s @ runners (scheduler_start cfg (tasks s))\<rparr>"

definition start_scheduler :: "('ip, 'e, 'p) server \<Rightarrow> fault + (bool \<times> ('ip, 'e, 'p) server)" where
  "start_scheduler sr =
     bind (j_ref (sr_config sr) ''scheduler'') (\<lambda>(j, config).
     bind (read_scheduler_config j) (\<lambda>cfg.
     (let s = scheduler_restart cfg (sr_sched sr)
      in Inr (runners s \<noteq> [], sr\<lparr>sr_config := config, sr_sched_config := cfg, sr_sched := s\<rparr>))))"

text \<open>\<open>service::listen\<close> dereferences the implementation.\<close>

definition net_listen ::
  "'ip endpoint_env \<Rightarrow> string \<Rightarrow> string \<Rightarrow> ('ip, 'e, 'p) service_single \<Rightarrow> fault + (net_result \<times> ('ip, 'e, 'p) service_single)" where
  "net_listen env a protocol ns =
     (case ns_impl ns of
        None \<Rightarrow> Inl Out_of_bounds
      | Some sv \<Rightarrow> bind (service_listen env a protocol sv) (\<lambda>(rc, sv'). Inr (rc, ns\<lparr>ns_impl := Some sv'\<rparr>)))"

fun listen_loop ::
  "'ip endpoint_env \<Rightarrow> jval list \<Rightarrow> nat \<Rightarrow> ('ip, 'e, 'p) service_single \<Rightarrow> fault + (nat \<times> ('ip, 'e, 'p) service_single)" where
  "listen_loop env [] n ns = Inr (n, ns)"
| "listen_loop env (j # js) n ns =
     bind (bind (j_at j ''address'') j_str) (\<lambda>a.
     bind (bind (j_at j ''protocol'') j_str) (\<lambda>protocol.
     bind (net_listen env a protocol ns) (\<lambda>(rc, ns').
     listen_loop env js (if fst rc then n + 1 else n) ns')))"

definition start_listeners :: "'ip endpoint_env \<Rightarrow> ('ip, 'e, 'p) server \<Rightarrow> fault + (bool \<times> ('ip, 'e, 'p) server)" where
  "start_listeners env sr =
     bind (j_ref (sr_config sr) ''listens'') (\<lambda>(js, config).
     bind (listen_loop env (j_items js) 0 (sr_net sr)) (\<lambda>(n, ns). Inr (n > 0, sr\<lparr>sr_config := config, sr_net := ns\<rparr>)))"

text \<open>
  \<open>start\<close>: what follows the listeners, and the whole. The peer service has nothing to start but its
  state. \<open>hook\<close> is what the virtual \<open>on_start\<close> returns.
\<close>

definition start_peers :: "bool \<Rightarrow> bool \<Rightarrow> ('ip, 'e, 'p) server \<Rightarrow> bool \<times> ('ip, 'e, 'p) server" where
  "start_peers hook rc sr =
     (if \<not> rc then (False, sr)
      else let sr1 = (if sr_peers sr \<noteq> None then sr\<lparr>sr_peer_state := Started\<rparr> else sr)
           in if \<not> hook then (False, sr1) else (True, sr1\<lparr>sr_state := Started\<rparr>))"

definition start_net ::
  "'ip endpoint_env \<Rightarrow> service_config \<Rightarrow> nat \<Rightarrow> 'p \<Rightarrow> bool \<Rightarrow> ('ip, 'e, 'p) server \<Rightarrow> fault + (bool \<times> ('ip, 'e, 'p) server)" where
  "start_net env cfg hardware bits hook sr =
     (case service_start cfg hardware bits (sr_net sr) of
        (rc, ns) \<Rightarrow>
          (let sr1 = sr\<lparr>sr_net := ns\<rparr>
           in if \<not> rc then Inr (False, sr1)
              else bind (start_listeners env sr1) (\<lambda>(rc, sr2). Inr (start_peers hook rc sr2))))"

definition server_start ::
  "'ip endpoint_env \<Rightarrow> service_config \<Rightarrow> nat \<Rightarrow> 'p \<Rightarrow> bool \<Rightarrow> ('ip, 'e, 'p) server \<Rightarrow> fault + (bool \<times> ('ip, 'e, 'p) server)" where
  "server_start env cfg hardware bits hook sr =
     bind (start_scheduler sr) (\<lambda>(rc, sr1).
       if \<not> rc then Inr (False, sr1) else start_net env cfg hardware bits hook sr1)"

text \<open>\<open>finish\<close>; the peer service clears its peers when it was started.\<close>

definition server_finish :: "(scheduler \<Rightarrow> scheduler) \<Rightarrow> ('ip, 'e, 'p) server \<Rightarrow> fault + ('ip, 'e, 'p) server" where
  "server_finish fin sr =
     (if sr_state sr = Constructed then Inr sr
      else if sr_state sr = Finished then Inr sr
      else let sr1 = sr\<lparr>sr_sched := fin (sr_sched sr)\<rparr>;
               sr2 = (if sr_peers sr1 \<noteq> None \<and> sr_peer_state sr1 = Started
                      then sr1\<lparr>sr_peers := Some Map.empty, sr_peer_state := Finished\<rparr> else sr1)
           in bind (service_finish (sr_net sr2)) (\<lambda>ns. Inr (sr2\<lparr>sr_net := ns, sr_state := Finished\<rparr>)))"

section \<open>Properties\<close>

lemma bind_InrE:
  assumes "bind x f = Inr b"
  obtains a where "x = Inr a" "f a = Inr b"
  using assms by (cases x) auto

lemma net_listen_running: "net_listen env a protocol ns = Inr (rc, ns') \<Longrightarrow> ns_impl ns' \<noteq> None"
  by (auto simp: net_listen_def bind_split split: option.splits)

lemma listen_loop_running:
  "listen_loop env js n ns = Inr (k, ns') \<Longrightarrow> ns_impl ns \<noteq> None \<Longrightarrow> ns_impl ns' \<noteq> None"
proof (induction js arbitrary: n ns)
  case (Cons j js)
  then show ?case by (auto simp: bind_split dest: net_listen_running)
qed simp

lemma start_scheduler_keeps:
  assumes "start_scheduler sr = Inr (rc, sr1)"
  shows "sr_state sr1 = sr_state sr" "rc \<longleftrightarrow> runners (sr_sched sr1) \<noteq> []"
  using assms by (auto simp: start_scheduler_def bind_split Let_def)

lemma start_listeners_keeps:
  assumes "start_listeners env sr = Inr (rc, sr1)" "ns_impl (sr_net sr) \<noteq> None"
  shows "sr_state sr1 = sr_state sr" "sr_sched sr1 = sr_sched sr" "ns_impl (sr_net sr1) \<noteq> None"
  using assms(1) listen_loop_running [OF _ assms(2)] by (auto simp: start_listeners_def bind_split)

lemma service_start_running: "service_start cfg hardware bits ns = (rc, ns') \<Longrightarrow> ns_impl ns' \<noteq> None"
  by (auto simp: service_start_def Let_def split: option.splits)

lemma start_net_outcome:
  assumes "start_net env cfg hardware bits hook sr = Inr (rc, sr')"
  shows "\<not> rc \<Longrightarrow> sr_state sr' = sr_state sr"
    "rc \<Longrightarrow> sr_state sr' = Started \<and> sr_sched sr' = sr_sched sr \<and> ns_impl (sr_net sr') \<noteq> None"
proof -
  obtain rc1 ns where n: "service_start cfg hardware bits (sr_net sr) = (rc1, ns)" by force
  note run = service_start_running [OF n]
  let ?sr1 = "sr\<lparr>sr_net := ns\<rparr>"
  have "(\<not> rc \<longrightarrow> sr_state sr' = sr_state sr) \<and>
    (rc \<longrightarrow> sr_state sr' = Started \<and> sr_sched sr' = sr_sched sr \<and> ns_impl (sr_net sr') \<noteq> None)"
  proof (cases rc1)
    case False
    then show ?thesis using assms n by (auto simp: start_net_def)
  next
    case True
    then obtain rc2 sr2 where l: "start_listeners env ?sr1 = Inr (rc2, sr2)" "start_peers hook rc2 sr2 = (rc, sr')"
      using assms n by (cases "start_listeners env ?sr1") (auto simp: start_net_def)
    have "sr_state sr2 = sr_state sr" "sr_sched sr2 = sr_sched sr" "ns_impl (sr_net sr2) \<noteq> None"
      using start_listeners_keeps [OF l(1)] run by simp_all
    then show ?thesis using l(2) by (cases rc2; cases hook) (auto simp: start_peers_def Let_def)
  qed
  then show "\<not> rc \<Longrightarrow> sr_state sr' = sr_state sr"
    "rc \<Longrightarrow> sr_state sr' = Started \<and> sr_sched sr' = sr_sched sr \<and> ns_impl (sr_net sr') \<noteq> None" by blast+
qed


text \<open>A configuration without listeners: the start fails after the runners and the network service were started.\<close>

definition no_listeners :: jval where
  "no_listeners = J_obj [(''id'', J_num 7), (''scheduler'', J_obj [(''runner_count'', J_num 2), (''single_loop_run_limit'', J_num 5)])]"

definition idle_net :: "(nat, unit, unit) service_single" where
  "idle_net = \<lparr>ns_factory = Map.empty, ns_impl = None\<rparr>"

definition hardware :: service_config where
  "hardware = \<lparr>use_hardware_concurrency = True, concurrency_level = 1\<rparr>"

lemma no_listeners_eval:
  "j_ref no_listeners ''id'' = Inr (J_num 7, no_listeners)"
  "j_find no_listeners ''peer_service'' = None"
  "\<exists>j. j_ref no_listeners ''scheduler'' = Inr (j, no_listeners) \<and> read_scheduler_config j = Inr (default_config\<lparr>runner_count := 2\<rparr>)"
  "\<exists>config. j_ref no_listeners ''listens'' = Inr (J_null, config)"
  by (simp_all add: no_listeners_def j_ref_def j_find_def read_scheduler_config_def read_opt_def j_word_def Let_def default_config_def)


end
