(* ===== verification/Json_Float.thy ===== *)
theory Json_Float
  imports Lax_Prelude "HOL-Library.Signed_Division"
begin

unbundle bit_operations_syntax

text \<open>
  The printing of floating point numbers (\<open>namespace detail::dtoa_impl\<close> and \<open>to_chars\<close> in
  \<open>include/lax/util/json.hpp\<close>), the algorithm Grisu2. A number is the 64 bits of a \<open>double\<close>. A
  \<open>uint64_t\<close> is a word of 64 bits and wraps, a \<open>uint32_t\<close> one of 32 bits; an \<open>int\<close> is an integer, since
  the exponents stay small. The buffer is the list of the characters in it, \<open>len\<close> its length. \<open>None\<close> is a
  loop that does not end; it is proved that there is none for a finite number.
\<close>

section \<open>Doubles\<close>

type_synonym u64 = "64 word"

type_synonym double = "u64"

text \<open>\<open>std::isfinite\<close>: the exponent is not all ones.\<close>

definition isfinite :: "double \<Rightarrow> bool" where
  "isfinite x \<longleftrightarrow> unat (drop_bit 52 x) mod 2 ^ 11 \<noteq> 0x7FF"

section \<open>Shifts\<close>

lemma unat_drop_bit: "unat (drop_bit n x) = unat x div 2 ^ n" for x :: "'a::len word"
  unfolding unat_drop_bit_eq by (rule drop_bit_eq_div)

lemma unat_push_bit:
  fixes x :: "'a::len word"
  assumes "unat x * 2 ^ n < 2 ^ LENGTH('a)"
  shows "unat (push_bit n x) = unat x * 2 ^ n"
  using assms unsigned_push_bit_eq [of n x, where ?'a = nat]
  by (simp only: push_bit_eq_mult [of n "unat x"] take_bit_nat_eq_self)

lemma unat_low_bits: "unat (x AND (push_bit n 1 - 1)) = unat x mod 2 ^ n" for x :: "'a::len word"
proof -
  have "x AND (push_bit n 1 - 1) = take_bit n x"
    by (simp add: take_bit_eq_mask mask_eq_exp_minus_1 push_bit_eq_mult)
  then show ?thesis
    using unsigned_take_bit_eq [of n x, where ?'a = nat] by (simp only: take_bit_eq_mod [of n "unat x"])
qed

lemma unat_less: "unat x < 2 ^ 64" for x :: u64
  using unsigned_less [of x, where ?'a = nat] by simp

lemma unat_add64: "unat x + unat y < 2 ^ 64 \<Longrightarrow> unat (x + y) = unat x + unat y" for x y :: u64
  using unat_add_lem [of x y] by simp

lemma unat_mult64: "unat x * unat y < 2 ^ 64 \<Longrightarrow> unat (x * y) = unat x * unat y" for x y :: u64
  using unat_mult_lem [of x y] by simp

lemma unat_sub64: "unat y \<le> unat x \<Longrightarrow> unat (x - y) = unat x - unat y" for x y :: u64
  by (simp add: unat_sub word_le_nat_alt)

lemma unat_and_low: "unat (x AND 0xFFFFFFFF :: u64) = unat x mod 2 ^ 32"
  using unat_low_bits [of x 32] by (simp add: push_bit_eq_mult)

section \<open>diyfp\<close>

record diyfp =
  sig :: u64
  expo :: int

definition diyfp_sub :: "diyfp \<Rightarrow> diyfp \<Rightarrow> diyfp" where
  "diyfp_sub x y = \<lparr>sig = sig x - sig y, expo = expo x\<rparr>"

text \<open>\<open>mul\<close>: the upper half of the product, rounded.\<close>

definition diyfp_mul :: "diyfp \<Rightarrow> diyfp \<Rightarrow> diyfp" where
  "diyfp_mul x y =
     (let u_lo = sig x AND 0xFFFFFFFF; u_hi = drop_bit 32 (sig x);
          v_lo = sig y AND 0xFFFFFFFF; v_hi = drop_bit 32 (sig y);
          p0 = u_lo * v_lo; p1 = u_lo * v_hi; p2 = u_hi * v_lo; p3 = u_hi * v_hi;
          p0_hi = drop_bit 32 p0;
          p1_lo = p1 AND 0xFFFFFFFF; p1_hi = drop_bit 32 p1;
          p2_lo = p2 AND 0xFFFFFFFF; p2_hi = drop_bit 32 p2;
          q = p0_hi + p1_lo + p2_lo + push_bit (64 - 32 - 1) 1;
          h = p3 + p2_hi + p1_hi + drop_bit 32 q
      in \<lparr>sig = h, expo = expo x + expo y + 64\<rparr>)"

text \<open>\<open>normalize\<close>; its precondition is that the significand is not 0, for which the loop would not end.\<close>

function normalize :: "diyfp \<Rightarrow> diyfp" where
  "normalize x =
     (if sig x = 0 then x
      else if drop_bit 63 (sig x) = 0 then normalize \<lparr>sig = push_bit 1 (sig x), expo = expo x - 1\<rparr>
      else x)"
  by auto
termination
proof (relation "measure (\<lambda>x. 2 ^ 64 - unat (sig x))")
  fix x :: diyfp
  assume "sig x \<noteq> 0" "drop_bit 63 (sig x) = 0"
  then have "0 < unat (sig x)" "unat (sig x) < 2 ^ 63"
    using unat_drop_bit [of 63 "sig x"] unat_0_iff [of "sig x"] by (auto simp: div_eq_0_iff)
  moreover from this have "unat (push_bit 1 (sig x)) = 2 * unat (sig x)"
    by (subst unat_push_bit) simp_all
  ultimately show "(\<lparr>sig = push_bit 1 (sig x), expo = expo x - 1\<rparr>, x) \<in> measure (\<lambda>x. 2 ^ 64 - unat (sig x))"
    by simp
qed simp

declare normalize.simps [simp del]

definition normalize_to :: "diyfp \<Rightarrow> int \<Rightarrow> diyfp" where
  "normalize_to x target = \<lparr>sig = push_bit (nat (expo x - target)) (sig x), expo = target\<rparr>"

record boundaries =
  bound_w :: diyfp
  bound_minus :: diyfp
  bound_plus :: diyfp

definition compute_boundaries :: "double \<Rightarrow> boundaries" where
  "compute_boundaries bits =
     (let e = drop_bit 52 bits;
          f = bits AND (push_bit 52 1 - 1);
          v = (if e = 0 then \<lparr>sig = f, expo = 1 - 1075\<rparr> else \<lparr>sig = f + push_bit 52 1, expo = int (unat e) - 1075\<rparr>);
          m_plus = \<lparr>sig = 2 * sig v + 1, expo = expo v - 1\<rparr>;
          m_minus = (if f = 0 \<and> e > 1 then \<lparr>sig = 4 * sig v - 1, expo = expo v - 2\<rparr>
                     else \<lparr>sig = 2 * sig v - 1, expo = expo v - 1\<rparr>);
          w_plus = normalize m_plus
      in \<lparr>bound_w = normalize v, bound_minus = normalize_to m_minus (expo w_plus), bound_plus = w_plus\<rparr>)"

section \<open>Cached powers\<close>

text \<open>The significand and the exponent of a power of ten, and its decimal exponent.\<close>

definition cached_powers :: "(u64 \<times> int \<times> int) list" where
  "cached_powers =
    [(0xAB70FE17C79AC6CA, - 1060, - 300), (0xFF77B1FCBEBCDC4F, - 1034, - 292), (0xBE5691EF416BD60C, - 1007, - 284),
     (0x8DD01FAD907FFC3C, - 980, - 276), (0xD3515C2831559A83, - 954, - 268), (0x9D71AC8FADA6C9B5, - 927, - 260),
     (0xEA9C227723EE8BCB, - 901, - 252), (0xAECC49914078536D, - 874, - 244), (0x823C12795DB6CE57, - 847, - 236),
     (0xC21094364DFB5637, - 821, - 228), (0x9096EA6F3848984F, - 794, - 220), (0xD77485CB25823AC7, - 768, - 212),
     (0xA086CFCD97BF97F4, - 741, - 204), (0xEF340A98172AACE5, - 715, - 196), (0xB23867FB2A35B28E, - 688, - 188),
     (0x84C8D4DFD2C63F3B, - 661, - 180), (0xC5DD44271AD3CDBA, - 635, - 172), (0x936B9FCEBB25C996, - 608, - 164),
     (0xDBAC6C247D62A584, - 582, - 156), (0xA3AB66580D5FDAF6, - 555, - 148), (0xF3E2F893DEC3F126, - 529, - 140),
     (0xB5B5ADA8AAFF80B8, - 502, - 132), (0x87625F056C7C4A8B, - 475, - 124), (0xC9BCFF6034C13053, - 449, - 116),
     (0x964E858C91BA2655, - 422, - 108), (0xDFF9772470297EBD, - 396, - 100), (0xA6DFBD9FB8E5B88F, - 369, - 92),
     (0xF8A95FCF88747D94, - 343, - 84), (0xB94470938FA89BCF, - 316, - 76), (0x8A08F0F8BF0F156B, - 289, - 68),
     (0xCDB02555653131B6, - 263, - 60), (0x993FE2C6D07B7FAC, - 236, - 52), (0xE45C10C42A2B3B06, - 210, - 44),
     (0xAA242499697392D3, - 183, - 36), (0xFD87B5F28300CA0E, - 157, - 28), (0xBCE5086492111AEB, - 130, - 20),
     (0x8CBCCC096F5088CC, - 103, - 12), (0xD1B71758E219652C, - 77, - 4), (0x9C40000000000000, - 50, 4),
     (0xE8D4A51000000000, - 24, 12), (0xAD78EBC5AC620000, 3, 20), (0x813F3978F8940984, 30, 28),
     (0xC097CE7BC90715B3, 56, 36), (0x8F7E32CE7BEA5C70, 83, 44), (0xD5D238A4ABE98068, 109, 52),
     (0x9F4F2726179A2245, 136, 60), (0xED63A231D4C4FB27, 162, 68), (0xB0DE65388CC8ADA8, 189, 76),
     (0x83C7088E1AAB65DB, 216, 84), (0xC45D1DF942711D9A, 242, 92), (0x924D692CA61BE758, 269, 100),
     (0xDA01EE641A708DEA, 295, 108), (0xA26DA3999AEF774A, 322, 116), (0xF209787BB47D6B85, 348, 124),
     (0xB454E4A179DD1877, 375, 132), (0x865B86925B9BC5C2, 402, 140), (0xC83553C5C8965D3D, 428, 148),
     (0x952AB45CFA97A0B3, 455, 156), (0xDE469FBD99A05FE3, 481, 164), (0xA59BC234DB398C25, 508, 172),
     (0xF6C69A72A3989F5C, 534, 180), (0xB7DCBF5354E9BECE, 561, 188), (0x88FCF317F22241E2, 588, 196),
     (0xCC20CE9BD35C78A5, 614, 204), (0x98165AF37B2153DF, 641, 212), (0xE2A0B5DC971F303A, 667, 220),
     (0xA8D9D1535CE3B396, 694, 228), (0xFB9B7CD9A4A7443C, 720, 236), (0xBB764C4CA7A44410, 747, 244),
     (0x8BAB8EEFB6409C1A, 774, 252), (0xD01FEF10A657842C, 800, 260), (0x9B10A4E5E9913129, 827, 268),
     (0xE7109BFBA19C0C9D, 853, 276), (0xAC2820D9623BF429, 880, 284), (0x80444B5E7AA7CF85, 907, 292),
     (0xBF21E44003ACDD2D, 933, 300), (0x8E679C2F5E44FF8F, 960, 308), (0xD433179D9C8CB841, 986, 316),
     (0x9E19DB92B4E31BA9, 1013, 324)]"

text \<open>The division of \<open>int\<close> is towards zero.\<close>

definition get_cached_power :: "int \<Rightarrow> u64 \<times> int \<times> int" where
  "get_cached_power e =
     (let f = - 60 - e - 1;
          k = (f * 78913) sdiv 2 ^ 18 + (if f > 0 then 1 else 0);
          index = (300 + k + (8 - 1)) sdiv 8
      in cached_powers ! nat index)"

section \<open>Digits\<close>

text \<open>The number a text of digits stands for.\<close>

definition decimal :: "nat list \<Rightarrow> nat" where
  "decimal ds = foldl (\<lambda>n d. n * 10 + (d - 0x30)) 0 ds"

lemma decimal_simps [simp]: "decimal [] = 0" "decimal (ds @ [d]) = decimal ds * 10 + (d - 0x30)"
  by (simp_all add: decimal_def)

definition find_largest_pow10 :: "u32 \<Rightarrow> nat \<times> u32" where
  "find_largest_pow10 n =
     (if n \<ge> 1000000000 then (10, 1000000000)
      else if n \<ge> 100000000 then (9, 100000000)
      else if n \<ge> 10000000 then (8, 10000000)
      else if n \<ge> 1000000 then (7, 1000000)
      else if n \<ge> 100000 then (6, 100000)
      else if n \<ge> 10000 then (5, 10000)
      else if n \<ge> 1000 then (4, 1000)
      else if n \<ge> 100 then (3, 100)
      else if n \<ge> 10 then (2, 10)
      else (1, 1))"

text \<open>\<open>static_cast<char>('0' + d)\<close>.\<close>

definition digit_char :: "'a::len word \<Rightarrow> nat" where
  "digit_char d = (0x30 + unat d) mod 2 ^ 8"

partial_function (option) grisu2_round :: "u64 \<Rightarrow> u64 \<Rightarrow> u64 \<Rightarrow> u64 \<Rightarrow> nat list \<Rightarrow> nat list option" where
  "grisu2_round dist delta rest ten_k buf =
     (if rest < dist \<and> delta - rest \<ge> ten_k \<and> (rest + ten_k < dist \<or> dist - rest > rest + ten_k - dist)
      then grisu2_round dist delta (rest + ten_k) ten_k (buf[length buf - 1 := buf ! (length buf - 1) - 1])
      else Some buf)"

declare grisu2_round.simps [code]

text \<open>The loop over the digits of the integral part. \<open>Inl\<close> is its return: what is left to round.\<close>

primrec gen_integral :: "nat \<Rightarrow> u64 \<Rightarrow> u64 \<Rightarrow> nat \<Rightarrow> u32 \<Rightarrow> u32 \<Rightarrow> nat list \<Rightarrow> (nat list \<times> nat \<times> u64 \<times> u64) + nat list" where
  "gen_integral sh delta p2 0 p1 pow10 buf = Inr buf"
| "gen_integral sh delta p2 (Suc n) p1 pow10 buf =
     (let d = p1 div pow10; r = p1 mod pow10; buf' = buf @ [digit_char d];
          rest = push_bit sh (ucast r) + p2
      in if rest \<le> delta then Inl (buf', n, rest, push_bit sh (ucast pow10))
         else gen_integral sh delta p2 n r (pow10 div 10) buf')"

text \<open>The loop over the digits of the fraction.\<close>

partial_function (option) gen_fraction :: "nat \<Rightarrow> u64 \<Rightarrow> u64 \<Rightarrow> u64 \<Rightarrow> nat \<Rightarrow> nat list \<Rightarrow> (nat list \<times> nat \<times> u64 \<times> u64 \<times> u64) option" where
  "gen_fraction sh p2 delta dist m buf =
     (let p = p2 * 10; d = drop_bit sh p; r = p AND (push_bit sh 1 - 1); buf' = buf @ [digit_char d]
      in if r \<le> delta * 10 then Some (buf', Suc m, r, delta * 10, dist * 10)
         else gen_fraction sh r (delta * 10) (dist * 10) (Suc m) buf')"

declare gen_fraction.simps [code]

definition grisu2_digit_gen :: "int \<Rightarrow> diyfp \<Rightarrow> diyfp \<Rightarrow> diyfp \<Rightarrow> (nat list \<times> int) option" where
  "grisu2_digit_gen decimal_exponent M_minus w M_plus =
     (let delta = sig (diyfp_sub M_plus M_minus);
          dist = sig (diyfp_sub M_plus w);
          sh = nat (- expo M_plus);
          p1 = ucast (drop_bit sh (sig M_plus)) :: u32;
          p2 = sig M_plus AND (push_bit sh 1 - 1);
          (k, pow10) = find_largest_pow10 p1
      in case gen_integral sh delta p2 k p1 pow10 [] of
           Inl (buf, n, rest, ten_n) \<Rightarrow>
             map_option (\<lambda>b. (b, decimal_exponent + int n)) (grisu2_round dist delta rest ten_n buf)
         | Inr buf \<Rightarrow>
             (case gen_fraction sh p2 delta dist 0 buf of
                None \<Rightarrow> None
              | Some (buf', m, r, delta', dist') \<Rightarrow>
                  map_option (\<lambda>b. (b, decimal_exponent - int m)) (grisu2_round dist' delta' r (push_bit sh 1) buf')))"

definition grisu2 :: "boundaries \<Rightarrow> (nat list \<times> int) option" where
  "grisu2 b =
     (let (f, e, k) = get_cached_power (expo (bound_plus b));
          c_minus_k = \<lparr>sig = f, expo = e\<rparr>;
          w = diyfp_mul (bound_w b) c_minus_k;
          w_minus = diyfp_mul (bound_minus b) c_minus_k;
          w_plus = diyfp_mul (bound_plus b) c_minus_k;
          M_minus = \<lparr>sig = sig w_minus + 1, expo = expo w_minus\<rparr>;
          M_plus = \<lparr>sig = sig w_plus - 1, expo = expo w_plus\<rparr>
      in grisu2_digit_gen (- k) M_minus w M_plus)"

section \<open>Text\<close>

definition append_exponent :: "int \<Rightarrow> nat list" where
  "append_exponent e =
     (let k = nat \<bar>e\<bar>
      in (if e < 0 then [0x2D] else [0x2B]) @
         (if k < 10 then [0x30, 0x30 + k]
          else if k < 100 then [0x30 + k div 10, 0x30 + k mod 10]
          else [0x30 + k div 100, 0x30 + k mod 100 div 10, 0x30 + k mod 100 mod 10]))"

definition format_buffer :: "nat list \<Rightarrow> int \<Rightarrow> int \<Rightarrow> int \<Rightarrow> nat list" where
  "format_buffer buf decimal_exponent min_exp max_exp =
     (let k = int (length buf); n = k + decimal_exponent
      in if k \<le> n \<and> n \<le> max_exp then buf @ replicate (nat (n - k)) 0x30 @ [0x2E, 0x30]
         else if 0 < n \<and> n \<le> max_exp then take (nat n) buf @ [0x2E] @ drop (nat n) buf
         else if min_exp < n \<and> n \<le> 0 then [0x30, 0x2E] @ replicate (nat (- n)) 0x30 @ buf
         else (if k = 1 then buf else hd buf # 0x2E # tl buf) @ [0x65] @ append_exponent (n - 1))"

text \<open>\<open>to_chars\<close>. The sign is the highest bit.\<close>

definition to_chars :: "double \<Rightarrow> nat list option" where
  "to_chars x =
     (let negative = bit x 63; v = (if negative then x XOR push_bit 63 1 else x)
      in map_option (\<lambda>out. (if negative then [0x2D] else []) @ out)
           (if v = 0 then Some [0x30, 0x2E, 0x30]
            else (case grisu2 (compute_boundaries v) of
                    None \<Rightarrow> None
                  | Some (buf, decimal_exponent) \<Rightarrow> Some (format_buffer buf decimal_exponent (- 4) 15))))"

section \<open>The product\<close>

lemma mul_parts:
  fixes a b c d B r :: nat
  assumes "0 < B"
  shows "((a + B * b) * (c + B * d) + B * r) div (B * B) =
    b * d + b * c div B + a * d div B + (a * c div B + a * d mod B + b * c mod B + r) div B"
proof -
  define x y z where xyz: "x = a * c" "y = a * d" "z = b * c"
  define yh yl zh zl where yz: "yh = y div B" "yl = y mod B" "zh = z div B" "zl = z mod B"
  have y: "y = B * yh + yl" and z: "z = B * zh + zl" by (simp_all add: yz)
  have "(a + B * b) * (c + B * d) + B * r = x + B * (y + z + r + B * (b * d))"
    by (simp add: xyz algebra_simps)
  also have "\<dots> div (B * B) = (x div B + (y + z + r + B * (b * d))) div B"
    using assms by (simp add: div_mult2_eq ac_simps)
  also have "x div B + (y + z + r + B * (b * d)) = (x div B + yl + zl + r) + B * (yh + zh + b * d)"
    unfolding y z by (simp add: algebra_simps)
  also have "\<dots> div B = (x div B + yl + zl + r) div B + (yh + zh + b * d)"
    using assms by simp
  finally show ?thesis by (simp add: yz xyz)
qed

lemma mul_small: "a < 2 ^ 32 \<Longrightarrow> b < 2 ^ 32 \<Longrightarrow> a * b \<le> (2 ^ 32 - 1) * (2 ^ 32 - 1)" for a b :: nat
  by (intro mult_le_mono) simp_all

theorem diyfp_mul_rounds:
  "unat (sig (diyfp_mul x y)) = (unat (sig x) * unat (sig y) + 2 ^ 63) div 2 ^ 64 \<and>
    expo (diyfp_mul x y) = expo x + expo y + 64"
proof -
  define a b c d where abcd: "a = unat (sig x) mod 2 ^ 32" "b = unat (sig x) div 2 ^ 32"
    "c = unat (sig y) mod 2 ^ 32" "d = unat (sig y) div 2 ^ 32"
  have lt: "a < 2 ^ 32" "b < 2 ^ 32" "c < 2 ^ 32" "d < 2 ^ 32"
    using unat_less [of "sig x"] unat_less [of "sig y"] by (simp_all add: abcd less_mult_imp_div_less)
  have m: "a * c < 2 ^ 64" "a * d < 2 ^ 64" "b * c < 2 ^ 64" "b * d < 2 ^ 64"
    using mul_small [OF lt(1,3)] mul_small [OF lt(1,4)] mul_small [OF lt(2,3)] mul_small [OF lt(2,4)] by simp_all
  have xy: "unat (sig x) = a + 2 ^ 32 * b" "unat (sig y) = c + 2 ^ 32 * d" by (simp_all add: abcd)
  have "unat (sig x) * unat (sig y) \<le> (2 ^ 64 - 1) * (2 ^ 64 - 1)"
    using unat_less [of "sig x"] unat_less [of "sig y"] by (intro mult_le_mono) simp_all
  then have h: "(unat (sig x) * unat (sig y) + 2 ^ 63) div 2 ^ 64 < 2 ^ 64"
    by (intro less_mult_imp_div_less) simp
  define u_lo u_hi v_lo v_hi where uv: "u_lo = sig x AND 0xFFFFFFFF" "u_hi = drop_bit 32 (sig x)"
    "v_lo = sig y AND 0xFFFFFFFF" "v_hi = drop_bit 32 (sig y)"
  have uuv: "unat u_lo = a" "unat u_hi = b" "unat v_lo = c" "unat v_hi = d"
    by (simp_all only: uv abcd unat_and_low unat_drop_bit)
  have p: "unat (u_lo * v_lo) = a * c" "unat (u_lo * v_hi) = a * d" "unat (u_hi * v_lo) = b * c" "unat (u_hi * v_hi) = b * d"
    using unat_mult64 [of u_lo v_lo] unat_mult64 [of u_lo v_hi] unat_mult64 [of u_hi v_lo] unat_mult64 [of u_hi v_hi] m
    unfolding uuv by simp_all
  define s1 s2 s3 where s: "s1 = drop_bit 32 (u_lo * v_lo)" "s2 = (u_lo * v_hi AND 0xFFFFFFFF)" "s3 = (u_hi * v_lo AND 0xFFFFFFFF)"
  have us: "unat s1 = a * c div 2 ^ 32" "unat s2 = a * d mod 2 ^ 32" "unat s3 = b * c mod 2 ^ 32"
    by (simp_all only: s unat_drop_bit unat_and_low p)
  define r where "r = a * c div 2 ^ 32 + a * d mod 2 ^ 32 + b * c mod 2 ^ 32"
  have "unat s1 < 2 ^ 32" "unat s2 < 2 ^ 32" "unat s3 < 2 ^ 32"
    using m(1) by (simp_all add: us less_mult_imp_div_less)
  then have s12: "unat (s1 + s2) = unat s1 + unat s2" and s123: "unat (s1 + s2 + s3) = r"
    and r: "r + 2 ^ 31 < 2 ^ 64"
    using unat_add64 [of s1 s2] unat_add64 [of "s1 + s2" s3] by (simp_all add: us r_def)
  have bit31: "unat (push_bit (64 - 32 - 1) 1 :: u64) = 2 ^ 31" by simp
  define q where "q = s1 + s2 + s3 + push_bit (64 - 32 - 1) 1"
  have q: "unat q = r + 2 ^ 31"
    using unat_add64 [of "s1 + s2 + s3" "push_bit (64 - 32 - 1) 1"] r unfolding q_def s123 bit31 by blast
  define h1 h2 where h12: "h1 = drop_bit 32 (u_hi * v_lo)" "h2 = drop_bit 32 (u_lo * v_hi)"
  have uh: "unat h1 = b * c div 2 ^ 32" "unat h2 = a * d div 2 ^ 32" "unat (drop_bit 32 q) = (r + 2 ^ 31) div 2 ^ 32"
    by (simp_all only: h12 unat_drop_bit p q)
  have total: "(unat (sig x) * unat (sig y) + 2 ^ 63) div 2 ^ 64 =
      b * d + b * c div 2 ^ 32 + a * d div 2 ^ 32 + (r + 2 ^ 31) div 2 ^ 32"
    using mul_parts [of "2 ^ 32" a b c d "2 ^ 31"] unfolding xy r_def by simp
  have "unat (u_hi * v_hi + h1 + h2 + drop_bit 32 q) = (unat (sig x) * unat (sig y) + 2 ^ 63) div 2 ^ 64"
    using h unat_add64 [of "u_hi * v_hi" h1] unat_add64 [of "u_hi * v_hi + h1" h2]
      unat_add64 [of "u_hi * v_hi + h1 + h2" "drop_bit 32 q"]
    unfolding total by (simp add: uh p)
  then show ?thesis
    by (simp add: diyfp_mul_def Let_def uv s q_def h12)
qed

section \<open>Rounding\<close>

text \<open>The last digit goes down while the number stays above the lower bound, so it stays positive.\<close>

lemma grisu2_round_ok:
  assumes "rest \<le> delta" "dist \<le> delta" "unat delta < unat rest + d * unat ten_k" "d \<le> 9"
  shows "\<exists>d' rest'. grisu2_round dist delta rest ten_k (ds @ [0x30 + d]) = Some (ds @ [0x30 + d']) \<and>
    1 \<le> d' \<and> d' \<le> 9 \<and> rest' \<le> unat delta \<and> d' * unat ten_k + rest' = d * unat ten_k + unat rest"
  using assms
proof (induction d arbitrary: rest)
  case 0
  then show ?case by (simp add: word_le_nat_alt)
next
  case (Suc d)
  show ?case
  proof (cases "rest < dist \<and> delta - rest \<ge> ten_k \<and> (rest + ten_k < dist \<or> dist - rest > rest + ten_k - dist)")
    case False
    then show ?thesis
      using Suc.prems by (subst grisu2_round.simps) (auto simp: word_le_nat_alt intro!: exI [of _ "Suc d"] exI [of _ "unat rest"])
  next
    case True
    have le: "unat ten_k \<le> unat delta - unat rest"
      using True Suc.prems(1) by (simp add: word_le_nat_alt unat_sub64)
    moreover have "unat rest \<le> unat delta" using Suc.prems(1) by (simp add: word_le_nat_alt)
    ultimately have sum: "unat (rest + ten_k) = unat rest + unat ten_k"
      using unat_less [of delta] by (intro unat_add64) linarith
    have "\<exists>d' rest'. grisu2_round dist delta (rest + ten_k) ten_k (ds @ [0x30 + d]) = Some (ds @ [0x30 + d']) \<and>
        1 \<le> d' \<and> d' \<le> 9 \<and> rest' \<le> unat delta \<and> d' * unat ten_k + rest' = d * unat ten_k + unat (rest + ten_k)"
      using Suc.prems le \<open>unat rest \<le> unat delta\<close> by (intro Suc.IH) (simp_all add: word_le_nat_alt sum algebra_simps)
    moreover have "grisu2_round dist delta rest ten_k (ds @ [0x30 + Suc d]) =
        grisu2_round dist delta (rest + ten_k) ten_k (ds @ [0x30 + d])"
      using True by (subst grisu2_round.simps) simp
    ultimately show ?thesis by (simp add: sum ac_simps)
  qed
qed

section \<open>The digits of the integral part\<close>

definition digits :: "nat list \<Rightarrow> bool" where
  "digits ds \<longleftrightarrow> (\<forall>d\<in>set ds. 0x30 \<le> d \<and> d \<le> 0x39)"

lemma digits_simps [simp]: "digits []" "digits (ds @ es) \<longleftrightarrow> digits ds \<and> digits es"
  "digits (d # ds) \<longleftrightarrow> 0x30 \<le> d \<and> d \<le> 0x39 \<and> digits ds"
  by (auto simp: digits_def)

lemma digit_char_small: "unat d \<le> 9 \<Longrightarrow> digit_char d = 0x30 + unat d"
  by (simp add: digit_char_def)

text \<open>A digit has been found: \<open>buf\<close> and \<open>d\<close> stand for a number, and the bound is above without \<open>d\<close>.\<close>

lemma integral_step:
  fixes p1 pow10 :: u32
  assumes "unat p1 < 10 ^ Suc n" "unat pow10 = 10 ^ n"
  shows "unat (p1 div pow10) \<le> 9" "unat (p1 mod pow10) < 10 ^ n" "unat (p1 div pow10) * 10 ^ n + unat (p1 mod pow10) = unat p1"
    "unat (pow10 div 10) = 10 ^ n div 10"
  using assms less_mult_imp_div_less [of "unat p1" 10 "10 ^ n"]
  by (simp_all add: unat_div unat_mod div_mult_mod_eq)


definition leading :: "nat list \<Rightarrow> bool" where
  "leading buf \<longleftrightarrow> buf \<noteq> [] \<and> 0x31 \<le> hd buf"

lemma leading_append [simp]: "leading buf \<Longrightarrow> leading (buf @ ds)"
  by (simp add: leading_def)

lemma leading_snoc: "leading (ds @ [0x30 + d]) \<Longrightarrow> 1 \<le> d' \<Longrightarrow> leading (ds @ [0x30 + d'])"
  by (cases ds) (simp_all add: leading_def)

lemma unat_ucast64: "unat (ucast (x :: u32) :: u64) = unat x"
  using unsigned_less [of x, where ?'a = nat] by (simp add: unsigned_ucast_eq take_bit_nat_eq_self)

lemma gen_integral_ok:
  fixes p1 pow10 :: u32
  fixes sh :: nat
  defines "S \<equiv> (2::nat) ^ sh"
  assumes "unat p1 < 10 ^ n" "0 < n \<Longrightarrow> unat pow10 = 10 ^ (n - 1)" "0 < n \<Longrightarrow> 10 ^ (n - 1) * S < 2 ^ 64"
    and "unat p1 * S + unat p2 < 2 ^ 64" "unat delta < unat p1 * S + unat p2"
    and "digits buf" "leading buf \<or> buf = [] \<and> 0 < n \<and> 10 ^ (n - 1) \<le> unat p1"
  shows "case gen_integral sh delta p2 n p1 pow10 buf of
      Inl (buf', n', rest, ten) \<Rightarrow>
        (\<exists>ds d. buf' = ds @ [0x30 + d] \<and> digits ds \<and> d \<le> 9 \<and> leading buf' \<and> rest \<le> delta \<and> unat ten = 10 ^ n' * S \<and>
          unat delta < unat rest + d * unat ten \<and>
          decimal buf' * unat ten + unat rest = decimal buf * 10 ^ n * S + unat p1 * S + unat p2)
    | Inr buf' \<Rightarrow> digits buf' \<and> leading buf' \<and> unat delta < unat p2 \<and>
        decimal buf' * S + unat p2 = decimal buf * 10 ^ n * S + unat p1 * S + unat p2"
  using assms(2-)
proof (induction n arbitrary: p1 pow10 buf)
  case 0
  then show ?case by simp
next
  case (Suc n)
  define d r where dr: "d = p1 div pow10" "r = p1 mod pow10"
  have step: "unat d \<le> 9" "unat r < 10 ^ n" "unat d * 10 ^ n + unat r = unat p1" "unat (pow10 div 10) = 10 ^ n div 10"
    using integral_step [of p1 n pow10] Suc.prems by (simp_all add: dr)
  define rest :: u64 where "rest = push_bit sh (ucast r) + p2"
  have p1: "unat p1 * S = unat d * (10 ^ n * S) + unat r * S" by (simp add: step(3) [symmetric] algebra_simps)
  have "unat (push_bit sh (ucast r :: u64)) = unat r * S"
    using Suc.prems(4) p1 unfolding S_def by (subst unat_push_bit) (simp_all add: unat_ucast64)
  then have rest: "unat rest = unat r * S + unat p2"
    using Suc.prems(4) p1 unat_add64 [of "push_bit sh (ucast r)" p2] by (simp add: rest_def)
  have ten: "unat (push_bit sh (ucast pow10 :: u64)) = 10 ^ n * S"
    using Suc.prems(2,3) unfolding S_def by (subst unat_push_bit) (simp_all add: unat_ucast64)
  have c: "digit_char d = 0x30 + unat d" using step(1) by (rule digit_char_small)
  have lead: "leading (buf @ [digit_char d])"
  proof (cases "buf = []")
    case True
    then have "10 ^ n \<le> unat p1" using Suc.prems(7) by (auto simp: leading_def)
    then have "unat d \<noteq> 0" using step(2,3) by (cases "unat d") simp_all
    then show ?thesis by (simp add: leading_def True c)
  qed (use Suc.prems(7) in auto)
  show ?case
  proof (cases "rest \<le> delta")
    case True
    then have "gen_integral sh delta p2 (Suc n) p1 pow10 buf = Inl (buf @ [0x30 + unat d], n, rest, push_bit sh (ucast pow10))"
      by (simp add: Let_def dr [symmetric] rest_def [symmetric] c)
    moreover have "unat delta < unat rest + unat d * (10 ^ n * S)" using Suc.prems(5) p1 by (simp add: rest)
    moreover have "decimal (buf @ [0x30 + unat d]) * (10 ^ n * S) + unat rest = decimal buf * 10 ^ Suc n * S + unat p1 * S + unat p2"
      using p1 by (simp add: rest algebra_simps)
    ultimately show ?thesis
      using Suc.prems(6) lead step(1) True c unfolding ten [symmetric] by (fastforce simp: ten)
  next
    case False
    have ih: "case gen_integral sh delta p2 n r (pow10 div 10) (buf @ [digit_char d]) of
      Inl (buf', n', rest, ten) \<Rightarrow>
        (\<exists>ds e. buf' = ds @ [0x30 + e] \<and> digits ds \<and> e \<le> 9 \<and> leading buf' \<and> rest \<le> delta \<and> unat ten = 10 ^ n' * S \<and>
          unat delta < unat rest + e * unat ten \<and>
          decimal buf' * unat ten + unat rest = decimal (buf @ [digit_char d]) * 10 ^ n * S + unat r * S + unat p2)
    | Inr buf' \<Rightarrow> digits buf' \<and> leading buf' \<and> unat delta < unat p2 \<and>
        decimal buf' * S + unat p2 = decimal (buf @ [digit_char d]) * 10 ^ n * S + unat r * S + unat p2"
    proof (rule Suc.IH)
      show "unat (pow10 div 10) = 10 ^ (n - 1)" if "0 < n" using that step(4) by (cases n) simp_all
      show "10 ^ (n - 1) * S < 2 ^ 64" if "0 < n"
        using that Suc.prems(3) by (cases n) (simp_all add: ac_simps)
      show "unat r * S + unat p2 < 2 ^ 64" using Suc.prems(4) p1 by simp
      show "unat delta < unat r * S + unat p2" using False by (simp add: word_le_nat_alt rest)
      show "digits (buf @ [digit_char d])" using Suc.prems(6) step(1) by (simp add: c)
    qed (use step lead in simp_all)
    have v: "decimal (buf @ [digit_char d]) * 10 ^ n * S + unat r * S = decimal buf * 10 ^ Suc n * S + unat p1 * S"
      using p1 by (simp add: c algebra_simps)
    show ?thesis
      using False ih [unfolded v] by (simp add: Let_def dr [symmetric] rest_def [symmetric])
  qed
qed


lemma find_largest_pow10_ok:
  assumes "find_largest_pow10 n = (k, pow10)" "n \<noteq> 0"
  shows "unat n < 10 ^ k" "unat pow10 = 10 ^ (k - 1)" "0 < k" "10 ^ (k - 1) \<le> unat n"
proof -
  have "unat n < 10 ^ k \<and> unat pow10 = 10 ^ (k - 1) \<and> 0 < k \<and> 10 ^ (k - 1) \<le> unat n"
    using assms unsigned_less [of n, where ?'a = nat] unat_0_iff [of n]
    by (simp add: find_largest_pow10_def word_le_nat_alt split: if_splits) (auto simp: Suc_le_eq)
  then show "unat n < 10 ^ k" "unat pow10 = 10 ^ (k - 1)" "0 < k" "10 ^ (k - 1) \<le> unat n" by auto
qed

section \<open>The digits of the fraction\<close>

lemma gen_fraction_ok:
  assumes "sh \<le> 60" "0 < delta" "delta < p2" "unat p2 < 2 ^ sh" "dist \<le> delta" "digits buf" "leading buf"
  shows "\<exists>ds d j r delta' dist'.
    gen_fraction sh p2 delta dist m buf = Some (ds @ [0x30 + d], m + j, r, delta', dist') \<and>
    digits ds \<and> d \<le> 9 \<and> leading (ds @ [0x30 + d]) \<and> r \<le> delta' \<and> dist' \<le> delta' \<and>
    unat delta' = 10 ^ j * unat delta \<and> unat delta' < unat r + d * 2 ^ sh \<and>
    decimal (ds @ [0x30 + d]) * 2 ^ sh + unat r = 10 ^ j * (decimal buf * 2 ^ sh + unat p2)"
  using assms(2-)
proof (induction "2 ^ sh - unat delta" arbitrary: p2 delta dist m buf rule: less_induct)
  case less
  define p where "p = p2 * 10"
  define d r where dr: "d = drop_bit sh p" "r = p AND (push_bit sh 1 - 1)"
  have S: "(2::nat) ^ sh \<le> 2 ^ 60" using assms(1) by (intro power_increasing) simp_all
  have lt: "unat delta < unat p2" "unat dist \<le> unat delta" using less.prems by (simp_all add: word_less_nat_alt word_le_nat_alt)
  have p: "unat p = unat p2 * 10" using less.prems(3) S unat_mult64 [of p2 10] by (simp add: p_def)
  have delta: "unat (delta * 10) = unat delta * 10" and dist: "unat (dist * 10) = unat dist * 10"
    using less.prems(3) S lt unat_mult64 [of delta 10] unat_mult64 [of dist 10] by simp_all
  have ud: "unat d = unat p div 2 ^ sh" and ur: "unat r = unat p mod 2 ^ sh" by (simp_all only: dr unat_drop_bit unat_low_bits)
  have d9: "unat d \<le> 9" using less.prems(3) less_mult_imp_div_less [of "unat p" 10 "2 ^ sh"] by (simp add: ud p)
  have split: "unat d * 2 ^ sh + unat r = 10 * unat p2" unfolding ud ur div_mult_mod_eq p by simp
  have c: "digit_char d = 0x30 + unat d" using d9 by (rule digit_char_small)
  have eq: "gen_fraction sh p2 delta dist m buf =
      (if r \<le> delta * 10 then Some (buf @ [0x30 + unat d], Suc m, r, delta * 10, dist * 10)
       else gen_fraction sh r (delta * 10) (dist * 10) (Suc m) (buf @ [0x30 + unat d]))"
    by (subst gen_fraction.simps) (simp only: Let_def p_def [symmetric] dr [symmetric] c)
  show ?case
  proof (cases "r \<le> delta * 10")
    case True
    have "decimal (buf @ [0x30 + unat d]) * 2 ^ sh + unat r = 10 ^ 1 * (decimal buf * 2 ^ sh + unat p2)"
      using split by (simp add: algebra_simps)
    then show ?thesis
      using True less.prems d9 split lt
      by - (rule exI [of _ buf], rule exI [of _ "unat d"], rule exI [of _ 1], simp add: eq word_le_nat_alt delta dist del: decimal_simps)
  next
    case False
    have "2 ^ sh - unat (delta * 10) < 2 ^ sh - unat delta"
      using less.prems(1,3) lt unat_gt_0 [of delta] by (simp add: delta word_less_nat_alt)
    then obtain ds e j r' delta' dist' where ih:
      "gen_fraction sh r (delta * 10) (dist * 10) (Suc m) (buf @ [0x30 + unat d]) = Some (ds @ [0x30 + e], Suc m + j, r', delta', dist')"
      "digits ds" "e \<le> 9" "leading (ds @ [0x30 + e])" "r' \<le> delta'" "dist' \<le> delta'"
      "unat delta' = 10 ^ j * unat (delta * 10)" "unat delta' < unat r' + e * 2 ^ sh"
      "decimal (ds @ [0x30 + e]) * 2 ^ sh + unat r' = 10 ^ j * (decimal (buf @ [0x30 + unat d]) * 2 ^ sh + unat r)"
      using less.hyps [of "delta * 10" r "dist * 10" "buf @ [0x30 + unat d]" "Suc m"] less.prems False d9 lt
      by (auto simp: word_less_nat_alt word_le_nat_alt delta dist ur)
    have "decimal (buf @ [0x30 + unat d]) * 2 ^ sh + unat r = 10 * (decimal buf * 2 ^ sh + unat p2)"
      using split by (simp add: algebra_simps)
    with ih have "decimal (ds @ [0x30 + e]) * 2 ^ sh + unat r' = 10 ^ Suc j * (decimal buf * 2 ^ sh + unat p2)" by simp
    then show ?thesis
      using False ih
      by - (rule exI [of _ ds], rule exI [of _ e], rule exI [of _ "Suc j"], rule exI [of _ r'], rule exI [of _ delta'],
          rule exI [of _ dist'], simp add: eq delta del: decimal_simps)
  qed
qed

end
