(* ===== verification/Json_Lexer.thy ===== *)
theory Json_Lexer
  imports Json_Float
begin

text \<open>
  The lexer of the JSON library lax bundles (\<open>class lexer\<close> in \<open>include/lax/util/json.hpp\<close>), with
  which the server reads its configuration and \<open>bitsc\<close> its documents. The input is the list of the
  characters not read yet, each an \<open>int_type\<close> from 0 to 255; the end of the list is \<open>eof()\<close>. A scan
  gives the token and what is left of the input. Texts of errors and positions are not kept.

  A floating point number is a value of a type \<open>'f\<close>; what the C library does with it is the
  parameter \<open>strtod\<close>. The locale has the decimal point of C.
\<close>

section \<open>Tokens\<close>

type_synonym input = "nat list"

type_synonym strtod_fun = "nat list \<Rightarrow> double"

datatype token =
    Literal_true
  | Literal_false
  | Literal_null
  | is_value_string: Value_string (get_string: "nat list")
  | Value_unsigned nat
  | Value_integer int
  | Value_float double
  | Begin_array
  | Begin_object
  | is_end_array: End_array
  | is_end_object: End_object
  | is_name_separator: Name_separator
  | is_value_separator: Value_separator
  | Parse_error
  | is_end_of_input: End_of_input

lemma token_kinds:
  "is_value_string t \<Longrightarrow> \<not> is_end_of_input t" "is_name_separator t \<Longrightarrow> \<not> is_end_of_input t"
  "is_value_separator t \<Longrightarrow> \<not> is_end_of_input t"
  by (cases t; simp)+

section \<open>Strings\<close>

definition hex_digit :: "nat \<Rightarrow> nat option" where
  "hex_digit c =
     (if 0x30 \<le> c \<and> c \<le> 0x39 then Some (c - 0x30)
      else if 0x41 \<le> c \<and> c \<le> 0x46 then Some (c - 0x37)
      else if 0x61 \<le> c \<and> c \<le> 0x66 then Some (c - 0x57)
      else None)"

fun codepoint_loop :: "nat list \<Rightarrow> nat \<Rightarrow> input \<Rightarrow> nat option \<times> input" where
  "codepoint_loop [] cp cs = (Some cp, cs)"
| "codepoint_loop (f # fs) cp [] = (None, [])"
| "codepoint_loop (f # fs) cp (c # cs) =
     (case hex_digit c of None \<Rightarrow> (None, cs) | Some d \<Rightarrow> codepoint_loop fs (cp + d * 2 ^ f) cs)"

definition get_codepoint :: "input \<Rightarrow> nat option \<times> input" where
  "get_codepoint cs = codepoint_loop [12, 8, 4, 0] 0 cs"

text \<open>The bytes of a code point.\<close>

definition utf8_bytes :: "nat \<Rightarrow> nat list" where
  "utf8_bytes cp =
     (if cp < 0x80 then [cp]
      else if cp \<le> 0x7FF then [0xC0 + cp div 2 ^ 6, 0x80 + cp mod 0x40]
      else if cp \<le> 0xFFFF then [0xE0 + cp div 2 ^ 12, 0x80 + cp div 2 ^ 6 mod 0x40, 0x80 + cp mod 0x40]
      else [0xF0 + cp div 2 ^ 18, 0x80 + cp div 2 ^ 12 mod 0x40, 0x80 + cp div 2 ^ 6 mod 0x40, 0x80 + cp mod 0x40])"

text \<open>A \<open>\u\<close> escape, with the second one of a surrogate pair: the bytes it adds.\<close>

definition scan_unicode :: "input \<Rightarrow> nat list option \<times> input" where
  "scan_unicode cs =
     (case get_codepoint cs of
        (None, r) \<Rightarrow> (None, r)
      | (Some cp1, r) \<Rightarrow>
          (if 0xD800 \<le> cp1 \<and> cp1 \<le> 0xDBFF
           then (case r of
                   b # u # r1 \<Rightarrow>
                     (if b \<noteq> 0x5C then (None, u # r1)
                      else if u \<noteq> 0x75 then (None, r1)
                      else (case get_codepoint r1 of
                              (None, r2) \<Rightarrow> (None, r2)
                            | (Some cp2, r2) \<Rightarrow>
                                (if 0xDC00 \<le> cp2 \<and> cp2 \<le> 0xDFFF
                                 then (Some (utf8_bytes (cp1 * 2 ^ 10 + cp2 - 0x35FDC00)), r2)
                                 else (None, r2))))
                 | _ \<Rightarrow> (None, []))
           else if 0xDC00 \<le> cp1 \<and> cp1 \<le> 0xDFFF then (None, r)
           else (Some (utf8_bytes cp1), r)))"

text \<open>What follows a backslash.\<close>

definition scan_escape :: "input \<Rightarrow> nat list option \<times> input" where
  "scan_escape cs =
     (case cs of
        [] \<Rightarrow> (None, [])
      | c # r \<Rightarrow>
          (if c = 0x22 \<or> c = 0x5C \<or> c = 0x2F then (Some [c], r)
           else if c = 0x62 then (Some [0x08], r)
           else if c = 0x66 then (Some [0x0C], r)
           else if c = 0x6E then (Some [0x0A], r)
           else if c = 0x72 then (Some [0x0D], r)
           else if c = 0x74 then (Some [0x09], r)
           else if c = 0x75 then scan_unicode r
           else (None, r)))"

text \<open>\<open>next_byte_in_range\<close>: the bytes added, from the current one on.\<close>

fun bytes_in_range :: "(nat \<times> nat) list \<Rightarrow> nat list \<Rightarrow> input \<Rightarrow> nat list option \<times> input" where
  "bytes_in_range [] added cs = (Some added, cs)"
| "bytes_in_range (r # rs) added [] = (None, [])"
| "bytes_in_range (r # rs) added (c # cs) =
     (if fst r \<le> c \<and> c \<le> snd r then bytes_in_range rs (added @ [c]) cs else (None, cs))"

text \<open>The ranges of the bytes after the first one of a character of more bytes.\<close>

definition tail_ranges :: "nat \<Rightarrow> (nat \<times> nat) list option" where
  "tail_ranges c =
     (if 0xC2 \<le> c \<and> c \<le> 0xDF then Some [(0x80, 0xBF)]
      else if c = 0xE0 then Some [(0xA0, 0xBF), (0x80, 0xBF)]
      else if 0xE1 \<le> c \<and> c \<le> 0xEC \<or> 0xEE \<le> c \<and> c \<le> 0xEF then Some [(0x80, 0xBF), (0x80, 0xBF)]
      else if c = 0xED then Some [(0x80, 0x9F), (0x80, 0xBF)]
      else if c = 0xF0 then Some [(0x90, 0xBF), (0x80, 0xBF), (0x80, 0xBF)]
      else if 0xF1 \<le> c \<and> c \<le> 0xF3 then Some [(0x80, 0xBF), (0x80, 0xBF), (0x80, 0xBF)]
      else if c = 0xF4 then Some [(0x80, 0x8F), (0x80, 0xBF), (0x80, 0xBF)]
      else None)"

lemma codepoint_rest: "codepoint_loop fs cp cs = (x, r) \<Longrightarrow> length r \<le> length cs"
  by (induction fs cp cs rule: codepoint_loop.induct) (auto split: option.splits)

lemma get_codepoint_rest: "get_codepoint cs = (x, r) \<Longrightarrow> length r \<le> length cs"
  unfolding get_codepoint_def by (rule codepoint_rest)

lemma scan_unicode_rest: "scan_unicode cs = (x, r) \<Longrightarrow> length r \<le> length cs"
  by (auto simp: scan_unicode_def dest!: get_codepoint_rest split: prod.splits option.splits if_splits list.splits)

lemma scan_escape_rest: "scan_escape cs = (x, r) \<Longrightarrow> length r \<le> length cs"
  by (auto simp: scan_escape_def dest!: scan_unicode_rest split: if_splits list.splits)

lemma bytes_in_range_rest: "bytes_in_range rs added cs = (x, r) \<Longrightarrow> length r \<le> length cs"
  by (induction rs added cs rule: bytes_in_range.induct) (auto split: if_splits)

function scan_string :: "nat list \<Rightarrow> input \<Rightarrow> token \<times> input" where
  "scan_string buf [] = (Parse_error, [])"
| "scan_string buf (c # cs) =
     (if c = 0x22 then (Value_string buf, cs)
      else if c = 0x5C
      then (case scan_escape cs of
              (None, r) \<Rightarrow> (Parse_error, r)
            | (Some bs, r) \<Rightarrow> scan_string (buf @ bs) r)
      else if c \<le> 0x1F then (Parse_error, cs)
      else if c \<le> 0x7F then scan_string (buf @ [c]) cs
      else (case tail_ranges c of
              None \<Rightarrow> (Parse_error, cs)
            | Some rs \<Rightarrow>
                (case bytes_in_range rs [c] cs of
                   (None, r) \<Rightarrow> (Parse_error, r)
                 | (Some bs, r) \<Rightarrow> scan_string (buf @ bs) r)))"
  by pat_completeness auto
termination
  by (relation "measure (\<lambda>(buf, cs). length cs)")
    (auto dest!: sym [of "(Some _, _)"] scan_escape_rest bytes_in_range_rest)

section \<open>Numbers\<close>

text \<open>The states of \<open>scan_number\<close> are its labels, and what it has found out about the number so far.\<close>

datatype num_state = Num_minus | Num_zero | Num_any1 | Num_decimal1 | Num_decimal2 | Num_exponent | Num_sign | Num_any2

datatype num_type = Is_unsigned | Is_integer | Is_float

datatype num_step = Goto num_state | Num_done | Num_error

definition digit_byte :: "nat \<Rightarrow> bool" where
  "digit_byte c \<longleftrightarrow> 0x30 \<le> c \<and> c \<le> 0x39"

text \<open>The \<open>switch\<close> of a label; \<open>None\<close> is the end of the input.\<close>

fun num_switch :: "num_state \<Rightarrow> nat option \<Rightarrow> num_step" where
  "num_switch Num_minus (Some c) =
     (if c = 0x30 then Goto Num_zero else if digit_byte c then Goto Num_any1 else Num_error)"
| "num_switch Num_zero (Some c) =
     (if c = 0x2E then Goto Num_decimal1 else if c = 0x65 \<or> c = 0x45 then Goto Num_exponent else Num_done)"
| "num_switch Num_any1 (Some c) =
     (if digit_byte c then Goto Num_any1 else if c = 0x2E then Goto Num_decimal1
      else if c = 0x65 \<or> c = 0x45 then Goto Num_exponent else Num_done)"
| "num_switch Num_decimal1 (Some c) = (if digit_byte c then Goto Num_decimal2 else Num_error)"
| "num_switch Num_decimal2 (Some c) =
     (if digit_byte c then Goto Num_decimal2 else if c = 0x65 \<or> c = 0x45 then Goto Num_exponent else Num_done)"
| "num_switch Num_exponent (Some c) =
     (if c = 0x2B \<or> c = 0x2D then Goto Num_sign else if digit_byte c then Goto Num_any2 else Num_error)"
| "num_switch Num_sign (Some c) = (if digit_byte c then Goto Num_any2 else Num_error)"
| "num_switch Num_any2 (Some c) = (if digit_byte c then Goto Num_any2 else Num_done)"
| "num_switch st None = (if st \<in> {Num_zero, Num_any1, Num_decimal2, Num_any2} then Num_done else Num_error)"

text \<open>What a label sets \<open>number_type\<close> to.\<close>

fun num_label :: "num_state \<Rightarrow> num_type \<Rightarrow> num_type" where
  "num_label Num_minus ty = Is_integer"
| "num_label Num_decimal1 ty = Is_float"
| "num_label Num_exponent ty = Is_float"
| "num_label _ ty = ty"

fun scan_number_from :: "num_state \<Rightarrow> num_type \<Rightarrow> nat list \<Rightarrow> input \<Rightarrow> (num_type \<times> nat list) option \<times> input" where
  "scan_number_from st ty buf [] =
     (case num_switch st None of Num_done \<Rightarrow> (Some (num_label st ty, buf), []) | _ \<Rightarrow> (None, []))"
| "scan_number_from st ty buf (c # cs) =
     (case num_switch st (Some c) of
        Goto st' \<Rightarrow> scan_number_from st' (num_label st ty) (buf @ [c]) cs
      | Num_done \<Rightarrow> (Some (num_label st ty, buf), c # cs)
      | Num_error \<Rightarrow> (None, cs))"

text \<open>\<open>strtoull\<close> and \<open>strtoll\<close> fail beyond 64 bits; then the number becomes a float.\<close>

definition convert_number :: "strtod_fun \<Rightarrow> num_type \<Rightarrow> nat list \<Rightarrow> token" where
  "convert_number strtod ty buf =
     (case ty of
        Is_unsigned \<Rightarrow> (if decimal buf < 2 ^ 64 then Value_unsigned (decimal buf) else Value_float (strtod buf))
      | Is_integer \<Rightarrow>
          (if decimal (tl buf) \<le> 2 ^ 63 then Value_integer (- int (decimal (tl buf))) else Value_float (strtod buf))
      | Is_float \<Rightarrow> Value_float (strtod buf))"

text \<open>\<open>scan_number\<close>, with its current character; no other character gets here.\<close>

definition scan_number :: "strtod_fun \<Rightarrow> nat \<Rightarrow> input \<Rightarrow> token \<times> input" where
  "scan_number strtod c cs =
     (case scan_number_from (if c = 0x2D then Num_minus else if c = 0x30 then Num_zero else Num_any1) Is_unsigned [c] cs of
        (None, r) \<Rightarrow> (Parse_error, r)
      | (Some (ty, buf), r) \<Rightarrow> (convert_number strtod ty buf, r))"

section \<open>Literals and the scan\<close>

fun scan_literal :: "nat list \<Rightarrow> token \<Rightarrow> input \<Rightarrow> token \<times> input" where
  "scan_literal [] t cs = (t, cs)"
| "scan_literal (l # ls) t [] = (Parse_error, [])"
| "scan_literal (l # ls) t (c # cs) = (if c = l then scan_literal ls t cs else (Parse_error, cs))"

definition space_byte :: "nat \<Rightarrow> bool" where
  "space_byte c \<longleftrightarrow> c = 0x20 \<or> c = 0x09 \<or> c = 0x0A \<or> c = 0x0D"

definition scan_at :: "strtod_fun \<Rightarrow> nat \<Rightarrow> input \<Rightarrow> token \<times> input" where
  "scan_at strtod c cs =
     (if c = 0x5B then (Begin_array, cs)
      else if c = 0x5D then (End_array, cs)
      else if c = 0x7B then (Begin_object, cs)
      else if c = 0x7D then (End_object, cs)
      else if c = 0x3A then (Name_separator, cs)
      else if c = 0x2C then (Value_separator, cs)
      else if c = 0x74 then scan_literal [0x72, 0x75, 0x65] Literal_true cs
      else if c = 0x66 then scan_literal [0x61, 0x6C, 0x73, 0x65] Literal_false cs
      else if c = 0x6E then scan_literal [0x75, 0x6C, 0x6C] Literal_null cs
      else if c = 0x22 then scan_string [] cs
      else if c = 0x2D \<or> digit_byte c then scan_number strtod c cs
      else if c = 0 then (End_of_input, cs)
      else (Parse_error, cs))"

fun scan :: "strtod_fun \<Rightarrow> input \<Rightarrow> token \<times> input" where
  "scan strtod [] = (End_of_input, [])"
| "scan strtod (c # cs) = (if space_byte c then scan strtod cs else scan_at strtod c cs)"

section \<open>What a scan takes\<close>

lemma scan_string_rest: "scan_string buf cs = (t, r) \<Longrightarrow> length r \<le> length cs"
proof (induction buf cs rule: scan_string.induct)
  case (2 buf c cs)
  then show ?case
    by (fastforce split: if_splits prod.splits option.splits dest: scan_escape_rest bytes_in_range_rest)
qed simp

lemma scan_number_from_rest: "scan_number_from st ty buf cs = (x, r) \<Longrightarrow> length r \<le> length cs"
  by (induction st ty buf cs rule: scan_number_from.induct) (fastforce split: num_step.splits)+

lemma scan_literal_rest: "scan_literal ls t cs = (t', r) \<Longrightarrow> length r \<le> length cs"
  by (induction ls t cs rule: scan_literal.induct) (fastforce split: if_splits)+

lemma scan_at_rest: "scan_at strtod c cs = (t, r) \<Longrightarrow> length r \<le> length cs"
  by (auto simp: scan_at_def scan_number_def dest: scan_string_rest scan_literal_rest scan_number_from_rest
      split: if_splits prod.splits option.splits)

lemma scan_rest:
  assumes "scan strtod cs = (t, r)"
  shows "length r \<le> length cs" "\<not> is_end_of_input t \<Longrightarrow> length r < length cs"
proof -
  have "length r \<le> length cs \<and> (is_end_of_input t \<or> length r < length cs)"
    using assms
  proof (induction cs)
    case (Cons c cs)
    then show ?case by (fastforce dest: scan_at_rest split: if_splits)
  qed simp
  then show "length r \<le> length cs" "\<not> is_end_of_input t \<Longrightarrow> length r < length cs" by auto
qed

end
