(* ===== verification/Json_Parser.thy ===== *)
theory Json_Parser
  imports Json_Lexer Json_Value
begin

text \<open>
  The parser of the JSON library (\<open>class parser\<close> in \<open>include/lax/util/json.hpp\<close>), as lax calls it:
  without a callback and with exceptions. \<open>parse_internal\<close> takes the last token and the input
  behind it. Nesting is recursion in the code, and in the model recursion with fuel: the length of
  the input and two, which is always enough.
\<close>

section \<open>Values and errors\<close>

text \<open>\<open>value_t\<close>, without \<open>discarded\<close>. The members of an object are sorted by key.\<close>

datatype json =
    Null
  | Boolean bool
  | Number_unsigned nat
  | Number_integer int
  | Number_float double
  | String string
  | Array "json list"
  | Object "(string \<times> json) list"

text \<open>The exceptions 101 and 406; \<open>Out_of_fuel\<close> is of the model.\<close>

datatype json_error = Syntax_error | Number_overflow | Out_of_fuel

text \<open>\<open>object->emplace\<close>: a key that is there keeps its value.\<close>

fun object_emplace :: "string \<Rightarrow> 'a \<Rightarrow> (string \<times> 'a) list \<Rightarrow> (string \<times> 'a) list" where
  "object_emplace key v [] = [(key, v)]"
| "object_emplace key v ((k, w) # ms) =
     (if key_less key k then (key, v) # (k, w) # ms
      else if key_less k key then (k, w) # object_emplace key v ms
      else (k, w) # ms)"

definition text_of :: "nat list \<Rightarrow> string" where
  "text_of cs = map char_of cs"

section \<open>parse\_internal\<close>

text \<open>The loops over the members of an object and the elements of an array; \<open>pvalue\<close> parses a value.\<close>

type_synonym parsed = "json_error + (json \<times> input)"

primrec parse_object_members :: "strtod_fun \<Rightarrow> (token \<Rightarrow> input \<Rightarrow> parsed) \<Rightarrow> nat \<Rightarrow>
    (string \<times> json) list \<Rightarrow> token \<Rightarrow> input \<Rightarrow> parsed" where
  "parse_object_members strtod pvalue 0 ms tok cs = Inl Out_of_fuel"
| "parse_object_members strtod pvalue (Suc n) ms tok cs =
     (if \<not> is_value_string tok then Inl Syntax_error
      else (let key = text_of (get_string tok); (colon, r1) = scan strtod cs
            in if \<not> is_name_separator colon then Inl Syntax_error
               else (let (t, r2) = scan strtod r1
                     in case pvalue t r2 of
                          Inl e \<Rightarrow> Inl e
                        | Inr (v, r3) \<Rightarrow>
                            (let ms' = object_emplace key v ms; (comma, r4) = scan strtod r3
                             in if is_value_separator comma
                                then (let (t', r5) = scan strtod r4 in parse_object_members strtod pvalue n ms' t' r5)
                                else if is_end_object comma then Inr (Object ms', r4)
                                else Inl Syntax_error))))"

primrec parse_elements :: "strtod_fun \<Rightarrow> (token \<Rightarrow> input \<Rightarrow> parsed) \<Rightarrow> nat \<Rightarrow>
    json list \<Rightarrow> token \<Rightarrow> input \<Rightarrow> parsed" where
  "parse_elements strtod pvalue 0 vs tok cs = Inl Out_of_fuel"
| "parse_elements strtod pvalue (Suc n) vs tok cs =
     (case pvalue tok cs of
        Inl e \<Rightarrow> Inl e
      | Inr (v, r3) \<Rightarrow>
          (let (comma, r4) = scan strtod r3
           in if is_value_separator comma then (let (t', r5) = scan strtod r4 in parse_elements strtod pvalue n (vs @ [v]) t' r5)
              else if is_end_array comma then Inr (Array (vs @ [v]), r4)
              else Inl Syntax_error))"

primrec parse_internal :: "strtod_fun \<Rightarrow> nat \<Rightarrow> token \<Rightarrow> input \<Rightarrow> parsed" where
  "parse_internal strtod 0 tok cs = Inl Out_of_fuel"
| "parse_internal strtod (Suc n) tok cs =
     (case tok of
        Begin_object \<Rightarrow>
          (let (t, r) = scan strtod cs
           in if is_end_object t then Inr (Object [], r) else parse_object_members strtod (parse_internal strtod n) n [] t r)
      | Begin_array \<Rightarrow>
          (let (t, r) = scan strtod cs
           in if is_end_array t then Inr (Array [], r) else parse_elements strtod (parse_internal strtod n) n [] t r)
      | Literal_null \<Rightarrow> Inr (Null, cs)
      | Value_string s \<Rightarrow> Inr (String (text_of s), cs)
      | Literal_true \<Rightarrow> Inr (Boolean True, cs)
      | Literal_false \<Rightarrow> Inr (Boolean False, cs)
      | Value_unsigned x \<Rightarrow> Inr (Number_unsigned x, cs)
      | Value_integer x \<Rightarrow> Inr (Number_integer x, cs)
      | Value_float x \<Rightarrow> (if isfinite x then Inr (Number_float x, cs) else Inl Number_overflow)
      | _ \<Rightarrow> Inl Syntax_error)"

text \<open>The byte order mark, which the input adapters skip.\<close>

definition skip_bom :: "nat list \<Rightarrow> input" where
  "skip_bom cs = (if take 3 cs = [0xEF, 0xBB, 0xBF] then drop 3 cs else cs)"

definition json_fuel :: "input \<Rightarrow> nat" where
  "json_fuel cs = length cs + 2"

text \<open>\<open>parse\<close>: with the value the input that is not read.\<close>

definition json_parse :: "strtod_fun \<Rightarrow> bool \<Rightarrow> nat list \<Rightarrow> json_error + (json \<times> input)" where
  "json_parse strtod strict text =
     (let cs = skip_bom text; (t, r) = scan strtod cs
      in case parse_internal strtod (json_fuel cs) t r of
           Inl e \<Rightarrow> Inl e
         | Inr (v, r1) \<Rightarrow>
             (if strict
              then (let (t', r2) = scan strtod r1 in if is_end_of_input t' then Inr (v, r2) else Inl Syntax_error)
              else Inr (v, r1)))"

section \<open>accept\_internal\<close>

text \<open>The acceptor: what is left of the input, or \<open>None\<close> when it returns false.\<close>

primrec accept_members :: "strtod_fun \<Rightarrow> (token \<Rightarrow> input \<Rightarrow> input option) \<Rightarrow> nat \<Rightarrow>
    token \<Rightarrow> input \<Rightarrow> input option" where
  "accept_members strtod pvalue 0 tok cs = None"
| "accept_members strtod pvalue (Suc n) tok cs =
     (if \<not> is_value_string tok then None
      else (let (colon, r1) = scan strtod cs
            in if \<not> is_name_separator colon then None
               else (let (t, r2) = scan strtod r1
                     in case pvalue t r2 of
                          None \<Rightarrow> None
                        | Some r3 \<Rightarrow>
                            (let (comma, r4) = scan strtod r3
                             in if is_value_separator comma then (let (t', r5) = scan strtod r4 in accept_members strtod pvalue n t' r5)
                                else if is_end_object comma then Some r4
                                else None))))"

primrec accept_elements :: "strtod_fun \<Rightarrow> (token \<Rightarrow> input \<Rightarrow> input option) \<Rightarrow> nat \<Rightarrow>
    token \<Rightarrow> input \<Rightarrow> input option" where
  "accept_elements strtod pvalue 0 tok cs = None"
| "accept_elements strtod pvalue (Suc n) tok cs =
     (case pvalue tok cs of
        None \<Rightarrow> None
      | Some r3 \<Rightarrow>
          (let (comma, r4) = scan strtod r3
           in if is_value_separator comma then (let (t', r5) = scan strtod r4 in accept_elements strtod pvalue n t' r5)
              else if is_end_array comma then Some r4
              else None))"

primrec accept_internal :: "strtod_fun \<Rightarrow> nat \<Rightarrow> token \<Rightarrow> input \<Rightarrow> input option" where
  "accept_internal strtod 0 tok cs = None"
| "accept_internal strtod (Suc n) tok cs =
     (case tok of
        Begin_object \<Rightarrow>
          (let (t, r) = scan strtod cs
           in if is_end_object t then Some r else accept_members strtod (accept_internal strtod n) n t r)
      | Begin_array \<Rightarrow>
          (let (t, r) = scan strtod cs
           in if is_end_array t then Some r else accept_elements strtod (accept_internal strtod n) n t r)
      | Value_float x \<Rightarrow> (if isfinite x then Some cs else None)
      | Literal_false \<Rightarrow> Some cs
      | Literal_null \<Rightarrow> Some cs
      | Literal_true \<Rightarrow> Some cs
      | Value_integer x \<Rightarrow> Some cs
      | Value_string s \<Rightarrow> Some cs
      | Value_unsigned x \<Rightarrow> Some cs
      | _ \<Rightarrow> None)"

definition json_accept :: "strtod_fun \<Rightarrow> bool \<Rightarrow> nat list \<Rightarrow> bool" where
  "json_accept strtod strict text =
     (let cs = skip_bom text; (t, r) = scan strtod cs
      in case accept_internal strtod (json_fuel cs) t r of
           None \<Rightarrow> False
         | Some r1 \<Rightarrow> \<not> strict \<or> is_end_of_input (fst (scan strtod r1)))"

text \<open>What the rest of lax does with a value: numbers are whole there.\<close>

fun to_jval :: "json \<Rightarrow> jval option" and to_jvals :: "json list \<Rightarrow> jval list option"
  and to_members :: "(string \<times> json) list \<Rightarrow> (string \<times> jval) list option" where
  "to_jval Null = Some J_null"
| "to_jval (Boolean b) = Some (J_bool b)"
| "to_jval (Number_unsigned n) = Some (J_num (int n))"
| "to_jval (Number_integer i) = Some (J_num i)"
| "to_jval (Number_float x) = None"
| "to_jval (String s) = Some (J_str s)"
| "to_jval (Array vs) = map_option J_arr (to_jvals vs)"
| "to_jval (Object ms) = map_option J_obj (to_members ms)"
| "to_jvals [] = Some []"
| "to_jvals (v # vs) = (case (to_jval v, to_jvals vs) of (Some j, Some js) \<Rightarrow> Some (j # js) | _ \<Rightarrow> None)"
| "to_members [] = Some []"
| "to_members ((k, v) # ms) = (case (to_jval v, to_members ms) of (Some j, Some js) \<Rightarrow> Some ((k, j) # js) | _ \<Rightarrow> None)"

section \<open>Enough fuel\<close>

lemma members_rest:
  assumes pvalue: "\<And>t cs v r. pvalue t cs = Inr (v, r) \<Longrightarrow> length r \<le> length cs"
  shows "parse_object_members strtod pvalue n ms tok cs = Inr (v, r) \<Longrightarrow> length r \<le> length cs"
proof (induction n arbitrary: ms tok cs)
  case (Suc n)
  obtain colon r1 t r2 where s: "scan strtod cs = (colon, r1)" "scan strtod r1 = (t, r2)" by force
  from Suc.prems s obtain w r3 where v: "pvalue t r2 = Inr (w, r3)"
    by (auto simp: Let_def split: if_splits sum.splits)
  obtain comma r4 t' r5 where s2: "scan strtod r3 = (comma, r4)" "scan strtod r4 = (t', r5)" by force
  have len: "length r4 \<le> length cs" "length r5 \<le> length cs"
    using scan_rest(1) [OF s(1)] scan_rest(1) [OF s(2)] pvalue [OF v] scan_rest(1) [OF s2(1)] scan_rest(1) [OF s2(2)]
    by linarith+
  show ?case
    using Suc.prems Suc.IH [of _ t' r5] len
    by (auto simp: s v s2 Let_def split: if_splits intro: le_trans [OF _ len(2)])
qed simp

lemma elements_rest:
  assumes pvalue: "\<And>t cs v r. pvalue t cs = Inr (v, r) \<Longrightarrow> length r \<le> length cs"
  shows "parse_elements strtod pvalue n vs tok cs = Inr (v, r) \<Longrightarrow> length r \<le> length cs"
proof (induction n arbitrary: vs tok cs)
  case (Suc n)
  from Suc.prems obtain w r3 where v: "pvalue tok cs = Inr (w, r3)"
    by (auto split: sum.splits)
  obtain comma r4 t' r5 where s2: "scan strtod r3 = (comma, r4)" "scan strtod r4 = (t', r5)" by force
  have len: "length r4 \<le> length cs" "length r5 \<le> length cs"
    using pvalue [OF v] scan_rest(1) [OF s2(1)] scan_rest(1) [OF s2(2)] by linarith+
  show ?case
    using Suc.prems Suc.IH [of _ t' r5] len
    by (auto simp: v s2 Let_def split: if_splits intro: le_trans [OF _ len(2)])
qed simp

lemma parse_rest: "parse_internal strtod n tok cs = Inr (v, r) \<Longrightarrow> length r \<le> length cs"
proof (induction n arbitrary: tok cs v r)
  case (Suc n)
  obtain t r1 where s: "scan strtod cs = (t, r1)" by force
  have "length r \<le> length r1" if "parse_object_members strtod (parse_internal strtod n) n [] t r1 = Inr (v, r)"
    using members_rest [OF Suc.IH that] .
  moreover have "length r \<le> length r1" if "parse_elements strtod (parse_internal strtod n) n [] t r1 = Inr (v, r)"
    using elements_rest [OF Suc.IH that] .
  ultimately show ?case
    using Suc.prems scan_rest(1) [OF s] by (cases tok) (force simp: s split: if_splits)+
qed simp

text \<open>A loop has fuel enough, when its values have and its fuel exceeds what is left by two.\<close>

lemma members_fuel:
  assumes pvalue: "\<And>t cs v r. pvalue t cs = Inr (v, r) \<Longrightarrow> length r \<le> length cs"
    and fuel: "\<And>t r. length r < m \<Longrightarrow> pvalue t r \<noteq> Inl Out_of_fuel"
    and eof: "\<And>t r. is_end_of_input t \<Longrightarrow> pvalue t r = Inl Syntax_error"
  shows "length cs + 2 \<le> n \<and> length cs \<le> m \<or> is_end_of_input tok \<and> 0 < n \<Longrightarrow>
    parse_object_members strtod pvalue n ms tok cs \<noteq> Inl Out_of_fuel"
proof (induction n arbitrary: ms tok cs)
  case (Suc n)
  obtain colon r1 t r2 where s: "scan strtod cs = (colon, r1)" "scan strtod r1 = (t, r2)" by force
  show ?case
  proof (cases "is_value_string tok \<and> is_name_separator colon")
    case False
    then show ?thesis by (auto simp: s Let_def)
  next
    case True
    then have tok: "\<not> is_end_of_input tok" "\<not> is_end_of_input colon" by (simp_all add: token_kinds)
    have l: "length cs + 1 \<le> n" "length cs \<le> m" using Suc.prems tok by auto
    have r1: "length r1 < length cs" by (rule scan_rest(2) [OF s(1) tok(2)])
    have r2: "length r2 \<le> length r1" "is_end_of_input t \<or> length r2 < length r1"
      using scan_rest [OF s(2)] by auto
    have f: "pvalue t r2 \<noteq> Inl Out_of_fuel" using fuel [of r2 t] eof [of t r2] r1 r2 l by auto
    show ?thesis
    proof (cases "pvalue t r2")
      case (Inl e)
      then show ?thesis using f by (auto simp: s Let_def)
    next
      case (Inr vr)
      then obtain v r3 where v: "pvalue t r2 = Inr (v, r3)" by (cases vr) auto
      obtain comma r4 t' r5 where s2: "scan strtod r3 = (comma, r4)" "scan strtod r4 = (t', r5)" by force
      have "length r3 \<le> length r2" by (rule pvalue [OF v])
      then have "length r5 + 2 \<le> n \<and> length r5 \<le> m \<or> is_end_of_input t' \<and> 0 < n"
        using scan_rest(1) [OF s2(1)] scan_rest [OF s2(2)] r1 r2 l by (cases "is_end_of_input t'") auto
      from Suc.IH [OF this] show ?thesis by (auto simp: s v s2 Let_def)
    qed
  qed
qed simp

lemma elements_fuel:
  assumes pvalue: "\<And>t cs v r. pvalue t cs = Inr (v, r) \<Longrightarrow> length r \<le> length cs"
    and fuel: "\<And>t r. length r < m \<Longrightarrow> pvalue t r \<noteq> Inl Out_of_fuel"
    and eof: "\<And>t r. is_end_of_input t \<Longrightarrow> pvalue t r = Inl Syntax_error"
  shows "length cs + 2 \<le> n \<and> length cs < m \<or> is_end_of_input tok \<and> 0 < n \<Longrightarrow>
    parse_elements strtod pvalue n vs tok cs \<noteq> Inl Out_of_fuel"
proof (induction n arbitrary: vs tok cs)
  case (Suc n)
  have f: "pvalue tok cs \<noteq> Inl Out_of_fuel" using fuel [of cs tok] eof [of tok cs] Suc.prems by auto
  show ?case
  proof (cases "pvalue tok cs")
    case (Inl e)
    then show ?thesis using f by simp
  next
    case (Inr vr)
    then obtain v r3 where v: "pvalue tok cs = Inr (v, r3)" by (cases vr) auto
    obtain comma r4 t' r5 where s2: "scan strtod r3 = (comma, r4)" "scan strtod r4 = (t', r5)" by force
    show ?thesis
    proof (cases "is_value_separator comma")
      case False
      then show ?thesis by (auto simp: v s2)
    next
      case True
      then have "\<not> is_end_of_input comma" by (rule token_kinds)
      then have "length r4 < length r3" by (rule scan_rest(2) [OF s2(1)])
      moreover have "length r3 \<le> length cs" by (rule pvalue [OF v])
      moreover have "\<not> is_end_of_input tok" using eof [of tok cs] v by auto
      ultimately have "length r5 + 2 \<le> n \<and> length r5 < m \<or> is_end_of_input t' \<and> 0 < n"
        using scan_rest [OF s2(2)] Suc.prems by (cases "is_end_of_input t'") auto
      from Suc.IH [OF this] show ?thesis by (auto simp: v s2)
    qed
  qed
qed simp

lemma parse_fuel: "length cs + 2 \<le> n \<Longrightarrow> parse_internal strtod n tok cs \<noteq> Inl Out_of_fuel"
proof (induction n arbitrary: tok cs)
  case (Suc n)
  obtain t r where s: "scan strtod cs = (t, r)" by force
  have n: "length cs + 1 \<le> n" using Suc.prems by simp
  have eof: "parse_internal strtod n t' r' = Inl Syntax_error" if "is_end_of_input t'" for t' r'
    using that n by (cases n; cases t') simp_all
  have fuel: "parse_internal strtod n t' r' \<noteq> Inl Out_of_fuel" if "length r' < length cs" for t' r'
    using Suc.IH [of r' t'] that n by simp
  have l: "length r + 2 \<le> n \<and> length r < length cs \<or> is_end_of_input t \<and> 0 < n"
    using scan_rest [OF s] n by (cases "is_end_of_input t") auto
  have "parse_object_members strtod (parse_internal strtod n) n [] t r \<noteq> Inl Out_of_fuel"
    by (rule members_fuel [where m = "length cs", OF parse_rest fuel eof]) (use l in auto)
  moreover have "parse_elements strtod (parse_internal strtod n) n [] t r \<noteq> Inl Out_of_fuel"
    by (rule elements_fuel [where m = "length cs", OF parse_rest fuel eof]) (use l in auto)
  ultimately show ?case by (cases tok) (auto simp: s)
qed simp

section \<open>The acceptor\<close>

definition accepted :: "parsed \<Rightarrow> input option" where
  "accepted x = (case x of Inl e \<Rightarrow> None | Inr (v, r) \<Rightarrow> Some r)"

lemma accepted_simps [simp]: "accepted (Inl e) = None" "accepted (Inr (v, r)) = Some r"
  by (simp_all add: accepted_def)

lemma accept_members_parse:
  "(\<And>t cs. av t cs = accepted (pv t cs)) \<Longrightarrow> accept_members strtod av n tok cs = accepted (parse_object_members strtod pv n ms tok cs)"
proof (induction n arbitrary: ms tok cs)
  case (Suc n)
  obtain colon r1 t r2 where s: "scan strtod cs = (colon, r1)" "scan strtod r1 = (t, r2)" by force
  show ?case
  proof (cases "pv t r2")
    case (Inl e)
    then show ?thesis by (simp add: Suc.prems s Let_def)
  next
    case (Inr vr)
    then obtain v r3 where v: "pv t r2 = Inr (v, r3)" by (cases vr) auto
    obtain comma r4 t' r5 where s2: "scan strtod r3 = (comma, r4)" "scan strtod r4 = (t', r5)" by force
    show ?thesis
      using Suc.IH [OF Suc.prems, of t' r5 "object_emplace (text_of (get_string tok)) v ms"]
      by (simp add: Suc.prems s s2 v Let_def)
  qed
qed simp

lemma accept_elements_parse:
  "(\<And>t cs. av t cs = accepted (pv t cs)) \<Longrightarrow> accept_elements strtod av n tok cs = accepted (parse_elements strtod pv n vs tok cs)"
proof (induction n arbitrary: vs tok cs)
  case (Suc n)
  show ?case
  proof (cases "pv tok cs")
    case (Inl e)
    then show ?thesis by (simp add: Suc.prems)
  next
    case (Inr vr)
    then obtain v r3 where v: "pv tok cs = Inr (v, r3)" by (cases vr) auto
    obtain comma r4 t' r5 where s2: "scan strtod r3 = (comma, r4)" "scan strtod r4 = (t', r5)" by force
    show ?thesis
      using Suc.IH [OF Suc.prems, of t' r5 "vs @ [v]"] by (simp add: Suc.prems s2 v Let_def)
  qed
qed simp

lemma accept_parse: "accept_internal strtod n tok cs = accepted (parse_internal strtod n tok cs)"
proof (induction n arbitrary: tok cs)
  case (Suc n)
  obtain t r where s: "scan strtod cs = (t, r)" by force
  show ?case
    using accept_members_parse [of "accept_internal strtod n" "parse_internal strtod n", OF Suc.IH, of strtod n t r "[]"]
      accept_elements_parse [of "accept_internal strtod n" "parse_internal strtod n", OF Suc.IH, of strtod n t r "[]"]
    by (cases tok) (simp_all add: s)
qed simp

section \<open>Properties\<close>

text \<open>
  C20. \<open>parse\<close> always returns: whatever the text is, the fuel the model starts with is enough. The
  acceptor, which has a text of its own, accepts exactly the texts \<open>parse\<close> makes a value of,
  strict or not.
\<close>

theorem parse_returns_and_accept_agrees:
  "json_parse strtod strict text \<noteq> Inl Out_of_fuel \<and>
    (json_accept strtod strict text \<longleftrightarrow> (\<exists>v r. json_parse strtod strict text = Inr (v, r)))"
proof -
  define cs where "cs = skip_bom text"
  obtain t r where s: "scan strtod cs = (t, r)" by force
  have n: "parse_internal strtod (json_fuel cs) t r \<noteq> Inl Out_of_fuel"
    using scan_rest(1) [OF s] by (intro parse_fuel) (simp add: json_fuel_def)
  show ?thesis
  proof (cases "parse_internal strtod (json_fuel cs) t r")
    case (Inl e)
    then show ?thesis using n by (simp add: json_parse_def json_accept_def cs_def [symmetric] s accept_parse)
  next
    case (Inr vr)
    then obtain v r1 where v: "parse_internal strtod (json_fuel cs) t r = Inr (v, r1)" by (cases vr) auto
    then show ?thesis
      by (simp add: json_parse_def json_accept_def cs_def [symmetric] s accept_parse split: prod.split)
  qed
qed

end
