(* ===== verification/Json_Dump.thy ===== *)
theory Json_Dump
  imports Json_Parser
begin

text \<open>
  The serializer of the JSON library (\<open>class serializer\<close> in \<open>include/lax/util/json.hpp\<close>), with
  which the server writes its configuration to the log. The output is the list of the characters
  written; the two buffers in between, which are flushed before they are full, are left out.
  \<open>None\<close> is the exception 316, for a string that is not UTF-8; no finite number is written by a loop
  that does not end (\<open>Json_Float\<close>).
\<close>

section \<open>UTF-8\<close>

text \<open>The table: the kind of each byte, and then the transitions of the states 0 to 8.\<close>

definition utf8d :: "nat list" where
  "utf8d =
     replicate 128 0 @ replicate 16 1 @ replicate 16 9 @ replicate 32 7 @
     [8, 8] @ replicate 30 2 @
     [0xA, 0x3, 0x3, 0x3, 0x3, 0x3, 0x3, 0x3, 0x3, 0x3, 0x3, 0x3, 0x3, 0x4, 0x3, 0x3] @
     [0xB, 0x6, 0x6, 0x6, 0x5] @ replicate 11 8 @
     [0x0, 0x1, 0x2, 0x3, 0x5, 0x8, 0x7, 0x1, 0x1, 0x1, 0x4, 0x6, 0x1, 0x1, 0x1, 0x1] @
     [1, 1, 1, 1, 1, 1, 1, 1, 1, 1, 1, 1, 1, 1, 1, 1, 1, 0, 1, 1, 1, 1, 1, 0, 1, 0, 1, 1, 1, 1, 1, 1] @
     [1, 2, 1, 1, 1, 1, 1, 2, 1, 2, 1, 1, 1, 1, 1, 1, 1, 1, 1, 1, 1, 1, 1, 2, 1, 1, 1, 1, 1, 1, 1, 1] @
     [1, 2, 1, 1, 1, 1, 1, 1, 1, 2, 1, 1, 1, 1, 1, 1, 1, 1, 1, 1, 1, 1, 1, 3, 1, 3, 1, 1, 1, 1, 1, 1] @
     [1, 3, 1, 1, 1, 1, 1, 3, 1, 3, 1, 1, 1, 1, 1, 1, 1, 3, 1, 1, 1, 1, 1, 1, 1, 1, 1, 1, 1, 1, 1, 1]"

text \<open>\<open>decode\<close>: state and code point after the next byte.\<close>

definition decode :: "nat \<Rightarrow> nat \<Rightarrow> nat \<Rightarrow> nat \<times> nat" where
  "decode st codep byte =
     (let typ = utf8d ! byte;
          codep' = (if st \<noteq> 0 then byte mod 0x40 + codep * 2 ^ 6 else byte mod (2 ^ (8 - typ)))
      in (utf8d ! (256 + st * 16 + typ), codep'))"

section \<open>Strings\<close>

definition hex_char :: "nat \<Rightarrow> nat" where
  "hex_char d = (if d < 10 then 0x30 + d else 0x57 + d)"

text \<open>\<open>\u\<close> and four digits.\<close>

definition unicode_escape :: "nat \<Rightarrow> nat list" where
  "unicode_escape x =
     [0x5C, 0x75, hex_char (x div 2 ^ 12 mod 16), hex_char (x div 2 ^ 8 mod 16), hex_char (x div 2 ^ 4 mod 16), hex_char (x mod 16)]"

text \<open>What is written for a code point; \<open>byte\<close> is the last of its bytes, the others have been copied.\<close>

definition escape_codepoint :: "bool \<Rightarrow> nat \<Rightarrow> nat \<Rightarrow> nat list" where
  "escape_codepoint ensure_ascii cp byte =
     (if cp = 0x08 then [0x5C, 0x62]
      else if cp = 0x09 then [0x5C, 0x74]
      else if cp = 0x0A then [0x5C, 0x6E]
      else if cp = 0x0C then [0x5C, 0x66]
      else if cp = 0x0D then [0x5C, 0x72]
      else if cp = 0x22 then [0x5C, 0x22]
      else if cp = 0x5C then [0x5C, 0x5C]
      else if cp \<le> 0x1F \<or> ensure_ascii \<and> 0x7F \<le> cp
      then (if cp \<le> 0xFFFF then unicode_escape cp
            else unicode_escape (0xD7C0 + cp div 2 ^ 10) @ unicode_escape (0xDC00 + cp mod 0x400))
      else [byte])"

fun dump_bytes :: "bool \<Rightarrow> nat \<Rightarrow> nat \<Rightarrow> nat list \<Rightarrow> nat list option" where
  "dump_bytes ensure_ascii st cp [] = (if st = 0 then Some [] else None)"
| "dump_bytes ensure_ascii st cp (b # bs) =
     (let (st', cp') = decode st cp b
      in if st' = 1 then None
         else map_option (\<lambda>out. (if st' = 0 then escape_codepoint ensure_ascii cp' b
                                 else if ensure_ascii then [] else [b]) @ out)
                (dump_bytes ensure_ascii st' cp' bs))"

definition dump_escaped :: "bool \<Rightarrow> string \<Rightarrow> nat list option" where
  "dump_escaped ensure_ascii s = dump_bytes ensure_ascii 0 0 (map of_char s)"

section \<open>Numbers\<close>

text \<open>The loop of \<open>dump_integer\<close>: the digits in the order they are found, the last one first.\<close>

fun digits_of :: "nat \<Rightarrow> nat list" where
  "digits_of x = (if x = 0 then [] else (0x30 + x mod 10) # digits_of (x div 10))"

declare digits_of.simps [simp del]

definition dump_integer :: "int \<Rightarrow> nat list" where
  "dump_integer x =
     (if x = 0 then [0x30]
      else rev (digits_of (nat \<bar>x\<bar>) @ (if x < 0 then [0x2D] else [])))"

definition dump_float :: "double \<Rightarrow> nat list option" where
  "dump_float x = (if \<not> isfinite x then Some [0x6E, 0x75, 0x6C, 0x6C] else to_chars x)"

section \<open>dump\<close>

definition spaces :: "nat \<Rightarrow> nat list" where
  "spaces n = replicate n 0x20"

text \<open>
  \<open>indent_string\<close> starts with 512 blanks. When it is too short for the indentation it is doubled, once; that is
  enough for steps of up to 512, for which \<open>dump\<close> is modelled, and may not be for longer ones.
\<close>

definition indent_grow :: "nat \<Rightarrow> nat \<Rightarrow> nat" where
  "indent_grow len new_indent = (if len < new_indent then len * 2 else len)"

lemma indent_grow_enough:
  "512 \<le> len \<Longrightarrow> cur \<le> len \<Longrightarrow> step \<le> 512 \<Longrightarrow> cur + step \<le> indent_grow len (cur + step) \<and> len \<le> indent_grow len (cur + step)"
  by (simp add: indent_grow_def)

lemma indent_grow_too_short: "1024 < step \<Longrightarrow> indent_grow 512 (0 + step) < step"
  by (simp add: indent_grow_def)

text \<open>Bytes in front of, between and behind what may have failed.\<close>

fun joined :: "nat list \<Rightarrow> nat list option list \<Rightarrow> nat list option" where
  "joined sep [] = Some []"
| "joined sep [x] = x"
| "joined sep (x # xs) = (case (x, joined sep xs) of (Some a, Some b) \<Rightarrow> Some (a @ sep @ b) | _ \<Rightarrow> None)"

fun dump :: "bool \<Rightarrow> bool \<Rightarrow> nat \<Rightarrow> nat \<Rightarrow> json \<Rightarrow> nat list option" where
  "dump pretty ascii step cur (Object ms) =
     (if ms = [] then Some [0x7B, 0x7D]
      else if pretty
      then map_option (\<lambda>body. [0x7B, 0x0A] @ body @ [0x0A] @ spaces cur @ [0x7D])
             (joined [0x2C, 0x0A]
               (map (\<lambda>(k, v). map_option (\<lambda>out. spaces (cur + step) @ out)
                  (joined [0x22, 0x3A, 0x20]
                    [map_option (\<lambda>out. 0x22 # out) (dump_escaped ascii k), dump True ascii step (cur + step) v])) ms))
      else map_option (\<lambda>body. [0x7B] @ body @ [0x7D])
             (joined [0x2C]
               (map (\<lambda>(k, v). joined [0x22, 0x3A]
                  [map_option (\<lambda>out. 0x22 # out) (dump_escaped ascii k), dump False ascii step cur v]) ms)))"
| "dump pretty ascii step cur (Array vs) =
     (if vs = [] then Some [0x5B, 0x5D]
      else if pretty
      then map_option (\<lambda>body. [0x5B, 0x0A] @ body @ [0x0A] @ spaces cur @ [0x5D])
             (joined [0x2C, 0x0A]
               (map (\<lambda>v. map_option (\<lambda>out. spaces (cur + step) @ out) (dump True ascii step (cur + step) v)) vs))
      else map_option (\<lambda>body. [0x5B] @ body @ [0x5D])
             (joined [0x2C] (map (\<lambda>v. dump False ascii step cur v) vs)))"
| "dump pretty ascii step cur (String s) = map_option (\<lambda>out. [0x22] @ out @ [0x22]) (dump_escaped ascii s)"
| "dump pretty ascii step cur (Boolean b) =
     Some (if b then [0x74, 0x72, 0x75, 0x65] else [0x66, 0x61, 0x6C, 0x73, 0x65])"
| "dump pretty ascii step cur (Number_integer x) = Some (dump_integer x)"
| "dump pretty ascii step cur (Number_unsigned x) = Some (dump_integer (int x))"
| "dump pretty ascii step cur (Number_float x) = dump_float x"
| "dump pretty ascii step cur Null = Some [0x6E, 0x75, 0x6C, 0x6C]"

end
