(* ===== verification/Json_Utf8.thy ===== *)
theory Json_Utf8
  imports Json_Dump
begin

text \<open>
  Strings in UTF-8. The scanner checks the bytes of a character one by one against their ranges, the
  serializer with a table of states. Both accept the texts that are \<open>utf8\<close>, and what the serializer writes
  for one, with or without escapes, is read as that text.
\<close>

section \<open>Texts in UTF-8\<close>

fun in_ranges :: "(nat \<times> nat) list \<Rightarrow> nat list \<Rightarrow> bool" where
  "in_ranges [] [] = True"
| "in_ranges (r # rs) (b # bs) = (fst r \<le> b \<and> b \<le> snd r \<and> in_ranges rs bs)"
| "in_ranges _ _ = False"

inductive utf8 :: "nat list \<Rightarrow> bool" where
  utf8_Nil: "utf8 []"
| utf8_ascii: "b < 0x80 \<Longrightarrow> utf8 bs \<Longrightarrow> utf8 (b # bs)"
| utf8_multi: "tail_ranges c = Some rs \<Longrightarrow> in_ranges rs ts \<Longrightarrow> utf8 bs \<Longrightarrow> utf8 (c # ts @ bs)"

lemma utf8_append: "utf8 xs \<Longrightarrow> utf8 ys \<Longrightarrow> utf8 (xs @ ys)"
proof (induction xs rule: utf8.induct)
  case (utf8_multi c rs ts bs)
  then have "utf8 (c # ts @ (bs @ ys))" by (intro utf8.utf8_multi) auto
  then show ?case by simp
qed (auto intro: utf8.intros)

text \<open>The kinds of the bytes and the transitions.\<close>

lemma utf8d_kind:
  "b < 0x80 \<Longrightarrow> utf8d ! b = 0"
  "0x80 \<le> b \<Longrightarrow> b < 0x90 \<Longrightarrow> utf8d ! b = 1"
  "0x90 \<le> b \<Longrightarrow> b < 0xA0 \<Longrightarrow> utf8d ! b = 9"
  "0xA0 \<le> b \<Longrightarrow> b < 0xC0 \<Longrightarrow> utf8d ! b = 7"
  "0xC2 \<le> b \<Longrightarrow> b < 0xE0 \<Longrightarrow> utf8d ! b = 2"
  by (simp_all add: utf8d_def nth_append) presburger+

lemma utf8d_lead:
  "utf8d ! 0xE0 = 0xA" "utf8d ! 0xED = 4" "utf8d ! 0xF0 = 0xB" "utf8d ! 0xF4 = 5"
  by (simp_all add: utf8d_def nth_append)

lemma utf8d_lead_range:
  "0xE1 \<le> b \<Longrightarrow> b \<le> 0xEC \<Longrightarrow> utf8d ! b = 3"
  "0xEE \<le> b \<Longrightarrow> b \<le> 0xEF \<Longrightarrow> utf8d ! b = 3"
  "0xF1 \<le> b \<Longrightarrow> b \<le> 0xF3 \<Longrightarrow> utf8d ! b = 6"
proof -
  have n: "list_all (\<lambda>i. utf8d ! i = 3) [0xE1, 0xE2, 0xE3, 0xE4, 0xE5, 0xE6, 0xE7, 0xE8, 0xE9, 0xEA, 0xEB, 0xEC, 0xEE, 0xEF]"
    "list_all (\<lambda>i. utf8d ! i = 6) [0xF1, 0xF2, 0xF3]"
    by (simp_all add: utf8d_def nth_append)
  have m: "b \<in> set [0xE1, 0xE2, 0xE3, 0xE4, 0xE5, 0xE6, 0xE7, 0xE8, 0xE9, 0xEA, 0xEB, 0xEC, 0xEE, 0xEF]"
    if "0xE1 \<le> b \<and> b \<le> 0xEC \<or> 0xEE \<le> b \<and> b \<le> 0xEF" using that by (simp, presburger)
  have k: "b \<in> set [0xF1, 0xF2, 0xF3]" if "0xF1 \<le> b" "b \<le> 0xF3" using that by (simp, presburger)
  show "0xE1 \<le> b \<Longrightarrow> b \<le> 0xEC \<Longrightarrow> utf8d ! b = 3"
    "0xEE \<le> b \<Longrightarrow> b \<le> 0xEF \<Longrightarrow> utf8d ! b = 3"
    using n(1) m unfolding list_all_iff by blast+
  show "0xF1 \<le> b \<Longrightarrow> b \<le> 0xF3 \<Longrightarrow> utf8d ! b = 6"
    using n(2) k unfolding list_all_iff by blast
qed

lemma utf8d_first:
  "utf8d ! 256 = 0" "utf8d ! 258 = 2" "utf8d ! 259 = 3" "utf8d ! 260 = 5" "utf8d ! 261 = 8" "utf8d ! 262 = 7"
  "utf8d ! 266 = 4" "utf8d ! 267 = 6"
  by (simp_all add: utf8d_def nth_append)

lemma utf8d_next:
  "utf8d ! (256 + 2 * 16 + 1) = 0" "utf8d ! (256 + 2 * 16 + 7) = 0" "utf8d ! (256 + 2 * 16 + 9) = 0"
  "utf8d ! (256 + 3 * 16 + 1) = 2" "utf8d ! (256 + 3 * 16 + 7) = 2" "utf8d ! (256 + 3 * 16 + 9) = 2"
  "utf8d ! (256 + 4 * 16 + 7) = 2" "utf8d ! (256 + 5 * 16 + 1) = 2" "utf8d ! (256 + 5 * 16 + 9) = 2"
  "utf8d ! (256 + 6 * 16 + 7) = 3" "utf8d ! (256 + 6 * 16 + 9) = 3"
  "utf8d ! (256 + 7 * 16 + 1) = 3" "utf8d ! (256 + 7 * 16 + 7) = 3" "utf8d ! (256 + 7 * 16 + 9) = 3"
  "utf8d ! (256 + 8 * 16 + 1) = 3"
  by (simp_all add: utf8d_def nth_append)


text \<open>What the states wait for.\<close>

definition pending :: "nat \<Rightarrow> (nat \<times> nat) list" where
  "pending st =
     (if st = 2 then [(0x80, 0xBF)]
      else if st = 3 then [(0x80, 0xBF), (0x80, 0xBF)]
      else if st = 4 then [(0xA0 :: nat, 0xBF :: nat), (0x80, 0xBF)]
      else if st = 5 then [(0x80, 0x9F), (0x80, 0xBF)]
      else if st = 6 then [(0x90 :: nat, 0xBF :: nat), (0x80, 0xBF), (0x80, 0xBF)]
      else if st = 7 then [(0x80, 0xBF), (0x80, 0xBF), (0x80, 0xBF)]
      else if st = 8 then [(0x80, 0x8F), (0x80, 0xBF), (0x80, 0xBF)]
      else [])"

lemma mod_rest: "a - k * n < n \<Longrightarrow> k * n \<le> a \<Longrightarrow> a mod n = a - k * n" for a k n :: nat
  by (metis add.commute le_add_diff_inverse mod_less mod_mult_self1)

lemma cont_kinds:
  assumes "0x80 \<le> b" "b \<le> 0xBF"
  shows "b \<le> 0x8F \<and> utf8d ! b = 1 \<or> 0x90 \<le> b \<and> b \<le> 0x9F \<and> utf8d ! b = 9 \<or> 0xA0 \<le> b \<and> utf8d ! b = 7"
  using assms utf8d_kind(2-4) [of b] by linarith

lemma decode_next:
  assumes "pending st = r # rs" "fst r \<le> b" "b \<le> snd r"
  shows "\<exists>st'. decode st cp b = (st', b - 0x80 + cp * 2 ^ 6) \<and> pending st' = rs \<and> st' \<noteq> 1 \<and> (st' = 0 \<longleftrightarrow> rs = [])"
proof -
  have st: "st \<in> {2, 3, 4, 5, 6, 7, 8}" using assms(1) by (auto simp: pending_def split: if_splits)
  have b: "0x80 \<le> b" "b \<le> 0xBF" using assms by (auto simp: pending_def split: if_splits)
  have m: "b mod 0x40 = b - 0x80" using b mod_rest [of b 2 "0x40"] by simp
  define st' where "st' = utf8d ! (256 + st * 16 + utf8d ! b)"
  have "pending st' = rs \<and> st' \<noteq> 1 \<and> (st' = 0 \<longleftrightarrow> rs = [])"
    using cont_kinds [OF b]
  proof (elim disjE conjE)
    assume "b \<le> 0x8F" "utf8d ! b = 1"
    then show ?thesis using st assms(1,2) by (elim insertE) (auto simp: st'_def pending_def utf8d_next [simplified])
  next
    assume "0x90 \<le> b" "b \<le> 0x9F" "utf8d ! b = 9"
    then show ?thesis using st assms by (elim insertE) (auto simp: st'_def pending_def utf8d_next [simplified])
  next
    assume "0xA0 \<le> b" "utf8d ! b = 7"
    then show ?thesis using st assms(1,3) by (elim insertE) (auto simp: st'_def pending_def utf8d_next [simplified])
  qed
  moreover have "decode st cp b = (st', b - 0x80 + cp * 2 ^ 6)"
    using st by (simp only: decode_def Let_def m st'_def) auto
  ultimately show ?thesis by blast
qed


text \<open>The bits of the code point in the first byte.\<close>

definition lead_bits :: "nat \<Rightarrow> nat" where
  "lead_bits c = (if c \<le> 0xDF then c - 0xC0 else if c \<le> 0xEF then c - 0xE0 else c - 0xF0)"

lemma low_bits:
  fixes c :: nat
  shows "0xC2 \<le> c \<Longrightarrow> c \<le> 0xDF \<Longrightarrow> c mod 2 ^ 6 = c - 0xC0" "0xE1 \<le> c \<Longrightarrow> c \<le> 0xEF \<Longrightarrow> c mod 2 ^ 5 = c - 0xE0"
  "0xF1 \<le> c \<Longrightarrow> c \<le> 0xF3 \<Longrightarrow> c mod 2 ^ 2 = c - 0xF0"
  using mod_rest [of c 3 "2 ^ 6"] mod_rest [of c 7 "2 ^ 5"] mod_rest [of c 60 "2 ^ 2"] by simp_all

lemma if_chain:
  "(if a then Some x1 else if b then Some x2 else if c then Some x3 else if d then Some x4 else if e then Some x5
    else if f then Some x6 else if g then Some x7 else None) = Some r \<Longrightarrow>
    a \<and> r = x1 \<or> b \<and> r = x2 \<or> c \<and> r = x3 \<or> d \<and> r = x4 \<or> e \<and> r = x5 \<or> f \<and> r = x6 \<or> g \<and> r = x7"
  by (simp split: if_splits)

lemma decode_first:
  assumes "tail_ranges c = Some rs"
  shows "\<exists>st. decode 0 cp c = (st, lead_bits c) \<and> pending st = rs \<and> st \<noteq> 0 \<and> st \<noteq> 1"
proof -
  have p: "decode 0 cp c = (st, lead_bits c) \<and> pending st = rs \<and> st \<noteq> 0 \<and> st \<noteq> 1 \<Longrightarrow> ?thesis" for st by blast
  from assms have "0xC2 \<le> c \<and> c \<le> 0xDF \<and> rs = pending 2 \<or> c = 0xE0 \<and> rs = pending 4
    \<or> (0xE1 \<le> c \<and> c \<le> 0xEC \<or> 0xEE \<le> c \<and> c \<le> 0xEF) \<and> rs = pending 3 \<or> c = 0xED \<and> rs = pending 5
    \<or> c = 0xF0 \<and> rs = pending 6 \<or> (0xF1 \<le> c \<and> c \<le> 0xF3) \<and> rs = pending 7 \<or> c = 0xF4 \<and> rs = pending 8"
    unfolding tail_ranges_def by (drule_tac if_chain) (simp add: pending_def)
  then show ?thesis
  proof (elim disjE conjE)
    assume "0xC2 \<le> c" "c \<le> 0xDF" "rs = pending 2"
    then show ?thesis
      using low_bits(1) [of c] utf8d_kind(5) [of c] by (intro p [of 2]) (simp add: decode_def utf8d_first lead_bits_def)
  next
    assume "0xE1 \<le> c" "c \<le> 0xEC" "rs = pending 3"
    then show ?thesis
      using low_bits(2) [of c] utf8d_lead_range(1) [of c] by (intro p [of 3]) (simp add: decode_def utf8d_first lead_bits_def)
  next
    assume "0xEE \<le> c" "c \<le> 0xEF" "rs = pending 3"
    then show ?thesis
      using low_bits(2) [of c] utf8d_lead_range(2) [of c] by (intro p [of 3]) (simp add: decode_def utf8d_first lead_bits_def)
  next
    assume "0xF1 \<le> c" "c \<le> 0xF3" "rs = pending 7"
    then show ?thesis
      using low_bits(3) [of c] utf8d_lead_range(3) [of c] by (intro p [of 7]) (simp add: decode_def utf8d_first lead_bits_def)
  next
    assume "c = 0xE0" "rs = pending 4"
    then show ?thesis by (intro p [of 4]) (simp add: decode_def utf8d_first utf8d_lead lead_bits_def)
  next
    assume "c = 0xED" "rs = pending 5"
    then show ?thesis by (intro p [of 5]) (simp add: decode_def utf8d_first utf8d_lead lead_bits_def)
  next
    assume "c = 0xF0" "rs = pending 6"
    then show ?thesis by (intro p [of 6]) (simp add: decode_def utf8d_first utf8d_lead lead_bits_def)
  next
    assume "c = 0xF4" "rs = pending 8"
    then show ?thesis by (intro p [of 8]) (simp add: decode_def utf8d_first utf8d_lead lead_bits_def)
  qed
qed

text \<open>The code point of a character; its bytes are those of the character again.\<close>

definition char_code :: "nat \<Rightarrow> nat list \<Rightarrow> nat" where
  "char_code c ts = foldl (\<lambda>cp b. b - 0x80 + cp * 2 ^ 6) (lead_bits c) ts"

lemma in_ranges_Cons: "in_ranges (r # rs) ts \<longleftrightarrow> (\<exists>b bs. ts = b # bs \<and> fst r \<le> b \<and> b \<le> snd r \<and> in_ranges rs bs)"
  by (cases ts) auto

lemma in_ranges_Nil: "in_ranges [] ts \<longleftrightarrow> ts = []"
  by (cases ts) auto

lemma bytes2: "2 \<le> x \<Longrightarrow> x < 0x20 \<Longrightarrow> y < 0x40 \<Longrightarrow> utf8_bytes (y + x * 0x40) = [0xC0 + x, 0x80 + y]" for x y :: nat
  by (simp add: utf8_bytes_def)

lemma bytes3:
  fixes x y z :: nat
  assumes "x < 0x10" "y < 0x40" "z < 0x40" "0x800 \<le> z + (y + x * 0x40) * 0x40"
  shows "utf8_bytes (z + (y + x * 0x40) * 0x40) = [0xE0 + x, 0x80 + y, 0x80 + z]"
proof -
  define cp where "cp = z + (y + x * 0x40) * 0x40"
  have "cp div 0x40 = y + x * 0x40" using assms by (simp add: cp_def)
  moreover have "cp mod 0x40 = z" unfolding cp_def using assms(3) by (simp only: mod_mult_self1 mod_less)
  moreover have "cp div 0x1000 = x" using assms by (simp add: cp_def)
  moreover have "cp \<le> 0xFFFF" "0x800 \<le> cp" using assms by (simp_all add: cp_def)
  ultimately show ?thesis using assms unfolding cp_def [symmetric] by (simp add: utf8_bytes_def)
qed

lemma bytes4:
  fixes x y z u :: nat
  assumes "x < 8" "y < 0x40" "z < 0x40" "u < 0x40" "0x10000 \<le> u + (z + (y + x * 0x40) * 0x40) * 0x40"
  shows "utf8_bytes (u + (z + (y + x * 0x40) * 0x40) * 0x40) = [0xF0 + x, 0x80 + y, 0x80 + z, 0x80 + u]"
proof -
  define w where "w = y + x * 0x40"
  define cp where "cp = u + (z + w * 0x40) * 0x40"
  have w: "w mod 0x40 = y" "w div 0x40 = x" using assms(2) by (simp_all add: w_def)
  have d: "cp div 0x40 = z + w * 0x40" using assms by (simp add: cp_def)
  have m: "cp mod 0x40 = u" unfolding cp_def using assms(4) by (simp only: mod_mult_self1 mod_less)
  have "cp div 0x1000 = w" "cp div 0x40000 = x" using assms by (simp_all add: cp_def w_def)
  then show ?thesis
    using assms d m w unfolding cp_def [symmetric] w_def [symmetric] by (simp add: utf8_bytes_def)
qed


definition good_code :: "nat \<Rightarrow> bool" where
  "good_code cp \<longleftrightarrow> 0x80 \<le> cp \<and> cp < 0x110000 \<and> \<not> (0xD800 \<le> cp \<and> cp \<le> 0xDFFF)"

lemma char_ok2:
  assumes "0xC2 \<le> c" "c \<le> 0xDF" "in_ranges [(0x80, 0xBF)] ts"
  shows "utf8_bytes (char_code c ts) = c # ts \<and> good_code (char_code c ts)"
proof -
  obtain t where t: "ts = [t]" "0x80 \<le> t" "t \<le> 0xBF" using assms(3) by (auto simp: in_ranges_Cons in_ranges_Nil)
  define x y where "x = c - 0xC0" "y = t - 0x80"
  then have xy: "c = 0xC0 + x" "t = 0x80 + y" using assms(1) t(2) by simp_all
  have b: "2 \<le> x" "x < 0x20" "y < 0x40" using assms(1,2) t(3) by (simp_all add: xy)
  have "char_code c ts = y + x * 0x40" using b by (simp add: char_code_def lead_bits_def t(1) xy)
  then show ?thesis using bytes2 [OF b] b by (simp add: t(1) xy good_code_def)
qed

lemma char_ok3:
  assumes "0xE0 \<le> c" "c \<le> 0xEF" "0x80 \<le> t1" "t1 \<le> 0xBF" "0x80 \<le> t2" "t2 \<le> 0xBF"
    and "c = 0xE0 \<Longrightarrow> 0xA0 \<le> t1" "c = 0xED \<Longrightarrow> t1 \<le> 0x9F"
  shows "utf8_bytes (char_code c [t1, t2]) = [c, t1, t2] \<and> good_code (char_code c [t1, t2])"
proof -
  define x y z where xyz: "x = c - 0xE0" "y = t1 - 0x80" "z = t2 - 0x80"
  have v: "c = 0xE0 + x" "t1 = 0x80 + y" "t2 = 0x80 + z" using assms by (simp_all add: xyz)
  have b: "x < 0x10" "y < 0x40" "z < 0x40" using assms(2,4,6) by (simp_all add: v)
  have low: "0x800 \<le> z + (y + x * 0x40) * 0x40" using assms(7) by (cases x) (simp_all add: v)
  have cp: "char_code c [t1, t2] = z + (y + x * 0x40) * 0x40" using b by (simp add: char_code_def lead_bits_def v)
  have "\<not> (0xD800 \<le> z + (y + x * 0x40) * 0x40 \<and> z + (y + x * 0x40) * 0x40 \<le> 0xDFFF)"
  proof -
    have "x = 13 \<and> y < 0x20 \<or> x \<le> 12 \<or> 14 \<le> x" using assms(8) by (auto simp: v)
    then show ?thesis using b by auto
  qed
  then show ?thesis using bytes3 [OF b low] b low unfolding cp good_code_def by (simp add: v)
qed

lemma char_ok4:
  assumes "0xF0 \<le> c" "c \<le> 0xF4" "0x80 \<le> t1" "t1 \<le> 0xBF" "0x80 \<le> t2" "t2 \<le> 0xBF" "0x80 \<le> t3" "t3 \<le> 0xBF"
    and "c = 0xF0 \<Longrightarrow> 0x90 \<le> t1" "c = 0xF4 \<Longrightarrow> t1 \<le> 0x8F"
  shows "utf8_bytes (char_code c [t1, t2, t3]) = [c, t1, t2, t3] \<and> good_code (char_code c [t1, t2, t3])"
proof -
  define x y z u where xyz: "x = c - 0xF0" "y = t1 - 0x80" "z = t2 - 0x80" "u = t3 - 0x80"
  have v: "c = 0xF0 + x" "t1 = 0x80 + y" "t2 = 0x80 + z" "t3 = 0x80 + u" using assms by (simp_all add: xyz)
  have b: "x < 8" "y < 0x40" "z < 0x40" "u < 0x40" using assms(2,4,6,8) by (simp_all add: v)
  have low: "0x10000 \<le> u + (z + (y + x * 0x40) * 0x40) * 0x40" using assms(9) by (cases x) (simp_all add: v)
  have up: "u + (z + (y + x * 0x40) * 0x40) * 0x40 < 0x110000" using assms(2,10) b by (cases "x = 4") (simp_all add: v)
  have cp: "char_code c [t1, t2, t3] = u + (z + (y + x * 0x40) * 0x40) * 0x40" using b by (simp add: char_code_def lead_bits_def v)
  show ?thesis using bytes4 [OF b low] low up unfolding cp good_code_def by (simp add: v)
qed

lemma char_ok:
  assumes "tail_ranges c = Some rs" "in_ranges rs ts"
  shows "utf8_bytes (char_code c ts) = c # ts \<and> good_code (char_code c ts)"
  using if_chain [OF assms(1) [unfolded tail_ranges_def]]
proof (elim disjE conjE)
  assume "0xC2 \<le> c" "c \<le> 0xDF" "rs = [(0x80, 0xBF)]"
  then show ?thesis using char_ok2 assms(2) by blast
qed (use assms(2) in \<open>auto simp: in_ranges_Cons in_ranges_Nil
    intro!: char_ok3 [THEN conjunct1] char_ok3 [THEN conjunct2] char_ok4 [THEN conjunct1] char_ok4 [THEN conjunct2]\<close>)


section \<open>Strings written and read\<close>

lemma hex_digit_char: "d < 16 \<Longrightarrow> hex_digit (hex_char d) = Some d"
  by (simp add: hex_digit_def hex_char_def)

lemma get_codepoint_escape:
  assumes "cp \<le> 0xFFFF"
  shows "\<exists>hs. unicode_escape cp = [0x5C, 0x75] @ hs \<and> (\<forall>X. get_codepoint (hs @ X) = (Some cp, X))"
proof -
  have "cp div 2 ^ 12 * 2 ^ 12 + cp div 2 ^ 8 mod 16 * 2 ^ 8 + cp div 2 ^ 4 mod 16 * 2 ^ 4 + cp mod 16 = cp"
  proof -
    define q1 q2 q3 where "q1 = cp div 16" "q2 = q1 div 16" "q3 = q2 div 16"
    note q = this
    have "cp = 16 * q1 + cp mod 16" "q1 = 16 * q2 + q1 mod 16" "q2 = 16 * q3 + q2 mod 16" by (simp_all add: q)
    moreover have "q3 < 16" using assms by (simp add: q div_mult2_eq [symmetric])
    moreover have "cp div 2 ^ 12 = q3" "cp div 2 ^ 8 = q2" "cp div 2 ^ 4 = q1" by (simp_all add: q div_mult2_eq [symmetric])
    ultimately show ?thesis by simp
  qed
  then show ?thesis
    using assms by (simp add: unicode_escape_def get_codepoint_def hex_digit_char)
qed

lemma scan_string_escape:
  assumes "cp \<le> 0xFFFF" "\<not> (0xD800 \<le> cp \<and> cp \<le> 0xDFFF)"
  shows "scan_string buf (unicode_escape cp @ X) = scan_string (buf @ utf8_bytes cp) X"
proof -
  obtain hs where hs: "unicode_escape cp = [0x5C, 0x75] @ hs" "\<And>X. get_codepoint (hs @ X) = (Some cp, X)"
    using get_codepoint_escape [OF assms(1)] by blast
  show ?thesis using assms(2) by (auto simp: hs scan_escape_def scan_unicode_def)
qed

lemma scan_string_pair:
  assumes "0x10000 \<le> cp" "cp < 0x110000"
  shows "scan_string buf (unicode_escape (0xD7C0 + cp div 2 ^ 10) @ unicode_escape (0xDC00 + cp mod 0x400) @ X) =
    scan_string (buf @ utf8_bytes cp) X"
proof -
  define h l where "h = 0xD7C0 + cp div 2 ^ 10" "l = 0xDC00 + cp mod 0x400"
  have "0x40 \<le> cp div 2 ^ 10" "cp div 2 ^ 10 < 0x440" "cp mod 0x400 < 0x400"
    using assms by (simp_all add: less_eq_div_iff_mult_less_eq less_mult_imp_div_less)
  then have h: "0xD800 \<le> h" "h \<le> 0xDBFF" and l: "0xDC00 \<le> l" "l \<le> 0xDFFF" by (simp_all add: h_l_def)
  have sum: "h * 2 ^ 10 + l - 0x35FDC00 = cp" using div_mult_mod_eq [of cp "0x400"] by (simp add: h_l_def add_mult_distrib)
  obtain hs where hs: "unicode_escape h = [0x5C, 0x75] @ hs" "\<And>X. get_codepoint (hs @ X) = (Some h, X)"
    using get_codepoint_escape [of h] h by auto
  obtain ls where ls: "unicode_escape l = [0x5C, 0x75] @ ls" "\<And>X. get_codepoint (ls @ X) = (Some l, X)"
    using get_codepoint_escape [of l] l by auto
  have "scan_unicode (hs @ unicode_escape l @ X) = (Some (utf8_bytes cp), X)"
    using h l by (simp add: scan_unicode_def hs(2) ls sum [simplified])
  then show ?thesis unfolding h_l_def [symmetric] by (simp add: hs(1) scan_escape_def)
qed

lemma bytes_in_range_tail: "in_ranges rs ts \<Longrightarrow> bytes_in_range rs added (ts @ X) = (Some (added @ ts), X)"
  by (induction rs ts arbitrary: added rule: in_ranges.induct) simp_all

lemma scan_string_bytes:
  assumes "tail_ranges c = Some rs" "in_ranges rs ts"
  shows "scan_string buf (c # ts @ X) = scan_string (buf @ c # ts) X"
proof -
  have "0x80 \<le> c" using if_chain [OF assms(1) [unfolded tail_ranges_def]] by auto
  then show ?thesis using assms by (simp add: bytes_in_range_tail)
qed

text \<open>What is written for a character of more bytes.\<close>

definition char_text :: "bool \<Rightarrow> nat \<Rightarrow> nat list \<Rightarrow> nat list" where
  "char_text ascii c ts =
     (if \<not> ascii then c # ts
      else if char_code c ts \<le> 0xFFFF then unicode_escape (char_code c ts)
      else unicode_escape (0xD7C0 + char_code c ts div 2 ^ 10) @ unicode_escape (0xDC00 + char_code c ts mod 0x400))"

lemma scan_char_text:
  assumes "tail_ranges c = Some rs" "in_ranges rs ts"
  shows "scan_string buf (char_text ascii c ts @ X) = scan_string (buf @ c # ts) X"
  using char_ok [OF assms] scan_string_bytes [OF assms, of buf X] scan_string_escape [of "char_code c ts" buf X]
    scan_string_pair [of "char_code c ts" buf X]
  by (auto simp: char_text_def good_code_def)


lemma dump_bytes_start: "dump_bytes ascii 0 cp bs = dump_bytes ascii 0 0 bs"
  by (cases bs) (simp_all add: decode_def)

lemma dump_bytes_tail:
  "pending st = rs \<Longrightarrow> in_ranges rs ts \<Longrightarrow> st \<noteq> 0 \<Longrightarrow> st \<noteq> 1 \<Longrightarrow> rs \<noteq> [] \<Longrightarrow>
    dump_bytes ascii st cp (ts @ bs) =
      map_option (\<lambda>out. (if ascii then [] else butlast ts) @
          escape_codepoint ascii (foldl (\<lambda>cp b. b - 0x80 + cp * 2 ^ 6) cp ts) (last ts) @ out) (dump_bytes ascii 0 0 bs)"
proof (induction rs arbitrary: st cp ts)
  case (Cons r rs)
  obtain t us where ts: "ts = t # us" "fst r \<le> t" "t \<le> snd r" "in_ranges rs us" using Cons.prems(2) by (auto simp: in_ranges_Cons)
  obtain st' where st': "decode st cp t = (st', t - 0x80 + cp * 2 ^ 6)" "pending st' = rs" "st' \<noteq> 1" "st' = 0 \<longleftrightarrow> rs = []"
    using decode_next [OF Cons.prems(1) ts(2,3)] by blast
  show ?case
  proof (cases rs)
    case Nil
    then have "us = []" "st' = 0" using ts(4) st'(4) by (simp_all add: in_ranges_Nil)
    then show ?thesis using st'(1) by (simp add: ts(1) dump_bytes_start [of _ "t - 128 + cp * 64"])
  next
    case (Cons r' rs')
    then have "us \<noteq> []" using ts(4) by auto
    then show ?thesis
      using Cons.IH [OF st'(2) ts(4) _ st'(3)] Cons st' by (simp add: ts(1) option.map_comp o_def)
  qed
qed simp

lemma dump_char:
  assumes "tail_ranges c = Some rs" "in_ranges rs ts"
  shows "dump_bytes ascii 0 cp (c # ts @ bs) = map_option (\<lambda>out. char_text ascii c ts @ out) (dump_bytes ascii 0 0 bs)"
proof -
  obtain st where st: "decode 0 cp c = (st, lead_bits c)" "pending st = rs" "st \<noteq> 0" "st \<noteq> 1"
    using decode_first [OF assms(1)] by blast
  have rs: "rs \<noteq> []" using if_chain [OF assms(1) [unfolded tail_ranges_def]] by auto
  then have ts: "ts \<noteq> []" using assms(2) by (cases rs; cases ts) auto
  have bl: "butlast ts @ last ts # x = ts @ x" for x
    using ts by (metis append_Cons append_Nil append_assoc append_butlast_last_id)
  have cons: "(@) (c # ts) = (\<lambda>x. c # ts @ x)" by (rule ext) simp
  have "good_code (char_code c ts)" using char_ok [OF assms] by blast
  then have "escape_codepoint ascii (char_code c ts) b = (if ascii then char_text ascii c ts else [b])" for b
    by (auto simp: escape_codepoint_def good_code_def char_text_def)
  then show ?thesis
    using dump_bytes_tail [OF st(2) assms(2) st(3,4) rs, of ascii "lead_bits c" bs, folded char_code_def] st
    by (simp add: option.map_comp o_def) (simp add: char_text_def bl cons)
qed


lemma scan_ascii:
  assumes "b < 0x80"
  shows "scan_string buf (escape_codepoint ascii b b @ X) = scan_string (buf @ [b]) X"
proof (cases "b \<in> {0x08, 0x09, 0x0A, 0x0C, 0x0D, 0x22, 0x5C}")
  case True
  then show ?thesis by (auto simp: escape_codepoint_def scan_escape_def)
next
  case False
  show ?thesis
  proof (cases "b \<le> 0x1F \<or> ascii \<and> 0x7F \<le> b")
    case True
    then have "escape_codepoint ascii b b = unicode_escape b" using False assms by (auto simp: escape_codepoint_def)
    moreover have "utf8_bytes b = [b]" using assms by (simp add: utf8_bytes_def)
    ultimately show ?thesis using assms scan_string_escape [of b buf X] by simp
  next
    case False': False
    then have "escape_codepoint ascii b b = [b]" using False by (auto simp: escape_codepoint_def)
    then show ?thesis using False False' assms by simp
  qed
qed

text \<open>A string in UTF-8 is written, and what is written is read as the string.\<close>

lemma dump_scan_string:
  assumes "utf8 bs"
  shows "\<exists>out. dump_bytes ascii 0 0 bs = Some out \<and> (\<forall>buf X. scan_string buf (out @ X) = scan_string (buf @ bs) X)"
  using assms
proof (induction bs rule: utf8.induct)
  case utf8_Nil
  then show ?case by simp
next
  case (utf8_ascii b bs)
  then obtain out where out: "dump_bytes ascii 0 0 bs = Some out" "\<And>buf X. scan_string buf (out @ X) = scan_string (buf @ bs) X"
    by blast
  have "decode 0 0 b = (0, b)" using utf8_ascii(1) by (simp add: decode_def utf8d_kind utf8d_first)
  then have "dump_bytes ascii 0 0 (b # bs) = Some (escape_codepoint ascii b b @ out)"
    using out(1) dump_bytes_start [of ascii b bs] by simp
  then show ?case using scan_ascii [OF utf8_ascii(1)] out(2) by simp
next
  case (utf8_multi c rs ts bs)
  then obtain out where out: "dump_bytes ascii 0 0 bs = Some out" "\<And>buf X. scan_string buf (out @ X) = scan_string (buf @ bs) X"
    by blast
  then show ?case
    using dump_char [OF utf8_multi(1,2), of ascii 0 bs] scan_char_text [OF utf8_multi(1,2), of _ ascii] by simp
qed

lemma utf8_char: "tail_ranges c = Some rs \<Longrightarrow> in_ranges rs ts \<Longrightarrow> utf8 (c # ts)"
  using utf8_multi [of c rs ts "[]"] utf8_Nil by simp

lemma utf8_utf8_bytes:
  assumes "cp < 0x110000" "\<not> (0xD800 \<le> cp \<and> cp \<le> 0xDFFF)"
  shows "utf8 (utf8_bytes cp)"
proof -
  consider "cp < 0x80" | "0x80 \<le> cp" "cp \<le> 0x7FF" | "0x800 \<le> cp" "cp \<le> 0xFFFF" | "0x10000 \<le> cp" by linarith
  then show ?thesis
  proof cases
    case 1
    then show ?thesis by (simp add: utf8_bytes_def utf8.intros)
  next
    case 2
    then have "2 \<le> cp div 2 ^ 6" "cp div 2 ^ 6 < 0x20" "cp mod 0x40 < 0x40"
      by (simp_all add: less_eq_div_iff_mult_less_eq less_mult_imp_div_less)
    then show ?thesis using 2
      by (simp add: utf8_bytes_def) (rule utf8_char [of _ "[(0x80, 0xBF)]"]; simp add: tail_ranges_def)
  next
    case 3
    define w x y where "w = cp div 0x40" "x = w div 0x40" "y = w mod 0x40"
    note wxy = this
    have w: "w = x * 0x40 + y" "y < 0x40" by (simp_all add: wxy)
    have b: "0x20 \<le> w" "w < 0x400" "\<not> (0x360 \<le> w \<and> w < 0x380)"
      using 3 assms(2) by (auto simp: wxy less_eq_div_iff_mult_less_eq less_mult_imp_div_less div_less_iff_less_mult)
    have x: "x < 0x10" "x = 0 \<Longrightarrow> 0x20 \<le> y" "x = 0xD \<Longrightarrow> y < 0x20" using b w by auto
    have u: "utf8_bytes cp = [0xE0 + x, 0x80 + y, 0x80 + cp mod 0x40]"
      using 3 by (simp add: utf8_bytes_def wxy div_mult2_eq [symmetric])
    define rs where "rs = (if x = 0 then [(0xA0 :: nat, 0xBF :: nat), (0x80, 0xBF)] else if x = 0xD then [(0x80, 0x9F), (0x80, 0xBF)]
        else [(0x80, 0xBF), (0x80, 0xBF)])"
    have "tail_ranges (0xE0 + x) = Some rs" using x(1) by (auto simp: tail_ranges_def rs_def)
    moreover have "in_ranges rs [0x80 + y, 0x80 + cp mod 0x40]" using x w(2) mod_less_divisor [of "0x40" cp] by (auto simp: rs_def)
    ultimately show ?thesis unfolding u by (rule utf8_char)
  next
    case 4
    define v w x y where "v = cp div 0x40" "w = v div 0x40" "x = w div 0x40" "y = w mod 0x40"
    note wxy = this
    have w: "w = x * 0x40 + y" "y < 0x40" by (simp_all add: wxy)
    have b: "0x10 \<le> w" "w < 0x110"
      using 4 assms(1) by (simp_all add: wxy less_eq_div_iff_mult_less_eq less_mult_imp_div_less div_less_iff_less_mult)
    have x: "x \<le> 4" "x = 0 \<Longrightarrow> 0x10 \<le> y" "x = 4 \<Longrightarrow> y < 0x10" using b w by auto
    have u: "utf8_bytes cp = [0xF0 + x, 0x80 + y, 0x80 + v mod 0x40, 0x80 + cp mod 0x40]"
      using 4 by (simp add: utf8_bytes_def wxy div_mult2_eq [symmetric])
    define rs where "rs = (if x = 0 then [(0x90 :: nat, 0xBF :: nat), (0x80, 0xBF), (0x80, 0xBF)]
        else if x = 4 then [(0x80, 0x8F), (0x80, 0xBF), (0x80, 0xBF)] else [(0x80, 0xBF), (0x80, 0xBF), (0x80, 0xBF)])"
    have "tail_ranges (0xF0 + x) = Some rs" using x(1) by (auto simp: tail_ranges_def rs_def)
    moreover have "in_ranges rs [0x80 + y, 0x80 + v mod 0x40, 0x80 + cp mod 0x40]"
      using x w(2) mod_less_divisor [of "0x40" cp] mod_less_divisor [of "0x40" v] by (auto simp: rs_def)
    ultimately show ?thesis unfolding u by (rule utf8_char)
  qed
qed

section \<open>What is read is UTF-8\<close>

lemma codepoint_bound: "codepoint_loop fs cp cs = (Some x, r) \<Longrightarrow> x \<le> cp + (\<Sum>f\<leftarrow>fs. 15 * 2 ^ f)"
proof (induction fs cp cs rule: codepoint_loop.induct)
  case (3 f fs cp c cs)
  then obtain d where d: "hex_digit c = Some d" "codepoint_loop fs (cp + d * 2 ^ f) cs = (Some x, r)"
    by (auto split: option.splits)
  then have "d \<le> 15" by (auto simp: hex_digit_def split: if_splits)
  then have "d * 2 ^ f \<le> 15 * 2 ^ f" by (rule mult_le_mono1)
  moreover have "x \<le> cp + d * 2 ^ f + (\<Sum>f\<leftarrow>fs. 15 * 2 ^ f)" using 3(1) [OF d(1,2)] .
  ultimately show ?case unfolding list.map sum_list.Cons by linarith
qed simp_all

lemma get_codepoint_bound: "get_codepoint cs = (Some x, r) \<Longrightarrow> x \<le> 0xFFFF"
  unfolding get_codepoint_def by (drule codepoint_bound) simp

lemma scan_unicode_utf8:
  assumes "scan_unicode cs = (Some bs, r)"
  shows "utf8 bs"
proof -
  obtain cp where "bs = utf8_bytes cp" "cp < 0x110000" "\<not> (0xD800 \<le> cp \<and> cp \<le> 0xDFFF)"
    using assms get_codepoint_bound unfolding scan_unicode_def
    by (auto split: prod.splits option.splits if_splits list.splits) fastforce+
  then show ?thesis using utf8_utf8_bytes by blast
qed

lemma bytes_in_range_Some: "bytes_in_range rs added cs = (Some bs, r) \<Longrightarrow> \<exists>ts. bs = added @ ts \<and> in_ranges rs ts"
proof (induction rs added cs rule: bytes_in_range.induct)
  case (3 f rs added c cs)
  then obtain ts where "bs = (added @ [c]) @ ts" "in_ranges rs ts" "fst f \<le> c" "c \<le> snd f"
    by (auto split: if_splits)
  then show ?case by (intro exI [of _ "c # ts"]) simp
qed simp_all

text \<open>What the scanner accepts as a string is UTF-8.\<close>

lemma scan_string_utf8: "scan_string buf cs = (Value_string s, r) \<Longrightarrow> utf8 buf \<Longrightarrow> utf8 s"
proof (induction buf cs rule: scan_string.induct)
  case (2 buf c cs)
  show ?case
  proof (cases "c = 0x22")
    case True
    then show ?thesis using 2 by simp
  next
    case q: False
    show ?thesis
    proof (cases "c = 0x5C")
      case True
      then obtain bs r' where bs: "scan_escape cs = (Some bs, r')" "scan_string (buf @ bs) r' = (Value_string s, r)"
        using 2(4) q by (auto split: prod.splits option.splits)
      have "utf8 bs"
        using bs(1) scan_unicode_utf8 by (auto simp: scan_escape_def intro!: utf8.intros split: list.splits if_splits)
      then show ?thesis using 2(1) [OF q True] bs 2(5) utf8_append by auto
    next
      case e: False
      show ?thesis
      proof (cases "c \<le> 0x7F")
        case True
        then have "\<not> c \<le> 0x1F" "scan_string (buf @ [c]) cs = (Value_string s, r)"
          using 2(4) q e by (auto split: if_splits)
        moreover have "utf8 (buf @ [c])" using 2(5) True by (intro utf8_append utf8.intros) auto
        ultimately show ?thesis using 2(2) [OF q e _ True] by blast
      next
        case big: False
        then obtain rs bs r' where b: "tail_ranges c = Some rs" "bytes_in_range rs [c] cs = (Some bs, r')"
          "scan_string (buf @ bs) r' = (Value_string s, r)"
          using 2(4) q e by (auto split: prod.splits option.splits)
        obtain ts where "bs = c # ts" "in_ranges rs ts" using bytes_in_range_Some [OF b(2)] by auto
        then have "utf8 (buf @ bs)" using 2(5) utf8_char [OF b(1)] utf8_append by simp
        then show ?thesis using 2(3) [OF q e _ big b(1) b(2) [symmetric] refl b(3)] big by simp
      qed
    qed
  qed
qed simp

end
