(* ===== verification/Json_Float_Exact.thy ===== *)
theory Json_Float_Exact
  imports Json_Float Complex_Main
begin

text \<open>
  Grisu2 is right: for a positive finite \<open>double\<close> the loops end and the digits and the exponent they find
  stand for a number between the two that are halfway to the neighbours of the \<open>double\<close>, so that
  reading it with correct rounding gives the \<open>double\<close> again. The steps are those of the comments in the
  code: the table of the powers of ten is accurate to half a unit in the last place, the product of a
  significand with an entry is off by less than one unit, and the generated digits are within the
  interval that is smaller by one unit on both sides.
\<close>

section \<open>The digits of a number\<close>

lemma scaled_between:
  fixes V R P M n j sh :: nat and k :: int
  assumes "V * (10 ^ n * 2 ^ sh) + R = 10 ^ j * P" "R \<le> 10 ^ j * (P - M)" "M \<le> P"
  shows "real M * 2 powi (- int sh) * 10 powi k \<le> real V * 10 powi (k + int n - int j)"
    "real V * 10 powi (k + int n - int j) \<le> real P * 2 powi (- int sh) * 10 powi k"
proof -
  have up: "V * (10 ^ n * 2 ^ sh) \<le> 10 ^ j * P" and low: "10 ^ j * M \<le> V * (10 ^ n * 2 ^ sh)"
    using assms(1,2) mult_le_mono2 [OF assms(3), of "10 ^ j"] unfolding diff_mult_distrib2 by linarith+
  have up': "real V * 10 ^ n * 2 ^ sh \<le> 10 ^ j * real P"
    using of_nat_mono [OF up, where ?'a = real] by (simp add: mult.assoc)
  have low': "10 ^ j * real M \<le> real V * 10 ^ n * 2 ^ sh"
    using of_nat_mono [OF low, where ?'a = real] by (simp add: mult.assoc)
  have e: "real V * 10 powi (k + int n - int j) = real V * 10 ^ n / 10 ^ j * 10 powi k"
    by (simp add: power_int_add power_int_diff)
  have pos: "(0::real) < 10 powi k" by simp
  show "real M * 2 powi (- int sh) * 10 powi k \<le> real V * 10 powi (k + int n - int j)"
    unfolding e using low' by (intro mult_right_mono) (simp_all add: power_int_minus field_simps)
  show "real V * 10 powi (k + int n - int j) \<le> real P * 2 powi (- int sh) * 10 powi k"
    unfolding e using up' by (intro mult_right_mono) (simp_all add: power_int_minus field_simps)
qed

theorem digit_gen_between:
  assumes "expo M_plus = - int sh" "32 \<le> sh" "sh \<le> 60"
    and "0 < sig M_minus" "sig M_minus < sig M_plus" "sig M_minus \<le> sig w" "sig w \<le> sig M_plus"
    and "2 ^ sh \<le> unat (sig M_plus)"
  shows "\<exists>buf n. grisu2_digit_gen k M_minus w M_plus = Some (buf, n) \<and> digits buf \<and> leading buf \<and>
    real (unat (sig M_minus)) * 2 powi expo M_plus * 10 powi k \<le> real (decimal buf) * 10 powi n \<and>
    real (decimal buf) * 10 powi n \<le> real (unat (sig M_plus)) * 2 powi expo M_plus * 10 powi k"
proof -
  define dlt dist where dd: "dlt = sig M_plus - sig M_minus" "dist = sig M_plus - sig w"
  have le: "unat (sig M_minus) < unat (sig M_plus)" "unat (sig M_minus) \<le> unat (sig w)" "unat (sig w) \<le> unat (sig M_plus)"
    "0 < unat (sig M_minus)"
    using assms(4-7) by (simp_all add: word_less_nat_alt word_le_nat_alt)
  have u: "unat dlt = unat (sig M_plus) - unat (sig M_minus)" "unat dist = unat (sig M_plus) - unat (sig w)"
    using le by (simp_all add: dd unat_sub64)
  have dist: "dist \<le> dlt" and dlt: "0 < dlt" using le u by (simp_all add: word_le_nat_alt word_less_nat_alt)
  define p1 :: u32 where "p1 = ucast (drop_bit sh (sig M_plus))"
  define p2 where "p2 = sig M_plus AND (push_bit sh 1 - 1)"
  have "(2::nat) ^ 64 \<le> 2 ^ 32 * 2 ^ sh" unfolding power_add [symmetric] using assms(2) by (intro power_increasing) simp_all
  then have "unat (sig M_plus) div 2 ^ sh < 2 ^ 32"
    using unat_less [of "sig M_plus"] by (intro less_mult_imp_div_less) linarith
  then have p1: "unat p1 = unat (sig M_plus) div 2 ^ sh"
    by (simp add: p1_def unsigned_ucast_eq unat_drop_bit take_bit_nat_eq_self)
  have p2: "unat p2 = unat (sig M_plus) mod 2 ^ sh" by (simp only: p2_def unat_low_bits)
  have p12: "unat p1 * 2 ^ sh + unat p2 = unat (sig M_plus)" unfolding p1 p2 by (rule div_mult_mod_eq)
  have "p1 \<noteq> 0" using assms(8) p1 by (auto simp: div_eq_0_iff)
  obtain kk pow10 where f: "find_largest_pow10 p1 = (kk, pow10)" by force
  note f' = find_largest_pow10_ok [OF f \<open>p1 \<noteq> 0\<close>]
  have "10 ^ (kk - 1) * 2 ^ sh \<le> unat p1 * 2 ^ sh" using f'(4) by simp
  then have pow: "10 ^ (kk - 1) * 2 ^ sh < (2::nat) ^ 64" using p12 unat_less [of "sig M_plus"] by linarith
  have d: "unat dlt < unat p1 * 2 ^ sh + unat p2" using le u p12 by simp
  have sh: "nat (- expo M_plus) = sh" using assms(1) by simp
  have eq: "grisu2_digit_gen k M_minus w M_plus =
      (case gen_integral sh dlt p2 kk p1 pow10 [] of
         Inl (buf, n, rest, ten_n) \<Rightarrow> map_option (\<lambda>b. (b, k + int n)) (grisu2_round dist dlt rest ten_n buf)
       | Inr buf \<Rightarrow>
           (case gen_fraction sh p2 dlt dist 0 buf of
              None \<Rightarrow> None
            | Some (buf', m, r, dlt', dist') \<Rightarrow>
                map_option (\<lambda>b. (b, k - int m)) (grisu2_round dist' dlt' r (push_bit sh 1) buf')))"
    using f by (simp only: grisu2_digit_gen_def diyfp_sub_def Let_def dd p1_def p2_def sh diyfp.select_convs prod.case)
  have z: "decimal [] * 10 ^ kk * 2 ^ sh + unat p1 * 2 ^ sh + unat p2 = unat (sig M_plus)" using p12 by simp
  have "case gen_integral sh dlt p2 kk p1 pow10 [] of
      Inl (buf, n, rest, ten) \<Rightarrow>
        (\<exists>ds d. buf = ds @ [0x30 + d] \<and> digits ds \<and> d \<le> 9 \<and> leading buf \<and> rest \<le> dlt \<and> unat ten = 10 ^ n * 2 ^ sh \<and>
          unat dlt < unat rest + d * unat ten \<and>
          decimal buf * unat ten + unat rest = unat (sig M_plus))
    | Inr buf \<Rightarrow> digits buf \<and> leading buf \<and> unat dlt < unat p2 \<and> decimal buf * 2 ^ sh + unat p2 = unat (sig M_plus)"
    using gen_integral_ok [OF f'(1,2) pow, of p2 dlt "[]", unfolded z] d p12 unat_less [of "sig M_plus"] f'(3,4) by simp
  note g = this
  have between: "\<exists>buf n. map_option (\<lambda>b. (b, k + int m - int j)) (grisu2_round ds' dl' r ten (ds @ [0x30 + d])) = Some (buf, n) \<and>
      digits buf \<and> leading buf \<and>
      real (unat (sig M_minus)) * 2 powi (- int sh) * 10 powi k \<le> real (decimal buf) * 10 powi n \<and>
      real (decimal buf) * 10 powi n \<le> real (unat (sig M_plus)) * 2 powi (- int sh) * 10 powi k"
    if r: "r \<le> dl'" "ds' \<le> dl'" "unat dl' < unat r + d * unat ten" "d \<le> 9" "unat ten = 10 ^ m * 2 ^ sh"
      and buf: "digits ds" "leading (ds @ [0x30 + d])" and dl: "unat dl' = 10 ^ j * unat dlt"
      and V: "decimal (ds @ [0x30 + d]) * unat ten + unat r = 10 ^ j * unat (sig M_plus)"
    for ds ds' dl' r ten d m j
  proof -
    obtain d' r' where d': "grisu2_round ds' dl' r ten (ds @ [0x30 + d]) = Some (ds @ [0x30 + d'])"
      "1 \<le> d'" "d' \<le> 9" "r' \<le> unat dl'" "d' * unat ten + r' = d * unat ten + unat r"
      using grisu2_round_ok [OF r(1-4), of ds] by blast
    have V': "decimal (ds @ [0x30 + d']) * (10 ^ m * 2 ^ sh) + r' = 10 ^ j * unat (sig M_plus)"
      using V d'(5) unfolding r(5) by (simp add: algebra_simps)
    show ?thesis
      using scaled_between [OF V', of "unat (sig M_minus)" k] d' buf leading_snoc le dl u by simp
  qed
  show ?thesis
  proof (cases "gen_integral sh dlt p2 kk p1 pow10 []")
    case (Inl res)
    then obtain ds d n rest ten where res: "gen_integral sh dlt p2 kk p1 pow10 [] = Inl (ds @ [0x30 + d], n, rest, ten)"
      "digits ds" "d \<le> 9" "leading (ds @ [0x30 + d])" "rest \<le> dlt" "unat ten = 10 ^ n * 2 ^ sh"
      "unat dlt < unat rest + d * unat ten" "decimal (ds @ [0x30 + d]) * unat ten + unat rest = unat (sig M_plus)"
      using g by (cases res) auto
    show ?thesis
      using between [of rest dlt dist d ten n ds 0] res dist unfolding eq assms(1) by simp
  next
    case (Inr buf)
    with g have buf: "digits buf" "leading buf" "unat dlt < unat p2" "decimal buf * 2 ^ sh + unat p2 = unat (sig M_plus)"
      by simp_all
    have "dlt < p2" "unat p2 < 2 ^ sh" using buf(3) p2 by (simp_all add: word_less_nat_alt)
    then obtain ds d j r dl' dist' where fr:
      "gen_fraction sh p2 dlt dist 0 buf = Some (ds @ [0x30 + d], 0 + j, r, dl', dist')"
      "digits ds" "d \<le> 9" "leading (ds @ [0x30 + d])" "r \<le> dl'" "dist' \<le> dl'"
      "unat dl' = 10 ^ j * unat dlt" "unat dl' < unat r + d * 2 ^ sh"
      "decimal (ds @ [0x30 + d]) * 2 ^ sh + unat r = 10 ^ j * (decimal buf * 2 ^ sh + unat p2)"
      using gen_fraction_ok [OF assms(3) dlt _ _ dist buf(1,2), of p2 0] by blast
    have "(2::nat) ^ sh \<le> 2 ^ 60" using assms(3) by (intro power_increasing) simp_all
    then have one: "unat (push_bit sh 1 :: u64) = 10 ^ 0 * 2 ^ sh" by (subst unat_push_bit) simp_all
    show ?thesis
      using between [of r dl' dist' d "push_bit sh 1" 0 ds j] fr buf(4) unfolding eq assms(1) Inr one by simp
  qed
qed

section \<open>The table of the powers of ten\<close>

text \<open>An entry is normalized and in its place. The range of \<open>e\<close> is the one that follows from the decimal exponent.\<close>

definition in_place :: "u64 \<times> int \<times> int \<Rightarrow> bool" where
  "in_place = (\<lambda>(f, e, k). 2 ^ 63 \<le> uint f \<and> 2 ^ 18 * k \<le> (e + 63) * 78913 + 78912 \<and> (e + 34) * 78913 < 2 ^ 18 * (k - 8))"

lemma table_in_place: "list_all in_place cached_powers"
  by (simp add: cached_powers_def in_place_def)

lemma table_exponents: "map (\<lambda>(f, e, k). k) cached_powers = map (\<lambda>i. 8 * int i - 300) [0..<79]"
  by (simp add: cached_powers_def upt_rec)

lemma sdiv_bounds:
  fixes a :: int
  shows "0 \<le> a \<Longrightarrow> a sdiv 8 = a div 8"
    "2 ^ 18 * (a sdiv 2 ^ 18 + (if a > 0 then 1 else 0) - 1) \<le> a"
    "a \<le> 2 ^ 18 * (a sdiv 2 ^ 18 + (if a > 0 then 1 else 0))"
proof -
  show "0 \<le> a \<Longrightarrow> a sdiv 8 = a div 8" by (cases "a = 0") (simp_all add: signed_divide_int_def)
  have "a sdiv 2 ^ 18 = (if 0 < a then a div 2 ^ 18 else - (- a div 2 ^ 18))"
    by (cases "a = 0") (simp_all add: signed_divide_int_def)
  then show "2 ^ 18 * (a sdiv 2 ^ 18 + (if a > 0 then 1 else 0) - 1) \<le> a"
    "a \<le> 2 ^ 18 * (a sdiv 2 ^ 18 + (if a > 0 then 1 else 0))"
    by (simp_all split: if_splits)
qed

lemma get_cached_power_ok:
  assumes "- 1137 \<le> e" "e \<le> 960" "get_cached_power e = (f, ec, k)"
  shows "(f, ec, k) \<in> set cached_powers" "- 60 \<le> ec + e + 64" "ec + e + 64 \<le> - 32"
proof -
  define g where "g = - 60 - e - 1"
  define q where "q = (g * 78913) sdiv 2 ^ 18 + (if g > 0 then 1 else 0)"
  define i where "i = (300 + q + (8 - 1)) sdiv 8"
  have q: "2 ^ 18 * (q - 1) \<le> g * 78913" "g * 78913 \<le> 2 ^ 18 * q" 
    using sdiv_bounds(2,3) [of "g * 78913"] by (simp_all only: q_def zero_less_mult_iff) simp_all
  have "0 \<le> 307 + q" using q(2) assms(2) by (simp add: g_def)
  then have i: "8 * i \<le> 307 + q" "307 + q < 8 * i + 8" "0 \<le> i"
    unfolding i_def using sdiv_bounds(1) [of "300 + q + (8 - 1)"] by simp_all
  have "i < 79" using i(1) q(1) assms(1) by (simp add: g_def)
  have len: "length cached_powers = 79" by (simp add: cached_powers_def)
  have c: "cached_powers ! nat i = (f, ec, k)"
    using assms(3) by (simp add: get_cached_power_def Let_def g_def q_def i_def)
  have ilen: "nat i < length cached_powers" using i(3) \<open>i < 79\<close> len by simp
  then show set: "(f, ec, k) \<in> set cached_powers" using c nth_mem by metis
  have k: "k = 8 * i - 300"
    using arg_cong [OF table_exponents, of "\<lambda>xs. xs ! nat i"] ilen i(3) by (simp add: c len)
  have "in_place (f, ec, k)" using table_in_place set by (auto simp: list_all_iff)
  then have p: "2 ^ 18 * k \<le> (ec + 63) * 78913 + 78912" "(ec + 34) * 78913 < 2 ^ 18 * (k - 8)" by (simp_all add: in_place_def)
  show "- 60 \<le> ec + e + 64" using p(1) q(2) i(1,2) unfolding k g_def by simp
  show "ec + e + 64 \<le> - 32" using p(2) q(1) i(1,2) unfolding k g_def by simp
qed

text \<open>An entry is the nearest to the power of ten among those with its exponent.\<close>

definition nearest :: "u64 \<times> int \<times> int \<Rightarrow> bool" where
  "nearest = (\<lambda>(f, e, k).
     let h = 2 ^ nat e * 10 ^ nat (- k) in 2 * \<bar>uint f * h - 10 ^ nat k * 2 ^ nat (- e)\<bar> \<le> h)"

lemma nearest_low: "list_all nearest (take 10 cached_powers)" "list_all nearest (take 10 (drop 10 cached_powers))"
  by (simp_all add: cached_powers_def nearest_def)

lemma nearest_mid: "list_all nearest (take 20 (drop 20 cached_powers))"
  by (simp add: cached_powers_def nearest_def)

lemma nearest_up: "list_all nearest (take 20 (drop 40 cached_powers))"
  by (simp add: cached_powers_def nearest_def)

lemma nearest_high: "list_all nearest (take 10 (drop 60 cached_powers))" "list_all nearest (drop 70 cached_powers)"
  by (simp_all add: cached_powers_def nearest_def)

lemma table_nearest: "list_all nearest cached_powers"
proof -
  have "list_all nearest xs" if "list_all nearest (take 10 xs)" "list_all nearest (take 10 (drop 10 xs))"
    "list_all nearest (take 20 (drop 20 xs))" "list_all nearest (take 20 (drop 40 xs))"
    "list_all nearest (take 10 (drop 60 xs))" "list_all nearest (drop 70 xs)" for xs
  proof -
    have "xs = take 10 xs @ take 10 (drop 10 xs) @ take 20 (drop 20 xs) @ take 20 (drop 40 xs) @ take 10 (drop 60 xs) @ drop 70 xs"
      using append_take_drop_id [of 10 xs] append_take_drop_id [of 10 "drop 10 xs"] append_take_drop_id [of 20 "drop 20 xs"]
        append_take_drop_id [of 20 "drop 40 xs"] append_take_drop_id [of 10 "drop 60 xs"] by simp
    then show ?thesis using that by (metis list_all_append)
  qed
  then show ?thesis using nearest_low nearest_mid nearest_up nearest_high by blast
qed

section \<open>What a double stands for\<close>

text \<open>The significand and the exponent of a double without a sign.\<close>

definition double_sig :: "double \<Rightarrow> nat" where
  "double_sig x = unat x mod 2 ^ 52 + (if unat x div 2 ^ 52 = 0 then 0 else 2 ^ 52)"

definition double_exp :: "double \<Rightarrow> int" where
  "double_exp x = (if unat x div 2 ^ 52 = 0 then - 1074 else int (unat x div 2 ^ 52) - 1075)"

text \<open>The gap to the number below is smaller at a power of two.\<close>

definition closer_below :: "double \<Rightarrow> bool" where
  "closer_below x \<longleftrightarrow> unat x mod 2 ^ 52 = 0 \<and> unat x div 2 ^ 52 > 1"

lemma normalize_ok:
  assumes "sig x \<noteq> 0"
  shows "\<exists>s y. normalize x = \<lparr>sig = y, expo = expo x - int s\<rparr> \<and> unat y = unat (sig x) * 2 ^ s \<and>
    2 ^ 63 \<le> unat (sig x) * 2 ^ s \<and> unat (sig x) * 2 ^ s < 2 ^ 64"
  using assms
proof (induction x rule: normalize.induct)
  case (1 x)
  show ?case
  proof (cases "drop_bit 63 (sig x) = 0")
    case True
    then have lt: "unat (sig x) < 2 ^ 63" using unat_drop_bit [of 63 "sig x"] by (simp add: div_eq_0_iff)
    then have dbl: "unat (push_bit 1 (sig x)) = unat (sig x) * 2" by (subst unat_push_bit) simp_all
    then have "push_bit 1 (sig x) \<noteq> 0" using 1(2) unat_0_iff [of "sig x"] unat_0_iff [of "push_bit 1 (sig x)"] by simp
    then obtain s y where
      "normalize \<lparr>sig = push_bit 1 (sig x), expo = expo x - 1\<rparr> = \<lparr>sig = y, expo = expo x - 1 - int s\<rparr>"
      "unat y = unat (sig x) * 2 * 2 ^ s" "2 ^ 63 \<le> unat (sig x) * 2 * 2 ^ s" "unat (sig x) * 2 * 2 ^ s < 2 ^ 64"
      using 1(1) [OF 1(2) True] unfolding diyfp.select_convs dbl by blast
    then show ?thesis
      using True 1(2) by (intro exI [of _ "Suc s"] exI [of _ y], subst normalize.simps) simp
  next
    case False
    then have "2 ^ 63 \<le> unat (sig x)" using unat_drop_bit [of 63 "sig x"] unat_0_iff [of "drop_bit 63 (sig x)"]
      by (simp add: div_eq_0_iff)
    then show ?thesis
      using False 1(2) unat_less [of "sig x"]
      by (intro exI [of _ 0] exI [of _ "sig x"], subst normalize.simps) simp
  qed
qed

lemma shift_unique:
  fixes a :: nat
  assumes "2 ^ 63 \<le> a * 2 ^ i" "a * 2 ^ i < 2 ^ 64" "2 ^ 63 \<le> a * 2 ^ j" "a * 2 ^ j < 2 ^ 64"
  shows "i = j"
proof -
  have "\<not> i < j" if "2 ^ 63 \<le> a * 2 ^ i" "a * 2 ^ j < 2 ^ 64" for i j
  proof
    assume "i < j"
    then have "a * 2 ^ Suc i \<le> a * 2 ^ j" by (intro mult_le_mono2 power_increasing) simp_all
    then have "2 * (a * 2 ^ i) \<le> a * 2 ^ j" unfolding power_Suc mult.left_commute [of a] .
    moreover have "\<not> 2 * u \<le> w" if "2 ^ 63 \<le> u" "w < 2 ^ 64" for u w :: nat using that by simp
    ultimately show False using that by blast
  qed
  then show ?thesis using assms by (meson linorder_neqE_nat)
qed

lemma normalize_to_shift:
  assumes "2 ^ 63 \<le> unat (sig x) * 2 ^ s" "unat (sig x) * 2 ^ s < 2 ^ 64"
  shows "unat (sig (normalize x)) = unat (sig x) * 2 ^ s" "expo (normalize x) = expo x - int s"
proof -
  have "sig x \<noteq> 0" using assms(1) by auto
  then obtain t y where t: "normalize x = \<lparr>sig = y, expo = expo x - int t\<rparr>" "unat y = unat (sig x) * 2 ^ t"
    "2 ^ 63 \<le> unat (sig x) * 2 ^ t" "unat (sig x) * 2 ^ t < 2 ^ 64"
    using normalize_ok by blast
  have "s = t" using shift_unique assms t(3,4) by blast
  with t show "unat (sig (normalize x)) = unat (sig x) * 2 ^ s" "expo (normalize x) = expo x - int s" by simp_all
qed

lemma double_ranges:
  assumes "x \<noteq> 0" "unat x < 0x7FF * 2 ^ 52"
  shows "0 < double_sig x" "double_sig x < 2 ^ 53" "- 1074 \<le> double_exp x" "double_exp x \<le> 971"
proof -
  have "unat x \<noteq> 0" using assms(1) by (simp add: unat_0_iff)
  moreover have "unat x mod 2 ^ 52 < 2 ^ 52" by simp
  moreover have "unat x div 2 ^ 52 < 0x7FF" using assms(2) by (intro less_mult_imp_div_less) simp
  ultimately show "0 < double_sig x" "double_sig x < 2 ^ 53" "- 1074 \<le> double_exp x" "double_exp x \<le> 971"
    by (auto simp: double_sig_def double_exp_def)
qed

lemma compute_boundaries_ok:
  assumes "x \<noteq> 0" "unat x < 0x7FF * 2 ^ 52"
  defines "b \<equiv> compute_boundaries x" and "m \<equiv> double_sig x"
  shows "\<exists>t \<ge> 9. 2 ^ 63 \<le> 4 * m * 2 ^ t \<and> (4 * m + 2) * 2 ^ t < 2 ^ 64 \<and>
    unat (sig (bound_w b)) = 4 * m * 2 ^ t \<and> unat (sig (bound_plus b)) = (4 * m + 2) * 2 ^ t \<and>
    unat (sig (bound_minus b)) = (4 * m - (if closer_below x then 1 else 2)) * 2 ^ t \<and>
    (let e = double_exp x - int (t + 2)
     in expo (bound_w b) = e \<and> expo (bound_plus b) = e \<and> expo (bound_minus b) = e \<and> - 1137 \<le> e \<and> e \<le> 960)"
proof -
  note m = double_ranges [OF assms(1,2), folded m_def]
  define e where "e = drop_bit 52 x"
  define f where "f = x AND (push_bit 52 1 - 1)"
  have ue: "unat e = unat x div 2 ^ 52" and uf: "unat f = unat x mod 2 ^ 52" by (simp_all only: e_def f_def unat_drop_bit unat_low_bits)
  define v where "v = (if e = 0 then \<lparr>sig = f, expo = 1 - 1075\<rparr> else \<lparr>sig = f + push_bit 52 1, expo = int (unat e) - 1075\<rparr>)"
  have "unat f < 2 ^ 52" unfolding uf by simp
  then have "unat (f + push_bit 52 1) = unat f + 2 ^ 52" using unat_add64 [of f "push_bit 52 1"] by simp
  then have v: "unat (sig v) = m" "expo v = double_exp x"
    using unat_0_iff [of e] by (auto simp: v_def m_def double_sig_def double_exp_def ue uf)
  have "v_nz": "sig v \<noteq> 0" using m(1) v(1) by auto
  obtain s where s: "2 ^ 63 \<le> m * 2 ^ s" "m * 2 ^ s < 2 ^ 64" using normalize_ok [OF v_nz] v(1) by auto
  have "10 < s"
  proof (rule ccontr)
    assume "\<not> 10 < s"
    then have "(2::nat) ^ s \<le> 2 ^ 10" by (intro power_increasing) simp_all
    then have "m * 2 ^ s \<le> (2 ^ 53 - 1) * 2 ^ 10" using m(2) by (intro mult_le_mono) simp_all
    then show False using s(1) by simp
  qed
  define t where "t = s - 2"
  have t: "s = t + 2" "9 \<le> t" using \<open>10 < s\<close> by (simp_all add: t_def)
  have "s < 64"
  proof (rule ccontr)
    assume "\<not> s < 64"
    then have "1 * (2::nat) ^ 64 \<le> m * 2 ^ s" using m(1) by (intro mult_le_mono power_increasing) simp_all
    then show False using s(2) by simp
  qed
  then have split64: "(2::nat) ^ 64 = 2 ^ (64 - s) * 2 ^ s" by (simp flip: power_add)
  have "m < 2 ^ (64 - s)" using s(2) unfolding split64 by simp
  then have "(m + 1) * 2 ^ s \<le> 2 ^ 64" unfolding split64 by (intro mult_le_mono1) simp
  then have top: "(4 * m + 4) * 2 ^ t \<le> 2 ^ 64" by (simp add: t(1) algebra_simps power_add)
  have pos: "0 < (2::nat) ^ t" by simp
  have up: "(4 * m + 2) * 2 ^ t < 2 ^ 64" using top pos by (simp only: add_mult_distrib)
  have low: "2 ^ 63 \<le> 4 * m * 2 ^ t" using s(1) by (simp add: t(1) algebra_simps power_add)
  have w: "unat (sig (normalize v)) = 4 * m * 2 ^ t" "expo (normalize v) = double_exp x - int (t + 2)"
    using normalize_to_shift [of v s] s v by (simp_all add: t(1) algebra_simps power_add)
  define m_plus where "m_plus = \<lparr>sig = 2 * sig v + 1, expo = expo v - 1\<rparr>"
  have dbl: "unat (2 * sig v) = 2 * m" using unat_mult64 [of 2 "sig v"] v(1) m(2) by simp
  then have "unat (sig m_plus) = 2 * m + 1" using unat_add64 [of "2 * sig v" 1] m(2) by (simp add: m_plus_def)
  moreover have "(2 * m + 1) * 2 ^ Suc t = (4 * m + 2) * 2 ^ t" by (simp add: algebra_simps)
  moreover have "4 * m * 2 ^ t \<le> (4 * m + 2) * 2 ^ t" by (intro mult_le_mono1) simp
  ultimately have plus: "unat (sig (normalize m_plus)) = (4 * m + 2) * 2 ^ t" "expo (normalize m_plus) = double_exp x - int (t + 2)"
    using normalize_to_shift [of m_plus "Suc t"] up low v(2) by (simp_all add: m_plus_def)
  define m_minus where "m_minus = (if f = 0 \<and> e > 1 then \<lparr>sig = 4 * sig v - 1, expo = expo v - 2\<rparr>
                     else \<lparr>sig = 2 * sig v - 1, expo = expo v - 1\<rparr>)"
  have quad: "unat (4 * sig v) = 4 * m" using unat_mult64 [of 4 "sig v"] v(1) m(2) by simp
  have closer: "(f = 0 \<and> e > 1) = closer_below x"
    using unat_0_iff [of f] by (simp add: closer_below_def word_less_nat_alt ue uf)
  have "unat (sig m_minus) * 2 ^ nat (expo m_minus - (double_exp x - int (t + 2))) = (4 * m - (if closer_below x then 1 else 2)) * 2 ^ t"
    using m(1) quad dbl unat_sub64 [of 1 "4 * sig v"] unat_sub64 [of 1 "2 * sig v"] v(2)
    unfolding m_minus_def closer by (simp add: nat_add_distrib algebra_simps)
  moreover have "(4 * m - (if closer_below x then 1 else 2)) * 2 ^ t \<le> (4 * m + 2) * 2 ^ t" by (intro mult_le_mono1) simp
  ultimately have minus: "unat (sig (normalize_to m_minus (double_exp x - int (t + 2)))) = (4 * m - (if closer_below x then 1 else 2)) * 2 ^ t"
    using up unfolding normalize_to_def by (simp add: unat_push_bit)
  have b: "b = \<lparr>bound_w = normalize v, bound_minus = normalize_to m_minus (expo (normalize m_plus)), bound_plus = normalize m_plus\<rparr>"
    by (simp only: b_def compute_boundaries_def Let_def e_def f_def v_def m_plus_def m_minus_def)
  have "- 1137 \<le> double_exp x - int (t + 2)" "double_exp x - int (t + 2) \<le> 960"
    using m(3,4) \<open>s < 64\<close> t by simp_all
  then show ?thesis
    using w plus minus low up t(2) unfolding b Let_def by (intro exI [of _ t]) (simp add: normalize_to_def)
qed

section \<open>The neighbours\<close>

text \<open>Halfway to the \<open>double\<close> above and below.\<close>

definition halfway_above :: "double \<Rightarrow> real" where
  "halfway_above x = (4 * real (double_sig x) + 2) / 4 * 2 powi double_exp x"

definition halfway_below :: "double \<Rightarrow> real" where
  "halfway_below x = (4 * real (double_sig x) - (if closer_below x then 1 else 2)) / 4 * 2 powi double_exp x"

lemma powi_split: "2 powi e = 2 ^ nat e / (2::real) ^ nat (- e)" "10 powi e = 10 ^ nat e / (10::real) ^ nat (- e)"
  by (auto simp: power_int_def field_simps)

lemma nearest_real:
  assumes "nearest (f, e, k)"
  shows "2 * \<bar>real (unat f) * 2 powi e - 10 powi k\<bar> \<le> 2 powi e"
proof -
  define h :: int where "h = 2 ^ nat e * 10 ^ nat (- k)"
  define g :: int where "g = 10 ^ nat k * 2 ^ nat (- e)"
  define q :: real where "q = 2 ^ nat (- e) * 10 ^ nat (- k)"
  have "2 * \<bar>uint f * h - g\<bar> \<le> h" using assms by (simp add: nearest_def Let_def h_def g_def)
  then have "real_of_int (2 * \<bar>uint f * h - g\<bar>) \<le> real_of_int h" by (simp only: of_int_le_iff)
  then have le: "2 * \<bar>real (unat f) * real_of_int h - real_of_int g\<bar> \<le> real_of_int h" by simp
  have q: "0 < q" by (simp add: q_def)
  have hq: "real_of_int h = 2 powi e * q" by (simp add: h_def q_def powi_split)
  have gq: "real_of_int g = 10 powi k * q" by (simp add: g_def q_def powi_split)
  have "real (unat f) * real_of_int h - real_of_int g = (real (unat f) * 2 powi e - 10 powi k) * q"
    by (simp add: hq gq algebra_simps)
  then have "(2 * \<bar>real (unat f) * 2 powi e - 10 powi k\<bar>) * q \<le> 2 powi e * q"
    using le q unfolding hq by (simp add: abs_mult)
  then show ?thesis using q by (simp only: mult_le_cancel_right_pos)
qed

lemma product_below:
  fixes M P f p T :: real
  assumes "M * 2 ^ 64 \<le> P * f - 2 ^ 63" "2 * \<bar>f * p - T\<bar> \<le> p" "0 < p" "0 \<le> P" "P < 2 ^ 64"
  shows "M * 2 ^ 64 * p < P * T"
proof -
  have "f * p - T \<le> p / 2" by (rule order_trans [OF abs_ge_self]) (use assms(2) in simp)
  then have fp: "f * p \<le> T + p / 2" by simp
  have "M * 2 ^ 64 * p \<le> (P * f - 2 ^ 63) * p" using assms(1,3) by (intro mult_right_mono) simp_all
  also have "\<dots> = P * (f * p) - 2 ^ 63 * p" by (simp add: algebra_simps)
  also have "\<dots> \<le> P * (T + p / 2) - 2 ^ 63 * p" using fp assms(4) by (intro diff_right_mono mult_left_mono)
  also have "\<dots> = P * T - (2 ^ 63 - P / 2) * p" by (simp add: algebra_simps)
  also have "\<dots> < P * T" using assms(3,5) by simp
  finally show ?thesis .
qed

lemma product_above:
  fixes M P f p T :: real
  assumes "P * f + 2 ^ 63 < M * 2 ^ 64" "2 * \<bar>f * p - T\<bar> \<le> p" "0 < p" "0 \<le> P" "P < 2 ^ 64"
  shows "P * T < M * 2 ^ 64 * p"
proof -
  have "- (f * p - T) \<le> p / 2" by (rule order_trans [OF abs_ge_minus_self]) (use assms(2) in simp)
  then have fp: "T - p / 2 \<le> f * p" by simp
  have "P * T = P * (T - p / 2) + P / 2 * p" by (simp add: algebra_simps)
  also have "\<dots> \<le> P * (f * p) + P / 2 * p" using fp assms(4) by (intro add_right_mono mult_left_mono)
  also have "\<dots> \<le> P * (f * p) + 2 ^ 63 * p" using assms(3,5) by (intro add_left_mono mult_right_mono) simp_all
  also have "\<dots> = (P * f + 2 ^ 63) * p" by (simp add: algebra_simps)
  also have "\<dots> < M * 2 ^ 64 * p" using assms(1,3) by (intro mult_strict_right_mono) simp_all
  finally show ?thesis .
qed

lemma rounded_gap: "a + c * 2 ^ 64 \<le> b \<Longrightarrow> (a + 2 ^ 63) div 2 ^ 64 + c \<le> (b + 2 ^ 63) div 2 ^ 64" for a b c :: nat
  using div_le_mono [of "a + 2 ^ 63 + c * 2 ^ 64" "b + 2 ^ 63" "2 ^ 64"] by simp

lemma scale_back:
  fixes M P p T :: real
  assumes "0 < T" "p = 2 powi ec" "T = 10 powi k"
  shows "M * 2 ^ 64 * p < P * T \<Longrightarrow> M * 2 powi (e + ec + 64) * 10 powi (- k) < P * 2 powi e"
    "P * T < M * 2 ^ 64 * p \<Longrightarrow> P * 2 powi e < M * 2 powi (e + ec + 64) * 10 powi (- k)"
proof -
  have M: "M * 2 powi (e + ec + 64) * 10 powi (- k) = (M * 2 ^ 64 * p) / T * 2 powi e"
    by (simp add: assms power_int_add power_int_minus field_simps)
  show "M * 2 ^ 64 * p < P * T \<Longrightarrow> M * 2 powi (e + ec + 64) * 10 powi (- k) < P * 2 powi e"
    "P * T < M * 2 ^ 64 * p \<Longrightarrow> P * 2 powi e < M * 2 powi (e + ec + 64) * 10 powi (- k)"
    unfolding M using assms(1) by (intro mult_strict_right_mono; simp add: field_simps)+
qed


theorem grisu2_between:
  assumes "x \<noteq> 0" "unat x < 0x7FF * 2 ^ 52"
  shows "\<exists>buf n. grisu2 (compute_boundaries x) = Some (buf, n) \<and> digits buf \<and> leading buf \<and>
    halfway_below x < real (decimal buf) * 10 powi n \<and> real (decimal buf) * 10 powi n < halfway_above x"
proof -
  define b where "b = compute_boundaries x"
  define m where "m = double_sig x"
  define c where "c = (if closer_below x then 1 else 2 :: nat)"
  define W L P where "W = unat (sig (bound_w b))" "L = unat (sig (bound_minus b))" "P = unat (sig (bound_plus b))"
  obtain t where t: "9 \<le> t" "2 ^ 63 \<le> 4 * m * 2 ^ t" "P < 2 ^ 64" "W = 4 * m * 2 ^ t" "P = (4 * m + 2) * 2 ^ t" "L = (4 * m - c) * 2 ^ t"
    and ex: "expo (bound_w b) = double_exp x - int (t + 2)" "expo (bound_plus b) = double_exp x - int (t + 2)"
      "expo (bound_minus b) = double_exp x - int (t + 2)" "- 1137 \<le> double_exp x - int (t + 2)" "double_exp x - int (t + 2) \<le> 960"
    using compute_boundaries_ok [OF assms] by (auto simp: Let_def b_def m_def c_def W_L_P_def)
  define e where "e = double_exp x - int (t + 2)"
  note ex = ex [folded e_def]
  obtain f ec k where cached: "get_cached_power e = (f, ec, k)" by (metis prod_cases3)
  note cp = get_cached_power_ok [OF ex(4,5) cached]
  have "in_place (f, ec, k)" and "nearest (f, ec, k)" using cp(1) table_in_place table_nearest by (auto simp: list_all_iff)
  then have near: "2 * \<bar>real (unat f) * 2 powi ec - 10 powi k\<bar> \<le> 2 powi ec" by (intro nearest_real)
  have "2 ^ 63 \<le> uint f" using \<open>in_place (f, ec, k)\<close> by (simp add: in_place_def)
  then have "int (2 ^ 63) \<le> int (unat f)" by simp
  then have f: "2 ^ 63 \<le> unat f" by (simp only: of_nat_le_iff)
  define r where "r a = (a * unat f + 2 ^ 63) div 2 ^ 64" for a
  define C where "C = \<lparr>sig = f, expo = ec\<rparr>"
  define w wm wp where "w = diyfp_mul (bound_w b) C" "wm = diyfp_mul (bound_minus b) C" "wp = diyfp_mul (bound_plus b) C"
  note w = this
  have us: "unat (sig w) = r W" "unat (sig wm) = r L" "unat (sig wp) = r P"
    using diyfp_mul_rounds by (simp_all add: w C_def r_def W_L_P_def)
  have ew: "expo wp = e + ec + 64" using diyfp_mul_rounds by (simp add: w C_def ex)
  have T: "(2::nat) ^ 9 \<le> 2 ^ t" using t(1) by (intro power_increasing) simp_all
  have c: "1 \<le> c" "c \<le> 2" by (simp_all add: c_def)
  have m: "0 < m" using double_ranges(1) [OF assms] by (simp add: m_def)
  have step: "a * 2 ^ t + 2 ^ 9 \<le> a' * 2 ^ t" if "a < a'" for a a' :: nat
    using T mult_le_mono1 [of "Suc a" a' "2 ^ t"] that by simp
  have LW: "L + 2 ^ 9 \<le> W" and WP: "W + 2 ^ 9 \<le> P" unfolding t(4-6) by (rule step, use c m in linarith)+
  have gap: "r a + 2 ^ 8 \<le> r a'" if "a + 2 ^ 9 \<le> a'" for a a'
  proof -
    have "a * unat f + 2 ^ 9 * 2 ^ 63 \<le> (a + 2 ^ 9) * unat f" using f by (simp add: add_mult_distrib)
    also have "\<dots> \<le> a' * unat f" using that by (rule mult_le_mono1)
    finally show ?thesis unfolding r_def by (intro rounded_gap) simp
  qed
  have "2 ^ 63 * 2 ^ 63 \<le> W * unat f" by (rule mult_le_mono) (use t(2,4) f in simp_all)
  then have rW: "2 ^ 62 \<le> r W" using rounded_gap [of 0 "2 ^ 62" "W * unat f"] by (simp add: r_def)
  have rr: "r L + 2 ^ 8 \<le> r W" "r W + 2 ^ 8 \<le> r P" using gap LW WP by blast+
  have rP: "r P < 2 ^ 64" using unat_less [of "sig wp"] us(3) by simp
  define Mm Mp where "Mm = \<lparr>sig = sig wm + 1, expo = expo wm\<rparr>" "Mp = \<lparr>sig = sig wp - 1, expo = expo wp\<rparr>"
  note M = this
  have uM: "unat (sig Mm) = r L + 1" "unat (sig Mp) = r P - 1"
    using unat_add64 [of "sig wm" 1] unat_sub64 [of 1 "sig wp"] us rr rP by (simp_all add: M)
  have eq: "grisu2 b = grisu2_digit_gen (- k) Mm w Mp"
    by (simp only: grisu2_def ex(2) cached Let_def prod.case C_def [symmetric] w M)
  define sh where "sh = nat (- (e + ec + 64))"
  have sh: "expo Mp = - int sh" "32 \<le> sh" "sh \<le> 60" using cp(2,3) by (simp_all add: M ew sh_def)
  have "(2::nat) ^ sh \<le> 2 ^ 60" using sh(3) by (intro power_increasing) simp_all
  then have big: "2 ^ sh \<le> unat (sig Mp)" using rW rr(2) unfolding uM by simp
  have "0 < sig Mm" "sig Mm < sig Mp" "sig Mm \<le> sig w" "sig w \<le> sig Mp"
    using rr by (simp_all add: word_less_nat_alt word_le_nat_alt uM us)
  from digit_gen_between [OF sh this big, of "- k"] obtain buf n where
    g: "grisu2 b = Some (buf, n)" "digits buf" "leading buf"
      "real (r L + 1) * 2 powi (e + ec + 64) * 10 powi (- k) \<le> real (decimal buf) * 10 powi n"
      "real (decimal buf) * 10 powi n \<le> real (r P - 1) * 2 powi (e + ec + 64) * 10 powi (- k)"
    unfolding eq uM by (auto simp: M ew)
  have "r P * 2 ^ 64 \<le> P * unat f + 2 ^ 63" "L * unat f + 2 ^ 63 < (r L + 1) * 2 ^ 64"
    using dividend_less_times_div [of "2 ^ 64" "L * unat f + 2 ^ 63"] unfolding r_def
    by (simp_all only: div_times_less_eq_dividend) simp_all
  then have "(r P - 1) * 2 ^ 64 + 2 ^ 63 \<le> P * unat f" "L * unat f + 2 ^ 63 < (r L + 1) * 2 ^ 64"
    using rr(2) by (simp_all add: diff_mult_distrib)
  then have "real ((r P - 1) * 2 ^ 64 + 2 ^ 63) \<le> real (P * unat f)" "real (L * unat f + 2 ^ 63) < real ((r L + 1) * 2 ^ 64)"
    by (simp_all only: of_nat_le_iff of_nat_less_iff)
  then have up: "real (r P - 1) * 2 ^ 64 \<le> real P * real (unat f) - 2 ^ 63"
    and low: "real L * real (unat f) + 2 ^ 63 < real (r L + 1) * 2 ^ 64"
    by (simp_all only: of_nat_add of_nat_mult of_nat_power of_nat_numeral le_diff_eq)
  have lt: "real P < 2 ^ 64" "real L < 2 ^ 64"
    using t(3) LW WP by (simp_all only: of_nat_less_numeral_power_cancel_iff)
  have pos: "(0::real) < 2 powi ec" "(0::real) < 10 powi k" by simp_all
  have "real (r P - 1) * 2 powi (e + ec + 64) * 10 powi (- k) < real P * 2 powi e"
    using product_below [OF up near pos(1) _ lt(1)] by (intro scale_back(1) [OF pos(2) refl refl]) simp
  moreover have "real L * 2 powi e < real (r L + 1) * 2 powi (e + ec + 64) * 10 powi (- k)"
    using product_above [OF low near pos(1) _ lt(2)] by (intro scale_back(2) [OF pos(2) refl refl]) simp
  moreover have scale: "real (a * 2 ^ t) * 2 powi e = real a / 4 * 2 powi double_exp x" for a
    by (simp add: e_def power_int_diff power_int_add)
  have "real (4 * m - c) = 4 * real m - (if closer_below x then 1 else 2)" "real (4 * m + 2) = 4 * real m + 2"
    using m c(2) by (simp_all add: of_nat_diff c_def)
  then have "real L * 2 powi e = halfway_below x" "real P * 2 powi e = halfway_above x"
    unfolding t(5,6) scale by (simp_all only: halfway_above_def halfway_below_def m_def)
  ultimately have "halfway_below x < real (decimal buf) * 10 powi n" "real (decimal buf) * 10 powi n < halfway_above x"
    using g(4,5) by simp_all
  with g(1-3) show ?thesis unfolding b_def by blast
qed

end
