(* ===== verification/Json_Float_Text.thy ===== *)
theory Json_Float_Text
  imports Json_Float_Exact
begin

text \<open>
  What \<open>to_chars\<close> writes: the number the text stands for, read as decimal notation with an optional
  exponent, is between the two that are halfway to the neighbours of the \<open>double\<close>. The exponent always
  fits the three digits \<open>append_exponent\<close> has.
\<close>

section \<open>The number a text stands for\<close>

definition text_value :: "nat list \<Rightarrow> real" where
  "text_value text =
     (let mant = takeWhile (\<lambda>c. c \<noteq> 0x65) text; ex = drop (Suc (length mant)) text;
          ip = takeWhile (\<lambda>c. c \<noteq> 0x2E) mant; fp = drop (Suc (length ip)) mant;
          e = (if ex = [] then 0 else if hd ex = 0x2D then - int (decimal (tl ex)) else int (decimal (tl ex)))
      in real (decimal (ip @ fp)) * 10 powi (e - int (length fp)))"

lemma decimal_append: "decimal (xs @ ys) = decimal xs * 10 ^ length ys + decimal ys"
proof (induction ys rule: rev_induct)
  case (snoc y ys)
  then show ?case using decimal_simps(2) [of "xs @ ys" y] by (simp add: algebra_simps)
qed simp

lemma decimal_zeros [simp]: "decimal (replicate n 0x30) = 0"
  by (induction n) (simp_all add: decimal_def)

lemma decimal_Cons: "decimal (d # ds) = (d - 0x30) * 10 ^ length ds + decimal ds"
  using decimal_append [of "[d]" ds] by (simp add: decimal_def)

lemma decimal_less: "digits ds \<Longrightarrow> decimal ds < 10 ^ length ds"
proof (induction ds rule: rev_induct)
  case (snoc d ds)
  then have "decimal ds * 10 + 10 \<le> 10 ^ length ds * 10" by simp
  moreover have "d - 0x30 < 10" using snoc.prems by auto
  ultimately show ?case by simp
qed simp

lemma takeWhile_stop: "(\<And>c. c \<in> set xs \<Longrightarrow> P c) \<Longrightarrow> \<not> P x \<Longrightarrow> takeWhile P (xs @ x # ys) = xs"
  by (simp add: takeWhile_append2)

lemma digits_chars: "digits ds \<Longrightarrow> c \<in> set ds \<Longrightarrow> c \<noteq> 0x2E \<and> c \<noteq> 0x65 \<and> c \<noteq> 0x2D"
  by (auto simp: digits_def)

lemma leading_decimal: "leading ds \<Longrightarrow> 10 ^ (length ds - 1) \<le> decimal ds"
  by (cases ds) (simp_all add: leading_def decimal_Cons trans_le_add1)

lemma text_value_plain:
  assumes "digits ip" "digits fp"
  shows "text_value (ip @ 0x2E # fp) = real (decimal (ip @ fp)) * 10 powi (- int (length fp))"
proof -
  have e: "takeWhile (\<lambda>c. c \<noteq> 0x65) (ip @ 0x2E # fp) = ip @ 0x2E # fp"
    using assms digits_chars by (subst takeWhile_eq_all_conv) auto
  have p: "takeWhile (\<lambda>c. c \<noteq> 0x2E) (ip @ 0x2E # fp) = ip"
    using assms(1) digits_chars by (intro takeWhile_stop) auto
  show ?thesis unfolding text_value_def Let_def e p by simp
qed

lemma text_value_exponent:
  assumes "digits ip" "digits fp" "pt = [0x2E] \<or> pt = [] \<and> fp = []"
  shows "text_value (ip @ pt @ fp @ 0x65 # sg # ex) =
    real (decimal (ip @ fp)) * 10 powi ((if sg = 0x2D then - int (decimal ex) else int (decimal ex)) - int (length fp))"
proof -
  have e: "takeWhile (\<lambda>c. c \<noteq> 0x65) (ip @ pt @ fp @ 0x65 # sg # ex) = ip @ pt @ fp"
    using assms digits_chars takeWhile_stop [of "ip @ pt @ fp" "\<lambda>c. c \<noteq> 0x65" "0x65" "sg # ex"] by auto
  have p: "takeWhile (\<lambda>c. c \<noteq> 0x2E) (ip @ pt @ fp) = ip"
    using assms(3)
  proof
    assume "pt = [0x2E]"
    then show ?thesis using assms(1) digits_chars takeWhile_stop [of ip "\<lambda>c. c \<noteq> 0x2E" "0x2E" fp] by auto
  next
    assume "pt = [] \<and> fp = []"
    moreover have "takeWhile (\<lambda>c. c \<noteq> 0x2E) ip = ip"
      using assms(1) digits_chars by (subst takeWhile_eq_all_conv) auto
    ultimately show ?thesis by simp
  qed
  show ?thesis using assms(3) unfolding text_value_def Let_def e p by auto
qed

lemma append_exponent_ok:
  assumes "\<bar>e\<bar> < 1000"
  shows "\<exists>sg ex. append_exponent e = sg # ex \<and> ex \<noteq> [] \<and> digits ex \<and> (sg = 0x2D \<or> sg = 0x2B) \<and>
    (if sg = 0x2D then - int (decimal ex) else int (decimal ex)) = e"
proof -
  define k where "k = nat \<bar>e\<bar>"
  have k: "k < 1000" "e = (if e < 0 then - int k else int k)" using assms by (simp_all add: k_def)
  define ex where "ex = (if k < 10 then [0x30, 0x30 + k]
          else if k < 100 then [0x30 + k div 10, 0x30 + k mod 10]
          else [0x30 + k div 100, 0x30 + k mod 100 div 10, 0x30 + k mod 100 mod 10])"
  have "append_exponent e = (if e < 0 then 0x2D else 0x2B) # ex" by (simp add: append_exponent_def k_def ex_def Let_def)
  moreover have "ex \<noteq> []" by (simp add: ex_def)
  moreover have "digits ex" using k(1) by (auto simp: ex_def less_mult_imp_div_less)
  moreover have "decimal ex = k" using k(1) by (simp add: ex_def decimal_def)
  ultimately show ?thesis using k(2) by (intro exI [of _ "if e < 0 then 0x2D else 0x2B"] exI [of _ ex]) auto
qed

lemma format_buffer_value:
  assumes "digits buf" "leading buf" "\<bar>int (length buf) + n - 1\<bar> < 1000"
  shows "text_value (format_buffer buf n (- 4) 15) = real (decimal buf) * 10 powi n"
proof -
  define k where "k = int (length buf)"
  define p where "p = k + n"
  have "buf \<noteq> []" using assms(2) by (simp add: leading_def)
  have k: "1 \<le> k" using \<open>buf \<noteq> []\<close> by (cases buf) (simp_all add: k_def)
  have zeros: "digits (replicate i 0x30)" for i by (simp add: digits_def)
  note f = format_buffer_def [of buf n "- 4" 15, folded k_def, unfolded Let_def, folded p_def]
  consider "k \<le> p" "p \<le> 15" | "p < k" "0 < p" "p \<le> 15" | "- 4 < p" "p \<le> 0" | "p \<le> - 4 \<or> 15 < p" by linarith
  then show ?thesis
  proof cases
    case 1
    have "decimal ((buf @ replicate (nat n) 0x30) @ [0x30]) = decimal buf * 10 ^ Suc (nat n)"
      by (simp add: decimal_append decimal_Cons)
    moreover have "0 \<le> n" using 1 by (simp add: p_def)
    moreover have "format_buffer buf n (- 4) 15 = (buf @ replicate (nat n) 0x30) @ 0x2E # [0x30]"
      using 1 f by (simp add: p_def)
    ultimately show ?thesis
      using text_value_plain [of "buf @ replicate (nat n) 0x30" "[0x30]"] assms(1) zeros
      by (simp add: power_int_def power_int_minus)
  next
    case 2
    have "digits (take (nat p) buf)" "digits (drop (nat p) buf)"
      using assms(1) by (auto simp: digits_def dest: in_set_takeD in_set_dropD)
    moreover have "format_buffer buf n (- 4) 15 = take (nat p) buf @ 0x2E # drop (nat p) buf"
      using 2 f by simp
    moreover have "- int (length (drop (nat p) buf)) = n" using 2 by (simp add: p_def k_def)
    ultimately show ?thesis
      using text_value_plain [of "take (nat p) buf" "drop (nat p) buf"] by simp
  next
    case 3
    have "format_buffer buf n (- 4) 15 = [0x30] @ 0x2E # (replicate (nat (- p)) 0x30 @ buf)"
      using 3 f k by simp
    moreover have "decimal ([0x30] @ replicate (nat (- p)) 0x30 @ buf) = decimal buf"
      by (simp add: decimal_append decimal_Cons)
    moreover have "- int (length (replicate (nat (- p)) (0x30 :: nat) @ buf)) = n" using 3 by (simp add: p_def k_def)
    ultimately show ?thesis
      using text_value_plain [of "[0x30]" "replicate (nat (- p)) 0x30 @ buf"] assms(1) zeros by simp
  next
    case 4
    obtain sg ex where ex: "append_exponent (p - 1) = sg # ex" "(if sg = 0x2D then - int (decimal ex) else int (decimal ex)) = p - 1"
      using append_exponent_ok [of "p - 1"] assms(3) by (auto simp: p_def k_def)
    obtain d ds where buf: "buf = d # ds" using \<open>buf \<noteq> []\<close> by (cases buf) auto
    define pt where "pt = (if ds = [] then [] else [0x2E :: nat])"
    have "format_buffer buf n (- 4) 15 = [d] @ pt @ ds @ 0x65 # sg # ex"
      using 4 f k ex(1) by (auto simp: buf k_def pt_def)
    moreover have "p - 1 - int (length ds) = n" by (simp add: p_def k_def buf)
    ultimately show ?thesis
      using text_value_exponent [of "[d]" ds pt sg ex] assms(1) ex(2) by (simp add: buf pt_def)
  qed
qed


section \<open>to\_chars\<close>

lemma halfway_range:
  assumes "x \<noteq> 0" "unat x < 0x7FF * 2 ^ 52"
  shows "2 powi - 1075 \<le> halfway_below x" "halfway_above x \<le> 2 ^ 1025"
proof -
  note r = double_ranges [OF assms]
  have "2 powi - 1075 = 1 / 2 * (2 :: real) powi - 1074" by (simp add: power_int_minus)
  also have "\<dots> \<le> (4 * real (double_sig x) - (if closer_below x then 1 else 2)) / 4 * 2 powi double_exp x"
    using r(1,3) by (intro mult_mono power_int_increasing) (simp_all add: Suc_le_eq)
  finally show "2 powi - 1075 \<le> halfway_below x" unfolding halfway_below_def .
  have "halfway_above x \<le> 2 ^ 54 * 2 powi 971"
    unfolding halfway_above_def using r(2,4) by (intro mult_mono power_int_increasing) simp_all
  also have "\<dots> = 2 ^ 1025" by simp
  finally show "halfway_above x \<le> 2 ^ 1025" .
qed

lemma decimal_exponent_range:
  assumes "digits buf" "leading buf" "2 powi - 1075 < real (decimal buf) * 10 powi n" "real (decimal buf) * 10 powi n < 2 ^ 1025"
  shows "\<bar>int (length buf) + n - 1\<bar> < 1000"
proof -
  define p where "p = int (length buf) + n"
  obtain l where "length buf = Suc l" using assms(2) by (cases buf) (simp_all add: leading_def)
  then have "10 powi (p - 1) = real (10 ^ (length buf - 1)) * 10 powi n"
    by (simp add: p_def power_int_add)
  also have "\<dots> \<le> real (decimal buf) * 10 powi n"
    using leading_decimal [OF assms(2)] by (intro mult_right_mono) (simp_all only: of_nat_le_iff zero_le_power_int zero_le_numeral)
  finally have low: "10 powi (p - 1) \<le> real (decimal buf) * 10 powi n" .
  have "real (decimal buf) * 10 powi n \<le> real (10 ^ length buf) * 10 powi n"
    using decimal_less [OF assms(1)] by (intro mult_right_mono) (simp_all only: of_nat_le_iff zero_le_power_int zero_le_numeral less_imp_le)
  also have "\<dots> = 10 powi p" by (simp add: p_def power_int_add)
  finally have up: "real (decimal buf) * 10 powi n \<le> 10 powi p" .
  have "p - 1 < 309"
  proof (rule ccontr)
    assume "\<not> p - 1 < 309"
    then have "(10 :: real) powi 309 \<le> 10 powi (p - 1)" by (intro power_int_increasing) simp_all
    moreover have "(2 :: real) ^ 1025 \<le> 10 powi 309" by simp
    ultimately show False using low assms(4) by linarith
  qed
  moreover have "- 324 < p"
  proof (rule ccontr)
    assume "\<not> - 324 < p"
    then have "10 powi p \<le> (10 :: real) powi - 324" by (intro power_int_increasing) simp_all
    moreover have "(10 :: real) powi - 324 \<le> 2 powi - 1075" by (simp add: power_int_minus)
    ultimately show False using up assms(3) by linarith
  qed
  ultimately show ?thesis by (simp add: p_def)
qed

lemma magnitude: "(if bit x 63 then x XOR push_bit 63 1 else x) = take_bit 63 x" for x :: double
proof (rule bit_word_eqI)
  fix n
  assume "n < LENGTH(64)"
  then have n: "n < 63 \<or> n = 63" by auto
  have "bit (push_bit 63 1 :: double) n \<longleftrightarrow> n = 63"
    using n by (simp only: bit_push_bit_iff bit_1_iff) auto
  then have "bit (if bit x 63 then x XOR push_bit 63 1 else x) n = (if bit x 63 then bit x n \<noteq> (n = 63) else bit x n)"
    by (simp only: bit_xor_iff if_distrib [of "\<lambda>y. bit y n"])
  also have "\<dots> = bit (take_bit 63 x) n" using n by (auto simp: bit_take_bit_iff)
  finally show "bit (if bit x 63 then x XOR push_bit 63 1 else x) n = bit (take_bit 63 x) n" .
qed

lemma to_chars_digits:
  assumes "isfinite x"
  defines "v \<equiv> take_bit 63 x"
  assumes "v \<noteq> 0"
  shows "\<exists>buf n. to_chars x = Some ((if bit x 63 then [0x2D] else []) @ format_buffer buf n (- 4) 15) \<and> digits buf \<and> leading buf \<and>
    \<bar>int (length buf) + n - 1\<bar> < 1000 \<and>
    halfway_below v < real (decimal buf) * 10 powi n \<and> real (decimal buf) * 10 powi n < halfway_above v"
proof -
  have v: "unat v = unat x mod 2 ^ 63"
    using unsigned_take_bit_eq [of 63 x, where ?'a = nat] by (simp only: v_def take_bit_eq_mod [of 63 "unat x"])
  have "(2::nat) ^ 63 = 2 ^ 52 * 2 ^ 11" by (simp flip: power_add)
  then have "unat v div 2 ^ 52 = unat x div 2 ^ 52 mod 2 ^ 11"
    unfolding v by (simp only: mod_mult2_eq) (simp add: div_mult2_eq)
  moreover have "unat x div 2 ^ 52 mod 2 ^ 11 < 2 ^ 11" by simp
  ultimately have "unat v div 2 ^ 52 < 0x7FF" using assms(1) by (simp add: isfinite_def unat_drop_bit)
  then have fin: "unat v < 0x7FF * 2 ^ 52" by (simp add: div_less_iff_less_mult)
  obtain buf n where g: "grisu2 (compute_boundaries v) = Some (buf, n)" "digits buf" "leading buf"
    "halfway_below v < real (decimal buf) * 10 powi n" "real (decimal buf) * 10 powi n < halfway_above v"
    using grisu2_between [OF assms(3) fin] by blast
  have "\<bar>int (length buf) + n - 1\<bar> < 1000"
    using halfway_range [OF assms(3) fin] g(4,5) by (intro decimal_exponent_range [OF g(2,3)]) linarith+
  moreover have "to_chars x = Some ((if bit x 63 then [0x2D] else []) @ format_buffer buf n (- 4) 15)"
    using assms(3) g(1) unfolding to_chars_def Let_def magnitude v_def by simp
  ultimately show ?thesis using g by blast
qed

lemma to_chars_zero: "take_bit 63 x = 0 \<Longrightarrow> to_chars x = Some ((if bit x 63 then [0x2D] else []) @ [0x30, 0x2E, 0x30])"
  unfolding to_chars_def Let_def magnitude by simp

text \<open>
  C8. \<open>to_chars\<close> is right for every finite \<open>double\<close>: its loops end, and the text it writes behind the sign is a
  decimal number strictly between the two that are halfway to the neighbours of the absolute value, or 0 for
  a zero. So the text, read with correct rounding, is the \<open>double\<close> again.
\<close>

theorem to_chars_reads_back:
  assumes "isfinite x"
  defines "v \<equiv> take_bit 63 x"
  shows "\<exists>u. to_chars x = Some ((if bit x 63 then [0x2D] else []) @ u) \<and>
    (if v = 0 then text_value u = 0 else halfway_below v < text_value u \<and> text_value u < halfway_above v)"
proof (cases "v = 0")
  case True
  have "text_value [0x30, 0x2E, 0x30] = 0"
    using text_value_plain [of "[0x30]" "[0x30]"] by (simp add: decimal_Cons)
  then show ?thesis using True to_chars_zero [of x] by (auto simp: v_def)
next
  case False
  then show ?thesis
    using to_chars_digits [OF assms(1)] format_buffer_value by (fastforce simp: v_def)
qed

text \<open>The smallest positive \<open>double\<close>.\<close>

theorem to_chars_reads_back_witness:
  "\<exists>u. to_chars 1 = Some u \<and> halfway_below 1 < text_value u \<and> text_value u < halfway_above 1"
proof -
  have "isfinite 1" by (simp add: isfinite_def)
  from to_chars_reads_back [OF this] show ?thesis by (simp add: bit_1_iff)
qed

section \<open>The shape of the text\<close>

text \<open>Digits, then a point with digits or an exponent or both.\<close>

definition float_shape :: "nat list \<Rightarrow> bool" where
  "float_shape u \<longleftrightarrow>
     (\<exists>ip fp ex. u = ip @ fp @ ex \<and> digits ip \<and> (ip = [0x30] \<or> leading ip) \<and> (fp \<noteq> [] \<or> ex \<noteq> []) \<and>
        (fp = [] \<or> (\<exists>fs. fp = 0x2E # fs \<and> fs \<noteq> [] \<and> digits fs)) \<and>
        (ex = [] \<or> (\<exists>sg es. ex = 0x65 # sg # es \<and> (sg = 0x2B \<or> sg = 0x2D) \<and> es \<noteq> [] \<and> digits es)))"

lemma float_shape_plain:
  "digits ip \<Longrightarrow> ip = [0x30] \<or> leading ip \<Longrightarrow> fs \<noteq> [] \<Longrightarrow> digits fs \<Longrightarrow> float_shape (ip @ 0x2E # fs)"
  unfolding float_shape_def by (intro exI [of _ ip] exI [of _ "0x2E # fs"] exI [of _ "[]"]) simp

lemma format_buffer_shape:
  assumes "digits buf" "leading buf" "\<bar>int (length buf) + n - 1\<bar> < 1000"
  shows "float_shape (format_buffer buf n (- 4) 15)"
proof -
  define k where "k = int (length buf)"
  define p where "p = k + n"
  have "buf \<noteq> []" using assms(2) by (simp add: leading_def)
  have k: "1 \<le> k" using \<open>buf \<noteq> []\<close> by (cases buf) (simp_all add: k_def)
  have zeros: "digits (replicate i 0x30)" for i by (simp add: digits_def)
  note f = format_buffer_def [of buf n "- 4" 15, folded k_def, unfolded Let_def, folded p_def]
  consider "k \<le> p" "p \<le> 15" | "p < k" "0 < p" "p \<le> 15" | "- 4 < p" "p \<le> 0" | "p \<le> - 4 \<or> 15 < p" by linarith
  then show ?thesis
  proof cases
    case 1
    then show ?thesis
      using f float_shape_plain [of "buf @ replicate (nat n) 0x30" "[0x30]"] assms(1,2) zeros by (simp add: p_def)
  next
    case 2
    have "digits (take (nat p) buf)" "digits (drop (nat p) buf)"
      using assms(1) by (auto simp: digits_def dest: in_set_takeD in_set_dropD)
    moreover have "leading (take (nat p) buf)" using assms(2) 2 by (cases buf) (simp_all add: leading_def hd_take)
    moreover have "drop (nat p) buf \<noteq> []" using 2 by (simp add: k_def)
    ultimately show ?thesis using 2 f float_shape_plain [of "take (nat p) buf" "drop (nat p) buf"] by simp
  next
    case 3
    then show ?thesis
      using f k float_shape_plain [of "[0x30]" "replicate (nat (- p)) 0x30 @ buf"] \<open>buf \<noteq> []\<close> assms(1) zeros by simp
  next
    case 4
    obtain sg ex where ex: "append_exponent (p - 1) = sg # ex" "ex \<noteq> []" "digits ex" "sg = 0x2D \<or> sg = 0x2B"
      using append_exponent_ok [of "p - 1"] assms(3) by (auto simp: p_def k_def)
    obtain d ds where buf: "buf = d # ds" using \<open>buf \<noteq> []\<close> by (cases buf) auto
    have "format_buffer buf n (- 4) 15 = [d] @ (if ds = [] then [] else 0x2E # ds) @ 0x65 # sg # ex"
      using 4 f k ex(1) by (auto simp: buf k_def)
    then show ?thesis
      using assms(1,2) ex(2-4) unfolding float_shape_def
      by (intro exI [of _ "[d]"] exI [of _ "if ds = [] then [] else 0x2E # ds"] exI [of _ "0x65 # sg # ex"])
        (auto simp: buf leading_def)
  qed
qed

lemma to_chars_shape:
  assumes "isfinite x"
  shows "\<exists>u. to_chars x = Some ((if bit x 63 then [0x2D] else []) @ u) \<and> float_shape u"
proof (cases "take_bit 63 x = 0")
  case True
  then show ?thesis using to_chars_zero [OF True] float_shape_plain [of "[0x30]" "[0x30]"] by simp
next
  case False
  then show ?thesis using to_chars_digits [OF assms] format_buffer_shape by blast
qed

end
