(* ===== verification/Json_Numbers.thy ===== *)
theory Json_Numbers
  imports Json_Utf8 Json_Float_Text
begin

text \<open>
  Numbers written and read: the scanner takes exactly the text the serializer has written for a number,
  whatever may follow it in a document, and converts it to the number.
\<close>

section \<open>Whole numbers\<close>

text \<open>What may follow a number.\<close>

definition num_end :: "input \<Rightarrow> bool" where
  "num_end X \<longleftrightarrow> (\<forall>c cs. X = c # cs \<longrightarrow> \<not> digit_byte c \<and> c \<noteq> 0x2E \<and> c \<noteq> 0x65 \<and> c \<noteq> 0x45)"

lemma num_end_simps [simp]: "num_end []" "num_end (c # cs) \<longleftrightarrow> \<not> digit_byte c \<and> c \<noteq> 0x2E \<and> c \<noteq> 0x65 \<and> c \<noteq> 0x45"
  by (simp_all add: num_end_def)

lemma digits_is_digit: "digits ds \<Longrightarrow> c \<in> set ds \<Longrightarrow> digit_byte c"
  by (auto simp: digits_def digit_byte_def)

text \<open>A state that stays where it is for a digit takes all digits.\<close>

lemma scan_number_digits:
  assumes "\<And>c. digit_byte c \<Longrightarrow> num_switch st (Some c) = Goto st" "num_label st (num_label st ty) = num_label st ty" "digits ds" "ds \<noteq> []"
  shows "scan_number_from st ty buf (ds @ X) = scan_number_from st (num_label st ty) (buf @ ds) X"
  using assms(3,4,2)
proof (induction ds arbitrary: buf ty)
  case (Cons d ds)
  have "digit_byte d" using Cons.prems(1) by (simp add: digit_byte_def)
  then show ?case
    using Cons assms(1) by (cases "ds = []") simp_all
qed simp

lemma scan_number_stop:
  assumes "num_end X" "st \<in> {Num_zero, Num_any1, Num_decimal2, Num_any2}"
  shows "scan_number_from st ty buf X = (Some (num_label st ty, buf), X)"
  using assms by (cases X) (auto split: num_step.splits)

lemma scan_any1:
  assumes "digits ds" "num_end X"
  shows "scan_number_from Num_any1 ty buf (ds @ X) = (Some (ty, buf @ ds), X)"
proof (cases "ds = []")
  case True
  then show ?thesis using assms(2) scan_number_stop [of X Num_any1 ty buf] by simp
next
  case False
  have "num_switch Num_any1 (Some c) = Goto Num_any1" if "digit_byte c" for c using that by simp
  then show ?thesis
    using scan_number_digits [of Num_any1 ty ds buf X] assms False scan_number_stop [of X Num_any1 ty "buf @ ds"] by simp
qed

lemma digits_of_ok: "0 < x \<Longrightarrow> digits (rev (digits_of x)) \<and> leading (rev (digits_of x)) \<and> decimal (rev (digits_of x)) = x"
proof (induction x rule: digits_of.induct)
  case (1 x)
  have eq: "rev (digits_of x) = rev (digits_of (x div 10)) @ [0x30 + x mod 10]"
    using 1(2) by (subst digits_of.simps) simp
  have d: "x mod 10 < 10" by simp
  show ?case
  proof (cases "x div 10 = 0")
    case True
    then have x: "x < 10" "x mod 10 = x" by (simp_all add: div_eq_0_iff)
    have "digits_of (x div 10) = []" using True by (simp add: digits_of.simps)
    then show ?thesis using x 1(2) unfolding eq by (simp add: leading_def decimal_Cons)
  next
    case False
    then show ?thesis using 1(1) 1(2) d unfolding eq by simp
  qed
qed

lemma scan_at_number: "c = 0x2D \<or> digit_byte c \<Longrightarrow> scan strtod (c # cs) = scan_number strtod c cs"
  by (auto simp: scan_at_def space_byte_def digit_byte_def)

lemma scan_dump_integer:
  assumes "- (2 ^ 63) \<le> x" "x < 2 ^ 64" "num_end X"
  shows "scan strtod (dump_integer x @ X) = (if x < 0 then Value_integer x else Value_unsigned (nat x), X)"
proof (cases "x = 0")
  case True
  then show ?thesis
    using scan_number_stop [OF assms(3), of Num_zero Is_unsigned "[0x30]"]
    by (simp add: dump_integer_def scan_at_number digit_byte_def scan_number_def convert_number_def decimal_Cons del: scan.simps)
next
  case False
  define ds where "ds = rev (digits_of (nat \<bar>x\<bar>))"
  have ds: "digits ds" "leading ds" "decimal ds = nat \<bar>x\<bar>" using digits_of_ok [of "nat \<bar>x\<bar>"] False by (simp_all add: ds_def)
  obtain c cs where c: "ds = c # cs" using ds(2) by (cases ds) (simp_all add: leading_def)
  have d: "digit_byte c" "c \<noteq> 0x30" "c \<noteq> 0x2D" "digits cs" using ds(1,2) by (auto simp: c leading_def digit_byte_def)
  show ?thesis
  proof (cases "x < 0")
    case True
    have "rev (digits_of (nat \<bar>x\<bar>)) = c # cs" using c ds_def by simp
    then have out: "dump_integer x @ X = 0x2D # c # cs @ X" using True by (simp add: dump_integer_def)
    have "scan_number_from Num_minus Is_unsigned [0x2D] (c # cs @ X) = (Some (Is_integer, 0x2D # ds), X)"
      using d scan_any1 [OF d(4) assms(3), of Is_integer "[0x2D, c]"] by (simp add: c)
    moreover have "nat \<bar>x\<bar> \<le> 2 ^ 63" using assms(1) True by (simp add: nat_le_iff)
    ultimately show ?thesis
      using True unfolding out by (simp add: scan_at_number scan_number_def convert_number_def ds(3) del: scan.simps)
  next
    case pos: False
    have "rev (digits_of (nat \<bar>x\<bar>)) = c # cs" using c ds_def by simp
    then have out: "dump_integer x @ X = c # cs @ X" using False pos by (simp add: dump_integer_def)
    have "nat x < 2 ^ 64" using assms(2) pos by (simp add: nat_less_iff)
    then show ?thesis
      using pos d scan_any1 [OF d(4) assms(3), of Is_unsigned "[c]"] ds(3) unfolding out
      by (simp add: scan_at_number scan_number_def convert_number_def c del: scan.simps)
  qed
qed


section \<open>Floating point numbers\<close>

lemma scan_digit_loop:
  assumes "st = Num_any1 \<or> st = Num_decimal2 \<or> st = Num_any2" "digits ds"
  shows "scan_number_from st ty buf (ds @ X) = scan_number_from st ty (buf @ ds) X"
proof (cases "ds = []")
  case False
  have "num_switch st (Some c) = Goto st" if "digit_byte c" for c using assms(1) that by auto
  moreover have "num_label st ty = ty" for ty using assms(1) by auto
  ultimately show ?thesis using scan_number_digits [of st ty ds buf X] assms(2) False by simp
qed simp

lemma scan_exponent:
  assumes "st = Num_zero \<or> st = Num_any1 \<or> st = Num_decimal2" "sg = 0x2B \<or> sg = 0x2D" "es \<noteq> []" "digits es" "num_end X"
  shows "scan_number_from st ty buf (0x65 # sg # es @ X) = (Some (Is_float, buf @ 0x65 # sg # es), X)"
proof -
  obtain e es' where es: "es = e # es'" using assms(3) by (cases es) auto
  have e: "digit_byte e" "digits es'" using assms(4) by (simp_all add: es digit_byte_def)
  have "scan_number_from st ty buf (0x65 # sg # es @ X) = scan_number_from Num_any2 Is_float (buf @ [0x65, sg, e]) (es' @ X)"
    using assms(1,2) e(1) by (auto simp: es digit_byte_def)
  then show ?thesis
    using scan_digit_loop [of Num_any2 es'] e(2) scan_number_stop [OF assms(5), of Num_any2] by (simp add: es)
qed

lemma scan_fraction:
  assumes "st = Num_zero \<or> st = Num_any1" "fp = [] \<or> (\<exists>fs. fp = 0x2E # fs \<and> fs \<noteq> [] \<and> digits fs)"
    and "ex = [] \<or> (\<exists>sg es. ex = 0x65 # sg # es \<and> (sg = 0x2B \<or> sg = 0x2D) \<and> es \<noteq> [] \<and> digits es)"
    and "fp \<noteq> [] \<or> ex \<noteq> []" "num_end X"
  shows "scan_number_from st ty buf (fp @ ex @ X) = (Some (Is_float, buf @ fp @ ex), X)"
proof -
  have ex: "scan_number_from st' ty' buf' (ex @ X) = (Some (Is_float, buf' @ ex), X)"
    if "ex \<noteq> []" "st' = Num_zero \<or> st' = Num_any1 \<or> st' = Num_decimal2" for st' ty' buf'
    using that(1) assms(3) scan_exponent [OF that(2) _ _ _ assms(5)] by auto
  show ?thesis
  proof (cases "fp = []")
    case True
    then show ?thesis using assms(1,4) ex by auto
  next
    case False
    then obtain f fs where fp: "fp = 0x2E # f # fs" "digit_byte f" "digits fs"
      using assms(2) by (metis digits_simps(3) digit_byte_def neq_Nil_conv)
    have "scan_number_from st ty buf (fp @ ex @ X) = scan_number_from Num_decimal2 Is_float (buf @ [0x2E, f]) (fs @ ex @ X)"
      using assms(1) fp(2) by (auto simp: fp(1) digit_byte_def)
    also have "\<dots> = scan_number_from Num_decimal2 Is_float (buf @ fp) (ex @ X)"
      using scan_digit_loop [of Num_decimal2 fs] fp(3) by (simp add: fp(1))
    also have "\<dots> = (Some (Is_float, buf @ fp @ ex), X)"
      using ex [of Num_decimal2] scan_number_stop [OF assms(5), of Num_decimal2] by (cases "ex = []") simp_all
    finally show ?thesis .
  qed
qed

lemma scan_float_text:
  assumes "float_shape u" "num_end X" "s = [] \<or> s = [0x2D]"
  shows "scan strtod (s @ u @ X) = (Value_float (strtod (s @ u)), X)"
proof -
  obtain ip fp ex where u: "u = ip @ fp @ ex" "digits ip" "ip = [0x30] \<or> leading ip" "fp \<noteq> [] \<or> ex \<noteq> []"
    "fp = [] \<or> (\<exists>fs. fp = 0x2E # fs \<and> fs \<noteq> [] \<and> digits fs)"
    "ex = [] \<or> (\<exists>sg es. ex = 0x65 # sg # es \<and> (sg = 0x2B \<or> sg = 0x2D) \<and> es \<noteq> [] \<and> digits es)"
    using assms(1) unfolding float_shape_def by blast
  obtain i js where i: "ip = i # js" using u(3) by (cases ip) (auto simp: leading_def)
  have d: "digit_byte i" "digits js" "i = 0x30 \<Longrightarrow> js = []" using u(2,3) by (auto simp: i digit_byte_def leading_def)
  define st where "st = (if i = 0x30 then Num_zero else Num_any1)"
  have "scan_number_from st ty buf (js @ fp @ ex @ X) = (Some (Is_float, buf @ js @ fp @ ex), X)" for ty buf
    using scan_fraction [of st fp ex X ty "buf @ js"] scan_digit_loop [of Num_any1 "js" ty buf "fp @ ex @ X"] u(4-6) d assms(2)
    by (auto simp: st_def)
  then show ?thesis
    using assms(3) d
    by (auto simp: u(1) i scan_at_number scan_number_def convert_number_def st_def digit_byte_def simp del: scan.simps)
qed

lemma scan_dump_float:
  assumes "isfinite x" "num_end X"
  shows "\<exists>out. dump_float x = Some out \<and> to_chars x = Some out \<and> out \<noteq> [] \<and> scan strtod (out @ X) = (Value_float (strtod out), X)"
proof -
  obtain u where u: "to_chars x = Some ((if bit x 63 then [0x2D] else []) @ u)" "float_shape u" using to_chars_shape [OF assms(1)] by blast
  moreover have "u \<noteq> []" using u(2) by (auto simp: float_shape_def)
  ultimately show ?thesis
    using scan_float_text [OF u(2) assms(2), of "if bit x 63 then [0x2D] else []"] assms(1) by (simp add: dump_float_def)
qed

end
