(* ===== verification/Json_Roundtrip.thy ===== *)
theory Json_Roundtrip
  imports Json_Numbers
begin

text \<open>
  Documents written and read. For a value with strings in UTF-8 \<open>dump\<close> gives a text, in every layout, and
  \<open>parse\<close> gives the value again, up to the kind of its whole numbers. What \<open>parse\<close> gives is such a value.
\<close>

section \<open>What can be written and read\<close>

text \<open>A number that is not negative is read as unsigned.\<close>

fun canon :: "json \<Rightarrow> json" where
  "canon (Number_integer i) = (if i < 0 then Number_integer i else Number_unsigned (nat i))"
| "canon (Array vs) = Array (map canon vs)"
| "canon (Object ms) = Object (map (\<lambda>(k, v). (k, canon v)) ms)"
| "canon v = v"

text \<open>
  The values of the C++ type whose strings are UTF-8; a member of \<open>std::map\<close> has its place. Of a floating
  point number \<open>back\<close> is required.
\<close>

fun json_ok :: "(double \<Rightarrow> bool) \<Rightarrow> json \<Rightarrow> bool" where
  "json_ok back (Number_unsigned n) \<longleftrightarrow> n < 2 ^ 64"
| "json_ok back (Number_integer i) \<longleftrightarrow> - (2 ^ 63) \<le> i \<and> i < 2 ^ 63"
| "json_ok back (Number_float x) \<longleftrightarrow> isfinite x \<and> back x"
| "json_ok back (String s) \<longleftrightarrow> utf8 (map of_char s)"
| "json_ok back (Array vs) \<longleftrightarrow> list_all (json_ok back) vs"
| "json_ok back (Object ms) \<longleftrightarrow> sorted_wrt key_less (map fst ms) \<and> list_all (\<lambda>(k, v). utf8 (map of_char k) \<and> json_ok back v) ms"
| "json_ok back _ \<longleftrightarrow> True"

text \<open>\<open>strtod\<close> reads back what \<open>to_chars\<close> writes.\<close>

definition strtod_back :: "strtod_fun \<Rightarrow> double \<Rightarrow> bool" where
  "strtod_back strtod x \<longleftrightarrow> strtod (the (to_chars x)) = x"

lemma text_of_map [simp]: "text_of (map of_char s) = s"
  by (simp add: text_of_def o_def)

text \<open>Values in a document are followed by one of a few characters.\<close>

definition spaced :: "nat list \<Rightarrow> bool" where
  "spaced ws \<longleftrightarrow> list_all space_byte ws"

lemma spaced_simps [simp]: "spaced []" "spaced (w # ws) \<longleftrightarrow> space_byte w \<and> spaced ws" "spaced (xs @ ys) \<longleftrightarrow> spaced xs \<and> spaced ys"
  by (simp_all add: spaced_def)

lemma spaced_spaces [simp]: "spaced (spaces n)"
  by (induction n) (simp_all add: spaces_def space_byte_def)

lemma scan_spaced: "spaced ws \<Longrightarrow> scan strtod (ws @ cs) = scan strtod cs"
  by (induction ws) simp_all

lemma num_end_spaced: "spaced ws \<Longrightarrow> num_end X \<Longrightarrow> num_end (ws @ X)"
  by (cases ws) (auto simp: space_byte_def digit_byte_def)

lemma object_emplace_last: "\<forall>k'\<in>set (map fst ms). key_less k' key \<Longrightarrow> object_emplace key v ms = ms @ [(key, v)]"
proof (induction ms)
  case (Cons m ms)
  then show ?case using key_less_trans [of key "fst m" key] by (cases m) auto
qed simp

text \<open>A string with its quotes.\<close>

lemma scan_string_token:
  assumes "utf8 (map of_char s)"
  shows "\<exists>out. dump_escaped ascii s = Some out \<and> (\<forall>X. scan strtod (0x22 # out @ 0x22 # X) = (Value_string (map of_char s), X))"
proof -
  obtain out where "dump_bytes ascii 0 0 (map of_char s) = Some out"
    "\<And>buf X. scan_string buf (out @ X) = scan_string (buf @ map of_char s) X"
    using dump_scan_string [OF assms] by blast
  then show ?thesis by (simp add: dump_escaped_def scan_at_def space_byte_def)
qed

text \<open>
  What is to be proved of a value: its text \<open>out\<close> is read back from a document, with fuel for its length.
\<close>

definition read_text :: "strtod_fun \<Rightarrow> nat list \<Rightarrow> json \<Rightarrow> bool" where
  "read_text strtod out v \<longleftrightarrow> out \<noteq> [] \<and>
     (\<forall>X t r. num_end X \<longrightarrow> scan strtod (out @ X) = (t, r) \<longrightarrow>
        \<not> is_end_array t \<and> \<not> is_end_object t \<and> (\<forall>n. length out < n \<longrightarrow> parse_internal strtod n t r = Inr (v, X)))"

lemma read_textD:
  assumes "read_text strtod out v" "num_end X" "scan strtod (out @ X) = (t, r)"
  shows "\<not> is_end_array t" "\<not> is_end_object t" "length out < n \<Longrightarrow> parse_internal strtod n t r = Inr (v, X)"
  using assms unfolding read_text_def by blast+

lemma joined_Cons: "xs \<noteq> [] \<Longrightarrow> joined sep (Some a # xs) = map_option (\<lambda>b. a @ sep @ b) (joined sep xs)"
  by (cases xs) (auto split: option.splits)

text \<open>Texts of elements with separators between them, and the closing bracket.\<close>

fun separated :: "nat list \<Rightarrow> nat list list \<Rightarrow> nat list" where
  "separated sep [] = []"
| "separated sep [x] = x"
| "separated sep (x # xs) = x @ sep @ separated sep xs"

lemma joined_separated: "xs \<noteq> [] \<Longrightarrow> joined sep (map Some xs) = Some (separated sep xs)"
  by (induction sep xs rule: separated.induct) simp_all

lemma scan_comma: "scan strtod (0x2C # Y) = (Value_separator, Y)"
  by (simp add: scan_at_def space_byte_def)

lemma parse_elements_text:
  assumes "list_all2 (read_text strtod) outs vs" "outs \<noteq> []" "spaced sp" "spaced ws" "spaced we"
    and "length (separated (0x2C # ws) (map ((@) sp) outs)) < n" "length outs \<le> k"
    and "scan strtod (separated (0x2C # ws) (map ((@) sp) outs) @ we @ 0x5D # X) = (t, r)"
  shows "\<not> is_end_array t \<and> parse_elements strtod (parse_internal strtod n) k acc t r = Inr (Array (acc @ vs), X)"
  using assms(1,2,6-)
proof (induction outs vs arbitrary: k acc t r rule: list_all2_induct)
  case (Cons out outs v vs)
  obtain k' where k': "k = Suc k'" "length outs \<le> k'" using Cons.prems(3) by (cases k) auto
  define Y where "Y = (if outs = [] then we @ 0x5D # X else 0x2C # ws @ separated (0x2C # ws) (map ((@) sp) outs) @ we @ 0x5D # X)"
  have "separated (0x2C # ws) (map ((@) sp) (out # outs)) @ we @ 0x5D # X = sp @ out @ Y"
    by (cases outs) (simp_all add: Y_def)
  then have t: "scan strtod (out @ Y) = (t, r)" using Cons.prems(4) assms(3) by (simp add: scan_spaced)
  have Y: "num_end Y" unfolding Y_def using assms(5) num_end_spaced [of we "0x5D # X"] by (simp add: digit_byte_def)
  have "length out < n" using Cons.prems(2) by (cases outs) simp_all
  then have p: "\<not> is_end_array t" "parse_internal strtod n t r = Inr (v, Y)"
    using read_textD [OF Cons.hyps(1) Y t] by blast+
  show ?case
  proof (cases "outs = []")
    case True
    then have "vs = []" using Cons.hyps(2) by simp
    have "scan strtod Y = (End_array, X)" using True assms(5) by (simp add: Y_def scan_spaced scan_at_def space_byte_def)
    then show ?thesis using p \<open>vs = []\<close> by (simp add: k'(1))
  next
    case False
    obtain t' r' where t': "scan strtod (separated (0x2C # ws) (map ((@) sp) outs) @ we @ 0x5D # X) = (t', r')" by force
    have "length (separated (0x2C # ws) (map ((@) sp) outs)) < n" using Cons.prems(2) False by (cases outs) simp_all
    from Cons.IH [OF False this k'(2) t']
    have "parse_elements strtod (parse_internal strtod n) k' (acc @ [v]) t' r' = Inr (Array ((acc @ [v]) @ vs), X)" by blast
    moreover have "scan strtod Y = (Value_separator, ws @ separated (0x2C # ws) (map ((@) sp) outs) @ we @ 0x5D # X)"
      using False unfolding Y_def by (simp only: if_False scan_comma)
    ultimately show ?thesis
      using p t' assms(4) by (simp add: k'(1) scan_spaced)
  qed
qed simp


text \<open>The same with members; \<open>w\<close> is what stands behind the colon.\<close>

definition key_text :: "strtod_fun \<Rightarrow> nat list \<Rightarrow> string \<Rightarrow> bool" where
  "key_text strtod out k \<longleftrightarrow> (\<forall>X. scan strtod (0x22 # out @ 0x22 # X) = (Value_string (map of_char k), X))"

definition member_text :: "nat list \<Rightarrow> nat list \<times> nat list \<Rightarrow> nat list" where
  "member_text w m = 0x22 # fst m @ [0x22, 0x3A] @ w @ snd m"

definition read_member :: "strtod_fun \<Rightarrow> nat list \<times> nat list \<Rightarrow> string \<times> json \<Rightarrow> bool" where
  "read_member strtod m kv \<longleftrightarrow> key_text strtod (fst m) (fst kv) \<and> read_text strtod (snd m) (snd kv)"

lemma parse_members_text:
  assumes "list_all2 (read_member strtod) outs ms" "outs \<noteq> []" "spaced w" "spaced sp" "spaced ws" "spaced we"
    and "length (separated (0x2C # ws) (map (\<lambda>m. sp @ member_text w m) outs)) < n" "length outs \<le> k"
    and "scan strtod (separated (0x2C # ws) (map (\<lambda>m. sp @ member_text w m) outs) @ we @ 0x7D # X) = (t, r)"
    and "sorted_wrt key_less (map fst (acc @ ms))"
  shows "\<not> is_end_object t \<and> parse_object_members strtod (parse_internal strtod n) k acc t r = Inr (Object (acc @ ms), X)"
  using assms(1,2,7-)
proof (induction outs ms arbitrary: k acc t r rule: list_all2_induct)
  case (Cons m outs kv ms)
  obtain key v where kv: "kv = (key, v)" by (cases kv)
  obtain ko out where m: "m = (ko, out)" by (cases m)
  have hyp: "key_text strtod ko key" "read_text strtod out v" using Cons.hyps(1) by (simp_all add: read_member_def m kv)
  obtain k' where k': "k = Suc k'" "length outs \<le> k'" using Cons.prems(3) by (cases k) auto
  define R where "R = separated (0x2C # ws) (map (\<lambda>m. sp @ member_text w m) outs)"
  define Y where "Y = (if outs = [] then we @ 0x7D # X else 0x2C # ws @ R @ we @ 0x7D # X)"
  have "separated (0x2C # ws) (map (\<lambda>m. sp @ member_text w m) (m # outs)) @ we @ 0x7D # X = sp @ 0x22 # ko @ 0x22 # 0x3A # w @ out @ Y"
    by (cases outs) (simp_all add: Y_def R_def member_text_def m)
  then have t: "t = Value_string (map of_char key)" "r = 0x3A # w @ out @ Y"
    using Cons.prems(4) assms(4) hyp(1) by (simp_all add: scan_spaced key_text_def)
  have colon: "scan strtod r = (Name_separator, w @ out @ Y)" unfolding t(2) by (simp add: scan_at_def space_byte_def)
  obtain t1 r1 where t1: "scan strtod (out @ Y) = (t1, r1)" by force
  have Y: "num_end Y" unfolding Y_def using assms(6) num_end_spaced [of we "0x7D # X"] by (simp add: digit_byte_def)
  have "length out < n" using Cons.prems(2) by (cases outs) (simp_all add: member_text_def m)
  then have p: "parse_internal strtod n t1 r1 = Inr (v, Y)" using read_textD [OF hyp(2) Y t1] by blast
  have e: "object_emplace key v acc = acc @ [(key, v)]"
    using Cons.prems(5) by (intro object_emplace_last) (auto simp: sorted_wrt_append kv)
  show ?case
  proof (cases "outs = []")
    case True
    then have "ms = []" using Cons.hyps(2) by simp
    have "scan strtod Y = (End_object, X)" using True assms(6) by (simp add: Y_def scan_spaced scan_at_def space_byte_def)
    then show ?thesis using colon t1 p e assms(3) \<open>ms = []\<close> by (simp add: k'(1) t(1) scan_spaced kv)
  next
    case False
    obtain t' r' where t': "scan strtod (R @ we @ 0x7D # X) = (t', r')" by force
    have "length R < n" using Cons.prems(2) False unfolding R_def by (cases outs) simp_all
    from Cons.IH [OF False this [unfolded R_def] k'(2) t' [unfolded R_def], of "acc @ [(key, v)]"]
    have "parse_object_members strtod (parse_internal strtod n) k' (acc @ [(key, v)]) t' r' = Inr (Object ((acc @ [(key, v)]) @ ms), X)"
      using Cons.prems(5) by (simp add: kv)
    moreover have "scan strtod Y = (Value_separator, ws @ R @ we @ 0x7D # X)"
      using False unfolding Y_def by (simp only: if_False scan_comma)
    ultimately show ?thesis
      using colon t1 p e t' assms(3,5) by (simp add: k'(1) t(1) scan_spaced kv)
  qed
qed simp


section \<open>Documents\<close>

lemma read_atom:
  assumes "out \<noteq> []" "\<And>X. num_end X \<Longrightarrow> scan strtod (out @ X) = (tok, X)" "\<not> is_end_array tok" "\<not> is_end_object tok"
    and "\<And>n X. parse_internal strtod (Suc n) tok X = Inr (v, X)"
  shows "read_text strtod out v"
  unfolding read_text_def
proof (intro conjI allI impI)
  fix X t r n
  assume "num_end X" "scan strtod (out @ X) = (t, r)" "length out < n"
  moreover obtain n' where "n = Suc n'" using \<open>length out < n\<close> by (cases n) auto
  ultimately show "parse_internal strtod n t r = Inr (v, X)" using assms(2,5) by simp
qed (use assms in auto)

lemma separated_length: "outs \<noteq> [] \<Longrightarrow> \<forall>out\<in>set outs. f out \<noteq> [] \<Longrightarrow> length outs \<le> length (separated (c # ws) (map f outs))"
proof (induction outs rule: list_nonempty_induct)
  case (cons out outs)
  then show ?case by (cases outs) simp_all
qed (simp add: Suc_le_eq)

lemma read_array:
  assumes "list_all2 (read_text strtod) outs vs" "outs \<noteq> []" "spaced w" "spaced sp" "spaced ws" "spaced we"
  shows "read_text strtod (0x5B # w @ separated (0x2C # ws) (map ((@) sp) outs) @ we @ [0x5D]) (Array vs)"
  unfolding read_text_def
proof (intro conjI allI impI)
  fix X t r n
  define body where "body = separated (0x2C # ws) (map ((@) sp) outs)"
  assume *: "scan strtod ((0x5B # w @ body @ we @ [0x5D]) @ X) = (t, r)"
    and n: "length (0x5B # w @ body @ we @ [0x5D]) < n"
  have t: "t = Begin_array" "r = w @ body @ we @ 0x5D # X" using * by (simp_all add: scan_at_def space_byte_def)
  obtain n' where n': "n = Suc n'" "length body < n'" using n by (cases n) auto
  obtain t1 r1 where t1: "scan strtod (body @ we @ 0x5D # X) = (t1, r1)" by force
  have "\<forall>out\<in>set outs. out \<noteq> []" using assms(1) by (auto simp: list_all2_conv_all_nth in_set_conv_nth read_text_def)
  then have "length outs \<le> n'" using separated_length [OF assms(2), of "(@) sp" "0x2C" ws] n'(2) by (simp add: body_def)
  then have "\<not> is_end_array t1 \<and> parse_elements strtod (parse_internal strtod n') n' [] t1 r1 = Inr (Array ([] @ vs), X)"
    using parse_elements_text [OF assms(1,2,4-6), of n' n' X t1 r1 "[]"] t1 n'(2) unfolding body_def by blast
  then show "parse_internal strtod n t r = Inr (Array vs, X)"
    using t1 assms(3) by (simp add: t n'(1) scan_spaced)
qed (auto simp: scan_at_def space_byte_def)

lemma read_object:
  assumes "list_all2 (read_member strtod) outs ms" "outs \<noteq> []" "spaced w0" "spaced w" "spaced sp" "spaced ws" "spaced we"
    and "sorted_wrt key_less (map fst ms)"
  shows "read_text strtod (0x7B # w0 @ separated (0x2C # ws) (map (\<lambda>m. sp @ member_text w m) outs) @ we @ [0x7D]) (Object ms)"
  unfolding read_text_def
proof (intro conjI allI impI)
  fix X t r n
  define body where "body = separated (0x2C # ws) (map (\<lambda>m. sp @ member_text w m) outs)"
  assume *: "scan strtod ((0x7B # w0 @ body @ we @ [0x7D]) @ X) = (t, r)"
    and n: "length (0x7B # w0 @ body @ we @ [0x7D]) < n"
  have t: "t = Begin_object" "r = w0 @ body @ we @ 0x7D # X" using * by (simp_all add: scan_at_def space_byte_def)
  obtain n' where n': "n = Suc n'" "length body < n'" using n by (cases n) auto
  obtain t1 r1 where t1: "scan strtod (body @ we @ 0x7D # X) = (t1, r1)" by force
  have "length outs \<le> n'"
    using separated_length [OF assms(2), of "\<lambda>m. sp @ member_text w m" "0x2C" ws] n'(2) by (simp add: body_def member_text_def)
  then have "\<not> is_end_object t1 \<and> parse_object_members strtod (parse_internal strtod n') n' [] t1 r1 = Inr (Object ([] @ ms), X)"
    using parse_members_text [OF assms(1,2,4-7), of n' n' X t1 r1 "[]"] t1 n'(2) assms(8) unfolding body_def by simp
  then show "parse_internal strtod n t r = Inr (Object ms, X)"
    using t1 assms(3) by (simp add: t n'(1) scan_spaced)
qed (auto simp: scan_at_def space_byte_def)


lemma collect_texts:
  "\<forall>v\<in>set vs. \<exists>out. g v = Some out \<and> P out (h v) \<Longrightarrow> \<exists>outs. map g vs = map Some outs \<and> list_all2 P outs (map h vs)"
proof (induction vs)
  case (Cons v vs)
  then obtain out outs where "g v = Some out" "P out (h v)" "map g vs = map Some outs" "list_all2 P outs (map h vs)" by auto
  then show ?case by (intro exI [of _ "out # outs"]) simp
qed simp

lemma map_prepend: "map g vs = map Some outs \<Longrightarrow> map (\<lambda>v. map_option (\<lambda>out. sp @ out) (g v)) vs = map Some (map ((@) sp) outs)"
  by (induction vs arbitrary: outs) (auto simp: Cons_eq_map_conv)

lemma dump_array_text:
  assumes "\<forall>cur. \<forall>v\<in>set vs. \<exists>out. dump pretty ascii step cur v = Some out \<and> read_text strtod out (canon v)"
  shows "\<exists>out. dump pretty ascii step cur (Array vs) = Some out \<and> read_text strtod out (canon (Array vs))"
proof (cases "vs = []")
  case True
  have "read_text strtod [0x5B, 0x5D] (Array [])"
    unfolding read_text_def
  proof (intro conjI allI impI)
    fix X t r n
    assume "scan strtod ([0x5B, 0x5D] @ X) = (t, r)" "length [0x5B, 0x5D] < (n :: nat)"
    then show "parse_internal strtod n t r = Inr (Array [], X)"
      by (cases n) (auto simp: scan_at_def space_byte_def)
  qed (auto simp: scan_at_def space_byte_def)
  then show ?thesis using True by simp
next
  case False
  define c where "c = (if pretty then cur + step else cur)"
  obtain outs where outs: "map (dump pretty ascii step c) vs = map Some outs" "list_all2 (read_text strtod) outs (map canon vs)"
    using collect_texts [of vs "dump pretty ascii step c" "read_text strtod" canon] assms by blast
  have ne: "outs \<noteq> []" using outs(1) False by auto
  have sep: "joined sep (map (\<lambda>v. map_option (\<lambda>out. sp @ out) (dump pretty ascii step c v)) vs) = Some (separated sep (map ((@) sp) outs))" for sep sp
    unfolding map_prepend [OF outs(1)] by (rule joined_separated) (use ne in simp)
  show ?thesis
  proof (cases pretty)
    case True
    have nl: "spaced [0x0A]" "spaced ([0x0A] @ spaces cur)" by (simp_all add: space_byte_def)
    show ?thesis
      using sep [of "[0x2C, 0x0A]" "spaces (cur + step)"] read_array [OF outs(2) ne nl(1) spaced_spaces nl(1) nl(2), of "cur + step"] True False
      by (simp add: c_def)
  next
    case compact: False
    show ?thesis
      using sep [of "[0x2C]" "[]"] read_array [OF outs(2) ne, of "[]" "[]" "[]" "[]"] compact False
      by (simp add: c_def option.map_ident)
  qed
qed


lemma dump_object_text:
  assumes "\<forall>cur. \<forall>(k, v)\<in>set ms. utf8 (map of_char k) \<and> (\<exists>out. dump pretty ascii step cur v = Some out \<and> read_text strtod out (canon v))"
    and "sorted_wrt key_less (map fst ms)"
  shows "\<exists>out. dump pretty ascii step cur (Object ms) = Some out \<and> read_text strtod out (canon (Object ms))"
proof (cases "ms = []")
  case True
  have "read_text strtod [0x7B, 0x7D] (Object [])"
    unfolding read_text_def
  proof (intro conjI allI impI)
    fix X t r n
    assume "scan strtod ([0x7B, 0x7D] @ X) = (t, r)" "length [0x7B, 0x7D] < (n :: nat)"
    then show "parse_internal strtod n t r = Inr (Object [], X)"
      by (cases n) (auto simp: scan_at_def space_byte_def)
  qed (auto simp: scan_at_def space_byte_def)
  then show ?thesis using True by simp
next
  case False
  define c where "c = (if pretty then cur + step else cur)"
  define g where "g = (\<lambda>(k, v). case (dump_escaped ascii k, dump pretty ascii step c v) of (Some ko, Some out) \<Rightarrow> Some (ko, out) | _ \<Rightarrow> None)"
  define h where "h = (\<lambda>(k :: string, v). (k, canon v))"
  have "\<forall>m\<in>set ms. \<exists>out. g m = Some out \<and> read_member strtod out (h m)"
  proof
    fix m
    assume "m \<in> set ms"
    moreover obtain k v where m: "m = (k, v)" by (cases m)
    ultimately obtain out where out: "utf8 (map of_char k)" "dump pretty ascii step c v = Some out" "read_text strtod out (canon v)"
      using assms(1) by blast
    obtain ko where "dump_escaped ascii k = Some ko" "key_text strtod ko k"
      using scan_string_token [OF out(1), of ascii strtod] unfolding key_text_def by blast
    then show "\<exists>out. g m = Some out \<and> read_member strtod out (h m)"
      using out by (simp add: m g_def h_def read_member_def)
  qed
  then obtain outs where outs: "map g ms = map Some outs" "list_all2 (read_member strtod) outs (map h ms)"
    using collect_texts by blast
  have ne: "outs \<noteq> []" using outs(1) False by auto
  have item: "joined (0x22 # 0x3A # w) [map_option (\<lambda>out. 0x22 # out) (dump_escaped ascii k), dump pretty ascii step c v] =
      map_option (member_text w) (g (k, v))" for w k v
    by (auto simp: g_def member_text_def split: option.split)
  have "map (\<lambda>(k, v). map_option (\<lambda>out. sp @ out) (joined (0x22 # 0x3A # w)
      [map_option (\<lambda>out. 0x22 # out) (dump_escaped ascii k), dump pretty ascii step c v])) ms =
      map (\<lambda>m. map_option (\<lambda>out. sp @ member_text w out) (g m)) ms" for w sp
    by (rule map_cong [OF refl]) (auto simp only: item option.map_comp o_def split: prod.split)
  moreover have "map (\<lambda>m. map_option (\<lambda>out. sp @ member_text w out) (g m)) ms = map Some (map (\<lambda>m. sp @ member_text w m) outs)" for w sp
    using outs(1) by (induction ms arbitrary: outs) (auto simp: Cons_eq_map_conv)
  ultimately have sep: "joined sep (map (\<lambda>(k, v). map_option (\<lambda>out. sp @ out) (joined (0x22 # 0x3A # w)
      [map_option (\<lambda>out. 0x22 # out) (dump_escaped ascii k), dump pretty ascii step c v])) ms) =
      Some (separated sep (map (\<lambda>m. sp @ member_text w m) outs))" for sep sp w
    using joined_separated [of "map (\<lambda>m. sp @ member_text w m) outs" sep] ne by simp
  have sorted: "sorted_wrt key_less (map fst (map h ms))" using assms(2) by (simp add: h_def o_def case_prod_beta)
  show ?thesis
  proof (cases pretty)
    case True
    have nl: "spaced [0x0A]" "spaced ([0x0A] @ spaces cur)" "spaced [0x20]" by (simp_all add: space_byte_def)
    show ?thesis
      using sep [of "[0x2C, 0x0A]" "spaces (cur + step)" "[0x20]"]
        read_object [OF outs(2) ne nl(1) nl(3) spaced_spaces nl(1) nl(2) sorted, of "cur + step"] True False
      by (simp add: c_def h_def)
  next
    case compact: False
    show ?thesis
      using sep [of "[0x2C]" "[]" "[]"] read_object [OF outs(2) ne _ _ _ _ _ sorted, of "[]" "[]" "[]" "[]" "[]"] compact False
      by (simp add: c_def h_def option.map_ident)
  qed
qed


theorem dump_reads:
  "json_ok (strtod_back strtod) v \<Longrightarrow> \<exists>out. dump pretty ascii step cur v = Some out \<and> read_text strtod out (canon v)"
proof (induction v arbitrary: cur)
  case Null
  then show ?case by (auto simp: scan_at_def space_byte_def intro!: read_atom [where tok = Literal_null])
next
  case (Boolean b)
  then show ?case
    by (auto simp: scan_at_def space_byte_def intro!: read_atom [where tok = "if b then Literal_true else Literal_false"])
next
  case (Number_unsigned n)
  have "dump_integer (int n) \<noteq> []" by (simp add: dump_integer_def digits_of.simps)
  moreover have "scan strtod (dump_integer (int n) @ X) = (Value_unsigned n, X)" if "num_end X" for X
    using scan_dump_integer [OF _ _ that, of "int n"] Number_unsigned by simp
  ultimately show ?case by (auto intro!: read_atom [where tok = "Value_unsigned n"])
next
  case (Number_integer i)
  have "dump_integer i \<noteq> []" by (auto simp: dump_integer_def digits_of.simps)
  moreover have "scan strtod (dump_integer i @ X) = (if i < 0 then Value_integer i else Value_unsigned (nat i), X)" if "num_end X" for X
    using scan_dump_integer [OF _ _ that, of i] Number_integer by simp
  ultimately show ?case
    by (auto intro!: read_atom [where tok = "if i < 0 then Value_integer i else Value_unsigned (nat i)"])
next
  case (Number_float x)
  then obtain out where out: "dump_float x = Some out" "to_chars x = Some out" "out \<noteq> []"
    using scan_dump_float [of x "[]"] by auto
  have "scan strtod (out @ X) = (Value_float x, X)" if "num_end X" for X
    using scan_dump_float [of x X strtod] that Number_float out(2) by (auto simp: strtod_back_def)
  then show ?case using out Number_float by (auto intro!: read_atom [where tok = "Value_float x"])
next
  case (String s)
  then obtain out where "dump_escaped ascii s = Some out"
    "\<And>X. scan strtod (0x22 # out @ 0x22 # X) = (Value_string (map of_char s), X)"
    using scan_string_token [of s ascii strtod] by auto
  then show ?case by (auto intro!: read_atom [where tok = "Value_string (map of_char s)"])
next
  case (Array vs)
  then show ?case by (intro dump_array_text) (auto simp: list_all_iff)
next
  case (Object ms)
  then show ?case by (intro dump_object_text) (fastforce simp: list_all_iff)+
qed

lemma read_text_parse:
  assumes "read_text strtod out v"
  shows "json_parse strtod strict out = Inr (v, [])"
proof -
  obtain t r where t: "scan strtod out = (t, r)" by force
  have p: "parse_internal strtod n t r = Inr (v, [])" if "length out < n" for n
    using read_textD(3) [OF assms, of "[]" t r n] t that by simp
  have "take 3 out \<noteq> [0xEF, 0xBB, 0xBF]"
  proof
    assume "take 3 out = [0xEF, 0xBB, 0xBF]"
    then obtain cs where "out = 0xEF # cs" by (cases out) auto
    then have "t = Parse_error" using t by (simp add: scan_at_def space_byte_def digit_byte_def)
    then show False using p [of "Suc (length out)"] by simp
  qed
  then have skip: "skip_bom out = out" by (simp add: skip_bom_def)
  have pf: "parse_internal strtod (json_fuel out) t r = Inr (v, [])" by (rule p) (simp add: json_fuel_def)
  show ?thesis unfolding json_parse_def Let_def skip t prod.case pf sum.case by simp
qed



section \<open>What is read can be written\<close>

lemma utf8_small: "utf8 s \<Longrightarrow> c \<in> set s \<Longrightarrow> c < 256"
proof (induction s rule: utf8.induct)
  case (utf8_multi c' rs ts bs)
  have "c' \<le> 0xF4" "\<forall>r\<in>set rs. snd r \<le> 0xBF" using if_chain [OF utf8_multi(1) [unfolded tail_ranges_def]] by auto
  moreover have "\<forall>r\<in>set rs. snd r \<le> 0xBF \<Longrightarrow> in_ranges rs ts \<Longrightarrow> \<forall>t\<in>set ts. t \<le> 0xBF"
    by (induction rs ts rule: in_ranges.induct) auto
  ultimately show ?case using utf8_multi by fastforce
qed auto

lemma of_text_of: "utf8 s \<Longrightarrow> map of_char (text_of s) = s"
  using utf8_small [of s] by (simp add: text_of_def map_idI)

definition token_ok :: "token \<Rightarrow> bool" where
  "token_ok t \<longleftrightarrow>
     (case t of Value_string s \<Rightarrow> utf8 s | Value_unsigned n \<Rightarrow> n < 2 ^ 64 | Value_integer i \<Rightarrow> - (2 ^ 63) \<le> i \<and> i < 2 ^ 63 | _ \<Rightarrow> True)"

lemma scan_literal_token: "scan_literal ls t cs = (t', r) \<Longrightarrow> t' = t \<or> t' = Parse_error"
  by (induction ls t cs rule: scan_literal.induct) (auto split: if_splits)

lemma scan_string_token_kind: "scan_string buf cs = (t, r) \<Longrightarrow> (\<exists>s. t = Value_string s) \<or> t = Parse_error"
  by (induction buf cs rule: scan_string.induct) (auto split: prod.splits option.splits if_splits)

lemma scan_string_token_ok: "scan_string [] cs = (t, r) \<Longrightarrow> token_ok t"
  using scan_string_token_kind [of "[]" cs t r] scan_string_utf8 [of "[]" cs _ r] utf8_Nil by (auto simp: token_ok_def)

lemma scan_token_ok: "scan strtod cs = (t, r) \<Longrightarrow> token_ok t"
proof (induction cs)
  case (Cons c cs)
  have "token_ok t" if "scan_number strtod c cs = (t, r)"
    using that by (auto simp: scan_number_def convert_number_def token_ok_def split: prod.splits option.splits num_type.splits if_splits)
  moreover have "token_ok t" if "scan_literal ls t' cs = (t, r)" "token_ok t'" for ls t'
    using scan_literal_token [OF that(1)] that(2) by (auto simp: token_ok_def)
  ultimately show ?case
    using Cons scan_string_token_ok [of cs t r] by (auto simp: scan_at_def token_ok_def split: if_splits)
qed (simp add: token_ok_def)


lemma emplace_keys: "set (map fst (object_emplace key v ms)) = insert key (set (map fst ms))"
  by (induction key v ms rule: object_emplace.induct) (use key_less_total in auto)

lemma object_emplace_sorted: "sorted_wrt key_less (map fst ms) \<Longrightarrow> sorted_wrt key_less (map fst (object_emplace key v ms))"
proof (induction key v ms rule: object_emplace.induct)
  case (2 key v k w ms)
  consider "key_less key k" | "\<not> key_less key k" "key_less k key" | "\<not> key_less key k" "\<not> key_less k key" by blast
  then show ?case
  proof cases
    case 1
    then show ?thesis using 2(2) key_less_trans [of key k] by auto
  next
    case above: 2
    have "\<forall>k'\<in>set (map fst (object_emplace key v ms)). key_less k k'"
      unfolding emplace_keys using 2(2) above(2) by simp
    then show ?thesis using 2(1) [OF above] 2(2) above by simp
  next
    case 3
    then show ?thesis using 2(2) by simp
  qed
qed simp

lemma emplace_all: "list_all P ms \<Longrightarrow> P (key, v) \<Longrightarrow> list_all P (object_emplace key v ms)"
  by (induction key v ms rule: object_emplace.induct) simp_all

abbreviation any_ok :: "json \<Rightarrow> bool" where
  "any_ok \<equiv> json_ok (\<lambda>_. True)"

lemma parse_members_ok:
  assumes "\<And>t cs v r. token_ok t \<Longrightarrow> pvalue t cs = Inr (v, r) \<Longrightarrow> any_ok v"
  shows "parse_object_members strtod pvalue n ms tok cs = Inr (v, r) \<Longrightarrow> any_ok (Object ms) \<Longrightarrow> token_ok tok \<Longrightarrow> any_ok v"
proof (induction n arbitrary: ms tok cs)
  case (Suc n)
  obtain colon r1 t r2 where s: "scan strtod cs = (colon, r1)" "scan strtod r1 = (t, r2)" by force
  from Suc.prems(1) s obtain w r3 where v: "pvalue t r2 = Inr (w, r3)" and str: "is_value_string tok"
    by (auto simp: Let_def split: if_splits sum.splits)
  obtain comma r4 t' r5 where s2: "scan strtod r3 = (comma, r4)" "scan strtod r4 = (t', r5)" by force
  have "any_ok w" using assms scan_token_ok [OF s(2)] v by blast
  moreover have "utf8 (map of_char (text_of (get_string tok)))"
    using str Suc.prems(3) of_text_of by (cases tok) (auto simp: token_ok_def)
  ultimately have ms': "any_ok (Object (object_emplace (text_of (get_string tok)) w ms))"
    using Suc.prems(2) object_emplace_sorted [of ms "text_of (get_string tok)" w]
      emplace_all [of "\<lambda>(k, v). utf8 (map of_char k) \<and> any_ok v" ms "text_of (get_string tok)" w] by simp
  show ?case
    using Suc.prems(1) Suc.IH [OF _ ms' scan_token_ok [OF s2(2)]] ms'
    by (auto simp: s v s2 Let_def simp del: json_ok.simps split: if_splits)
qed simp

lemma parse_elements_ok:
  assumes "\<And>t cs v r. token_ok t \<Longrightarrow> pvalue t cs = Inr (v, r) \<Longrightarrow> any_ok v"
  shows "parse_elements strtod pvalue n vs tok cs = Inr (v, r) \<Longrightarrow> any_ok (Array vs) \<Longrightarrow> token_ok tok \<Longrightarrow> any_ok v"
proof (induction n arbitrary: vs tok cs)
  case (Suc n)
  from Suc.prems(1) obtain w r3 where v: "pvalue tok cs = Inr (w, r3)" by (auto split: sum.splits)
  obtain comma r4 t' r5 where s2: "scan strtod r3 = (comma, r4)" "scan strtod r4 = (t', r5)" by force
  have vs': "any_ok (Array (vs @ [w]))" using assms Suc.prems(2,3) v by simp
  show ?case
    using Suc.prems(1) Suc.IH [OF _ vs' scan_token_ok [OF s2(2)]] vs'
    by (auto simp: v s2 Let_def simp del: json_ok.simps split: if_splits)
qed simp

lemma parse_internal_ok: "token_ok tok \<Longrightarrow> parse_internal strtod n tok cs = Inr (v, r) \<Longrightarrow> any_ok v"
proof (induction n arbitrary: tok cs v r)
  case (Suc n)
  obtain t r1 where s: "scan strtod cs = (t, r1)" by force
  have t: "token_ok t" by (rule scan_token_ok [OF s])
  show ?case
  proof (cases tok)
    case Begin_array
    then show ?thesis
      using Suc.prems(2) parse_elements_ok [OF Suc.IH, where vs = "[]"] t by (auto simp: s split: if_splits)
  next
    case Begin_object
    then show ?thesis
      using Suc.prems(2) parse_members_ok [OF Suc.IH, where ms = "[]"] t by (auto simp: s split: if_splits)
  qed (use Suc.prems of_text_of in \<open>auto simp: token_ok_def split: if_splits\<close>)
qed simp



end
