(* ===== verification/Spec2Isabelle.thy ===== *)
theory Spec2Isabelle
  imports Bits_Archive Channel Timer Dispatcher Packet Logger Buffer_Iterator Idl_Parser Task_Adaptor Object_Pool State_Machine String_Util Task_Scheduler Subs_Close Transport Server Json_Roundtrip
begin

text \<open>
  Verification of lax, a C++ library of message channels, network services, tasks and actors
  for game servers. This theory imports all the others and holds nothing but this overview.
  Paths are below \<open>src/\<close>; \<open>include/lax/X.hpp\<close> and \<open>src/X.cpp\<close> belong together.

  \<^bold>\<open>The program and its parts.\<close>
  Messages with a topic (\<open>channel/topic.hpp\<close>) go through channels (\<open>channel/channel.cpp\<close>) to the
  subscribers of the topic or of its group; actors (\<open>actor/\<close>) have a channel each and are run by
  the tasks of a scheduler (\<open>task/\<close>). The network layer (\<open>net/\<close>) is a service that owns sessions,
  acceptors and connectors; a session owns a socket with its send buffer, and its protocol turns
  messages into bytes and bytes into messages. A message that arrives is posted to the channel
  layer; a system message tells it when a session is ready or closed. The server (\<open>server/\<close>)
  starts a scheduler and the services its JSON configuration names.

  \<^bold>\<open>Theories and sources.\<close>
  \<^item> \<open>Lax_Prelude\<close>: machine types, faults, \<open>memcpy\<close>, little endian words, shared lemmas.
  \<^item> \<open>Id_Sequence\<close>: \<open>util/sequence.hpp\<close>; the locale \<open>id_pool\<close>, what its clients rely on.
    \<open>Concurrent_Queue\<close>: \<open>util/concurrent_queue.inl\<close>; the locale \<open>fifo\<close>.
    \<open>Object_Pool\<close>: \<open>util/object_pool.hpp\<close>, another \<open>id_pool\<close>.
  \<^item> \<open>Topic\<close>, \<open>Sub_Map\<close>, \<open>Channel\<close>, \<open>Dispatcher\<close>, \<open>Timer\<close>: \<open>channel/topic.hpp\<close>, \<open>message.hpp\<close>, \<open>sub.hpp\<close>,
    \<open>detail/sub_map.cpp\<close>, \<open>channel.cpp\<close>, \<open>channel_map.cpp\<close>, \<open>dispatcher.hpp\<close>, \<open>timer.cpp\<close>.
  \<^item> \<open>Buffer_Pool\<close>, \<open>Resize_Buffer\<close>, \<open>Buffer_Iterator\<close>, \<open>Segment_Buffer\<close>: \<open>net/detail/buffer/\<close>; the
    locales \<open>byte_sink\<close> and \<open>byte_buffer\<close>.
  \<^item> \<open>Botan_Words\<close>, \<open>Crc32\<close>, \<open>Botan_CBC\<close> (locale \<open>block_cipher\<close>), \<open>Botan_AES\<close>, \<open>Botan_SHA\<close>: what lax uses
    of the library bundled in \<open>util/botan/\<close>.
  \<^item> \<open>Modifier\<close> (locale \<open>modifier\<close>), \<open>Cipher\<close>: \<open>net/reason.hpp\<close>, \<open>net/protocol/util/\<close>.
    \<open>Bitsery\<close>: what the messages use of \<open>ext/bitsery/\<close>. \<open>Bits_Message\<close>, \<open>Bits_Protocol\<close>: \<open>net/protocol/bits/\<close>.
    \<open>Bits_Delivery\<close>: two protocols together. \<open>Bits_Archive\<close>: messages whose members are archived
    with bitsery.
  \<^item> \<open>Subs_Close\<close>, \<open>Session\<close>, \<open>Net_Service\<close>, \<open>Packet\<close>: \<open>net/detail/subs_close.cpp\<close>, \<open>net/session.cpp\<close>,
    \<open>net/service.cpp\<close>, \<open>net/detail/service_impl.cpp\<close>, \<open>acceptor.cpp\<close>, \<open>connector.cpp\<close>, \<open>net/packet.hpp\<close>.
    \<open>Transport\<close>: two protocols with a session and a network between them.
  \<^item> \<open>Task_Scheduler\<close>, \<open>Actor\<close>, \<open>Task_Adaptor\<close>: \<open>task/\<close>, \<open>actor/\<close>. \<open>Json_Value\<close>, \<open>Server\<close>: \<open>util/json.hpp\<close> as far
    as lax calls it, and \<open>server/\<close>. \<open>Idl_Parser\<close>: \<open>tools/bitsc/idl/\<close>.
  \<^item> The text of JSON, all of it in \<open>util/json.hpp\<close>: \<open>Json_Lexer\<close> (\<open>class lexer\<close>), \<open>Json_Parser\<close> (\<open>class parser\<close>:
    \<open>parse\<close> and \<open>accept\<close>), \<open>Json_Dump\<close> (\<open>class serializer\<close>) and \<open>Json_Float\<close> (\<open>to_chars\<close>, the algorithm Grisu2).
    \<open>Json_Float_Exact\<close> and \<open>Json_Float_Text\<close> show that Grisu2 is right, \<open>Json_Utf8\<close> and \<open>Json_Numbers\<close> that
    strings and numbers are read as they were written, \<open>Json_Roundtrip\<close> the same of documents.
  \<^item> \<open>State_Tree\<close>, \<open>State_Machine\<close>, \<open>String_Util\<close>, \<open>Logger\<close>: \<open>util/state.hpp\<close>, \<open>state_machine.hpp\<close>,
    \<open>string_util.cpp\<close>, \<open>logger.cpp\<close>.

  \<^bold>\<open>How code is modelled.\<close>
  A class is a record of its members, an operation a function that returns the changed record.
  Unsigned members keep their width where the code depends on it (keys, topics, session ids,
  sequence bytes, the length field); \<open>size_t\<close> is \<open>nat\<close>, and a subtraction that would wrap around is
  a fault or written out. An access out of bounds and an exception that leaves a function are
  values of \<open>fault\<close>, the left side of a sum; a loop that may not end is a partial function or a
  step relation with its termination proved apart. The release build is modelled, in which
  \<open>VERIFY\<close>, \<open>EXPECT\<close> and \<open>ENSURE\<close> do nothing. What a lock protects is one step. Where threads meet
  (\<open>Session\<close>, \<open>Task_Scheduler\<close>, \<open>Net_Service\<close>, \<open>Logger\<close>, the creation of channels) a state
  machine has one event for each locked section, and the theorems are about every sequence of
  events; a property of runs is proved from an invariant of the steps.

  \<^bold>\<open>What is shown.\<close>
  \<^item> Delivery: \<open>Bits_Delivery\<close> composes the modifiers through their locale and shows that what one
    protocol sends the other posts, however the bytes are cut; \<open>Transport\<close> puts the threads of a
    session in between. They rest on round trips of \<open>Cipher\<close>, \<open>Crc32\<close>, \<open>Botan_CBC\<close>, \<open>Botan_AES\<close>,
    \<open>Botan_SHA\<close>, \<open>Bits_Message\<close> and \<open>Bitsery\<close>, and on the byte list view of the buffers.
  \<^item> JSON: what \<open>dump\<close> writes \<open>parse\<close> reads as the same value; \<open>parse\<close> returns on every text, with a
    value whose parts are in range; the text of a floating point number lies between its neighbours.
  \<^item> Refinement: \<open>Sub_Map\<close> of an abstract registry, \<open>Channel\<close> of the registry with a queue,
    \<open>Subs_Close\<close> of the subscriptions in force, \<open>Resize_Buffer\<close> and \<open>Segment_Buffer\<close> of a byte
    list, \<open>Bits_Archive\<close> of the message with its members as a parameter.
  \<^item> Invariants and conservation: slots and ids of the service, tasks in exactly one place, bytes
    of a session, blocks and cells handed out once, active states of a machine.
  \<^item> Equivalence with a reference: the table driven CRC-32 and the bitwise one, SHA-160 in pieces
    and at once, the unrolled CBC loop and the block by block one.
  \<^item> Termination and its absence: the destructor of a channel, the output adapter, the timer, the
    transitions of a machine that ask for each other.
  \<^item> Errors: what the server leaves when it cannot start, where the parser of \<open>bitsc\<close> ends, what a
    reader does with bytes nobody wrote.

  \<^bold>\<open>Bounds.\<close>
  Messages of the delivery theorems pack to at most 234 bytes, so that sequence byte, checksum and
  padding leave the wire form below 256: the length field has one correct byte only. \<open>pack\<close>
  is exact up to 16384 bytes, the last size \<open>resize\<close> makes room for. Recursion is on the data or has
  a measure, and loops that may run forever are options. Only the parser of JSON takes fuel, the
  length of the text and two, since a level of nesting and a member or element take a character each;
  that it is enough for every text is part of \<open>parse_returns_and_accept_agrees\<close>. The indentation of
  \<open>dump\<close> is at most 512, as far as the blanks it has in store reach.

  \<^bold>\<open>Parameters.\<close>
  The members of a message class (\<open>env_ser\<close>, \<open>env_de\<close>; \<open>Bits_Archive\<close> gives them for archived
  types), callbacks and hooks (functions on a world of their own), sockets and the network (events
  and the pieces they bring), the clock, \<open>strtod\<close>, floats of ticks (\<open>tick_law\<close>), the choice of
  \<open>std::priority_queue\<close> among equal elements, the classes a program derives, the cache line.
  The static block pool is a field of the buffer that uses it, with the blocks of the others in
  the invariant.

  \<^bold>\<open>Not modelled.\<close>
  Bundled third-party code lax does not reach or only calls (asio, catch, nanodbc, spdlog, the rest
  of Botan and of bitsery, the binary formats, pointers and iterators of the JSON library); the
  Windows API behind the \<open>convert\<close> functions and \<open>platform\<close>; \<open>wall_timer\<close>, a copy of \<open>timer\<close> to be
  rewritten; the classes without code (\<open>db/\<close>, \<open>service_directory\<close>, \<open>actor_container\<close>, the generators of
  \<open>bitsc\<close>); callbacks that re-enter the table, timer or machine that is calling them; \<open>tran\<close> with
  \<open>immediate\<close> in a hook; execution times of tasks; log output.
\<close>

end
